(* ===== verification/Prelude.thy ===== *)
theory Prelude
  imports Main "HOL-Library.Word"
begin

text \<open>
  Shared vocabulary of the development: the machine integer types of the kernel, the
  panics of the Rust code as values, the state-and-panic actions in which every stateful
  operation is written, and the weakest-precondition calculus in which the properties of
  those actions are proved.

  All crates of the repository are built with \<open>--release\<close>, so integer arithmetic wraps
  around; a bounds check, an \<open>assert!\<close>, an \<open>unwrap\<close> of \<open>None\<close> and an explicit
  \<open>panic!\<close> stop the program and are the value \<open>Inl\<close> of an action.
\<close>

named_theorems wp_simps \<open>weakest preconditions of the basic actions and of the operations\<close>

section \<open>Machine integers\<close>

type_synonym u8 = "8 word"
type_synonym u64 = "64 word"
type_synonym usize = "64 word"
type_synonym byte = "8 word"

text \<open>
  The file system crate keeps its 32-bit fields as natural numbers; \<open>as u32\<close> and the
  wrap-around of its \<open>u32\<close> arithmetic are written out with \<open>u32\<close>.
\<close>

definition u32 :: "nat \<Rightarrow> nat" where
  "u32 n = n mod 2 ^ 32"

lemma u32_less [simp]: "u32 n < 2 ^ 32" "u32 n < 4294967296"
  by (simp_all add: u32_def)

lemma u32_id [simp]: "n < 2 ^ 32 \<Longrightarrow> u32 n = n" "n < 4294967296 \<Longrightarrow> u32 n = n"
  by (simp_all add: u32_def)

text \<open>Words read as natural numbers: masks, shifts and non-wrapping sums.\<close>

unbundle bit_operations_syntax

lemma low_mask [simp]: "push_bit n 1 - 1 = (mask n :: 'a::len word)"
  by (simp add: mask_eq_exp_minus_1)

lemma unat_and_mask: "unat (a AND mask n) = unat (a :: 'a::len word) mod 2 ^ n"
  by (simp add: unsigned_take_bit_eq flip: take_bit_eq_mask take_bit_eq_mod)

lemma unat_drop_bit: "unat (drop_bit n a) = unat (a :: 'a::len word) div 2 ^ n"
  by (rule trans [OF unat_drop_bit_eq drop_bit_eq_div])

lemma unat_push_bit: "unat (push_bit n a) = (unat (a :: 'a::len word) * 2 ^ n) mod 2 ^ LENGTH('a)"
proof -
  have "unat (push_bit n a) = take_bit LENGTH('a) (push_bit n (unat a))"
    by (rule unsigned_push_bit_eq)
  then show ?thesis by (simp only: push_bit_eq_mult take_bit_eq_mod)
qed

lemma unat_less_64: "unat (a :: 64 word) < 18446744073709551616"
  using unsigned_less [of a] by simp

lemma word_of_nat_unat_inverse: "n < 2 ^ LENGTH('a) \<Longrightarrow> unat (word_of_nat n :: 'a::len word) = n"
  by (simp add: unat_of_nat)

section \<open>Panics\<close>

text \<open>
  The ways in which a call does not come back: the panics of the Rust code, waiting for a spin lock
  that is never released (\<open>Deadlock\<close>), an endless loop (\<open>RunsForever\<close>), a jump to an
  address that is not the entry of the program's code (\<open>WildJump\<close>), and leaving the emulator
  (\<open>QemuExit\<close>, with its success).
\<close>

datatype panic =
    AssertFailed
  | IndexOutOfBounds
  | UnwrapNone
  | ExplicitPanic
  | RunOutOfBlockCache
  | Deadlock
  | DeviceError
  | AlreadyBorrowed
  | RunsForever
  | WildJump
  | QemuExit bool

section \<open>Actions: state passing with panics\<close>

type_synonym ('s, 'a) action = "'s \<Rightarrow> panic + 'a \<times> 's"

definition ret :: "'a \<Rightarrow> ('s, 'a) action" where
  "ret a s = Inr (a, s)"

definition fail :: "panic \<Rightarrow> ('s, 'a) action" where
  "fail e s = Inl e"

definition bnd :: "('s, 'a) action \<Rightarrow> ('a \<Rightarrow> ('s, 'b) action) \<Rightarrow> ('s, 'b) action" where
  "bnd m k s = (case m s of Inl e \<Rightarrow> Inl e | Inr (a, s') \<Rightarrow> k a s')"

definition thn :: "('s, 'a) action \<Rightarrow> ('s, 'b) action \<Rightarrow> ('s, 'b) action" where
  "thn m k = bnd m (\<lambda>_. k)"

definition gets :: "('s \<Rightarrow> 'a) \<Rightarrow> ('s, 'a) action" where
  "gets f s = Inr (f s, s)"

definition upd :: "('s \<Rightarrow> 's) \<Rightarrow> ('s, unit) action" where
  "upd f s = Inr ((), f s)"

definition assert_that :: "bool \<Rightarrow> ('s, unit) action" where
  "assert_that b = (if b then ret () else fail AssertFailed)"

definition unwrap :: "'a option \<Rightarrow> ('s, 'a) action" where
  "unwrap x = (case x of None \<Rightarrow> fail UnwrapNone | Some a \<Rightarrow> ret a)"

definition index :: "'a list \<Rightarrow> nat \<Rightarrow> ('s, 'a) action" where
  "index xs i = (if i < length xs then ret (xs ! i) else fail IndexOutOfBounds)"

primrec for_each :: "('a \<Rightarrow> ('s, unit) action) \<Rightarrow> 'a list \<Rightarrow> ('s, unit) action" where
  "for_each f [] = ret ()"
| "for_each f (x # xs) = thn (f x) (for_each f xs)"

lemmas action_defs = ret_def fail_def bnd_def thn_def gets_def upd_def assert_that_def
  unwrap_def index_def

text \<open>An action on a component of the state, run on the whole state.\<close>

definition on :: "('t \<Rightarrow> 's) \<Rightarrow> ('s \<Rightarrow> 't \<Rightarrow> 't) \<Rightarrow> ('s, 'a) action \<Rightarrow> ('t, 'a) action" where
  "on get put m t = (case m (get t) of Inl e \<Rightarrow> Inl e | Inr (a, s) \<Rightarrow> Inr (a, put s t))"

section \<open>Weakest preconditions\<close>

text \<open>
  \<open>wp m Q s\<close>: from the state \<open>s\<close> the action \<open>m\<close> returns (it does not panic), and its
  result and the state it leaves satisfy \<open>Q\<close>. It is total correctness: a panic makes it
  false.
\<close>

definition wp :: "('s, 'a) action \<Rightarrow> ('a \<Rightarrow> 's \<Rightarrow> bool) \<Rightarrow> 's \<Rightarrow> bool" where
  "wp m Q s \<longleftrightarrow> (case m s of Inl e \<Rightarrow> False | Inr (a, s') \<Rightarrow> Q a s')"

text \<open>The equations leave the state out, so that they also rewrite under a continuation.\<close>

lemma wp_ret [wp_simps]: "wp (ret a) Q = Q a"
  by (simp add: fun_eq_iff wp_def ret_def)

lemma wp_fail [wp_simps]: "wp (fail e) Q = (\<lambda>s. False)"
  by (simp add: fun_eq_iff wp_def fail_def)

lemma wp_bnd [wp_simps]: "wp (bnd m k) Q = wp m (\<lambda>a. wp (k a) Q)"
  by (simp add: fun_eq_iff wp_def bnd_def split: sum.splits)

lemma wp_thn [wp_simps]: "wp (thn m k) Q = wp m (\<lambda>_. wp k Q)"
  by (simp add: thn_def wp_bnd)

lemma wp_gets [wp_simps]: "wp (gets f) Q = (\<lambda>s. Q (f s) s)"
  by (simp add: fun_eq_iff wp_def gets_def)

lemma wp_upd [wp_simps]: "wp (upd f) Q = (\<lambda>s. Q () (f s))"
  by (simp add: fun_eq_iff wp_def upd_def)

lemma wp_assert [wp_simps]: "wp (assert_that b) Q = (\<lambda>s. b \<and> Q () s)"
  by (simp add: fun_eq_iff wp_def assert_that_def ret_def fail_def)

lemma wp_unwrap [wp_simps]: "wp (unwrap x) Q = (\<lambda>s. \<exists>a. x = Some a \<and> Q a s)"
  by (cases x) (simp_all add: fun_eq_iff wp_def unwrap_def ret_def fail_def)

lemma wp_index [wp_simps]: "wp (index xs i) Q = (\<lambda>s. i < length xs \<and> Q (xs ! i) s)"
  by (simp add: fun_eq_iff wp_def index_def ret_def fail_def)

lemma wp_if [wp_simps]: "wp (if b then m else n) Q = (if b then wp m Q else wp n Q)"
  by simp

lemma wp_on [wp_simps]: "wp (on get put m) Q = (\<lambda>t. wp m (\<lambda>a s. Q a (put s t)) (get t))"
  by (simp add: fun_eq_iff wp_def on_def split: sum.splits)

lemma wp_mono:
  assumes "wp m P s" and "\<And>a s'. m s = Inr (a, s') \<Longrightarrow> P a s' \<Longrightarrow> Q a s'"
  shows "wp m Q s"
  using assms by (auto simp: wp_def split: sum.splits)

lemma wp_conseq: "wp m P s \<Longrightarrow> (\<And>a s'. P a s' \<Longrightarrow> Q a s') \<Longrightarrow> wp m Q s"
  by (erule wp_mono)

lemma wp_conj: "wp m P s \<Longrightarrow> wp m Q s \<Longrightarrow> wp m (\<lambda>a s'. P a s' \<and> Q a s') s"
  by (auto simp: wp_def split: sum.splits)

lemma wp_iff: "wp m Q s \<longleftrightarrow> (\<exists>a s'. m s = Inr (a, s') \<and> Q a s')"
  by (auto simp: wp_def split: sum.splits)

lemma wpD: "wp m Q s \<Longrightarrow> m s = Inr (a, s') \<Longrightarrow> Q a s'"
  by (simp add: wp_def)

lemma wp_Inr: "m s = Inr (a, s') \<Longrightarrow> wp m Q s \<longleftrightarrow> Q a s'"
  by (simp add: wp_def)

lemma wp_for_each:
  assumes "\<And>x ys zs s. xs = ys @ x # zs \<Longrightarrow> I ys s \<Longrightarrow> wp (f x) (\<lambda>_. I (ys @ [x])) s"
    and "I [] s"
  shows "wp (for_each f xs) (\<lambda>_. I xs) s"
proof -
  have "wp (for_each f zs) (\<lambda>_. I (ys @ zs)) s" if "xs = ys @ zs" "I ys s" for ys zs s
    using that
  proof (induction zs arbitrary: ys s)
    case Nil
    then show ?case by (simp add: wp_ret)
  next
    case (Cons x zs)
    from assms(1) [OF Cons.prems] have "wp (f x) (\<lambda>_. I (ys @ [x])) s" .
    then show ?case
      using Cons.IH [of "ys @ [x]"] Cons.prems(1) by (auto simp: wp_thn elim: wp_conseq)
  qed
  from this [of "[]" xs s] assms(2) show ?thesis by simp
qed

text \<open>
  Running an action to its result, for concrete evaluations.
\<close>

lemma bnd_Inr: "m s = Inr (a, s') \<Longrightarrow> bnd m k s = k a s'"
  by (simp add: bnd_def)

lemma bnd_Inl: "m s = Inl e \<Longrightarrow> bnd m k s = Inl e"
  by (simp add: bnd_def)

lemma bnd_panics:
  assumes "\<And>a s'. m s = Inr (a, s') \<Longrightarrow> \<exists>e. k a s' = Inl e"
  shows "\<exists>e. bnd m k s = Inl e"
  using assms by (cases "m s") (auto simp: bnd_def)

lemma thn_Inr: "m s = Inr (a, s') \<Longrightarrow> thn m k s = k s'"
  by (simp add: thn_def bnd_def)

text \<open>Monad laws.\<close>

lemma bnd_assoc: "bnd (bnd m k) l = bnd m (\<lambda>a. bnd (k a) l)" "bnd (thn m n) l = thn m (bnd n l)"
  by (auto simp: fun_eq_iff thn_def bnd_def split: sum.split)

lemma bnd_ret: "bnd (ret a) k = k a"
  by (simp add: fun_eq_iff bnd_def ret_def)

section \<open>Lists\<close>

text \<open>Overwriting a piece of a list in place: \<open>dst[off..off + n].copy_from_slice(src)\<close>.\<close>

definition splice_at :: "nat \<Rightarrow> 'a list \<Rightarrow> 'a list \<Rightarrow> 'a list" where
  "splice_at off src dst = take off dst @ src @ drop (off + length src) dst"

definition segment :: "nat \<Rightarrow> nat \<Rightarrow> 'a list \<Rightarrow> 'a list" where
  "segment off n xs = take n (drop off xs)"

lemma length_segment [simp]: "length (segment off n xs) = min n (length xs - off)"
  by (simp add: segment_def)

lemma length_splice_at [simp]:
  "off + length src \<le> length dst \<Longrightarrow> length (splice_at off src dst) = length dst"
  by (simp add: splice_at_def)

lemma nth_splice_at:
  assumes "off + length src \<le> length dst" and "i < length dst"
  shows "splice_at off src dst ! i =
    (if off \<le> i \<and> i < off + length src then src ! (i - off) else dst ! i)"
  using assms by (auto simp: splice_at_def nth_append)

lemma nth_segment [simp]: "i < n \<Longrightarrow> off + i < length xs \<Longrightarrow> segment off n xs ! i = xs ! (off + i)"
  by (simp add: segment_def)

lemma segment_splice_at_same [simp]:
  "off + length src \<le> length dst \<Longrightarrow> n = length src \<Longrightarrow> segment off n (splice_at off src dst) = src"
  by (simp add: segment_def splice_at_def)

lemma segment_splice_at_other:
  assumes "off + length src \<le> length dst" and "off' + n \<le> length dst"
    and "off' + n \<le> off \<or> off + length src \<le> off'"
  shows "segment off' n (splice_at off src dst) = segment off' n dst"
  by (rule nth_equalityI) (use assms in \<open>auto simp: nth_splice_at\<close>)

lemma splice_at_segment_self [simp]:
  "off + n \<le> length xs \<Longrightarrow> splice_at off (segment off n xs) xs = xs"
  by (rule nth_equalityI) (auto simp: nth_splice_at)

lemma segment_all [simp]: "length xs = n \<Longrightarrow> segment 0 n xs = xs"
  by (simp add: segment_def)

lemma splice_at_all [simp]: "length src = length dst \<Longrightarrow> splice_at 0 src dst = src"
  by (simp add: splice_at_def)

lemma splice_at_Nil [simp]: "splice_at off [] dst = dst"
  by (simp add: splice_at_def)

end
