(* ===== verification/Address.thy ===== *)
theory Address
  imports Prelude
begin

text \<open>
  Physical and virtual addresses and page numbers of the SV39 scheme
  (\<open>src/os/src/mm/address.rs\<close>, with the constants of \<open>src/os/src/config.rs\<close>): the four
  newtypes over \<open>usize\<close>, the conversions between them, the three indexes of a virtual
  page number and the page ranges the memory areas iterate over.
\<close>

section \<open>Constants\<close>

definition PAGE_SIZE :: usize where "PAGE_SIZE = 0x1000"
definition PAGE_SIZE_BITS :: nat where "PAGE_SIZE_BITS = 0xc"
definition USER_STACK_SIZE :: usize where "USER_STACK_SIZE = 4096 * 2"
definition KERNEL_STACK_SIZE :: usize where "KERNEL_STACK_SIZE = 4096 * 2"
definition TRAMPOLINE :: usize where "TRAMPOLINE = -1 - PAGE_SIZE + 1"
definition TRAP_CONTEXT :: usize where "TRAP_CONTEXT = TRAMPOLINE - PAGE_SIZE"

definition PA_WIDTH_SV39 :: nat where "PA_WIDTH_SV39 = 56"
definition VA_WIDTH_SV39 :: nat where "VA_WIDTH_SV39 = 39"
definition PPN_WIDTH_SV39 :: nat where "PPN_WIDTH_SV39 = PA_WIDTH_SV39 - PAGE_SIZE_BITS"
definition VPN_WIDTH_SV39 :: nat where "VPN_WIDTH_SV39 = VA_WIDTH_SV39 - PAGE_SIZE_BITS"

lemma PPN_WIDTH_SV39 [simp]: "PPN_WIDTH_SV39 = 44"
  by (simp add: PPN_WIDTH_SV39_def PA_WIDTH_SV39_def PAGE_SIZE_BITS_def)

lemma VPN_WIDTH_SV39 [simp]: "VPN_WIDTH_SV39 = 27"
  by (simp add: VPN_WIDTH_SV39_def VA_WIDTH_SV39_def PAGE_SIZE_BITS_def)

lemmas width_defs = PAGE_SIZE_def PAGE_SIZE_BITS_def PA_WIDTH_SV39_def VA_WIDTH_SV39_def
  PPN_WIDTH_SV39_def VPN_WIDTH_SV39_def

section \<open>The address types\<close>

datatype phys_addr = PhysAddr (pa_0: usize)
datatype virt_addr = VirtAddr (va_0: usize)
datatype phys_page_num = PhysPageNum (ppn_0: usize)
datatype virt_page_num = VirtPageNum (vpn_0: usize)

text \<open>The derived orders compare the wrapped numbers.\<close>

instantiation virt_addr :: linorder
begin

definition less_eq_virt_addr :: "virt_addr \<Rightarrow> virt_addr \<Rightarrow> bool" where
  "less_eq_virt_addr a b \<longleftrightarrow> va_0 a \<le> va_0 b"

definition less_virt_addr :: "virt_addr \<Rightarrow> virt_addr \<Rightarrow> bool" where
  "less_virt_addr a b \<longleftrightarrow> va_0 a < va_0 b"

instance
  by standard (auto simp: less_eq_virt_addr_def less_virt_addr_def virt_addr.expand)

end

instantiation virt_page_num :: linorder
begin

definition less_eq_virt_page_num :: "virt_page_num \<Rightarrow> virt_page_num \<Rightarrow> bool" where
  "less_eq_virt_page_num a b \<longleftrightarrow> vpn_0 a \<le> vpn_0 b"

definition less_virt_page_num :: "virt_page_num \<Rightarrow> virt_page_num \<Rightarrow> bool" where
  "less_virt_page_num a b \<longleftrightarrow> vpn_0 a < vpn_0 b"

instance
  by standard (auto simp: less_eq_virt_page_num_def less_virt_page_num_def virt_page_num.expand)

end

section \<open>Conversions\<close>

definition PhysAddr_from_usize :: "usize \<Rightarrow> phys_addr" where
  "PhysAddr_from_usize v = PhysAddr (v AND (push_bit PA_WIDTH_SV39 1 - 1))"

definition PhysPageNum_from_usize :: "usize \<Rightarrow> phys_page_num" where
  "PhysPageNum_from_usize v = PhysPageNum (v AND (push_bit PPN_WIDTH_SV39 1 - 1))"

definition VirtAddr_from_usize :: "usize \<Rightarrow> virt_addr" where
  "VirtAddr_from_usize v = VirtAddr (v AND (push_bit VA_WIDTH_SV39 1 - 1))"

definition VirtPageNum_from_usize :: "usize \<Rightarrow> virt_page_num" where
  "VirtPageNum_from_usize v = VirtPageNum (v AND (push_bit VPN_WIDTH_SV39 1 - 1))"

definition usize_from_PhysAddr :: "phys_addr \<Rightarrow> usize" where
  "usize_from_PhysAddr v = pa_0 v"

definition usize_from_PhysPageNum :: "phys_page_num \<Rightarrow> usize" where
  "usize_from_PhysPageNum v = ppn_0 v"

text \<open>A virtual address with bit 38 set is sign-extended to 64 bits.\<close>

definition usize_from_VirtAddr :: "virt_addr \<Rightarrow> usize" where
  "usize_from_VirtAddr v =
     (if va_0 v \<ge> push_bit (VA_WIDTH_SV39 - 1) 1
      then va_0 v OR NOT (push_bit VA_WIDTH_SV39 1 - 1)
      else va_0 v)"

definition usize_from_VirtPageNum :: "virt_page_num \<Rightarrow> usize" where
  "usize_from_VirtPageNum v = vpn_0 v"

definition VirtAddr_floor :: "virt_addr \<Rightarrow> virt_page_num" where
  "VirtAddr_floor va = VirtPageNum (va_0 va div PAGE_SIZE)"

definition VirtAddr_ceil :: "virt_addr \<Rightarrow> virt_page_num" where
  "VirtAddr_ceil va = VirtPageNum ((va_0 va - 1 + PAGE_SIZE) div PAGE_SIZE)"

definition VirtAddr_page_offset :: "virt_addr \<Rightarrow> usize" where
  "VirtAddr_page_offset va = va_0 va AND (PAGE_SIZE - 1)"

definition VirtAddr_aligned :: "virt_addr \<Rightarrow> bool" where
  "VirtAddr_aligned va \<longleftrightarrow> VirtAddr_page_offset va = 0"

definition VirtPageNum_from_VirtAddr :: "virt_addr \<Rightarrow> ('s, virt_page_num) action" where
  "VirtPageNum_from_VirtAddr v =
     thn (assert_that (VirtAddr_page_offset v = 0)) (ret (VirtAddr_floor v))"

definition VirtAddr_from_VirtPageNum :: "virt_page_num \<Rightarrow> virt_addr" where
  "VirtAddr_from_VirtPageNum v = VirtAddr (push_bit PAGE_SIZE_BITS (vpn_0 v))"

definition PhysAddr_floor :: "phys_addr \<Rightarrow> phys_page_num" where
  "PhysAddr_floor pa = PhysPageNum (pa_0 pa div PAGE_SIZE)"

definition PhysAddr_ceil :: "phys_addr \<Rightarrow> phys_page_num" where
  "PhysAddr_ceil pa = PhysPageNum ((pa_0 pa - 1 + PAGE_SIZE) div PAGE_SIZE)"

definition PhysAddr_page_offset :: "phys_addr \<Rightarrow> usize" where
  "PhysAddr_page_offset pa = pa_0 pa AND (PAGE_SIZE - 1)"

definition PhysAddr_aligned :: "phys_addr \<Rightarrow> bool" where
  "PhysAddr_aligned pa \<longleftrightarrow> PhysAddr_page_offset pa = 0"

definition PhysPageNum_from_PhysAddr :: "phys_addr \<Rightarrow> ('s, phys_page_num) action" where
  "PhysPageNum_from_PhysAddr v =
     thn (assert_that (PhysAddr_page_offset v = 0)) (ret (PhysAddr_floor v))"

definition PhysAddr_from_PhysPageNum :: "phys_page_num \<Rightarrow> phys_addr" where
  "PhysAddr_from_PhysPageNum v = PhysAddr (push_bit PAGE_SIZE_BITS (ppn_0 v))"

text \<open>
  \<open>indexes\<close> fills \<open>idx[2]\<close>, \<open>idx[1]\<close>, \<open>idx[0]\<close> in this order, taking nine bits of the
  page number each time.
\<close>

fun indexes_loop :: "nat \<Rightarrow> usize \<Rightarrow> usize list \<Rightarrow> usize list" where
  "indexes_loop 0 vpn idx = idx"
| "indexes_loop (Suc i) vpn idx = indexes_loop i (drop_bit 9 vpn) (idx[i := vpn AND 511])"

definition VirtPageNum_indexes :: "virt_page_num \<Rightarrow> usize list" where
  "VirtPageNum_indexes v = indexes_loop 3 (vpn_0 v) [0, 0, 0]"

section \<open>Page ranges\<close>

definition VirtPageNum_step :: "virt_page_num \<Rightarrow> virt_page_num" where
  "VirtPageNum_step v = VirtPageNum (vpn_0 v + 1)"

definition PhysPageNum_step :: "phys_page_num \<Rightarrow> phys_page_num" where
  "PhysPageNum_step v = PhysPageNum (ppn_0 v + 1)"

record vpn_range =
  range_l :: virt_page_num
  range_r :: virt_page_num

definition VPNRange_new :: "virt_page_num \<Rightarrow> virt_page_num \<Rightarrow> ('s, vpn_range) action" where
  "VPNRange_new start end' =
     thn (assert_that (start \<le> end')) (ret \<lparr>range_l = start, range_r = end'\<rparr>)"

definition get_start :: "vpn_range \<Rightarrow> virt_page_num" where
  "get_start r = range_l r"

definition get_end :: "vpn_range \<Rightarrow> virt_page_num" where
  "get_end r = range_r r"

record range_iterator =
  it_current :: virt_page_num
  it_end :: virt_page_num

definition SimpleRangeIterator_new :: "virt_page_num \<Rightarrow> virt_page_num \<Rightarrow> range_iterator" where
  "SimpleRangeIterator_new l r = \<lparr>it_current = l, it_end = r\<rparr>"

definition SimpleRangeIterator_next ::
    "range_iterator \<Rightarrow> virt_page_num option \<times> range_iterator" where
  "SimpleRangeIterator_next it =
     (if it_current it = it_end it then (None, it)
      else (Some (it_current it), it\<lparr>it_current := VirtPageNum_step (it_current it)\<rparr>))"

definition SimpleRange_into_iter :: "vpn_range \<Rightarrow> range_iterator" where
  "SimpleRange_into_iter r = SimpleRangeIterator_new (range_l r) (range_r r)"

lemma iterator_decreases:
  assumes "(Some v, it') = SimpleRangeIterator_next it"
  shows "unat (vpn_0 (it_end it') - vpn_0 (it_current it'))
    < unat (vpn_0 (it_end it) - vpn_0 (it_current it))"
proof -
  from assms have neq: "it_current it \<noteq> it_end it"
    and it': "it' = it\<lparr>it_current := VirtPageNum_step (it_current it)\<rparr>"
    by (auto simp: SimpleRangeIterator_next_def split: if_splits)
  from neq have "vpn_0 (it_end it) - vpn_0 (it_current it) \<noteq> 0"
    using virt_page_num.expand [of "it_end it" "it_current it"] by auto
  then have "unat (vpn_0 (it_end it) - vpn_0 (it_current it) - 1)
      < unat (vpn_0 (it_end it) - vpn_0 (it_current it))"
    by (simp add: unat_minus_one unat_gt_0)
  then show ?thesis by (simp add: it' VirtPageNum_step_def algebra_simps)
qed

text \<open>A \<open>for\<close> loop over a range visits what the iterator yields until it yields \<open>None\<close>.\<close>

function collect_iterator :: "range_iterator \<Rightarrow> virt_page_num list" where
  "collect_iterator it =
     (case SimpleRangeIterator_next it of
        (None, _) \<Rightarrow> []
      | (Some v, it') \<Rightarrow> v # collect_iterator it')"
  by pat_completeness auto
termination
  by (relation "measure (\<lambda>it. unat (vpn_0 (it_end it) - vpn_0 (it_current it)))")
    (simp_all add: iterator_decreases)

declare collect_iterator.simps [simp del]

section \<open>Addresses as numbers\<close>

lemma unat_PhysAddr_from_usize [simp]:
  "unat (pa_0 (PhysAddr_from_usize v)) = unat v mod 2 ^ 56"
  by (simp only: PhysAddr_from_usize_def PA_WIDTH_SV39_def low_mask phys_addr.sel unat_and_mask)

lemma unat_PhysPageNum_from_usize [simp]:
  "unat (ppn_0 (PhysPageNum_from_usize v)) = unat v mod 2 ^ 44"
  by (simp only: PhysPageNum_from_usize_def PPN_WIDTH_SV39 low_mask phys_page_num.sel unat_and_mask)

lemma unat_VirtAddr_from_usize [simp]:
  "unat (va_0 (VirtAddr_from_usize v)) = unat v mod 2 ^ 39"
  by (simp only: VirtAddr_from_usize_def VA_WIDTH_SV39_def low_mask virt_addr.sel unat_and_mask)

lemma unat_VirtPageNum_from_usize [simp]:
  "unat (vpn_0 (VirtPageNum_from_usize v)) = unat v mod 2 ^ 27"
  by (simp only: VirtPageNum_from_usize_def VPN_WIDTH_SV39 low_mask virt_page_num.sel unat_and_mask)

lemma unat_PAGE_SIZE [simp]: "unat PAGE_SIZE = 4096"
  by (simp add: PAGE_SIZE_def)

lemma page_mask: "PAGE_SIZE - 1 = mask 12"
  by (simp add: PAGE_SIZE_def mask_eq_exp_minus_1)

lemma unat_page_offset [simp]: "unat (VirtAddr_page_offset va) = unat (va_0 va) mod 4096"
  by (simp add: VirtAddr_page_offset_def page_mask unat_and_mask)

lemma unat_phys_page_offset [simp]: "unat (PhysAddr_page_offset pa) = unat (pa_0 pa) mod 4096"
  by (simp add: PhysAddr_page_offset_def page_mask unat_and_mask)

lemma unat_floor [simp]: "unat (vpn_0 (VirtAddr_floor va)) = unat (va_0 va) div 4096"
  by (simp add: VirtAddr_floor_def unat_div)

lemma unat_phys_floor [simp]: "unat (ppn_0 (PhysAddr_floor pa)) = unat (pa_0 pa) div 4096"
  by (simp add: PhysAddr_floor_def unat_div)

lemma unat_ceil:
  assumes "unat (va_0 va) < 2 ^ 64 - 4096"
  shows "unat (vpn_0 (VirtAddr_ceil va)) = (unat (va_0 va) + 4095) div 4096"
proof -
  have "va_0 va - 1 + PAGE_SIZE = va_0 va + 4095" by (simp add: PAGE_SIZE_def)
  moreover have "unat (va_0 va + 4095) = unat (va_0 va) + 4095"
    using assms by (simp add: unat_word_ariths)
  ultimately show ?thesis by (simp only: VirtAddr_ceil_def virt_page_num.sel unat_div unat_PAGE_SIZE)
qed

lemma unat_phys_ceil:
  assumes "unat (pa_0 pa) < 2 ^ 64 - 4096"
  shows "unat (ppn_0 (PhysAddr_ceil pa)) = (unat (pa_0 pa) + 4095) div 4096"
proof -
  have "pa_0 pa - 1 + PAGE_SIZE = pa_0 pa + 4095" by (simp add: PAGE_SIZE_def)
  moreover have "unat (pa_0 pa + 4095) = unat (pa_0 pa) + 4095"
    using assms by (simp add: unat_word_ariths)
  ultimately show ?thesis by (simp only: PhysAddr_ceil_def phys_page_num.sel unat_div unat_PAGE_SIZE)
qed

lemma unat_VirtAddr_from_VirtPageNum [simp]:
  "unat (va_0 (VirtAddr_from_VirtPageNum v)) = (unat (vpn_0 v) * 4096) mod 2 ^ 64"
  by (simp only: VirtAddr_from_VirtPageNum_def PAGE_SIZE_BITS_def virt_addr.sel unat_push_bit) simp

lemma unat_PhysAddr_from_PhysPageNum [simp]:
  "unat (pa_0 (PhysAddr_from_PhysPageNum v)) = (unat (ppn_0 v) * 4096) mod 2 ^ 64"
  by (simp only: PhysAddr_from_PhysPageNum_def PAGE_SIZE_BITS_def phys_addr.sel unat_push_bit) simp

section \<open>Sign extension\<close>

lemma unat_usize_from_VirtAddr:
  assumes "unat (va_0 va) < 2 ^ 39"
  shows "unat (usize_from_VirtAddr va) =
    (if 2 ^ 38 \<le> unat (va_0 va) then unat (va_0 va) + (2 ^ 64 - 2 ^ 39) else unat (va_0 va))"
proof -
  let ?w = "va_0 va"
  have "?w AND mask 39 = ?w"
    using assms by (intro word_unat_eq_iff [THEN iffD2]) (simp only: unat_and_mask mod_less)
  then have "?w AND NOT (mask 39) = (?w AND mask 39) AND NOT (mask 39)" by (simp only:)
  also have "\<dots> = 0" by (simp only: and.assoc) simp
  finally have "?w AND NOT (mask 39) = 0" .
  then have "?w OR NOT (mask 39) = ?w + NOT (mask 39)"
    using word_plus_and_or [of ?w "NOT (mask 39)"] by simp
  also have "unat (?w + NOT (mask 39)) = unat ?w + (2 ^ 64 - 2 ^ 39)"
    using assms by (simp add: mask_eq_exp_minus_1 unat_sub_if')
  finally show ?thesis
    by (simp add: usize_from_VirtAddr_def VA_WIDTH_SV39_def word_le_nat_alt mask_eq_exp_minus_1)
qed

section \<open>The three indexes of a page number\<close>

lemma and_511: "(v :: usize) AND 511 = v AND mask 9"
  by (simp add: mask_eq_exp_minus_1)

lemma VirtPageNum_indexes_eq:
  "VirtPageNum_indexes v =
     [drop_bit 18 (vpn_0 v) AND mask 9, drop_bit 9 (vpn_0 v) AND mask 9, vpn_0 v AND mask 9]"
  by (simp add: VirtPageNum_indexes_def numeral_3_eq_3 and_511)

lemma split_27_bits:
  assumes "n < (2 :: nat) ^ 27"
  shows "n = (n div 2 ^ 18 mod 512) * 2 ^ 18 + (n div 2 ^ 9 mod 512) * 2 ^ 9 + n mod 512"
proof -
  let ?q = "n div 512 div 512"
  have q: "n div 2 ^ 18 = ?q" by (simp add: div_mult2_eq [symmetric])
  have "?q < 512" using assms by (simp add: div_mult2_eq [symmetric])
  then have "n div 2 ^ 18 mod 512 = ?q" unfolding q by (rule mod_less)
  moreover have "n div 2 ^ 9 = n div 512" by simp
  moreover have "n div 512 = ?q * 512 + n div 512 mod 512" by (rule div_mult_mod_eq [symmetric])
  moreover have "n = n div 512 * 512 + n mod 512" by (rule div_mult_mod_eq [symmetric])
  moreover have "(q * 512 + r) * 512 = q * 2 ^ 18 + r * 2 ^ 9" for q r :: nat by simp
  ultimately show ?thesis by metis
qed

lemma unat_indexes:
  "map unat (VirtPageNum_indexes v) =
     [unat (vpn_0 v) div 2 ^ 18 mod 512, unat (vpn_0 v) div 2 ^ 9 mod 512, unat (vpn_0 v) mod 512]"
proof -
  have "unat (a AND mask 9) = unat a mod 512" for a :: usize
    using unat_and_mask [of a 9] by simp
  then show ?thesis by (simp only: VirtPageNum_indexes_eq list.map unat_drop_bit)
qed

lemma length_indexes [simp]: "length (VirtPageNum_indexes v) = 3"
  by (simp add: VirtPageNum_indexes_eq)

lemma indexes_less: "i \<in> set (VirtPageNum_indexes v) \<Longrightarrow> unat i < 512"
proof -
  assume "i \<in> set (VirtPageNum_indexes v)"
  then have "unat i \<in> set (map unat (VirtPageNum_indexes v))" by simp
  then show "unat i < 512" by (auto simp only: unat_indexes set_simps)
qed

lemma indexes_inject:
  assumes "unat (vpn_0 v) < 2 ^ 27" and "unat (vpn_0 w) < 2 ^ 27"
  shows "VirtPageNum_indexes v = VirtPageNum_indexes w \<longleftrightarrow> v = w"
proof
  assume "VirtPageNum_indexes v = VirtPageNum_indexes w"
  then have "map unat (VirtPageNum_indexes v) = map unat (VirtPageNum_indexes w)" by simp
  then have "unat (vpn_0 v) div 2 ^ 18 mod 512 = unat (vpn_0 w) div 2 ^ 18 mod 512"
    "unat (vpn_0 v) div 2 ^ 9 mod 512 = unat (vpn_0 w) div 2 ^ 9 mod 512"
    "unat (vpn_0 v) mod 512 = unat (vpn_0 w) mod 512"
    unfolding unat_indexes by simp_all
  then have "unat (vpn_0 v) = unat (vpn_0 w)" using assms split_27_bits by metis
  then show "v = w" by (simp add: virt_page_num.expand word_unat_eq_iff)
qed simp

section \<open>Iterating over a range\<close>

lemma collect_iterator_unat:
  assumes "it_current it \<le> it_end it"
  shows "map (\<lambda>v. unat (vpn_0 v)) (collect_iterator it) =
    [unat (vpn_0 (it_current it))..<unat (vpn_0 (it_end it))]"
  using assms
proof (induction it rule: collect_iterator.induct)
  case (1 it)
  show ?case
  proof (cases "it_current it = it_end it")
    case True
    then show ?thesis by (simp add: collect_iterator.simps [of it] SimpleRangeIterator_next_def)
  next
    case False
    let ?it = "it\<lparr>it_current := VirtPageNum_step (it_current it)\<rparr>"
    from False "1.prems" have less: "unat (vpn_0 (it_current it)) < unat (vpn_0 (it_end it))"
      by (metis less_virt_page_num_def order_le_less word_less_nat_alt)
    then have step: "unat (vpn_0 (it_current it) + 1) = Suc (unat (vpn_0 (it_current it)))"
      using unat_less_64 [of "vpn_0 (it_end it)"] by (simp add: unat_word_ariths)
    have "map (\<lambda>v. unat (vpn_0 v)) (collect_iterator ?it) =
        [unat (vpn_0 (it_current ?it))..<unat (vpn_0 (it_end ?it))]"
    proof (rule "1.IH")
      show "(Some (it_current it), ?it) = SimpleRangeIterator_next it"
        using False by (simp add: SimpleRangeIterator_next_def)
      show "it_current ?it \<le> it_end ?it"
        using less step
        by (simp add: VirtPageNum_step_def less_eq_virt_page_num_def word_le_nat_alt)
    qed simp_all
    then show ?thesis
      using False less step
      by (simp add: collect_iterator.simps [of it] SimpleRangeIterator_next_def
          VirtPageNum_step_def upt_conv_Cons)
  qed
qed

lemma mod_of_high_address:
  assumes "2 ^ 64 - 2 ^ 38 \<le> n" and "n < (2 :: nat) ^ 64"
  shows "n mod 2 ^ 39 = n - (2 ^ 64 - 2 ^ 39)"
proof -
  have "n = (n - (2 ^ 64 - 2 ^ 39)) + 2 ^ 39 * (2 ^ 25 - 1)"
    using assms by simp
  then have "n mod 2 ^ 39 = (n - (2 ^ 64 - 2 ^ 39)) mod 2 ^ 39"
    by (metis mod_mult_self2)
  also have "\<dots> = n - (2 ^ 64 - 2 ^ 39)"
    using assms by (intro mod_less) simp
  finally show ?thesis .
qed

section \<open>Properties\<close>

text \<open>
  Converting a canonical 64-bit address (its upper bits repeat bit 38) into a
  \<open>VirtAddr\<close> keeps its low 39 bits only, and converting back restores it: the
  conversions lose nothing on the addresses SV39 can use.
\<close>

theorem VirtAddr_canonical_roundtrip:
  assumes "unat v < 2 ^ 38 \<or> 2 ^ 64 - 2 ^ 38 \<le> unat v"
  shows "unat (va_0 (VirtAddr_from_usize v)) < 2 ^ 39 \<and>
    usize_from_VirtAddr (VirtAddr_from_usize v) = v"
proof -
  have bound: "unat (va_0 (VirtAddr_from_usize v)) < 2 ^ 39" by simp
  have low: "unat v mod 2 ^ 39 = unat v" if "unat v < 2 ^ 38"
    using that by (intro mod_less) simp
  have high: "unat v mod 2 ^ 39 = unat v - (2 ^ 64 - 2 ^ 39)" if "2 ^ 64 - 2 ^ 38 \<le> unat v"
    using that unat_less_64 [of v] by (intro mod_of_high_address) simp_all
  have "unat (usize_from_VirtAddr (VirtAddr_from_usize v)) = unat v"
    using assms unat_usize_from_VirtAddr [OF bound] low high by auto
  with bound show ?thesis by (simp add: word_unat_eq_iff)
qed

theorem VirtAddr_canonical_roundtrip_witness:
  "usize_from_VirtAddr (VirtAddr_from_usize 0xffffffffffffe000) = 0xffffffffffffe000 \<and>
   va_0 (VirtAddr_from_usize 0xffffffffffffe000) = 0x7fffffe000"
  using VirtAddr_canonical_roundtrip [of "0xffffffffffffe000"]
  by (simp add: VirtAddr_from_usize_def VA_WIDTH_SV39_def)

text \<open>
  The three indexes of a virtual page number are each below 512, so they address one
  entry of a 512-entry table, and together they hold exactly the low 27 bits of the page
  number: two page numbers of the SV39 space with the same indexes are equal.
\<close>

theorem indexes_faithful:
  "(\<forall>v i. i \<in> set (VirtPageNum_indexes v) \<longrightarrow> unat i < 512) \<and>
   (\<forall>v w. unat (vpn_0 v) < 2 ^ 27 \<and> unat (vpn_0 w) < 2 ^ 27 \<and>
     VirtPageNum_indexes v = VirtPageNum_indexes w \<longrightarrow> v = w)"
  using indexes_less indexes_inject by blast

theorem indexes_faithful_witness:
  "list_all (\<lambda>i. unat i < 512) (VirtPageNum_indexes (VirtPageNum 0x7ffffff)) \<and>
   VirtPageNum_indexes (VirtPageNum 0x40201) = [1, 1, 1] \<and>
   VirtPageNum_indexes (VirtPageNum 0x40201) \<noteq> VirtPageNum_indexes (VirtPageNum 0x40202)"
proof -
  have "VirtPageNum_indexes (VirtPageNum 0x40201) \<noteq> VirtPageNum_indexes (VirtPageNum 0x40202)"
    using indexes_faithful [THEN conjunct2, rule_format, of "VirtPageNum 0x40201" "VirtPageNum 0x40202"]
    by auto
  moreover have "VirtPageNum_indexes (VirtPageNum 0x40201) = [1, 1, 1]" by code_simp
  ultimately show ?thesis using indexes_faithful by (simp add: list_all_iff)
qed

text \<open>
  C40: A \<open>for\<close> loop over a \<open>VPNRange\<close> that passed the check of its constructor visits
  the page numbers from its start up to, and without, its end, each once and in order; it
  terminates.
\<close>

theorem vpn_range_loop:
  assumes "VPNRange_new l r s = Inr (rng, s')"
  shows "map (\<lambda>v. unat (vpn_0 v)) (collect_iterator (SimpleRange_into_iter rng)) =
    [unat (vpn_0 l)..<unat (vpn_0 r)]"
proof -
  from assms have "l \<le> r" and "rng = \<lparr>range_l = l, range_r = r\<rparr>"
    by (auto simp: VPNRange_new_def action_defs split: if_splits)
  then show ?thesis
    by (simp add: SimpleRange_into_iter_def SimpleRangeIterator_new_def collect_iterator_unat)
qed

theorem vpn_range_loop_witness:
  "VPNRange_new (VirtPageNum 3) (VirtPageNum 6) () =
     Inr (\<lparr>range_l = VirtPageNum 3, range_r = VirtPageNum 6\<rparr>, ()) \<and>
   map (\<lambda>v. unat (vpn_0 v)) (collect_iterator (SimpleRange_into_iter
     \<lparr>range_l = VirtPageNum 3, range_r = VirtPageNum 6\<rparr>)) = [3, 4, 5]"
proof -
  have new: "VPNRange_new (VirtPageNum 3) (VirtPageNum 6) () =
      Inr (\<lparr>range_l = VirtPageNum 3, range_r = VirtPageNum 6\<rparr>, ())"
    by (simp add: VPNRange_new_def action_defs less_eq_virt_page_num_def)
  with vpn_range_loop [OF new] show ?thesis by (simp add: upt_rec)
qed

text \<open>
  The pages from the floor of a start address up to the ceiling of an end address are
  exactly the pages that hold a byte of the half-open address range: \<open>MapArea::new\<close>
  covers every byte of its range and no page without one.
\<close>

theorem floor_ceil_cover:
  assumes "unat (va_0 start) < unat (va_0 end')" and "unat (va_0 end') < 2 ^ 39"
  shows "unat (vpn_0 (VirtAddr_floor start)) \<le> p \<and> p < unat (vpn_0 (VirtAddr_ceil end')) \<longleftrightarrow>
    (\<exists>a. unat (va_0 start) \<le> a \<and> a < unat (va_0 end') \<and> a div 4096 = p)"
proof -
  have ceil: "unat (vpn_0 (VirtAddr_ceil end')) = (unat (va_0 end') + 4095) div 4096"
    by (rule unat_ceil) (use assms(2) in simp)
  show ?thesis
  proof
    assume *: "unat (vpn_0 (VirtAddr_floor start)) \<le> p \<and> p < unat (vpn_0 (VirtAddr_ceil end'))"
    have "unat (va_0 start) \<le> max (unat (va_0 start)) (p * 4096)" by simp
    moreover have "max (unat (va_0 start)) (p * 4096) < unat (va_0 end')"
      using * assms(1) by (simp add: ceil) linarith
    moreover have "max (unat (va_0 start)) (p * 4096) div 4096 = p"
      using * by (auto simp: max_def)
    ultimately show "\<exists>a. unat (va_0 start) \<le> a \<and> a < unat (va_0 end') \<and> a div 4096 = p"
      by blast
  next
    assume "\<exists>a. unat (va_0 start) \<le> a \<and> a < unat (va_0 end') \<and> a div 4096 = p"
    then show "unat (vpn_0 (VirtAddr_floor start)) \<le> p \<and> p < unat (vpn_0 (VirtAddr_ceil end'))"
      by (auto simp: ceil div_le_mono)
  qed
qed

theorem floor_ceil_cover_witness:
  "3 < unat (vpn_0 (VirtAddr_ceil (VirtAddr 0x3001))) \<and>
   \<not> 4 < unat (vpn_0 (VirtAddr_ceil (VirtAddr 0x3001)))"
proof -
  have "\<exists>a. 0x1ffe \<le> a \<and> a < (0x3001 :: nat) \<and> a div 4096 = 3"
    by (rule exI [of _ "0x3000"]) simp
  moreover have "\<not> (\<exists>a. 0x1ffe \<le> a \<and> a < (0x3001 :: nat) \<and> a div 4096 = 4)" by auto
  moreover have "unat (va_0 (VirtAddr 0x1ffe)) < unat (va_0 (VirtAddr 0x3001))"
    "unat (va_0 (VirtAddr 0x3001)) < 2 ^ 39" by simp_all
  note floor_ceil_cover [OF this, of 3] floor_ceil_cover [OF this, of 4]
  ultimately show ?thesis by auto
qed

end
