(* ===== verification/Allocator.thy ===== *)
theory Allocator
  imports Prelude
begin

text \<open>
  The contract shared by the three allocators of the system: the physical frame allocator
  (\<open>src/os/src/mm/frame_allocator.rs\<close>), the pid allocator (\<open>src/os/src/task/pid.rs\<close>)
  and the on-disk bitmaps (\<open>src/easy-fs/src/bitmap.rs\<close>). Each hands out identifiers that
  nobody holds and takes back identifiers that somebody holds. What a client can rely on
  is proved once here; the theories of the allocators interpret the locales on their own
  definitions.
\<close>

section \<open>Histories of a client\<close>

datatype 'i alloc_op = Alloc | Dealloc 'i

text \<open>
  A client that keeps the identifiers it got, and gives back only identifiers it keeps.
\<close>

fun run_client ::
    "('s, 'i option) action \<Rightarrow> ('i \<Rightarrow> ('s, unit) action) \<Rightarrow> 'i alloc_op list \<Rightarrow> 'i list \<Rightarrow>
     ('s, 'i list) action" where
  "run_client alloc dealloc [] hs = ret hs"
| "run_client alloc dealloc (Alloc # ops) hs =
     bnd alloc (\<lambda>r. case r of
         None \<Rightarrow> run_client alloc dealloc ops hs
       | Some i \<Rightarrow> run_client alloc dealloc ops (i # hs))"
| "run_client alloc dealloc (Dealloc i # ops) hs =
     (if i \<in> set hs then thn (dealloc i) (run_client alloc dealloc ops (remove1 i hs))
      else run_client alloc dealloc ops hs)"

text \<open>Allocating \<open>n\<close> identifiers in a row, as the loops of the clients do.\<close>

fun alloc_list :: "('s, 'i option) action \<Rightarrow> nat \<Rightarrow> ('s, 'i list) action" where
  "alloc_list alloc 0 = ret []"
| "alloc_list alloc (Suc n) =
     bnd alloc (\<lambda>r. bnd (unwrap r) (\<lambda>i. bnd (alloc_list alloc n) (\<lambda>is. ret (i # is))))"

section \<open>The contract\<close>

locale allocator =
  fixes alloc :: "('s, 'i option) action"
    and dealloc :: "'i \<Rightarrow> ('s, unit) action"
    and inv :: "'s \<Rightarrow> bool"
    and live :: "'s \<Rightarrow> 'i set"
    and free :: "'s \<Rightarrow> 'i set"
  assumes disjoint: "inv s \<Longrightarrow> live s \<inter> free s = {}"
    and alloc_Some: "inv s \<Longrightarrow> free s \<noteq> {} \<Longrightarrow>
      wp alloc (\<lambda>r s'. \<exists>i. r = Some i \<and> i \<in> free s \<and> inv s' \<and>
        live s' = insert i (live s) \<and> free s' = free s - {i}) s"
    and dealloc_live: "inv s \<Longrightarrow> i \<in> live s \<Longrightarrow>
      wp (dealloc i) (\<lambda>_ s'. inv s' \<and> live s' = live s - {i} \<and> free s' = insert i (free s)) s"
begin

lemma alloc_fresh:
  assumes "inv s" and "free s \<noteq> {}"
  shows "wp alloc (\<lambda>r s'. \<exists>i. r = Some i \<and> i \<notin> live s \<and> inv s' \<and> live s' = insert i (live s)) s"
  using alloc_Some [OF assms] by (rule wp_conseq) (use disjoint [OF assms(1)] in blast)

text \<open>A run of \<open>n\<close> allocations gives \<open>n\<close> different identifiers, none of them held before.\<close>

lemma alloc_list_distinct:
  assumes "inv s" and "finite (free s)" and "n \<le> card (free s)"
  shows "wp (alloc_list alloc n) (\<lambda>is s'. length is = n \<and> distinct is \<and> set is \<subseteq> free s \<and>
    inv s' \<and> live s' = live s \<union> set is \<and> free s' = free s - set is) s"
  using assms
proof (induction n arbitrary: s)
  case 0
  then show ?case by (simp add: wp_simps)
next
  case (Suc n)
  then have "free s \<noteq> {}" by auto
  note alloc_Some [OF Suc.prems(1) this]
  then have "wp alloc (\<lambda>r s'. \<exists>i. r = Some i \<and>
      wp (alloc_list alloc n) (\<lambda>is s''. length is = n \<and> distinct (i # is) \<and> set (i # is) \<subseteq> free s \<and>
        inv s'' \<and> live s'' = live s \<union> set (i # is) \<and> free s'' = free s - set (i # is)) s') s"
  proof (rule wp_conseq, elim exE conjE)
    fix r s' i
    assume *: "r = Some i" "i \<in> free s" "inv s'" "live s' = insert i (live s)" "free s' = free s - {i}"
    then have "finite (free s')" "n \<le> card (free s')" using Suc.prems by simp_all
    from Suc.IH [OF *(3) this] have "wp (alloc_list alloc n) (\<lambda>is s''. length is = n \<and>
        distinct (i # is) \<and> set (i # is) \<subseteq> free s \<and> inv s'' \<and>
        live s'' = live s \<union> set (i # is) \<and> free s'' = free s - set (i # is)) s'"
      by (rule wp_conseq) (use * in auto)
    with *(1) show "\<exists>i. r = Some i \<and>
      wp (alloc_list alloc n) (\<lambda>is s''. length is = n \<and> distinct (i # is) \<and> set (i # is) \<subseteq> free s \<and>
        inv s'' \<and> live s'' = live s \<union> set (i # is) \<and> free s'' = free s - set (i # is)) s'"
      by blast
  qed
  then show ?case
    by (simp only: alloc_list.simps wp_simps) (fastforce elim: wp_conseq)
qed

text \<open>
  With enough free identifiers for its allocations, a client never makes the allocator
  panic, and the identifiers it keeps are pairwise different and all held.
\<close>

lemma client_exclusive_enough:
  assumes "inv s" and "distinct hs" and "set hs \<subseteq> live s"
    and "finite (free s)" and "length (filter (\<lambda>op. op = Alloc) ops) \<le> card (free s)"
  shows "wp (run_client alloc dealloc ops hs)
    (\<lambda>hs' s'. distinct hs' \<and> set hs' \<subseteq> live s' \<and> inv s') s"
  using assms
proof (induction ops arbitrary: s hs)
  case Nil
  then show ?case by (simp add: wp_simps)
next
  case (Cons op ops)
  show ?case
  proof (cases op)
    case Alloc
    with Cons.prems(5) have "free s \<noteq> {}" by auto
    note alloc_Some [OF Cons.prems(1) this]
    then have "wp alloc (\<lambda>r. wp (case r of
         None \<Rightarrow> run_client alloc dealloc ops hs
       | Some i \<Rightarrow> run_client alloc dealloc ops (i # hs))
        (\<lambda>hs' s'. distinct hs' \<and> set hs' \<subseteq> live s' \<and> inv s')) s"
      by (rule wp_conseq)
        (use Cons.prems Alloc disjoint [OF Cons.prems(1)] in \<open>auto 0 3 intro!: Cons.IH\<close>)
    then show ?thesis using Alloc by (simp add: wp_bnd)
  next
    case (Dealloc i)
    show ?thesis
    proof (cases "i \<in> set hs")
      case True
      with Cons.prems have "i \<in> live s" by auto
      then have "i \<notin> free s" using disjoint [OF Cons.prems(1)] by blast
      with dealloc_live [OF Cons.prems(1) \<open>i \<in> live s\<close>] show ?thesis
        using Dealloc True Cons.prems
        by (simp add: wp_thn) (erule wp_conseq, rule Cons.IH; auto)
    next
      case False
      with Cons Dealloc show ?thesis by simp
    qed
  qed
qed

end

text \<open>An allocator that reports exhaustion instead of handing something out.\<close>

locale bounded_allocator = allocator +
  assumes alloc_None: "inv s \<Longrightarrow> free s = {} \<Longrightarrow> alloc s = Inr (None, s)"
begin

text \<open>
  No client can bring the allocator to a panic, and at every point of its history the
  identifiers it keeps are pairwise different and all held.
\<close>

lemma client_exclusive:
  assumes "inv s" and "distinct hs" and "set hs \<subseteq> live s"
  shows "wp (run_client alloc dealloc ops hs)
    (\<lambda>hs' s'. distinct hs' \<and> set hs' \<subseteq> live s' \<and> inv s') s"
  using assms
proof (induction ops arbitrary: s hs)
  case Nil
  then show ?case by (simp add: wp_simps)
next
  case (Cons op ops)
  show ?case
  proof (cases op)
    case Alloc
    show ?thesis
    proof (cases "free s = {}")
      case True
      then have "wp alloc (\<lambda>r s'. r = None \<and> s' = s) s"
        using alloc_None Cons.prems(1) by (simp add: wp_def)
      then show ?thesis
        using Cons Alloc by (simp add: wp_simps) (auto elim: wp_conseq)
    next
      case False
      have "wp alloc (\<lambda>r s'. \<exists>i. r = Some i \<and> i \<notin> live s \<and> inv s' \<and> live s' = insert i (live s)) s"
        using Cons.prems(1) False by (rule alloc_fresh)
      then have "wp alloc (\<lambda>r. wp (case r of
           None \<Rightarrow> run_client alloc dealloc ops hs
         | Some i \<Rightarrow> run_client alloc dealloc ops (i # hs))
          (\<lambda>hs' s'. distinct hs' \<and> set hs' \<subseteq> live s' \<and> inv s')) s"
        by (rule wp_conseq) (use Cons.prems in \<open>auto 0 3 intro!: Cons.IH\<close>)
      then show ?thesis using Alloc by (simp add: wp_bnd)
    qed
  next
    case (Dealloc i)
    show ?thesis
    proof (cases "i \<in> set hs")
      case True
      with Cons.prems have "i \<in> live s" by auto
      from dealloc_live [OF Cons.prems(1) this] show ?thesis
        using Dealloc True Cons.prems
        by (simp add: wp_thn) (erule wp_conseq, rule Cons.IH; auto)
    next
      case False
      with Cons Dealloc show ?thesis by simp
    qed
  qed
qed

end

text \<open>An allocator that detects every wrong deallocation.\<close>

locale checked_allocator = allocator +
  assumes dealloc_dead: "inv s \<Longrightarrow> i \<notin> live s \<Longrightarrow> \<exists>e. dealloc i s = Inl e"
begin

lemma dealloc_iff_live: "inv s \<Longrightarrow> (\<exists>s'. dealloc i s = Inr ((), s')) \<longleftrightarrow> i \<in> live s"
  using dealloc_live [of s i] dealloc_dead [of s i] by (fastforce simp: wp_iff)

lemma double_dealloc:
  assumes "inv s" and "dealloc i s = Inr (u, s')"
  shows "\<exists>e. dealloc i s' = Inl e"
proof -
  have "i \<in> live s" using assms dealloc_dead by fastforce
  from dealloc_live [OF assms(1) this] assms(2) have "inv s'" "i \<notin> live s'"
    by (simp_all add: wp_Inr)
  then show ?thesis by (rule dealloc_dead)
qed

end

end
