(* ===== verification/Frame_Allocator.thy ===== *)
theory Frame_Allocator
  imports Address Allocator
begin

text \<open>
  Physical memory and the frame allocator (\<open>src/os/src/mm/frame_allocator.rs\<close>, and the
  raw accesses of \<open>src/os/src/mm/address.rs\<close>). The kernel runs with physical memory mapped
  one to one, and reaches it through \<open>PhysPageNum::get_bytes_array\<close>; the model keeps one
  list of 4096 bytes per page, under the page's index. Dropping a \<open>FrameTracker\<close> is the
  explicit call of \<open>frame_dealloc\<close>.
\<close>

section \<open>Physical memory\<close>

record stack_frame_allocator =
  fa_current :: usize
  fa_end :: usize
  fa_recycled :: "usize list"

record mm =
  memory :: "usize \<Rightarrow> byte list"
  frame_allocator :: stack_frame_allocator

type_synonym 'a mm_action = "(mm, 'a) action"

text \<open>The page that starts at the physical address of a page number.\<close>

definition page_index :: "phys_page_num \<Rightarrow> usize" where
  "page_index ppn = pa_0 (PhysAddr_from_PhysPageNum ppn) div PAGE_SIZE"

definition get_bytes_array :: "mm \<Rightarrow> phys_page_num \<Rightarrow> byte list" where
  "get_bytes_array m ppn = memory m (page_index ppn)"

definition set_bytes_array :: "phys_page_num \<Rightarrow> byte list \<Rightarrow> mm \<Rightarrow> mm" where
  "set_bytes_array ppn bs m = m\<lparr>memory := (memory m)(page_index ppn := bs)\<rparr>"

section \<open>The stack allocator\<close>

definition StackFrameAllocator_new :: stack_frame_allocator where
  "StackFrameAllocator_new = \<lparr>fa_current = 0, fa_end = 0, fa_recycled = []\<rparr>"

definition StackFrameAllocator_init ::
    "phys_page_num \<Rightarrow> phys_page_num \<Rightarrow> stack_frame_allocator \<Rightarrow> stack_frame_allocator" where
  "StackFrameAllocator_init l r fa = fa\<lparr>fa_current := ppn_0 l, fa_end := ppn_0 r\<rparr>"

definition StackFrameAllocator_alloc :: "(stack_frame_allocator, phys_page_num option) action" where
  "StackFrameAllocator_alloc fa =
     (if fa_recycled fa \<noteq> [] then
        Inr (Some (PhysPageNum_from_usize (last (fa_recycled fa))),
             fa\<lparr>fa_recycled := butlast (fa_recycled fa)\<rparr>)
      else if fa_current fa = fa_end fa then Inr (None, fa)
      else
        (let fa = fa\<lparr>fa_current := fa_current fa + 1\<rparr>
         in Inr (Some (PhysPageNum_from_usize (fa_current fa - 1)), fa)))"

definition StackFrameAllocator_dealloc ::
    "phys_page_num \<Rightarrow> (stack_frame_allocator, unit) action" where
  "StackFrameAllocator_dealloc p fa =
     (let ppn = ppn_0 p in
      if ppn \<ge> fa_current fa \<or> ppn \<in> set (fa_recycled fa) then Inl ExplicitPanic
      else Inr ((), fa\<lparr>fa_recycled := fa_recycled fa @ [ppn]\<rparr>))"

text \<open>\<open>FrameTracker::new\<close> clears the page it takes over.\<close>

definition FrameTracker_new :: "phys_page_num \<Rightarrow> phys_page_num mm_action" where
  "FrameTracker_new ppn = thn (upd (set_bytes_array ppn (replicate 4096 0))) (ret ppn)"

definition frame_alloc :: "phys_page_num option mm_action" where
  "frame_alloc =
     bnd (on frame_allocator (\<lambda>fa m. m\<lparr>frame_allocator := fa\<rparr>) StackFrameAllocator_alloc)
       (\<lambda>r. case r of
           None \<Rightarrow> ret None
         | Some ppn \<Rightarrow> bnd (FrameTracker_new ppn) (\<lambda>f. ret (Some f)))"

definition frame_dealloc :: "phys_page_num \<Rightarrow> unit mm_action" where
  "frame_dealloc ppn =
     on frame_allocator (\<lambda>fa m. m\<lparr>frame_allocator := fa\<rparr>) (StackFrameAllocator_dealloc ppn)"

text \<open>The linker symbol \<open>ekernel\<close> is an argument.\<close>

definition MEMORY_END :: usize where "MEMORY_END = 0x801000000"

definition init_frame_allocator :: "usize \<Rightarrow> unit mm_action" where
  "init_frame_allocator ekernel = upd (\<lambda>m. m\<lparr>frame_allocator :=
     StackFrameAllocator_init (PhysAddr_ceil (PhysAddr_from_usize ekernel))
       (PhysAddr_floor (PhysAddr_from_usize MEMORY_END)) (frame_allocator m)\<rparr>)"

section \<open>The invariant\<close>

text \<open>
  \<open>l\<close> and \<open>r\<close> are the frames the allocator was initialised with. Frames below \<open>current\<close> have
  been handed out at least once; those of them not in \<open>recycled\<close> are held.
\<close>

definition fa_inv :: "nat \<Rightarrow> nat \<Rightarrow> stack_frame_allocator \<Rightarrow> bool" where
  "fa_inv l r fa \<longleftrightarrow> l \<le> unat (fa_current fa) \<and> unat (fa_current fa) \<le> r \<and>
     unat (fa_end fa) = r \<and> r \<le> 2 ^ 44 \<and> distinct (fa_recycled fa) \<and>
     (\<forall>p \<in> set (fa_recycled fa). l \<le> unat p \<and> unat p < unat (fa_current fa))"

definition fa_live :: "nat \<Rightarrow> stack_frame_allocator \<Rightarrow> phys_page_num set" where
  "fa_live l fa = {p. l \<le> unat (ppn_0 p) \<and> unat (ppn_0 p) < unat (fa_current fa) \<and>
     ppn_0 p \<notin> set (fa_recycled fa)}"

definition fa_free :: "stack_frame_allocator \<Rightarrow> phys_page_num set" where
  "fa_free fa = {p. ppn_0 p \<in> set (fa_recycled fa) \<or>
     unat (fa_current fa) \<le> unat (ppn_0 p) \<and> unat (ppn_0 p) < unat (fa_end fa)}"

lemma eq_PhysPageNum_iff: "p = PhysPageNum v \<longleftrightarrow> ppn_0 p = v"
  by (cases p) simp

lemma PhysPageNum_from_usize_id:
  "unat v < 2 ^ 44 \<Longrightarrow> PhysPageNum_from_usize v = PhysPageNum v"
  by (simp add: eq_PhysPageNum_iff word_unat_eq_iff)

lemma unat_Suc_current:
  assumes "unat (v :: usize) < n" and "n \<le> 2 ^ 44"
  shows "unat (v + 1) = Suc (unat v)"
  using assms by (simp add: unat_word_ariths)

lemma fa_alloc_recycled:
  assumes "fa_inv l r fa" and "fa_recycled fa \<noteq> []"
  shows "wp StackFrameAllocator_alloc (\<lambda>q fa'. \<exists>i. q = Some i \<and> i \<in> fa_free fa \<and> fa_inv l r fa' \<and>
    fa_live l fa' = insert i (fa_live l fa) \<and> fa_free fa' = fa_free fa - {i}) fa"
proof -
  obtain ps p where ps: "fa_recycled fa = ps @ [p]" using assms(2) rev_exhaust by blast
  with assms(1) have p: "unat p < 2 ^ 44" "l \<le> unat p" "unat p < unat (fa_current fa)" "p \<notin> set ps"
    by (auto simp: fa_inv_def)
  then show ?thesis
    using assms(1) ps
    by (auto simp: wp_def StackFrameAllocator_alloc_def PhysPageNum_from_usize_id fa_inv_def
        fa_live_def fa_free_def eq_PhysPageNum_iff)
qed

lemma fa_alloc_bump:
  assumes "fa_inv l r fa" and "fa_recycled fa = []" and "fa_current fa \<noteq> fa_end fa"
  shows "wp StackFrameAllocator_alloc (\<lambda>q fa'. \<exists>i. q = Some i \<and> i \<in> fa_free fa \<and> fa_inv l r fa' \<and>
    fa_live l fa' = insert i (fa_live l fa) \<and> fa_free fa' = fa_free fa - {i}) fa"
proof -
  from assms have less: "unat (fa_current fa) < unat (fa_end fa)" "unat (fa_end fa) \<le> 2 ^ 44"
    by (auto simp: fa_inv_def word_unat_eq_iff)
  note suc = unat_Suc_current [OF this]
  from less have "unat (fa_current fa) < 2 ^ 44" by simp
  note id = PhysPageNum_from_usize_id [OF this]
  show ?thesis
    using assms less suc
    by (auto simp: wp_def StackFrameAllocator_alloc_def id fa_inv_def fa_live_def fa_free_def
        eq_PhysPageNum_iff less_Suc_eq word_unat_eq_iff)
qed

interpretation frames: bounded_allocator
    StackFrameAllocator_alloc StackFrameAllocator_dealloc "fa_inv l r" "fa_live l" fa_free for l r
proof unfold_locales
  fix s
  assume "fa_inv l r s"
  then show "fa_live l s \<inter> fa_free s = {}"
    by (auto simp: fa_inv_def fa_live_def fa_free_def)
next
  fix s
  assume inv: "fa_inv l r s" and "fa_free s \<noteq> {}"
  then have "fa_recycled s \<noteq> [] \<or> fa_current s \<noteq> fa_end s"
    by (auto simp: fa_free_def)
  then show "wp StackFrameAllocator_alloc (\<lambda>q s'. \<exists>i. q = Some i \<and> i \<in> fa_free s \<and> fa_inv l r s' \<and>
      fa_live l s' = insert i (fa_live l s) \<and> fa_free s' = fa_free s - {i}) s"
    using fa_alloc_recycled [OF inv] fa_alloc_bump [OF inv] by blast
next
  fix s i
  assume "fa_inv l r s" and "i \<in> fa_live l s"
  then show "wp (StackFrameAllocator_dealloc i) (\<lambda>_ s'. fa_inv l r s' \<and>
      fa_live l s' = fa_live l s - {i} \<and> fa_free s' = insert i (fa_free s)) s"
    by (auto simp: wp_def StackFrameAllocator_dealloc_def Let_def fa_inv_def fa_live_def fa_free_def
        word_le_nat_alt phys_page_num.expand)
next
  fix s
  assume "fa_inv l r s" and "fa_free s = {}"
  have "fa_recycled s = []"
  proof (rule ccontr)
    assume "fa_recycled s \<noteq> []"
    then have "PhysPageNum (last (fa_recycled s)) \<in> fa_free s" by (simp add: fa_free_def)
    with \<open>fa_free s = {}\<close> show False by blast
  qed
  moreover have "PhysPageNum (fa_current s) \<notin> fa_free s" using \<open>fa_free s = {}\<close> by blast
  then have "fa_current s = fa_end s"
    using \<open>fa_inv l r s\<close> by (simp add: fa_free_def fa_inv_def word_unat_eq_iff)
  ultimately show "StackFrameAllocator_alloc s = Inr (None, s)"
    by (simp add: StackFrameAllocator_alloc_def)
qed

section \<open>The global allocator\<close>

definition mm_frames_inv :: "nat \<Rightarrow> nat \<Rightarrow> mm \<Rightarrow> bool" where
  "mm_frames_inv l r m \<longleftrightarrow> fa_inv l r (frame_allocator m)"

abbreviation mm_live :: "nat \<Rightarrow> mm \<Rightarrow> phys_page_num set" where
  "mm_live l m \<equiv> fa_live l (frame_allocator m)"

abbreviation mm_free :: "mm \<Rightarrow> phys_page_num set" where
  "mm_free m \<equiv> fa_free (frame_allocator m)"

lemma frame_allocator_set_bytes_array [simp]:
  "frame_allocator (set_bytes_array p bs m) = frame_allocator m"
  by (simp add: set_bytes_array_def)

lemma frame_alloc_eq:
  "frame_alloc m = (case StackFrameAllocator_alloc (frame_allocator m) of
     Inl e \<Rightarrow> Inl e
   | Inr (None, fa) \<Rightarrow> Inr (None, m\<lparr>frame_allocator := fa\<rparr>)
   | Inr (Some ppn, fa) \<Rightarrow>
       Inr (Some ppn, set_bytes_array ppn (replicate 4096 0) (m\<lparr>frame_allocator := fa\<rparr>)))"
  by (simp add: frame_alloc_def on_def FrameTracker_new_def action_defs
      split: sum.splits option.splits prod.splits)

lemma wp_frame_alloc:
  assumes "mm_frames_inv l r m" and "mm_free m \<noteq> {}"
  shows "wp frame_alloc (\<lambda>q m'. \<exists>i. q = Some i \<and> i \<in> mm_free m \<and> mm_frames_inv l r m' \<and>
    mm_live l m' = insert i (mm_live l m) \<and> mm_free m' = mm_free m - {i} \<and>
    memory m' = (memory m)(page_index i := replicate 4096 0)) m"
  using frames.alloc_Some [of l r "frame_allocator m"] assms
  by (auto simp: wp_iff frame_alloc_eq mm_frames_inv_def set_bytes_array_def)

lemma wp_frame_dealloc:
  assumes "mm_frames_inv l r m" and "p \<in> mm_live l m"
  shows "wp (frame_dealloc p) (\<lambda>_ m'. mm_frames_inv l r m' \<and> mm_live l m' = mm_live l m - {p} \<and>
    mm_free m' = insert p (mm_free m) \<and> memory m' = memory m) m"
  using frames.dealloc_live [of l r "frame_allocator m" p] assms
  by (simp add: frame_dealloc_def wp_on mm_frames_inv_def)

interpretation mm_frames: bounded_allocator
    frame_alloc frame_dealloc "mm_frames_inv l r" "mm_live l" mm_free for l r
proof unfold_locales
  fix m
  assume "mm_frames_inv l r m"
  then show "mm_live l m \<inter> mm_free m = {}"
    using frames.disjoint by (simp add: mm_frames_inv_def)
next
  fix m
  assume "mm_frames_inv l r m" and "mm_free m \<noteq> {}"
  then show "wp frame_alloc (\<lambda>q m'. \<exists>i. q = Some i \<and> i \<in> mm_free m \<and> mm_frames_inv l r m' \<and>
      mm_live l m' = insert i (mm_live l m) \<and> mm_free m' = mm_free m - {i}) m"
    by (rule wp_frame_alloc [THEN wp_conseq]) auto
next
  fix m i
  assume "mm_frames_inv l r m" and "i \<in> mm_live l m"
  then show "wp (frame_dealloc i) (\<lambda>_ m'. mm_frames_inv l r m' \<and> mm_live l m' = mm_live l m - {i} \<and>
      mm_free m' = insert i (mm_free m)) m"
    by (rule wp_frame_dealloc [THEN wp_conseq]) auto
next
  fix m
  assume "mm_frames_inv l r m" and "mm_free m = {}"
  then show "frame_alloc m = Inr (None, m)"
    using frames.alloc_None by (simp add: mm_frames_inv_def frame_alloc_eq)
qed

lemma page_index_id: "unat (ppn_0 p) < 2 ^ 52 \<Longrightarrow> page_index p = ppn_0 p"
  by (simp add: page_index_def word_unat_eq_iff unat_div)

lemma init_frame_allocator_inv:
  assumes "unat ekernel \<le> unat MEMORY_END"
  shows "wp (init_frame_allocator ekernel)
    (\<lambda>_ m'. mm_frames_inv ((unat ekernel + 4095) div 4096) 0x801000 m' \<and>
      mm_live ((unat ekernel + 4095) div 4096) m' = {})
    (m\<lparr>frame_allocator := StackFrameAllocator_new\<rparr>)"
proof -
  have e: "unat ekernel \<le> 0x801000000" using assms by (simp add: MEMORY_END_def)
  then have "unat (ppn_0 (PhysAddr_ceil (PhysAddr_from_usize ekernel))) = (unat ekernel + 4095) div 4096"
    by (subst unat_phys_ceil) simp_all
  moreover have "unat (ppn_0 (PhysAddr_floor (PhysAddr_from_usize MEMORY_END))) = 0x801000"
    by (simp add: MEMORY_END_def)
  moreover have "(unat ekernel + 4095) div 4096 \<le> 0x801000" using e by simp
  ultimately show ?thesis
    by (simp add: init_frame_allocator_def wp_upd mm_frames_inv_def fa_inv_def fa_live_def
        StackFrameAllocator_init_def StackFrameAllocator_new_def)
qed

lemma live_frame_bounds:
  assumes "mm_frames_inv ((e + 4095) div 4096) 0x801000 m" and "p \<in> mm_live ((e + 4095) div 4096) m"
  shows "e \<le> unat (ppn_0 p) * 4096" and "unat (ppn_0 p) * 4096 + 4096 \<le> 0x801000000"
proof -
  from assms have "(e + 4095) div 4096 \<le> unat (ppn_0 p)" "unat (ppn_0 p) < 0x801000"
    by (auto simp: mm_frames_inv_def fa_inv_def fa_live_def)
  then show "e \<le> unat (ppn_0 p) * 4096" "unat (ppn_0 p) * 4096 + 4096 \<le> 0x801000000"
    by linarith+
qed

section \<open>Properties\<close>

text \<open>
  C35: After boot (the allocator initialised with the end of the kernel image and the end
  of memory), no sequence of allocations and of deallocations of held frames makes the
  frame allocator panic, and at its end the frames held are pairwise different, lie above
  the kernel image and below the end of memory.
\<close>

theorem frames_held_exclusively:
  assumes "unat ekernel \<le> unat MEMORY_END"
  shows "wp (thn (init_frame_allocator ekernel) (run_client frame_alloc frame_dealloc ops []))
    (\<lambda>hs m'. distinct hs \<and> (\<forall>p \<in> set hs. unat ekernel \<le> unat (ppn_0 p) * 4096 \<and>
       unat (ppn_0 p) * 4096 + 4096 \<le> unat MEMORY_END))
    (m\<lparr>frame_allocator := StackFrameAllocator_new\<rparr>)"
proof -
  let ?l = "(unat ekernel + 4095) div 4096"
  let ?Q = "\<lambda>hs m'. distinct hs \<and> (\<forall>p \<in> set hs. unat ekernel \<le> unat (ppn_0 p) * 4096 \<and>
      unat (ppn_0 p) * 4096 + 4096 \<le> unat MEMORY_END)"
  have "wp (run_client frame_alloc frame_dealloc ops []) ?Q m" if inv: "mm_frames_inv ?l 0x801000 m" for m
  proof (rule wp_conseq)
    show "wp (run_client frame_alloc frame_dealloc ops [])
        (\<lambda>hs m'. distinct hs \<and> set hs \<subseteq> mm_live ?l m' \<and> mm_frames_inv ?l 0x801000 m') m"
      using inv by (rule mm_frames.client_exclusive) simp_all
  qed (use live_frame_bounds in \<open>auto 0 3 simp: MEMORY_END_def\<close>)
  then show ?thesis
    unfolding wp_thn by (intro wp_conseq [OF init_frame_allocator_inv [OF assms]]) blast
qed

theorem frames_held_exclusively_witness:
  "wp (thn (init_frame_allocator 0x80400123)
       (run_client frame_alloc frame_dealloc [Alloc, Alloc, Dealloc (PhysPageNum 0x80401), Alloc] []))
    (\<lambda>hs m'. distinct hs \<and> list_all (\<lambda>p. 0x80400123 \<le> unat (ppn_0 p) * 4096 \<and>
       unat (ppn_0 p) * 4096 + 4096 \<le> 0x801000000) hs)
    \<lparr>memory = \<lambda>_. replicate 4096 0, frame_allocator = StackFrameAllocator_new\<rparr>"
proof -
  have "unat (0x80400123 :: usize) \<le> unat MEMORY_END" by (simp add: MEMORY_END_def)
  from frames_held_exclusively [OF this, of
      "[Alloc, Alloc, Dealloc (PhysPageNum 0x80401), Alloc]"
      "\<lparr>memory = \<lambda>_. replicate 4096 0, frame_allocator = StackFrameAllocator_new\<rparr>"]
  show ?thesis by (simp add: MEMORY_END_def list_all_iff)
qed

text \<open>
  A frame that \<open>frame_alloc\<close> returns is filled with zeros, whatever its last owner
  left in it, and the contents of every other page of memory are untouched.
\<close>

theorem frame_alloc_zeroes:
  assumes "mm_frames_inv l r m" and "frame_alloc m = Inr (Some ppn, m')" and "p \<noteq> page_index ppn"
  shows "get_bytes_array m' ppn = replicate 4096 0 \<and> memory m' p = memory m p"
proof -
  from assms(1,2) have "mm_free m \<noteq> {}" using mm_frames.alloc_None by fastforce
  from wp_frame_alloc [OF assms(1) this] assms(2,3) show ?thesis
    by (simp add: wp_Inr get_bytes_array_def)
qed

theorem frame_alloc_zeroes_witness:
  "\<exists>ppn m'. frame_alloc \<lparr>memory = \<lambda>_. replicate 4096 7,
       frame_allocator = \<lparr>fa_current = 10, fa_end = 20, fa_recycled = [4, 6]\<rparr>\<rparr> = Inr (Some ppn, m') \<and>
     get_bytes_array m' ppn = replicate 4096 0 \<and> memory m' 4 = replicate 4096 7"
proof -
  let ?m = "\<lparr>memory = \<lambda>_. replicate 4096 7,
       frame_allocator = \<lparr>fa_current = 10, fa_end = 20, fa_recycled = [4, 6]\<rparr>\<rparr>"
  have inv: "mm_frames_inv 2 20 ?m" by (simp add: mm_frames_inv_def fa_inv_def)
  have "PhysPageNum_from_usize 6 = PhysPageNum 6" by (simp add: PhysPageNum_from_usize_id)
  then have alloc: "\<exists>m'. frame_alloc ?m = Inr (Some (PhysPageNum 6), m')"
    by (simp add: frame_alloc_eq StackFrameAllocator_alloc_def)
  then obtain m' where m': "frame_alloc ?m = Inr (Some (PhysPageNum 6), m')" by blast
  have "(4 :: usize) \<noteq> page_index (PhysPageNum 6)" by (simp add: page_index_id)
  from frame_alloc_zeroes [OF inv m' this] m' show ?thesis by auto
qed

text \<open>
  The allocator rejects (by a panic) a deallocation of a frame that is in its pool: a
  frame that was never handed out, and a frame given back already.
\<close>

theorem frame_dealloc_rejects:
  assumes "mm_frames_inv l r m"
  shows "(p \<in> mm_free m \<longrightarrow> frame_dealloc p m = Inl ExplicitPanic) \<and>
    (frame_dealloc p m = Inr (u, m') \<longrightarrow> frame_dealloc p m' = Inl ExplicitPanic)"
  using assms
  by (auto simp: frame_dealloc_def on_def StackFrameAllocator_dealloc_def fa_free_def Let_def
      word_le_nat_alt mm_frames_inv_def split: if_splits)

theorem frame_dealloc_rejects_witness:
  "frame_dealloc (PhysPageNum 4) \<lparr>memory = \<lambda>_. [],
     frame_allocator = \<lparr>fa_current = 10, fa_end = 20, fa_recycled = [4, 6]\<rparr>\<rparr> = Inl ExplicitPanic"
  by (rule frame_dealloc_rejects [THEN conjunct1, rule_format, of 2 20])
    (simp_all add: mm_frames_inv_def fa_inv_def fa_free_def)

text \<open>
  The check of \<open>dealloc\<close> looks at the upper end only: a frame below the first one of the
  pool, which was never allocated, is accepted, and the next allocation hands it out.
\<close>

theorem frame_dealloc_accepts_unallocated:
  "\<exists>m'. frame_dealloc (PhysPageNum 1) \<lparr>memory = \<lambda>_. [],
       frame_allocator = \<lparr>fa_current = 10, fa_end = 20, fa_recycled = []\<rparr>\<rparr> = Inr ((), m') \<and>
     (\<exists>m''. frame_alloc m' = Inr (Some (PhysPageNum 1), m''))"
proof -
  have "PhysPageNum_from_usize 1 = PhysPageNum 1" by (simp add: PhysPageNum_from_usize_id)
  then show ?thesis
    by (simp add: frame_dealloc_def on_def StackFrameAllocator_dealloc_def frame_alloc_eq
        StackFrameAllocator_alloc_def word_le_nat_alt)
qed

end
