(* ===== verification/Bytes.thy ===== *)
theory Bytes
  imports Prelude
begin

text \<open>
  Little-endian integers in byte arrays. The kernel and the file system reinterpret raw
  memory as typed data: a 512-byte block as \<open>[u32; 128]\<close> or \<open>[u64; 64]\<close>, a page as 512
  page table entries, and records declared \<open>repr(C)\<close>. This theory holds the encoding of
  the RISC-V target, its round trips, and the reading and writing of one array element.
\<close>

section \<open>Little-endian numbers\<close>

fun le_enc :: "nat \<Rightarrow> nat \<Rightarrow> byte list" where
  "le_enc 0 n = []"
| "le_enc (Suc k) n = word_of_nat (n mod 256) # le_enc k (n div 256)"

fun le_dec :: "byte list \<Rightarrow> nat" where
  "le_dec [] = 0"
| "le_dec (b # bs) = unat b + 256 * le_dec bs"

lemma length_le_enc [simp]: "length (le_enc k n) = k"
  by (induction k n rule: le_enc.induct) simp_all

lemma unat_byte_of_mod: "unat (word_of_nat (n mod 256) :: byte) = n mod 256"
  by (simp add: unat_of_nat)

lemma unat_byte_less: "unat (b :: byte) < 256"
  using unsigned_less [of b] by simp

lemma le_dec_enc: "le_dec (le_enc k n) = n mod 256 ^ k"
proof (induction k n rule: le_enc.induct)
  case (1 n)
  then show ?case by simp
next
  case (2 k n)
  have "n mod (256 * 256 ^ k) = 256 * (n div 256 mod 256 ^ k) + n mod 256"
    by (rule mod_mult2_eq)
  with 2 show ?case by (simp add: unat_byte_of_mod)
qed

lemma le_dec_enc_id [simp]: "n < 256 ^ k \<Longrightarrow> le_dec (le_enc k n) = n"
  by (simp add: le_dec_enc)

lemma le_dec_less: "le_dec bs < 256 ^ length bs"
proof (induction bs)
  case Nil
  then show ?case by simp
next
  case (Cons b bs)
  have "unat b < 256" by (rule unat_byte_less)
  moreover have "Suc (le_dec bs) * 256 \<le> 256 ^ length bs * 256"
    using Cons by (intro mult_le_mono1) simp
  ultimately show ?case by simp
qed

lemma byte_of_unat_mod: "(word_of_nat ((unat b + 256 * m) mod 256) :: byte) = b"
proof -
  have "unat b < 256" by (rule unat_byte_less)
  then show ?thesis by simp
qed

lemma le_enc_dec [simp]: "length bs = k \<Longrightarrow> le_enc k (le_dec bs) = bs"
proof (induction bs arbitrary: k)
  case Nil
  then show ?case by simp
next
  case (Cons b bs)
  have "unat b < 256" by (rule unat_byte_less)
  then have "(unat b + 256 * le_dec bs) div 256 = le_dec bs" by simp
  with Cons byte_of_unat_mod [of b "le_dec bs"] show ?case by auto
qed

lemma le_dec_replicate_0 [simp]: "le_dec (replicate k 0) = 0"
  by (induction k) simp_all

section \<open>Arrays of fixed-width numbers\<close>

text \<open>\<open>get_le w bs i\<close> is element \<open>i\<close> of \<open>bs\<close> seen as an array of \<open>w\<close>-byte integers.\<close>

definition get_le :: "nat \<Rightarrow> byte list \<Rightarrow> nat \<Rightarrow> nat" where
  "get_le w bs i = le_dec (segment (w * i) w bs)"

definition set_le :: "nat \<Rightarrow> byte list \<Rightarrow> nat \<Rightarrow> nat \<Rightarrow> byte list" where
  "set_le w bs i v = splice_at (w * i) (le_enc w v) bs"

lemma elem_fits: "i < n \<Longrightarrow> w * i + w \<le> w * (n :: nat)"
proof -
  assume "i < n"
  then have "w * Suc i \<le> w * n" by (intro mult_le_mono2) simp
  then show ?thesis by simp
qed

lemma length_set_le [simp]: "w * i + w \<le> length bs \<Longrightarrow> length (set_le w bs i v) = length bs"
  by (simp add: set_le_def)

lemma get_set_le_same [simp]:
  "w * i + w \<le> length bs \<Longrightarrow> v < 256 ^ w \<Longrightarrow> get_le w (set_le w bs i v) i = v"
  by (simp add: get_le_def set_le_def)

lemma get_set_le_other:
  assumes "w * i + w \<le> length bs" and "w * j + w \<le> length bs" and "i \<noteq> j"
  shows "get_le w (set_le w bs i v) j = get_le w bs j"
proof -
  have "w * j + w \<le> w * i \<or> w * i + w \<le> w * j"
    using assms(3) elem_fits [of i j w] elem_fits [of j i w] by linarith
  then show ?thesis
    using assms(1,2) by (simp add: get_le_def set_le_def segment_splice_at_other)
qed

lemma get_le_less: "w * i + w \<le> length bs \<Longrightarrow> get_le w bs i < 256 ^ w"
  using le_dec_less [of "segment (w * i) w bs"] by (simp add: get_le_def)

lemma get_le_zero [simp]: "get_le w (replicate n 0) i = 0"
proof -
  have "segment (w * i) w (replicate n 0) = replicate (min w (n - w * i)) (0 :: byte)"
    by (simp add: segment_def)
  then show ?thesis by (simp add: get_le_def)
qed

section \<open>Whole arrays\<close>

definition le_array :: "nat \<Rightarrow> nat \<Rightarrow> byte list \<Rightarrow> nat list" where
  "le_array w n bs = map (get_le w bs) [0..<n]"

definition enc_array :: "nat \<Rightarrow> nat list \<Rightarrow> byte list" where
  "enc_array w xs = concat (map (le_enc w) xs)"

lemma length_le_array [simp]: "length (le_array w n bs) = n"
  by (simp add: le_array_def)

lemma length_enc_array [simp]: "length (enc_array w xs) = w * length xs"
  by (induction xs) (simp_all add: enc_array_def)

lemma segment_enc_array: "i < length xs \<Longrightarrow> segment (w * i) w (enc_array w xs) = le_enc w (xs ! i)"
proof (induction xs arbitrary: i)
  case Nil
  then show ?case by simp
next
  case (Cons x xs)
  show ?case
  proof (cases i)
    case 0
    then show ?thesis by (simp add: enc_array_def segment_def)
  next
    case (Suc j)
    with Cons have "segment (w * j) w (enc_array w xs) = le_enc w (xs ! j)" by simp
    with Suc show ?thesis by (simp add: enc_array_def segment_def)
  qed
qed

lemma get_le_enc_array:
  "i < length xs \<Longrightarrow> xs ! i < 256 ^ w \<Longrightarrow> get_le w (enc_array w xs) i = xs ! i"
  by (simp add: get_le_def segment_enc_array)

lemma le_array_enc [simp]:
  assumes "length xs = n" and "\<forall>x \<in> set xs. x < 256 ^ w"
  shows "le_array w n (enc_array w xs) = xs"
  by (rule nth_equalityI) (use assms in \<open>auto simp: le_array_def get_le_enc_array\<close>)

lemma enc_array_append: "enc_array w (xs @ ys) = enc_array w xs @ enc_array w ys"
  by (simp add: enc_array_def)

lemma le_array_less: "w * n \<le> length bs \<Longrightarrow> x \<in> set (le_array w n bs) \<Longrightarrow> x < 256 ^ w"
  using elem_fits [of _ n w] by (fastforce simp: le_array_def intro: get_le_less)

lemma enc_le_array [simp]: "length bs = w * n \<Longrightarrow> enc_array w (le_array w n bs) = bs"
proof (induction n arbitrary: bs)
  case 0
  then show ?case by (simp add: le_array_def enc_array_def)
next
  case (Suc n)
  let ?p = "take (w * n) bs" and ?q = "drop (w * n) bs"
  have len: "length ?p = w * n" "length ?q = w" using Suc.prems by simp_all
  have "segment (w * i) w bs = segment (w * i) w ?p" if "i < n" for i
    using elem_fits [OF that, of w] by (simp add: segment_def take_drop)
  then have "map (get_le w bs) [0..<n] = le_array w n ?p"
    by (simp add: le_array_def get_le_def)
  moreover have "get_le w bs n = le_dec ?q"
    using len(2) by (simp add: get_le_def segment_def)
  ultimately have "le_array w (Suc n) bs = le_array w n ?p @ [le_dec ?q]"
    by (simp add: le_array_def)
  then have "enc_array w (le_array w (Suc n) bs) = ?p @ ?q"
    using Suc.IH [OF len(1)] le_enc_dec [OF len(2)] by (simp add: enc_array_append enc_array_def)
  then show ?case by simp
qed

end
