(* ===== verification/Page_Table.thy ===== *)
theory Page_Table
  imports Frame_Allocator Bytes
begin

text \<open>
  Page table entries and the three-level SV39 page table
  (\<open>src/os/src/mm/page_table.rs\<close>). A table is a physical page read as 512 little-endian
  64-bit entries; a mutable reference to an entry is its slot, the page number of the table
  and the index in it. A \<open>PageTable\<close> owns the frames of its tables.
\<close>

section \<open>Page table entries\<close>

text \<open>
  \<open>PTEFlags\<close> has all eight bits defined, so \<open>from_bits\<close> accepts every byte.
\<close>

type_synonym pte_flags = u8

definition PTE_V :: pte_flags where "PTE_V = push_bit 0 1"
definition PTE_R :: pte_flags where "PTE_R = push_bit 1 1"
definition PTE_W :: pte_flags where "PTE_W = push_bit 2 1"
definition PTE_X :: pte_flags where "PTE_X = push_bit 3 1"
definition PTE_U :: pte_flags where "PTE_U = push_bit 4 1"
definition PTE_G :: pte_flags where "PTE_G = push_bit 5 1"
definition PTE_A :: pte_flags where "PTE_A = push_bit 6 1"
definition PTE_D :: pte_flags where "PTE_D = push_bit 7 1"

lemmas PTEFlags_defs = PTE_V_def PTE_R_def PTE_W_def PTE_X_def PTE_U_def PTE_G_def PTE_A_def PTE_D_def

datatype page_table_entry = PageTableEntry (pte_bits: usize)

definition PageTableEntry_new :: "phys_page_num \<Rightarrow> pte_flags \<Rightarrow> page_table_entry" where
  "PageTableEntry_new ppn flags = PageTableEntry (push_bit 10 (ppn_0 ppn) OR ucast flags)"

definition PageTableEntry_empty :: page_table_entry where
  "PageTableEntry_empty = PageTableEntry 0"

definition pte_ppn :: "page_table_entry \<Rightarrow> phys_page_num" where
  "pte_ppn pte = PhysPageNum_from_usize (drop_bit 10 (pte_bits pte) AND (push_bit 44 1 - 1))"

definition flags :: "page_table_entry \<Rightarrow> pte_flags" where
  "flags pte = ucast (pte_bits pte)"

definition is_valid :: "page_table_entry \<Rightarrow> bool" where
  "is_valid pte \<longleftrightarrow> flags pte AND PTE_V \<noteq> 0"

definition readable :: "page_table_entry \<Rightarrow> bool" where
  "readable pte \<longleftrightarrow> flags pte AND PTE_R \<noteq> 0"

definition writable :: "page_table_entry \<Rightarrow> bool" where
  "writable pte \<longleftrightarrow> flags pte AND PTE_W \<noteq> 0"

definition executable :: "page_table_entry \<Rightarrow> bool" where
  "executable pte \<longleftrightarrow> flags pte AND PTE_X \<noteq> 0"

section \<open>Entries in memory\<close>

definition get_pte :: "mm \<Rightarrow> phys_page_num \<Rightarrow> usize \<Rightarrow> page_table_entry" where
  "get_pte m ppn idx = PageTableEntry (word_of_nat (get_le 8 (get_bytes_array m ppn) (unat idx)))"

definition set_pte :: "phys_page_num \<Rightarrow> usize \<Rightarrow> page_table_entry \<Rightarrow> mm \<Rightarrow> mm" where
  "set_pte ppn idx pte m =
     set_bytes_array ppn (set_le 8 (get_bytes_array m ppn) (unat idx) (unat (pte_bits pte))) m"

section \<open>The page table\<close>

record page_table =
  root_ppn :: phys_page_num
  pt_frames :: "phys_page_num list"

type_synonym pte_slot = "phys_page_num \<times> usize"

definition PageTable_new :: "page_table mm_action" where
  "PageTable_new =
     bnd frame_alloc (\<lambda>r. bnd (unwrap r) (\<lambda>frame.
       ret \<lparr>root_ppn = frame, pt_frames = [frame]\<rparr>))"

definition PageTable_from_token :: "usize \<Rightarrow> page_table" where
  "PageTable_from_token satp =
     \<lparr>root_ppn = PhysPageNum_from_usize (satp AND (push_bit 44 1 - 1)), pt_frames = []\<rparr>"

definition create_if_invalid :: "phys_page_num \<Rightarrow> usize \<Rightarrow> page_table \<Rightarrow> page_table mm_action" where
  "create_if_invalid ppn idx pt =
     bnd (gets (\<lambda>m. get_pte m ppn idx)) (\<lambda>pte.
       if \<not> is_valid pte then
         bnd frame_alloc (\<lambda>r. bnd (unwrap r) (\<lambda>frame.
         thn (upd (set_pte ppn idx (PageTableEntry_new frame PTE_V)))
           (ret (pt\<lparr>pt_frames := pt_frames pt @ [frame]\<rparr>))))
       else ret pt)"

fun find_pte_create_loop ::
    "(nat \<times> usize) list \<Rightarrow> phys_page_num \<Rightarrow> page_table \<Rightarrow>
     (pte_slot option \<times> page_table) mm_action" where
  "find_pte_create_loop [] ppn pt = ret (None, pt)"
| "find_pte_create_loop ((i, idx) # rest) ppn pt =
     (if i = 2 then ret (Some (ppn, idx), pt)
      else
        bnd (create_if_invalid ppn idx pt) (\<lambda>pt.
        bnd (gets (\<lambda>m. get_pte m ppn idx)) (\<lambda>pte.
        find_pte_create_loop rest (pte_ppn pte) pt)))"

definition find_pte_create ::
    "page_table \<Rightarrow> virt_page_num \<Rightarrow> (pte_slot option \<times> page_table) mm_action" where
  "find_pte_create pt vpn =
     find_pte_create_loop (enumerate 0 (VirtPageNum_indexes vpn)) (root_ppn pt) pt"

fun find_pte_loop :: "mm \<Rightarrow> (nat \<times> usize) list \<Rightarrow> phys_page_num \<Rightarrow> pte_slot option" where
  "find_pte_loop m [] ppn = None"
| "find_pte_loop m ((i, idx) # rest) ppn =
     (if i = 2 then Some (ppn, idx)
      else
        (let pte = get_pte m ppn idx in
         if \<not> is_valid pte then None else find_pte_loop m rest (pte_ppn pte)))"

definition find_pte :: "mm \<Rightarrow> page_table \<Rightarrow> virt_page_num \<Rightarrow> pte_slot option" where
  "find_pte m pt vpn = find_pte_loop m (enumerate 0 (VirtPageNum_indexes vpn)) (root_ppn pt)"

definition PageTable_map ::
    "page_table \<Rightarrow> virt_page_num \<Rightarrow> phys_page_num \<Rightarrow> pte_flags \<Rightarrow> page_table mm_action" where
  "PageTable_map pt vpn ppn fl =
     bnd (find_pte_create pt vpn) (\<lambda>(r, pt).
     bnd (unwrap r) (\<lambda>(p, idx).
     bnd (gets (\<lambda>m. get_pte m p idx)) (\<lambda>pte.
     thn (assert_that (\<not> is_valid pte))
     (thn (upd (set_pte p idx (PageTableEntry_new ppn (fl OR PTE_V)))) (ret pt)))))"

definition PageTable_unmap :: "page_table \<Rightarrow> virt_page_num \<Rightarrow> unit mm_action" where
  "PageTable_unmap pt vpn =
     bnd (gets (\<lambda>m. find_pte m pt vpn)) (\<lambda>r.
     bnd (unwrap r) (\<lambda>(p, idx).
     bnd (gets (\<lambda>m. get_pte m p idx)) (\<lambda>pte.
     thn (assert_that (is_valid pte))
     (upd (set_pte p idx PageTableEntry_empty)))))"

definition PageTable_translate :: "mm \<Rightarrow> page_table \<Rightarrow> virt_page_num \<Rightarrow> page_table_entry option" where
  "PageTable_translate m pt vpn = map_option (\<lambda>(p, idx). get_pte m p idx) (find_pte m pt vpn)"

definition PageTable_translate_va :: "mm \<Rightarrow> page_table \<Rightarrow> virt_addr \<Rightarrow> phys_addr option" where
  "PageTable_translate_va m pt va =
     map_option (\<lambda>(p, idx).
         (let aligned_pa = PhysAddr_from_PhysPageNum (pte_ppn (get_pte m p idx));
              offset = VirtAddr_page_offset va;
              aligned_pa_usize = usize_from_PhysAddr aligned_pa
          in PhysAddr_from_usize (aligned_pa_usize + offset)))
       (find_pte m pt (VirtAddr_floor va))"

definition PageTable_token :: "page_table \<Rightarrow> usize" where
  "PageTable_token pt = push_bit 60 8 OR ppn_0 (root_ppn pt)"

section \<open>Entries as numbers\<close>

lemma take_bit_of_small:
  assumes "unat (a :: 'a::len word) < 2 ^ n"
  shows "take_bit n a = a"
proof -
  have "unat (take_bit n a) = unat a"
    using assms by (simp add: unsigned_take_bit_eq take_bit_nat_eq_self)
  then show ?thesis by (simp add: word_unat_eq_iff)
qed

lemma pte_ppn_new:
  assumes "unat (ppn_0 ppn) < 2 ^ 44"
  shows "pte_ppn (PageTableEntry_new ppn fl) = ppn"
proof -
  let ?p = "ppn_0 ppn"
  note small = take_bit_of_small [OF assms]
  have "drop_bit 10 (push_bit 10 ?p OR ucast fl) AND mask 44 = take_bit 44 ?p"
    by (rule bit_word_eqI) (auto simp: bit_simps dest: bit_imp_le_length)
  then have "drop_bit 10 (push_bit 10 ?p OR ucast fl) AND mask 44 = ?p" by (simp only: small)
  then show ?thesis
    using assms
    by (simp only: pte_ppn_def PageTableEntry_new_def page_table_entry.sel low_mask
        PhysPageNum_from_usize_id phys_page_num.collapse)
qed

lemma flags_new [simp]: "flags (PageTableEntry_new ppn fl) = fl"
proof -
  have "(ucast (push_bit 10 (ppn_0 ppn) OR ucast fl) :: u8) = fl"
    by (rule bit_word_eqI) (auto simp: bit_simps)
  then show ?thesis by (simp add: flags_def PageTableEntry_new_def)
qed

lemma and_single_bit: "fl AND push_bit n 1 \<noteq> 0 \<longleftrightarrow> bit fl n" for fl :: pte_flags
  unfolding push_bit_of_1 by (simp add: and_exp_eq_0_iff_not_bit)

lemma and_PTE:
  "fl AND PTE_R \<noteq> 0 \<longleftrightarrow> bit fl 1" "fl AND PTE_W \<noteq> 0 \<longleftrightarrow> bit fl 2" "fl AND PTE_X \<noteq> 0 \<longleftrightarrow> bit fl 3"
  unfolding PTE_R_def PTE_W_def PTE_X_def by (rule and_single_bit)+

lemma permission_bits:
  "readable pte \<longleftrightarrow> bit (flags pte) 1" "writable pte \<longleftrightarrow> bit (flags pte) 2" "executable pte \<longleftrightarrow> bit (flags pte) 3"
  by (simp_all add: readable_def writable_def executable_def and_PTE)

lemma PTE_V_valid: "(fl OR PTE_V) AND PTE_V = PTE_V"
  by (rule bit_word_eqI) (auto simp: bit_simps)

lemma PTE_V_nonzero [simp]: "PTE_V \<noteq> 0"
  by (simp add: PTE_V_def)

lemma is_valid_new [simp]: "is_valid (PageTableEntry_new ppn (fl OR PTE_V))"
  by (simp add: is_valid_def PTE_V_valid)

lemma is_valid_new_V [simp]: "is_valid (PageTableEntry_new ppn PTE_V)"
  by (simp add: is_valid_def)

lemma is_valid_empty [simp]: "\<not> is_valid PageTableEntry_empty"
  by (simp add: is_valid_def flags_def PageTableEntry_empty_def)

lemma unat_pte_ppn [simp]: "unat (ppn_0 (pte_ppn pte)) < 2 ^ 44" "unat (ppn_0 (pte_ppn pte)) < 17592186044416"
  by (simp_all add: pte_ppn_def)

section \<open>Reading and writing entries\<close>

text \<open>Every page of memory holds 4096 bytes.\<close>

definition memory_ok :: "mm \<Rightarrow> bool" where
  "memory_ok m \<longleftrightarrow> (\<forall>p. length (memory m p) = 4096)"

lemma memory_ok_set_pte [simp]:
  assumes "memory_ok m" and "unat idx < 512"
  shows "memory_ok (set_pte ppn idx pte m)"
  using assms by (auto simp: memory_ok_def set_pte_def set_bytes_array_def get_bytes_array_def)

lemma get_set_pte_same [simp]:
  assumes "memory_ok m" and "unat idx < 512"
  shows "get_pte (set_pte ppn idx pte m) ppn idx = pte"
  using assms unat_less_64 [of "pte_bits pte"]
  by (simp add: memory_ok_def get_pte_def set_pte_def set_bytes_array_def get_bytes_array_def)

lemma get_set_pte_other:
  assumes "memory_ok m" and "unat idx < 512" and "unat idx' < 512"
    and "page_index ppn \<noteq> page_index ppn' \<or> idx \<noteq> idx'"
  shows "get_pte (set_pte ppn idx pte m) ppn' idx' = get_pte m ppn' idx'"
proof -
  have "idx \<noteq> idx' \<Longrightarrow> unat idx \<noteq> unat idx'" by (simp add: word_unat_eq_iff)
  with assms show ?thesis
    by (auto simp: memory_ok_def get_pte_def set_pte_def set_bytes_array_def get_bytes_array_def
        get_set_le_other)
qed

lemma page_index_inj:
  assumes "unat (ppn_0 p) < 2 ^ 44" and "unat (ppn_0 q) < 2 ^ 44"
  shows "page_index p = page_index q \<longleftrightarrow> p = q"
  using assms by (simp add: page_index_id) (auto simp: phys_page_num.expand)

lemma get_pte_zero_page:
  "memory m (page_index p) = replicate 4096 0 \<Longrightarrow> get_pte m p idx = PageTableEntry_empty"
  by (simp add: get_pte_def get_bytes_array_def PageTableEntry_empty_def)

section \<open>Walking the table\<close>

text \<open>
  \<open>walk m p is\<close> is the table reached from table \<open>p\<close> over the entries \<open>is\<close>; it is
  the specification of both search loops.
\<close>

fun walk :: "mm \<Rightarrow> phys_page_num \<Rightarrow> usize list \<Rightarrow> phys_page_num option" where
  "walk m p [] = Some p"
| "walk m p (i # is) = (let e = get_pte m p i in if is_valid e then walk m (pte_ppn e) is else None)"

definition hi_path :: "virt_page_num \<Rightarrow> usize list" where
  "hi_path vpn = take 2 (VirtPageNum_indexes vpn)"

definition lo_index :: "virt_page_num \<Rightarrow> usize" where
  "lo_index vpn = VirtPageNum_indexes vpn ! 2"

lemma indexes_split: "VirtPageNum_indexes vpn = hi_path vpn @ [lo_index vpn]"
  by (simp add: hi_path_def lo_index_def VirtPageNum_indexes_eq)

lemma length_hi_path [simp]: "length (hi_path vpn) = 2"
  by (simp add: hi_path_def)

lemma find_pte_walk:
  "find_pte m pt vpn = map_option (\<lambda>p. (p, lo_index vpn)) (walk m (root_ppn pt) (hi_path vpn))"
  by (simp add: find_pte_def hi_path_def lo_index_def VirtPageNum_indexes_eq Let_def)

lemma lo_index_less [simp]: "unat (lo_index vpn) < 512"
  by (rule indexes_less [of _ vpn]) (simp add: indexes_split)

lemma hi_path_less: "i \<in> set (hi_path vpn) \<Longrightarrow> unat i < 512"
  by (rule indexes_less [of _ vpn]) (simp add: indexes_split)

lemma walk_append:
  "walk m p (is @ js) = (case walk m p is of None \<Rightarrow> None | Some q \<Rightarrow> walk m q js)"
  by (induction "is" arbitrary: p) (auto simp: Let_def)

text \<open>A walk depends only on the entries it passes.\<close>

lemma walk_cong:
  assumes "\<And>n q. n < length is \<Longrightarrow> walk m p (take n is) = Some q \<Longrightarrow>
    get_pte m' q (is ! n) = get_pte m q (is ! n)"
  shows "walk m' p is = walk m p is"
  using assms
proof (induction "is" arbitrary: p)
  case Nil
  then show ?case by simp
next
  case (Cons i js)
  have e: "get_pte m' p i = get_pte m p i" using Cons.prems [of 0] by simp
  have "walk m' (pte_ppn (get_pte m p i)) js = walk m (pte_ppn (get_pte m p i)) js"
    if "is_valid (get_pte m p i)"
  proof (rule Cons.IH)
    fix n q
    assume "n < length js" and "walk m (pte_ppn (get_pte m p i)) (take n js) = Some q"
    then show "get_pte m' q (js ! n) = get_pte m q (js ! n)"
      using Cons.prems [of "Suc n" q] that by (simp add: Let_def)
  qed
  with e show ?case by (simp add: Let_def)
qed

section \<open>Well-formed page tables\<close>

text \<open>
  The tables reached by different paths are different frames, all owned by the page table,
  and held in the allocator; the table pages are separate from each other by construction.
\<close>

definition path_ok :: "usize list \<Rightarrow> bool" where
  "path_ok is \<longleftrightarrow> length is \<le> 2 \<and> (\<forall>i \<in> set is. unat i < 512)"

definition pt_wf :: "nat \<Rightarrow> mm \<Rightarrow> page_table \<Rightarrow> bool" where
  "pt_wf l m pt \<longleftrightarrow>
     memory_ok m \<and> set (pt_frames pt) \<subseteq> mm_live l m \<and>
     (\<forall>p \<in> set (pt_frames pt). unat (ppn_0 p) < 2 ^ 44) \<and>
     (\<forall>is p. path_ok is \<longrightarrow> walk m (root_ppn pt) is = Some p \<longrightarrow> p \<in> set (pt_frames pt)) \<and>
     (\<forall>is js p. path_ok is \<longrightarrow> path_ok js \<longrightarrow> walk m (root_ppn pt) is = Some p \<longrightarrow>
        walk m (root_ppn pt) js = Some p \<longrightarrow> is = js)"

lemma path_ok_hi_path [simp]: "path_ok (hi_path vpn)"
  using hi_path_less by (auto simp: path_ok_def)

lemma path_ok_take: "path_ok is \<Longrightarrow> path_ok (take n is)"
  by (auto simp: path_ok_def dest: in_set_takeD)

text \<open>What the page table means: the valid translations.\<close>

definition pt_abs :: "mm \<Rightarrow> page_table \<Rightarrow> virt_page_num \<Rightarrow> page_table_entry option" where
  "pt_abs m pt vpn =
     (case PageTable_translate m pt vpn of
        None \<Rightarrow> None
      | Some pte \<Rightarrow> if is_valid pte then Some pte else None)"

lemma pt_abs_walk:
  "pt_abs m pt vpn =
     (case walk m (root_ppn pt) (hi_path vpn) of
        None \<Rightarrow> None
      | Some p \<Rightarrow> let e = get_pte m p (lo_index vpn) in if is_valid e then Some e else None)"
  by (simp add: pt_abs_def PageTable_translate_def find_pte_walk Let_def split: option.splits)

lemma pt_wf_frame:
  assumes "pt_wf l m pt" and "path_ok is" and "walk m (root_ppn pt) is = Some p"
  shows "p \<in> set (pt_frames pt)" and "unat (ppn_0 p) < 2 ^ 44" and "p \<in> mm_live l m"
  using assms unfolding pt_wf_def by blast+

lemma pt_wf_inj:
  assumes "pt_wf l m pt" and "path_ok is" and "path_ok js"
    and "walk m (root_ppn pt) is = Some p" and "walk m (root_ppn pt) js = Some p"
  shows "is = js"
  using assms unfolding pt_wf_def by blast

lemma pt_wf_page_index:
  assumes "pt_wf l m pt" and "path_ok is" and "path_ok js"
    and "walk m (root_ppn pt) is = Some p" and "walk m (root_ppn pt) js = Some q"
    and "page_index p = page_index q"
  shows "is = js" and "p = q"
proof -
  have "p = q"
    using assms page_index_inj [of p q] pt_wf_frame(2) [OF assms(1,2,4)] pt_wf_frame(2) [OF assms(1,3,5)]
    by blast
  then show "p = q" "is = js" using assms pt_wf_inj by blast+
qed

subsection \<open>Writing a leaf entry\<close>

lemma walk_set_leaf:
  assumes wf: "pt_wf l m pt" and p: "path_ok is" "length is = 2" "walk m (root_ppn pt) is = Some p"
    and "unat k < 512" and js: "path_ok js"
  shows "walk (set_pte p k e m) (root_ppn pt) js = walk m (root_ppn pt) js"
proof (rule walk_cong)
  fix n q
  assume n: "n < length js" and q: "walk m (root_ppn pt) (take n js) = Some q"
  have "take n js \<noteq> is" using n js p(2) by (auto simp: path_ok_def)
  then have "page_index p \<noteq> page_index q"
    using pt_wf_page_index(1) [OF wf p(1) path_ok_take [OF js] p(3) q] by auto
  moreover have "unat (js ! n) < 512" using n js by (simp add: path_ok_def)
  moreover have "memory_ok m" using wf by (simp add: pt_wf_def)
  ultimately show "get_pte (set_pte p k e m) q (js ! n) = get_pte m q (js ! n)"
    using assms(5) by (simp add: get_set_pte_other)
qed

lemma frame_allocator_set_pte [simp]: "frame_allocator (set_pte p k e m) = frame_allocator m"
  by (simp add: set_pte_def)

lemma pt_wf_set_leaf:
  assumes "pt_wf l m pt" and "path_ok is" "length is = 2" "walk m (root_ppn pt) is = Some p"
    and "unat k < 512"
  shows "pt_wf l (set_pte p k e m) pt"
  using assms(1) walk_set_leaf [OF assms] memory_ok_set_pte [OF _ assms(5)]
  unfolding pt_wf_def by (simp del: split_paired_All)

lemma pt_abs_set_leaf:
  assumes "pt_wf l m pt" and "walk m (root_ppn pt) (hi_path vpn) = Some p"
  shows "pt_abs (set_pte p (lo_index vpn) e m) pt v =
    (if VirtPageNum_indexes v = VirtPageNum_indexes vpn
     then (if is_valid e then Some e else None) else pt_abs m pt v)"
proof -
  have ok: "memory_ok m" using assms(1) by (simp add: pt_wf_def)
  have w: "walk (set_pte p (lo_index vpn) e m) (root_ppn pt) (hi_path v) = walk m (root_ppn pt) (hi_path v)"
    using assms by (intro walk_set_leaf) auto
  have same: "get_pte (set_pte p (lo_index vpn) e m) q (lo_index v) = get_pte m q (lo_index v)"
    if "walk m (root_ppn pt) (hi_path v) = Some q" "\<not> (hi_path v = hi_path vpn \<and> lo_index v = lo_index vpn)" for q
  proof (cases "hi_path v = hi_path vpn")
    case True
    with that show ?thesis using ok by (simp add: get_set_pte_other)
  next
    case False
    then have "page_index p \<noteq> page_index q"
      using pt_wf_page_index(1) [OF assms(1) _ _ assms(2) that(1)] by auto
    then show ?thesis using ok by (simp add: get_set_pte_other)
  qed
  have "VirtPageNum_indexes v = VirtPageNum_indexes vpn \<longleftrightarrow> hi_path v = hi_path vpn \<and> lo_index v = lo_index vpn"
    by (simp add: indexes_split)
  then show ?thesis
    using w same assms(2) ok by (auto simp: pt_abs_walk Let_def split: option.splits)
qed

subsection \<open>Adding a table\<close>

text \<open>
  The effect of \<open>find_pte_create\<close> at one level: a fresh frame \<open>f\<close>, cleared by the
  allocator, is entered at index \<open>i\<close> of the table \<open>p\<close>.
\<close>

definition table_added ::
    "nat \<Rightarrow> mm \<Rightarrow> page_table \<Rightarrow> usize list \<Rightarrow> usize \<Rightarrow> phys_page_num \<Rightarrow> phys_page_num \<Rightarrow> mm \<Rightarrow> bool" where
  "table_added l m pt is i p f m1 \<longleftrightarrow>
     pt_wf l m pt \<and> path_ok (is @ [i]) \<and> walk m (root_ppn pt) is = Some p \<and>
     \<not> is_valid (get_pte m p i) \<and> f \<notin> mm_live l m \<and> unat (ppn_0 f) < 2 ^ 44 \<and>
     memory m1 = (memory m)(page_index f := replicate 4096 0)"

lemma table_added_ok:
  assumes "table_added l m pt is i p f m1"
  shows "memory_ok m1" and "path_ok is" and "unat i < 512" and "page_index p \<noteq> page_index f"
    and "\<And>q. q \<in> set (pt_frames pt) \<Longrightarrow> page_index q \<noteq> page_index f"
proof -
  show "memory_ok m1" "path_ok is" "unat i < 512"
    using assms by (auto simp: table_added_def pt_wf_def memory_ok_def path_ok_def)
  show frame: "page_index q \<noteq> page_index f" if "q \<in> set (pt_frames pt)" for q
  proof -
    from assms that have "q \<noteq> f" "unat (ppn_0 q) < 2 ^ 44" "unat (ppn_0 f) < 2 ^ 44"
      by (auto simp: table_added_def pt_wf_def)
    then show ?thesis by (simp add: page_index_inj)
  qed
  show "page_index p \<noteq> page_index f"
    using assms \<open>path_ok is\<close> by (intro frame) (auto simp: table_added_def intro: pt_wf_frame(1))
qed

lemma get_pte_table_added:
  assumes "table_added l m pt is i p f m1" and "q \<in> set (pt_frames pt)"
  shows "get_pte m1 q k = get_pte m q k"
  using assms table_added_ok(5) [OF assms]
  by (simp add: table_added_def get_pte_def get_bytes_array_def)

lemma walk_table_added_other:
  assumes add: "table_added l m pt is i p f m1" and js: "path_ok js"
    and "take (Suc (length is)) js \<noteq> is @ [i]"
  shows "walk (set_pte p i e m1) (root_ppn pt) js = walk m (root_ppn pt) js"
proof (rule walk_cong)
  fix n q
  assume n: "n < length js" and q: "walk m (root_ppn pt) (take n js) = Some q"
  have wf: "pt_wf l m pt" and p: "walk m (root_ppn pt) is = Some p"
    using add by (auto simp: table_added_def)
  have jn: "unat (js ! n) < 512" using n js by (simp add: path_ok_def)
  have "page_index p \<noteq> page_index q \<or> i \<noteq> js ! n"
  proof (rule ccontr)
    assume "\<not> ?thesis"
    then have "page_index p = page_index q" "i = js ! n" by auto
    from pt_wf_page_index(1) [OF wf table_added_ok(2) [OF add] path_ok_take [OF js] p q this(1)]
    have "is = take n js" .
    then have "take (Suc (length is)) js = is @ [i]"
      using n \<open>i = js ! n\<close> by (simp add: take_Suc_conv_app_nth min_def)
    with assms(3) show False ..
  qed
  then have "get_pte (set_pte p i e m1) q (js ! n) = get_pte m1 q (js ! n)"
    using jn table_added_ok(1,3) [OF add] by (intro get_set_pte_other) auto
  also have "\<dots> = get_pte m q (js ! n)"
    using add pt_wf_frame(1) [OF wf path_ok_take [OF js] q] by (rule get_pte_table_added)
  finally show "get_pte (set_pte p i e m1) q (js ! n) = get_pte m q (js ! n)" .
qed

lemma walk_table_added_new:
  assumes add: "table_added l m pt is i p f m1" and js: "path_ok (is @ i # ks)"
  shows "walk (set_pte p i (PageTableEntry_new f PTE_V) m1) (root_ppn pt) (is @ i # ks) =
    (if ks = [] then Some f else None)"
proof -
  let ?m = "set_pte p i (PageTableEntry_new f PTE_V) m1"
  have f: "unat (ppn_0 f) < 2 ^ 44" and p: "walk m (root_ppn pt) is = Some p"
    and zero: "memory m1 (page_index f) = replicate 4096 0"
    using add by (auto simp: table_added_def)
  have "walk ?m (root_ppn pt) is = walk m (root_ppn pt) is"
    using add table_added_ok(2) [OF add] by (rule walk_table_added_other) simp
  then have "walk ?m (root_ppn pt) (is @ i # ks) = walk ?m f ks"
    using p table_added_ok(1,3) [OF add] pte_ppn_new [OF f] by (simp add: walk_append Let_def)
  moreover have "\<not> is_valid (get_pte ?m f k)" if "unat k < 512" for k
  proof -
    have "get_pte ?m f k = get_pte m1 f k"
      using table_added_ok(1,3,4) [OF add] that by (intro get_set_pte_other) auto
    then show ?thesis by (simp add: get_pte_zero_page [OF zero])
  qed
  ultimately show ?thesis using js by (cases ks) (auto simp: path_ok_def Let_def)
qed

lemma walk_table_added:
  assumes add: "table_added l m pt is i p f m1" and js: "path_ok js"
  shows "walk (set_pte p i (PageTableEntry_new f PTE_V) m1) (root_ppn pt) js =
    (if js = is @ [i] then Some f else walk m (root_ppn pt) js)"
proof (cases "take (Suc (length is)) js = is @ [i]")
  case True
  then have eq: "js = is @ i # drop (Suc (length is)) js"
    by (metis append_Cons append_Nil append_assoc append_take_drop_id)
  have p: "walk m (root_ppn pt) is = Some p" "\<not> is_valid (get_pte m p i)"
    using add by (auto simp: table_added_def)
  have "walk m (root_ppn pt) (is @ i # ks) = None" for ks
    using p by (simp add: walk_append Let_def)
  then show ?thesis
    using walk_table_added_new [OF add, of "drop (Suc (length is)) js"] js eq by (metis append_eq_append_conv list.inject)
next
  case False
  then have "js \<noteq> is @ [i]" by auto
  with walk_table_added_other [OF add js False] show ?thesis by simp
qed

lemma fa_live_finite [simp]: "finite (S :: phys_page_num set)"
proof -
  have "S \<subseteq> PhysPageNum ` UNIV" using phys_page_num.exhaust by blast
  then show ?thesis by (rule finite_subset) simp
qed

lemma fa_free_bounds: "mm_frames_inv l r m \<Longrightarrow> p \<in> mm_free m \<Longrightarrow> unat (ppn_0 p) < 2 ^ 44"
  by (fastforce simp: mm_frames_inv_def fa_inv_def fa_free_def)

text \<open>
  \<open>pt_grown l r m pt m' pt'\<close>: the page table may have grown by frames taken from the
  allocator, and no page outside its tables has changed. It \<open>extends\<close> the table when its
  translations are also the same.
\<close>

definition pt_grown :: "nat \<Rightarrow> nat \<Rightarrow> mm \<Rightarrow> page_table \<Rightarrow> mm \<Rightarrow> page_table \<Rightarrow> bool" where
  "pt_grown l r m pt m' pt' \<longleftrightarrow>
     mm_frames_inv l r m' \<and> pt_wf l m' pt' \<and> root_ppn pt' = root_ppn pt \<and>
     (\<exists>new. pt_frames pt' = pt_frames pt @ new \<and> distinct new \<and> set new \<subseteq> mm_free m \<and>
        mm_live l m' = mm_live l m \<union> set new \<and> mm_free m' = mm_free m - set new) \<and>
     (\<forall>q. q \<notin> page_index ` set (pt_frames pt') \<longrightarrow> memory m' q = memory m q)"

definition pt_extends :: "nat \<Rightarrow> nat \<Rightarrow> mm \<Rightarrow> page_table \<Rightarrow> mm \<Rightarrow> page_table \<Rightarrow> bool" where
  "pt_extends l r m pt m' pt' \<longleftrightarrow> pt_grown l r m pt m' pt' \<and> pt_abs m' pt' = pt_abs m pt"

lemma pt_grown_refl: "mm_frames_inv l r m \<Longrightarrow> pt_wf l m pt \<Longrightarrow> pt_grown l r m pt m pt"
  by (simp add: pt_grown_def)

lemma pt_extends_refl: "mm_frames_inv l r m \<Longrightarrow> pt_wf l m pt \<Longrightarrow> pt_extends l r m pt m pt"
  by (simp add: pt_extends_def pt_grown_refl)

lemma pt_grown_trans:
  assumes "pt_grown l r m pt m1 pt1" and "pt_grown l r m1 pt1 m2 pt2"
  shows "pt_grown l r m pt m2 pt2"
proof -
  from assms(1) obtain a where a: "pt_frames pt1 = pt_frames pt @ a" "distinct a" "set a \<subseteq> mm_free m"
      "mm_live l m1 = mm_live l m \<union> set a" "mm_free m1 = mm_free m - set a"
    unfolding pt_grown_def by blast
  from assms(2) obtain b where b: "pt_frames pt2 = pt_frames pt1 @ b" "distinct b" "set b \<subseteq> mm_free m1"
      "mm_live l m2 = mm_live l m1 \<union> set b" "mm_free m2 = mm_free m1 - set b"
    unfolding pt_grown_def by blast
  have "pt_frames pt2 = pt_frames pt @ (a @ b)" "distinct (a @ b)" "set (a @ b) \<subseteq> mm_free m"
      "mm_live l m2 = mm_live l m \<union> set (a @ b)" "mm_free m2 = mm_free m - set (a @ b)"
    using a b by auto
  moreover have "\<forall>q. q \<notin> page_index ` set (pt_frames pt2) \<longrightarrow> memory m2 q = memory m q"
    using assms b(1) unfolding pt_grown_def by auto
  ultimately show ?thesis using assms unfolding pt_grown_def by metis
qed

lemma pt_extends_trans:
  "pt_extends l r m pt m1 pt1 \<Longrightarrow> pt_extends l r m1 pt1 m2 pt2 \<Longrightarrow> pt_extends l r m pt m2 pt2"
  using pt_grown_trans by (auto simp: pt_extends_def)

lemma pt_abs_table_added:
  assumes "table_added l m pt is i p f m1"
  shows "pt_abs (set_pte p i (PageTableEntry_new f PTE_V) m1) pt = pt_abs m pt"
proof
  fix v
  let ?m = "set_pte p i (PageTableEntry_new f PTE_V) m1"
  note add = assms
  have wf: "pt_wf l m pt" and p: "walk m (root_ppn pt) is = Some p" and len: "length is < 2"
    and zero: "memory m1 (page_index f) = replicate 4096 0" and inval: "\<not> is_valid (get_pte m p i)"
    using add by (auto simp: table_added_def path_ok_def)
  have w: "walk ?m (root_ppn pt) (hi_path v) = (if hi_path v = is @ [i] then Some f else walk m (root_ppn pt) (hi_path v))"
    using add by (rule walk_table_added) simp
  have other: "get_pte ?m q (lo_index v) = get_pte m1 q (lo_index v)" if "page_index p \<noteq> page_index q" for q
    using that table_added_ok(1,3) [OF add] by (simp add: get_set_pte_other)
  show "pt_abs ?m pt v = pt_abs m pt v"
  proof (cases "hi_path v = is @ [i]")
    case True
    have "walk m (root_ppn pt) (is @ [i]) = None" using p inval by (simp add: walk_append Let_def)
    moreover have "get_pte ?m f (lo_index v) = PageTableEntry_empty"
      using other table_added_ok(4) [OF add] by (simp add: get_pte_zero_page [OF zero])
    ultimately show ?thesis using True w by (simp add: pt_abs_walk)
  next
    case False
    have "get_pte ?m q (lo_index v) = get_pte m q (lo_index v)"
      if q: "walk m (root_ppn pt) (hi_path v) = Some q" for q
    proof -
      have "is \<noteq> hi_path v" using len by auto
      then have "page_index p \<noteq> page_index q"
        using pt_wf_page_index(1) [OF wf table_added_ok(2) [OF add] path_ok_hi_path p q] by auto
      from other [OF this] get_pte_table_added [OF add pt_wf_frame(1) [OF wf path_ok_hi_path q]]
      show ?thesis by simp
    qed
    with False w show ?thesis by (simp add: pt_abs_walk split: option.splits)
  qed
qed

lemma pt_wf_table_added:
  assumes add: "table_added l m pt is i p f m1" and live: "mm_live l m1 = insert f (mm_live l m)"
  shows "pt_wf l (set_pte p i (PageTableEntry_new f PTE_V) m1) (pt\<lparr>pt_frames := pt_frames pt @ [f]\<rparr>)"
proof -
  let ?m = "set_pte p i (PageTableEntry_new f PTE_V) m1"
  have wf: "pt_wf l m pt" and f: "f \<notin> set (pt_frames pt)" "unat (ppn_0 f) < 2 ^ 44"
    using add by (auto simp: table_added_def pt_wf_def)
  note w = walk_table_added [OF add]
  have "memory_ok ?m" using table_added_ok [OF add] by simp
  moreover have "set (pt_frames pt @ [f]) \<subseteq> mm_live l ?m" using wf live by (auto simp: pt_wf_def)
  moreover have "\<forall>p \<in> set (pt_frames pt @ [f]). unat (ppn_0 p) < 2 ^ 44"
    using wf f by (auto simp: pt_wf_def)
  moreover have "q \<in> set (pt_frames pt @ [f])" if "path_ok js" "walk ?m (root_ppn pt) js = Some q" for js q
    using that w [OF that(1)] pt_wf_frame(1) [OF wf that(1)] by (auto split: if_splits)
  moreover have "js = ks"
    if "path_ok js" "path_ok ks" "walk ?m (root_ppn pt) js = Some q" "walk ?m (root_ppn pt) ks = Some q" for js ks q
    using that w [OF that(1)] w [OF that(2)] pt_wf_inj [OF wf that(1,2)] f(1)
      pt_wf_frame(1) [OF wf that(1)] pt_wf_frame(1) [OF wf that(2)]
    by (auto split: if_splits)
  ultimately show ?thesis unfolding pt_wf_def by (intro conjI allI impI) auto
qed

lemma wp_create_if_invalid:
  assumes inv: "mm_frames_inv l r m" and wf: "pt_wf l m pt" and ok: "path_ok (is @ [i])"
    and p: "walk m (root_ppn pt) is = Some p" and free: "mm_free m \<noteq> {}"
  shows "wp (create_if_invalid p i pt) (\<lambda>pt' m'. pt_extends l r m pt m' pt' \<and>
    length (pt_frames pt') \<le> Suc (length (pt_frames pt)) \<and>
    walk m' (root_ppn pt) (is @ [i]) = Some (pte_ppn (get_pte m' p i))) m"
proof (cases "is_valid (get_pte m p i)")
  case True
  then show ?thesis
    using pt_extends_refl [OF inv wf] p
    by (simp add: create_if_invalid_def wp_simps walk_append Let_def)
next
  case False
  have "pt_extends l r m pt (set_pte p i (PageTableEntry_new f PTE_V) m1) (pt\<lparr>pt_frames := pt_frames pt @ [f]\<rparr>) \<and>
      walk (set_pte p i (PageTableEntry_new f PTE_V) m1) (root_ppn pt) (is @ [i]) = Some f \<and>
      pte_ppn (get_pte (set_pte p i (PageTableEntry_new f PTE_V) m1) p i) = f"
    if f: "f \<in> mm_free m" and m1: "mm_frames_inv l r m1" "mm_live l m1 = insert f (mm_live l m)"
      "mm_free m1 = mm_free m - {f}" "memory m1 = (memory m)(page_index f := replicate 4096 0)" for f m1
  proof -
    have bound: "unat (ppn_0 f) < 2 ^ 44" using fa_free_bounds [OF inv f] .
    have "f \<notin> mm_live l m" using mm_frames.disjoint [OF inv] f by blast
    with False wf ok p bound m1(4) have add: "table_added l m pt is i p f m1" by (simp add: table_added_def)
    let ?m = "set_pte p i (PageTableEntry_new f PTE_V) m1"
    have "p \<in> set (pt_frames pt)" using pt_wf_frame(1) [OF wf table_added_ok(2) [OF add] p] .
    then have "\<forall>q. q \<notin> page_index ` set (pt_frames pt @ [f]) \<longrightarrow> memory ?m q = memory m q"
      using m1(4) by (auto simp: set_pte_def set_bytes_array_def)
    moreover have "mm_frames_inv l r ?m" using m1(1) by (simp add: mm_frames_inv_def)
    moreover have "pt_abs ?m (pt\<lparr>pt_frames := pt_frames pt @ [f]\<rparr>) = pt_abs m pt"
      using pt_abs_table_added [OF add] by (simp add: fun_eq_iff pt_abs_walk)
    ultimately have "pt_extends l r m pt ?m (pt\<lparr>pt_frames := pt_frames pt @ [f]\<rparr>)"
      using pt_wf_table_added [OF add m1(2)] f m1(2,3) by (auto simp: pt_extends_def pt_grown_def)
    moreover have "walk ?m (root_ppn pt) (is @ [i]) = Some f" using walk_table_added [OF add ok] by simp
    ultimately show ?thesis using table_added_ok(1,3) [OF add] pte_ppn_new [OF bound] by simp
  qed
  then show ?thesis
    using False by (auto simp: create_if_invalid_def wp_simps intro: wp_conseq [OF wp_frame_alloc [OF inv free]])
qed

lemma pt_grown_free:
  assumes "pt_grown l r m pt m' pt'"
  shows "card (mm_free m) = card (mm_free m') + (length (pt_frames pt') - length (pt_frames pt))"
proof -
  from assms obtain new where new: "pt_frames pt' = pt_frames pt @ new" "distinct new"
      "set new \<subseteq> mm_free m" "mm_free m' = mm_free m - set new"
    unfolding pt_grown_def by blast
  then have "card (mm_free m') = card (mm_free m) - length new"
    by (simp add: card_Diff_subset distinct_card)
  moreover have "length new \<le> card (mm_free m)"
    using new by (metis card_mono distinct_card fa_live_finite)
  ultimately show ?thesis using new(1) by simp
qed

subsection \<open>The search that creates the missing tables\<close>

lemma hi_path_pair:
  obtains i j where "VirtPageNum_indexes vpn = [i, j, lo_index vpn]" and "hi_path vpn = [i, j]"
  by (rule that [of "hi_path vpn ! 0" "hi_path vpn ! 1"])
    (simp_all add: hi_path_def lo_index_def VirtPageNum_indexes_eq)

lemma wp_find_pte_create:
  assumes inv: "mm_frames_inv l r m" and wf: "pt_wf l m pt" and free: "2 \<le> card (mm_free m)"
  shows "wp (find_pte_create pt vpn) (\<lambda>(q, pt') m'. pt_extends l r m pt m' pt' \<and>
    length (pt_frames pt') \<le> length (pt_frames pt) + 2 \<and>
    (\<exists>p. q = Some (p, lo_index vpn) \<and> walk m' (root_ppn pt) (hi_path vpn) = Some p)) m"
proof -
  obtain i j where ij: "VirtPageNum_indexes vpn = [i, j, lo_index vpn]" "hi_path vpn = [i, j]"
    by (rule hi_path_pair)
  have small: "unat i < 512" "unat j < 512" using path_ok_hi_path [of vpn] ij by (auto simp: path_ok_def)
  have step2: "wp (create_if_invalid p j pt1) (\<lambda>pt' m'. pt_extends l r m pt m' pt' \<and>
      length (pt_frames pt') \<le> length (pt_frames pt) + 2 \<and>
      walk m' (root_ppn pt) [i, j] = Some (pte_ppn (get_pte m' p j))) m1"
    if ext: "pt_extends l r m pt m1 pt1" and len: "length (pt_frames pt1) \<le> Suc (length (pt_frames pt))"
      and p: "walk m1 (root_ppn pt) [i] = Some p" for m1 pt1 p
  proof (rule wp_conseq)
    have root: "root_ppn pt1 = root_ppn pt" using ext by (simp add: pt_extends_def pt_grown_def)
    have "card (mm_free m1) \<noteq> 0"
      using free len ext pt_grown_free [of l r m pt m1 pt1] by (auto simp: pt_extends_def)
    then have "mm_free m1 \<noteq> {}" by auto
    then show "wp (create_if_invalid p j pt1) (\<lambda>pt' m'. pt_extends l r m1 pt1 m' pt' \<and>
        length (pt_frames pt') \<le> Suc (length (pt_frames pt1)) \<and>
        walk m' (root_ppn pt1) ([i] @ [j]) = Some (pte_ppn (get_pte m' p j))) m1"
      using ext p root small by (intro wp_create_if_invalid) (auto simp: pt_extends_def pt_grown_def path_ok_def)
    fix pt' m'
    assume "pt_extends l r m1 pt1 m' pt' \<and> length (pt_frames pt') \<le> Suc (length (pt_frames pt1)) \<and>
        walk m' (root_ppn pt1) ([i] @ [j]) = Some (pte_ppn (get_pte m' p j))"
    then show "pt_extends l r m pt m' pt' \<and> length (pt_frames pt') \<le> length (pt_frames pt) + 2 \<and>
        walk m' (root_ppn pt) [i, j] = Some (pte_ppn (get_pte m' p j))"
      using pt_extends_trans [OF ext] root len by auto
  qed
  have free1: "mm_free m \<noteq> {}" using free by auto
  have "wp (create_if_invalid (root_ppn pt) i pt) (\<lambda>pt' m'. pt_extends l r m pt m' pt' \<and>
      length (pt_frames pt') \<le> Suc (length (pt_frames pt)) \<and>
      walk m' (root_ppn pt) ([] @ [i]) = Some (pte_ppn (get_pte m' (root_ppn pt) i))) m"
    using inv wf free1 small by (intro wp_create_if_invalid) (auto simp: path_ok_def)
  then show ?thesis
    unfolding find_pte_create_def ij
    by (simp add: wp_simps, elim wp_conseq) (rule wp_conseq [OF step2], auto simp: ij)
qed

lemma find_pte_create_existing:
  assumes "walk m (root_ppn pt) (hi_path vpn) = Some p"
  shows "find_pte_create pt vpn m = Inr ((Some (p, lo_index vpn), pt), m)"
proof -
  obtain i j where ij: "VirtPageNum_indexes vpn = [i, j, lo_index vpn]" "hi_path vpn = [i, j]"
    by (rule hi_path_pair)
  show ?thesis
    using assms
    by (simp add: find_pte_create_def ij create_if_invalid_def action_defs Let_def split: if_splits)
qed

section \<open>Mapping and unmapping\<close>

lemma pt_grown_set_leaf:
  assumes "pt_grown l r m pt m' pt'" and "path_ok is" "length is = 2" "walk m' (root_ppn pt') is = Some p"
    and "unat k < 512"
  shows "pt_grown l r m pt (set_pte p k e m') pt'"
proof -
  have wf: "pt_wf l m' pt'" using assms(1) by (simp add: pt_grown_def)
  note pt_wf_set_leaf [OF wf assms(2-5), of e] pt_wf_frame(1) [OF wf assms(2,4)]
  then show ?thesis
    using assms(1) by (auto simp: pt_grown_def mm_frames_inv_def set_pte_def set_bytes_array_def)
qed

text \<open>The abstract page table after a \<open>map\<close> and after an \<open>unmap\<close>.\<close>

definition abs_update ::
    "virt_page_num \<Rightarrow> page_table_entry option \<Rightarrow> (virt_page_num \<Rightarrow> page_table_entry option) \<Rightarrow>
     virt_page_num \<Rightarrow> page_table_entry option" where
  "abs_update vpn e f v = (if VirtPageNum_indexes v = VirtPageNum_indexes vpn then e else f v)"

lemma pt_abs_cong: "VirtPageNum_indexes v = VirtPageNum_indexes w \<Longrightarrow> pt_abs m pt v = pt_abs m pt w"
  by (simp add: pt_abs_def PageTable_translate_def find_pte_def)

lemma pt_abs_set_leaf_update:
  assumes "pt_wf l m pt" and "walk m (root_ppn pt) (hi_path vpn) = Some p"
  shows "pt_abs (set_pte p (lo_index vpn) e m) pt =
    abs_update vpn (if is_valid e then Some e else None) (pt_abs m pt)"
  using pt_abs_set_leaf [OF assms] by (simp add: fun_eq_iff abs_update_def)

lemma wp_PageTable_map:
  assumes "mm_frames_inv l r m" and "pt_wf l m pt" and "2 \<le> card (mm_free m)" and none: "pt_abs m pt vpn = None"
  shows "wp (PageTable_map pt vpn ppn fl) (\<lambda>pt' m'. pt_grown l r m pt m' pt' \<and>
    length (pt_frames pt') \<le> length (pt_frames pt) + 2 \<and>
    pt_abs m' pt' = abs_update vpn (Some (PageTableEntry_new ppn (fl OR PTE_V))) (pt_abs m pt)) m"
proof -
  let ?e = "PageTableEntry_new ppn (fl OR PTE_V)"
  have "\<not> is_valid (get_pte m' p (lo_index vpn)) \<and>
      pt_grown l r m pt (set_pte p (lo_index vpn) ?e m') pt' \<and>
      pt_abs (set_pte p (lo_index vpn) ?e m') pt' = abs_update vpn (Some ?e) (pt_abs m pt)"
    if ext: "pt_extends l r m pt m' pt'" and p: "walk m' (root_ppn pt) (hi_path vpn) = Some p" for m' pt' p
  proof -
    have wf: "pt_wf l m' pt'" and root: "root_ppn pt' = root_ppn pt" and grown: "pt_grown l r m pt m' pt'"
      and same: "pt_abs m' pt' = pt_abs m pt"
      using ext by (auto simp: pt_extends_def pt_grown_def)
    have p': "walk m' (root_ppn pt') (hi_path vpn) = Some p" using p root by simp
    have "pt_abs m' pt' vpn = None" using none same by simp
    then have "\<not> is_valid (get_pte m' p (lo_index vpn))"
      using p' by (auto simp: pt_abs_walk Let_def split: if_splits)
    moreover have "pt_grown l r m pt (set_pte p (lo_index vpn) ?e m') pt'"
      using grown p' by (intro pt_grown_set_leaf) auto
    ultimately show ?thesis using pt_abs_set_leaf_update [OF wf p', of ?e] same by simp
  qed
  then show ?thesis
    by (simp add: PageTable_map_def wp_simps, intro wp_conseq [OF wp_find_pte_create [OF assms(1-3)]])
      (auto simp: wp_simps)
qed

lemma PageTable_map_mapped:
  assumes "pt_abs m pt vpn = Some e"
  shows "PageTable_map pt vpn ppn fl m = Inl AssertFailed"
proof -
  from assms obtain p where p: "walk m (root_ppn pt) (hi_path vpn) = Some p" "is_valid (get_pte m p (lo_index vpn))"
    by (auto simp: pt_abs_walk Let_def split: option.splits if_splits)
  then show ?thesis
    by (simp add: PageTable_map_def bnd_def find_pte_create_existing action_defs)
qed

lemma wp_PageTable_unmap:
  assumes "mm_frames_inv l r m" and "pt_wf l m pt" and "pt_abs m pt vpn = Some e"
  shows "wp (PageTable_unmap pt vpn) (\<lambda>_ m'. pt_grown l r m pt m' pt \<and>
    frame_allocator m' = frame_allocator m \<and> pt_abs m' pt = abs_update vpn None (pt_abs m pt)) m"
proof -
  from assms(3) obtain p where p: "walk m (root_ppn pt) (hi_path vpn) = Some p" "is_valid (get_pte m p (lo_index vpn))"
    by (auto simp: pt_abs_walk Let_def split: option.splits if_splits)
  have "pt_grown l r m pt (set_pte p (lo_index vpn) PageTableEntry_empty m) pt"
    using p pt_grown_refl [OF assms(1,2)] by (intro pt_grown_set_leaf) auto
  then show ?thesis
    using p pt_abs_set_leaf_update [OF assms(2) p(1), of PageTableEntry_empty]
    by (simp add: PageTable_unmap_def find_pte_walk wp_simps)
qed

lemma PageTable_unmap_unmapped:
  assumes "pt_abs m pt vpn = None"
  shows "PageTable_unmap pt vpn m \<in> {Inl UnwrapNone, Inl AssertFailed}"
  using assms
  by (auto simp: PageTable_unmap_def find_pte_walk pt_abs_walk action_defs Let_def
      split: option.splits if_splits)

text \<open>A page table whose root is a page of zeros, as \<open>PageTable::new\<close> leaves it.\<close>

lemma walk_zero_root:
  assumes "memory m (page_index p) = replicate 4096 0"
  shows "walk m p is = (if is = [] then Some p else None)"
  by (cases "is") (simp_all add: get_pte_zero_page [OF assms])

lemma pt_wf_zero_root:
  assumes "memory_ok m" and "memory m (page_index p) = replicate 4096 0" and "p \<in> mm_live l m"
    and "unat (ppn_0 p) < 2 ^ 44"
  shows "pt_wf l m \<lparr>root_ppn = p, pt_frames = [p]\<rparr>" and "pt_abs m \<lparr>root_ppn = p, pt_frames = [p]\<rparr> = Map.empty"
proof -
  have "hi_path v \<noteq> []" for v by (metis length_hi_path list.size(3) zero_neq_numeral)
  then show "pt_abs m \<lparr>root_ppn = p, pt_frames = [p]\<rparr> = Map.empty"
    by (simp add: fun_eq_iff pt_abs_walk walk_zero_root [OF assms(2)])
  show "pt_wf l m \<lparr>root_ppn = p, pt_frames = [p]\<rparr>"
    using assms by (auto simp: pt_wf_def walk_zero_root split: if_splits)
qed

lemma wp_PageTable_new:
  assumes inv: "mm_frames_inv l r m" and "memory_ok m" and "mm_free m \<noteq> {}"
  shows "wp PageTable_new (\<lambda>pt m'. mm_frames_inv l r m' \<and> pt_wf l m' pt \<and> pt_abs m' pt = Map.empty \<and>
    (\<exists>f \<in> mm_free m. pt = \<lparr>root_ppn = f, pt_frames = [f]\<rparr> \<and> mm_live l m' = insert f (mm_live l m) \<and>
       mm_free m' = mm_free m - {f} \<and> memory m' = (memory m)(page_index f := replicate 4096 0))) m"
proof -
  have "pt_wf l m' \<lparr>root_ppn = f, pt_frames = [f]\<rparr> \<and> pt_abs m' \<lparr>root_ppn = f, pt_frames = [f]\<rparr> = Map.empty"
    if "f \<in> mm_free m" "mm_live l m' = insert f (mm_live l m)"
      "memory m' = (memory m)(page_index f := replicate 4096 0)" for f m'
    using pt_wf_zero_root [of m' f l] that fa_free_bounds [OF inv that(1)] assms(2)
    by (simp add: memory_ok_def)
  then show ?thesis
    by (auto simp: PageTable_new_def wp_simps intro!: wp_conseq [OF wp_frame_alloc [OF inv assms(3)]])
qed

section \<open>Addresses and tokens\<close>

lemma unat_PhysPageNum_base:
  "unat (ppn_0 p) < 2 ^ 44 \<Longrightarrow> unat (usize_from_PhysAddr (PhysAddr_from_PhysPageNum p)) = unat (ppn_0 p) * 4096"
  by (simp add: usize_from_PhysAddr_def)

lemma unat_translate_va:
  assumes "find_pte m pt (VirtAddr_floor va) = Some (p, i)"
  shows "map_option (\<lambda>pa. unat (pa_0 pa)) (PageTable_translate_va m pt va) =
    Some (unat (ppn_0 (pte_ppn (get_pte m p i))) * 4096 + unat (va_0 va) mod 4096)"
proof -
  let ?p = "pte_ppn (get_pte m p i)"
  have p: "unat (ppn_0 ?p) < 17592186044416" by simp
  have off: "unat (va_0 va) mod 4096 < 4096" by simp
  have base: "unat (usize_from_PhysAddr (PhysAddr_from_PhysPageNum ?p)) = unat (ppn_0 ?p) * 4096"
    by (rule unat_PhysPageNum_base) simp
  have "unat (usize_from_PhysAddr (PhysAddr_from_PhysPageNum ?p) + VirtAddr_page_offset va) =
      unat (ppn_0 ?p) * 4096 + unat (va_0 va) mod 4096"
    using p off base by (subst unat_word_ariths) (simp del: unat_pte_ppn)
  moreover have "unat (ppn_0 ?p) * 4096 + unat (va_0 va) mod 4096 < 2 ^ 56"
    using p off by (simp del: unat_pte_ppn)
  ultimately show ?thesis
    using assms by (simp add: PageTable_translate_va_def Let_def del: unat_pte_ppn)
qed

lemma root_ppn_token:
  assumes "unat (ppn_0 (root_ppn pt)) < 2 ^ 44"
  shows "root_ppn (PageTable_from_token (PageTable_token pt)) = root_ppn pt"
proof -
  let ?p = "ppn_0 (root_ppn pt)"
  have "(push_bit 60 a OR ?p) AND mask 44 = take_bit 44 ?p" for a
    by (rule bit_word_eqI) (auto simp: bit_simps)
  then have "(push_bit 60 8 OR ?p) AND mask 44 = ?p" by (simp only: take_bit_of_small [OF assms])
  then show ?thesis
    using assms
    by (simp only: PageTable_from_token_def PageTable_token_def low_mask page_table.select_convs
        PhysPageNum_from_usize_id phys_page_num.collapse)
qed

section \<open>Properties\<close>

text \<open>
  A small machine for the witnesses: frames 3 to 19 are free, frame 2 is an empty root table,
  and page \<open>0x50\<close> starts with the string ``hi''.
\<close>

definition tiny_mm :: mm where
  "tiny_mm = \<lparr>memory = (\<lambda>_. replicate 4096 0)(0x50 := [104, 105] @ replicate 4094 0),
     frame_allocator = \<lparr>fa_current = 3, fa_end = 20, fa_recycled = []\<rparr>\<rparr>"

definition tiny_pt :: page_table where
  "tiny_pt = \<lparr>root_ppn = PhysPageNum 2, pt_frames = [PhysPageNum 2]\<rparr>"

lemma tiny_ok:
  shows "mm_frames_inv 2 20 tiny_mm" and "pt_wf 2 tiny_mm tiny_pt" and "2 \<le> card (mm_free tiny_mm)"
    and "pt_abs tiny_mm tiny_pt v = None"
proof -
  show "mm_frames_inv 2 20 tiny_mm" by (simp add: tiny_mm_def mm_frames_inv_def fa_inv_def)
  have "{PhysPageNum 3, PhysPageNum 4} \<subseteq> mm_free tiny_mm" by (simp add: tiny_mm_def fa_free_def)
  from card_mono [OF _ this] show "2 \<le> card (mm_free tiny_mm)" by simp
  have "memory_ok tiny_mm" "memory tiny_mm (page_index (PhysPageNum 2)) = replicate 4096 0"
      "PhysPageNum 2 \<in> mm_live 2 tiny_mm" "unat (ppn_0 (PhysPageNum 2)) < 2 ^ 44"
    by (simp_all add: tiny_mm_def memory_ok_def fa_live_def page_index_id)
  from pt_wf_zero_root [OF this]
  show "pt_wf 2 tiny_mm tiny_pt" "pt_abs tiny_mm tiny_pt v = None" by (simp_all add: tiny_pt_def)
qed

text \<open>
  C18: Mapping an unmapped page with at least two frames free succeeds: it adds exactly the
  requested translation, with the flags given and the valid bit, to the translations of the
  page table, keeps the page table well formed, and changes no page of memory outside the
  frames the page table owns; those it adds come from the allocator's pool.
\<close>

theorem PageTable_map_refines:
  assumes "mm_frames_inv l r m" and "pt_wf l m pt" and "2 \<le> card (mm_free m)"
    and "pt_abs m pt vpn = None" and "unat (vpn_0 vpn) < 2 ^ 27"
  shows "wp (PageTable_map pt vpn ppn fl) (\<lambda>pt' m'.
      mm_frames_inv l r m' \<and> pt_wf l m' pt' \<and> root_ppn pt' = root_ppn pt \<and>
      pt_abs m' pt' vpn = Some (PageTableEntry_new ppn (fl OR PTE_V)) \<and>
      (\<forall>v. unat (vpn_0 v) < 2 ^ 27 \<longrightarrow> v \<noteq> vpn \<longrightarrow> pt_abs m' pt' v = pt_abs m pt v) \<and>
      (\<exists>new. pt_frames pt' = pt_frames pt @ new \<and> set new \<subseteq> mm_free m) \<and>
      (\<forall>q. q \<notin> page_index ` set (pt_frames pt') \<longrightarrow> memory m' q = memory m q)) m"
proof (rule wp_conseq [OF wp_PageTable_map [OF assms(1-4)]])
  fix pt' m'
  assume "pt_grown l r m pt m' pt' \<and> length (pt_frames pt') \<le> length (pt_frames pt) + 2 \<and>
    pt_abs m' pt' = abs_update vpn (Some (PageTableEntry_new ppn (fl OR PTE_V))) (pt_abs m pt)"
  then show "mm_frames_inv l r m' \<and> pt_wf l m' pt' \<and> root_ppn pt' = root_ppn pt \<and>
      pt_abs m' pt' vpn = Some (PageTableEntry_new ppn (fl OR PTE_V)) \<and>
      (\<forall>v. unat (vpn_0 v) < 2 ^ 27 \<longrightarrow> v \<noteq> vpn \<longrightarrow> pt_abs m' pt' v = pt_abs m pt v) \<and>
      (\<exists>new. pt_frames pt' = pt_frames pt @ new \<and> set new \<subseteq> mm_free m) \<and>
      (\<forall>q. q \<notin> page_index ` set (pt_frames pt') \<longrightarrow> memory m' q = memory m q)"
    using indexes_inject [OF _ assms(5)] by (auto simp: pt_grown_def abs_update_def)
qed

theorem PageTable_map_refines_witness:
  "\<exists>pt' m'. PageTable_map tiny_pt (VirtPageNum 0x10) (PhysPageNum 9) (PTE_R OR PTE_U) tiny_mm = Inr (pt', m') \<and>
     pt_abs m' pt' (VirtPageNum 0x10) = Some (PageTableEntry_new (PhysPageNum 9) (PTE_R OR PTE_U OR PTE_V)) \<and>
     pt_abs m' pt' (VirtPageNum 0x11) = None"
proof -
  have "unat (vpn_0 (VirtPageNum 0x10)) < 2 ^ 27" by simp
  from PageTable_map_refines [OF tiny_ok this, of "PhysPageNum 9" "PTE_R OR PTE_U"] tiny_ok(4)
  show ?thesis by (auto simp: wp_iff or.assoc)
qed

text \<open>
  C32: Unmapping a mapped page succeeds: it removes exactly that translation, and leaves
  the frame allocator and every page of memory outside the page table's frames as they were.
\<close>

theorem PageTable_unmap_refines:
  assumes "mm_frames_inv l r m" and "pt_wf l m pt" and "pt_abs m pt vpn = Some e"
    and "unat (vpn_0 vpn) < 2 ^ 27"
  shows "wp (PageTable_unmap pt vpn) (\<lambda>_ m'.
      pt_wf l m' pt \<and> pt_abs m' pt vpn = None \<and>
      (\<forall>v. unat (vpn_0 v) < 2 ^ 27 \<longrightarrow> v \<noteq> vpn \<longrightarrow> pt_abs m' pt v = pt_abs m pt v) \<and>
      frame_allocator m' = frame_allocator m \<and>
      (\<forall>q. q \<notin> page_index ` set (pt_frames pt) \<longrightarrow> memory m' q = memory m q)) m"
proof (rule wp_conseq [OF wp_PageTable_unmap [OF assms(1-3)]])
  fix u m'
  assume "pt_grown l r m pt m' pt \<and> frame_allocator m' = frame_allocator m \<and>
    pt_abs m' pt = abs_update vpn None (pt_abs m pt)"
  then show "pt_wf l m' pt \<and> pt_abs m' pt vpn = None \<and>
      (\<forall>v. unat (vpn_0 v) < 2 ^ 27 \<longrightarrow> v \<noteq> vpn \<longrightarrow> pt_abs m' pt v = pt_abs m pt v) \<and>
      frame_allocator m' = frame_allocator m \<and>
      (\<forall>q. q \<notin> page_index ` set (pt_frames pt) \<longrightarrow> memory m' q = memory m q)"
    using indexes_inject [OF _ assms(4)] by (auto simp: pt_grown_def abs_update_def)
qed

theorem PageTable_unmap_refines_witness:
  "wp (bnd (PageTable_map tiny_pt (VirtPageNum 0x10) (PhysPageNum 9) PTE_R)
        (\<lambda>pt. bnd (PageTable_unmap pt (VirtPageNum 0x10)) (\<lambda>_. ret pt)))
     (\<lambda>pt m'. pt_abs m' pt (VirtPageNum 0x10) = None) tiny_mm"
proof -
  have small: "unat (vpn_0 (VirtPageNum 0x10)) < 2 ^ 27" by simp
  show ?thesis
    unfolding wp_simps
  proof (rule wp_conseq [OF wp_PageTable_map [OF tiny_ok]])
    fix pt m'
    assume a: "pt_grown 2 20 tiny_mm tiny_pt m' pt \<and> length (pt_frames pt) \<le> length (pt_frames tiny_pt) + 2 \<and>
      pt_abs m' pt = abs_update (VirtPageNum 0x10) (Some (PageTableEntry_new (PhysPageNum 9) (PTE_R OR PTE_V)))
        (pt_abs tiny_mm tiny_pt)"
    then have "mm_frames_inv 2 20 m'" "pt_wf 2 m' pt"
        "pt_abs m' pt (VirtPageNum 0x10) = Some (PageTableEntry_new (PhysPageNum 9) (PTE_R OR PTE_V))"
      by (auto simp: pt_grown_def abs_update_def)
    from PageTable_unmap_refines [OF this small]
    show "wp (PageTable_unmap pt (VirtPageNum 0x10)) (\<lambda>_ m'. pt_abs m' pt (VirtPageNum 0x10) = None) m'"
      by (rule wp_conseq) simp
  qed
qed

text \<open>
  Mapping a page that is mapped already, and unmapping one that is not, never changes
  anything silently: both panic.
\<close>

theorem map_unmap_panics:
  "(pt_abs m pt vpn \<noteq> None \<longrightarrow> PageTable_map pt vpn ppn fl m = Inl AssertFailed) \<and>
   (pt_abs m pt vpn = None \<longrightarrow> PageTable_unmap pt vpn m \<in> {Inl UnwrapNone, Inl AssertFailed})"
  using PageTable_map_mapped PageTable_unmap_unmapped by blast

theorem map_unmap_panics_witness:
  "PageTable_unmap tiny_pt (VirtPageNum 5) tiny_mm \<in> {Inl UnwrapNone, Inl AssertFailed}"
  using map_unmap_panics [of tiny_mm tiny_pt "VirtPageNum 5"] tiny_ok(4) by blast

text \<open>
  A new page table has no translations, is well formed and owns one frame, which it
  takes from the allocator's pool.
\<close>

theorem PageTable_new_empty:
  assumes "mm_frames_inv l r m" and "memory_ok m" and "mm_free m \<noteq> {}"
  shows "wp PageTable_new (\<lambda>pt m'. mm_frames_inv l r m' \<and> pt_wf l m' pt \<and>
    (\<forall>vpn. pt_abs m' pt vpn = None) \<and> pt_frames pt = [root_ppn pt] \<and>
    root_ppn pt \<in> mm_free m \<and> mm_free m' = mm_free m - {root_ppn pt}) m"
  by (rule wp_conseq [OF wp_PageTable_new [OF assms]]) auto

theorem PageTable_new_empty_witness:
  "\<exists>pt m'. PageTable_new tiny_mm = Inr (pt, m') \<and> (\<forall>vpn. pt_abs m' pt vpn = None)"
proof -
  have "mm_free tiny_mm \<noteq> {}" using tiny_ok(3) by auto
  moreover have "memory_ok tiny_mm" using tiny_ok(2) by (simp add: pt_wf_def)
  ultimately show ?thesis using PageTable_new_empty [OF tiny_ok(1)] by (auto simp: wp_iff)
qed

text \<open>
  C33: Address translation from another address space. If a page is mapped by an entry made of a page
  number and flags, then the page table that is recovered from the \<open>satp\<close> token alone translates the
  page to an entry with exactly that page number and exactly those flags, all eight bits, so that its
  tests for validity and for reading, writing and executing answer what the flags say; and it
  translates every address of the page to the start of the physical page plus the offset in the page.
  The page number and the root's are below \<open>2 ^ 44\<close>, the width that the hardware gives them.
\<close>

theorem translation_exact:
  assumes "unat (ppn_0 ppn) < 2 ^ 44" and "unat (ppn_0 (root_ppn pt)) < 2 ^ 44"
    and "pt_abs m pt (VirtAddr_floor va) = Some (PageTableEntry_new ppn fl)"
  shows "\<exists>pte. PageTable_translate m (PageTable_from_token (PageTable_token pt)) (VirtAddr_floor va) = Some pte \<and>
      pte_ppn pte = ppn \<and> flags pte = fl \<and> is_valid pte \<and>
      (readable pte \<longleftrightarrow> bit fl 1) \<and> (writable pte \<longleftrightarrow> bit fl 2) \<and> (executable pte \<longleftrightarrow> bit fl 3) \<and>
      map_option (\<lambda>pa. unat (pa_0 pa)) (PageTable_translate_va m (PageTable_from_token (PageTable_token pt)) va) =
        Some (unat (ppn_0 ppn) * 4096 + unat (va_0 va) mod 4096)"
proof -
  let ?e = "PageTableEntry_new ppn fl"
  have same: "find_pte m (PageTable_from_token (PageTable_token pt)) v = find_pte m pt v" for v
    by (simp add: find_pte_def root_ppn_token [OF assms(2)])
  obtain p i where at: "find_pte m pt (VirtAddr_floor va) = Some (p, i)" "get_pte m p i = ?e" and "is_valid ?e"
    using assms(3) by (auto simp: pt_abs_def PageTable_translate_def split: option.splits if_splits)
  then have "PageTable_translate m (PageTable_from_token (PageTable_token pt)) (VirtAddr_floor va) = Some ?e"
    by (simp add: PageTable_translate_def same)
  moreover have "map_option (\<lambda>pa. unat (pa_0 pa)) (PageTable_translate_va m (PageTable_from_token (PageTable_token pt)) va) =
      Some (unat (ppn_0 ppn) * 4096 + unat (va_0 va) mod 4096)"
    using unat_translate_va [of m "PageTable_from_token (PageTable_token pt)" va p i] pte_ppn_new [OF assms(1)] at same by simp
  ultimately show ?thesis
    using pte_ppn_new [OF assms(1)] \<open>is_valid ?e\<close> by (simp add: permission_bits)
qed

theorem translation_exact_witness:
  "\<exists>pt m' pte. PageTable_map tiny_pt (VirtPageNum 0x10) (PhysPageNum 9) PTE_R tiny_mm = Inr (pt, m') \<and>
     PageTable_translate m' (PageTable_from_token (PageTable_token pt)) (VirtPageNum 0x10) = Some pte \<and>
     pte_ppn pte = PhysPageNum 9 \<and> flags pte = PTE_R OR PTE_V \<and> readable pte \<and> \<not> writable pte \<and>
     map_option (\<lambda>pa. unat (pa_0 pa))
       (PageTable_translate_va m' (PageTable_from_token (PageTable_token pt)) (VirtAddr 0x10123)) = Some 0x9123"
proof -
  have f: "VirtAddr_floor (VirtAddr 0x10123) = VirtPageNum 0x10"
    by (simp add: VirtAddr_floor_def PAGE_SIZE_def)
  obtain pt m' where run: "PageTable_map tiny_pt (VirtPageNum 0x10) (PhysPageNum 9) PTE_R tiny_mm = Inr (pt, m')"
    and post: "pt_grown 2 20 tiny_mm tiny_pt m' pt" "pt_abs m' pt (VirtPageNum 0x10) = Some (PageTableEntry_new (PhysPageNum 9) (PTE_R OR PTE_V))"
    using wp_PageTable_map [OF tiny_ok, of "VirtPageNum 0x10" "PhysPageNum 9" PTE_R]
    by (auto simp: wp_iff abs_update_def)
  have "root_ppn pt = PhysPageNum 2" using post(1) by (simp add: pt_grown_def tiny_pt_def)
  moreover have "bit (PTE_R OR PTE_V) 1" "\<not> bit (PTE_R OR PTE_V) 2" by (simp_all add: PTE_R_def PTE_V_def)
  ultimately show ?thesis
    using run translation_exact [of "PhysPageNum 9" pt m' "VirtAddr 0x10123" "PTE_R OR PTE_V"] post(2) f by auto
qed

end
