(* ===== verification/User_Buffer.thy ===== *)
theory User_Buffer
  imports Page_Table
begin

text \<open>
  How the kernel reaches the memory of a user address space: \<open>translated_byte_buffer\<close>,
  \<open>translated_str\<close>, \<open>translated_ref\<close>, \<open>translated_refmut\<close> and \<open>UserBuffer\<close>
  (\<open>src/os/src/mm/page_table.rs\<close>, from line 158). The pointers come from user programs. The
  two loops need not end for every pointer, so they are partial functions into \<open>option\<close>:
  \<open>None\<close> is a loop that runs forever, \<open>Some (Inl e)\<close> a panic.
\<close>

section \<open>Slices of physical pages\<close>

text \<open>A \<open>&'static mut [u8]\<close> into the bytes of a page: \<open>ppn.get_bytes_array()[from..to]\<close>.\<close>

record slice_ref =
  sl_page :: phys_page_num
  sl_from :: usize
  sl_to :: usize

definition slice_index :: "phys_page_num \<Rightarrow> usize \<Rightarrow> usize \<Rightarrow> panic + slice_ref" where
  "slice_index ppn a b =
     (if a \<le> b \<and> b \<le> 4096 then Inr \<lparr>sl_page = ppn, sl_from = a, sl_to = b\<rparr> else Inl IndexOutOfBounds)"

definition slice_len :: "slice_ref \<Rightarrow> usize" where
  "slice_len sl = sl_to sl - sl_from sl"

definition slice_bytes :: "mm \<Rightarrow> slice_ref \<Rightarrow> byte list" where
  "slice_bytes m sl =
     segment (unat (sl_from sl)) (unat (slice_len sl)) (get_bytes_array m (sl_page sl))"

section \<open>Translating pointers\<close>

partial_function (option) translated_byte_buffer_loop ::
    "mm \<Rightarrow> page_table \<Rightarrow> usize \<Rightarrow> usize \<Rightarrow> slice_ref list \<Rightarrow> (panic + slice_ref list) option" where
  "translated_byte_buffer_loop m page_table start end' v =
     (if start < end' then
        (let start_va = VirtAddr_from_usize start;
             vpn = VirtAddr_floor start_va
         in case PageTable_translate m page_table vpn of
              None \<Rightarrow> Some (Inl UnwrapNone)
            | Some pte \<Rightarrow>
                (let ppn = pte_ppn pte;
                     vpn = VirtPageNum_step vpn;
                     end_va = VirtAddr_from_VirtPageNum vpn;
                     end_va = min end_va (VirtAddr_from_usize end')
                 in case (if VirtAddr_page_offset end_va = 0
                          then slice_index ppn (VirtAddr_page_offset start_va) 4096
                          else slice_index ppn (VirtAddr_page_offset start_va) (VirtAddr_page_offset end_va)) of
                      Inl e \<Rightarrow> Some (Inl e)
                    | Inr sl \<Rightarrow>
                        translated_byte_buffer_loop m page_table (usize_from_VirtAddr end_va) end' (v @ [sl])))
      else Some (Inr v))"

definition translated_byte_buffer ::
    "mm \<Rightarrow> usize \<Rightarrow> usize \<Rightarrow> usize \<Rightarrow> (panic + slice_ref list) option" where
  "translated_byte_buffer m token ptr len =
     (let page_table = PageTable_from_token token; start = ptr; end' = start + len
      in translated_byte_buffer_loop m page_table start end' [])"

text \<open>
  A reference made of a physical address; the raw pointer must not be null. A byte is read
  from the page that holds it.
\<close>

definition PhysAddr_get_mut :: "phys_addr \<Rightarrow> panic + phys_addr" where
  "PhysAddr_get_mut pa = (if pa_0 pa = 0 then Inl UnwrapNone else Inr pa)"

definition read_u8 :: "mm \<Rightarrow> phys_addr \<Rightarrow> byte" where
  "read_u8 m pa = memory m (pa_0 pa div PAGE_SIZE) ! unat (PhysAddr_page_offset pa)"

partial_function (option) translated_str_loop ::
    "mm \<Rightarrow> page_table \<Rightarrow> usize \<Rightarrow> string \<Rightarrow> (panic + string) option" where
  "translated_str_loop m page_table va str =
     (case PageTable_translate_va m page_table (VirtAddr_from_usize va) of
        None \<Rightarrow> Some (Inl UnwrapNone)
      | Some pa \<Rightarrow>
          (case PhysAddr_get_mut pa of
             Inl e \<Rightarrow> Some (Inl e)
           | Inr r \<Rightarrow>
               (let ch = read_u8 m r in
                if ch = 0 then Some (Inr str)
                else translated_str_loop m page_table (va + 1) (str @ [char_of (unat ch)]))))"

definition translated_str :: "mm \<Rightarrow> usize \<Rightarrow> usize \<Rightarrow> (panic + string) option" where
  "translated_str m token ptr = translated_str_loop m (PageTable_from_token token) ptr []"

definition translated_refmut :: "mm \<Rightarrow> usize \<Rightarrow> usize \<Rightarrow> panic + phys_addr" where
  "translated_refmut m token ptr =
     (case PageTable_translate_va m (PageTable_from_token token) (VirtAddr_from_usize ptr) of
        None \<Rightarrow> Inl UnwrapNone
      | Some pa \<Rightarrow> PhysAddr_get_mut pa)"

definition translated_ref :: "mm \<Rightarrow> usize \<Rightarrow> usize \<Rightarrow> panic + phys_addr" where
  "translated_ref m token ptr =
     (case PageTable_translate_va m (PageTable_from_token token) (VirtAddr_from_usize ptr) of
        None \<Rightarrow> Inl UnwrapNone
      | Some pa \<Rightarrow> PhysAddr_get_mut pa)"

text \<open>A store of bytes through such a reference runs on in physical memory.\<close>

definition write_u8 :: "usize \<Rightarrow> byte \<Rightarrow> mm \<Rightarrow> mm" where
  "write_u8 a b m =
     m\<lparr>memory := (memory m)(a div PAGE_SIZE :=
        (memory m (a div PAGE_SIZE))[unat (PhysAddr_page_offset (PhysAddr a)) := b])\<rparr>"

fun write_phys :: "usize \<Rightarrow> byte list \<Rightarrow> mm \<Rightarrow> mm" where
  "write_phys a [] m = m"
| "write_phys a (b # bs) m = write_phys (a + 1) bs (write_u8 a b m)"

section \<open>User buffers\<close>

record user_buffer =
  buffers :: "slice_ref list"

definition UserBuffer_new :: "slice_ref list \<Rightarrow> user_buffer" where
  "UserBuffer_new bs = \<lparr>buffers = bs\<rparr>"

definition UserBuffer_len :: "user_buffer \<Rightarrow> usize" where
  "UserBuffer_len ub = fold (\<lambda>b total. total + slice_len b) (buffers ub) 0"

record user_buffer_iterator =
  it_buffers :: "slice_ref list"
  current_buffer :: nat
  current_idx :: usize

definition UserBuffer_into_iter :: "user_buffer \<Rightarrow> user_buffer_iterator" where
  "UserBuffer_into_iter ub = \<lparr>it_buffers = buffers ub, current_buffer = 0, current_idx = 0\<rparr>"

text \<open>The item is a raw pointer to a byte: its page and its offset there.\<close>

definition UserBufferIterator_next :: "(user_buffer_iterator, (phys_page_num \<times> usize) option) action" where
  "UserBufferIterator_next it =
     (if current_buffer it \<ge> length (it_buffers it) then Inr (None, it)
      else
        (let b = it_buffers it ! current_buffer it in
         if current_idx it < slice_len b then
           (let r = (sl_page b, sl_from b + current_idx it) in
            if current_idx it + 1 = slice_len b
            then Inr (Some r, it\<lparr>current_idx := 0, current_buffer := current_buffer it + 1\<rparr>)
            else Inr (Some r, it\<lparr>current_idx := current_idx it + 1\<rparr>))
         else Inl IndexOutOfBounds))"

section \<open>The bytes a user program sees\<close>

text \<open>
  The byte at an address, through the same translation that the kernel uses. Like the kernel's it takes any
  entry of the last level for a mapping and does not test the valid bit; for a page that is mapped,
  it is the byte that the processor shows the program.
\<close>

definition user_byte :: "mm \<Rightarrow> page_table \<Rightarrow> nat \<Rightarrow> byte option" where
  "user_byte m pt a =
     map_option (\<lambda>pte. get_bytes_array m (pte_ppn pte) ! (a mod 4096))
       (PageTable_translate m pt (VirtPageNum (word_of_nat (a div 4096))))"

lemma user_byte_page:
  assumes "PageTable_translate m pt (VirtPageNum (word_of_nat k)) = Some pte" and "memory_ok m"
    and "a \<le> b" and "b \<le> 4096"
  shows "map (user_byte m pt) [k * 4096 + a..<k * 4096 + b] =
    map Some (segment a (b - a) (get_bytes_array m (pte_ppn pte)))"
proof (rule nth_equalityI)
  have len: "length (get_bytes_array m (pte_ppn pte)) = 4096"
    using assms(2) by (simp add: memory_ok_def get_bytes_array_def)
  then show "length (map (user_byte m pt) [k * 4096 + a..<k * 4096 + b]) =
      length (map Some (segment a (b - a) (get_bytes_array m (pte_ppn pte))))"
    using assms by simp
  fix i
  assume "i < length (map (user_byte m pt) [k * 4096 + a..<k * 4096 + b])"
  then have i: "i < b - a" by simp
  then have "(k * 4096 + a + i) div 4096 = k" "(k * 4096 + a + i) mod 4096 = a + i"
    using assms(4) by (simp_all add: add.assoc)
  with assms(1) i len assms(4)
  show "map (user_byte m pt) [k * 4096 + a..<k * 4096 + b] ! i =
      map Some (segment a (b - a) (get_bytes_array m (pte_ppn pte))) ! i"
    by (simp add: user_byte_def)
qed

section \<open>Collecting the pieces of a buffer\<close>

text \<open>
  The loop on a range below the middle of the address space, with the addresses as natural
  numbers: one iteration takes what is left of the current page.
\<close>

definition chunk_end :: "nat \<Rightarrow> nat \<Rightarrow> nat" where
  "chunk_end s e = min ((s div 4096 + 1) * 4096) e"

definition chunk :: "phys_page_num \<Rightarrow> nat \<Rightarrow> nat \<Rightarrow> slice_ref" where
  "chunk p s e = \<lparr>sl_page = p, sl_from = word_of_nat (s mod 4096),
     sl_to = word_of_nat (chunk_end s e - s div 4096 * 4096)\<rparr>"

lemma chunk_end_bounds:
  assumes "s < e"
  shows "s < chunk_end s e" and "chunk_end s e \<le> e"
    and "chunk_end s e - s div 4096 * 4096 \<le> 4096" and "s mod 4096 < chunk_end s e - s div 4096 * 4096"
    and "s div 4096 * 4096 \<le> chunk_end s e"
proof -
  have "s = s div 4096 * 4096 + s mod 4096" by simp
  have "s < (s div 4096 + 1) * 4096" using dividend_less_div_times [of 4096 s] by simp
  with assms show "s < chunk_end s e" by (simp add: chunk_end_def)
  show "chunk_end s e \<le> e" "chunk_end s e - s div 4096 * 4096 \<le> 4096" by (simp_all add: chunk_end_def)
  show "s mod 4096 < chunk_end s e - s div 4096 * 4096" "s div 4096 * 4096 \<le> chunk_end s e"
    using \<open>s < chunk_end s e\<close> \<open>s = s div 4096 * 4096 + s mod 4096\<close> by linarith+
qed

lemma chunk_end_offset:
  assumes "s < e"
  shows "(if chunk_end s e mod 4096 = 0 then 4096 else chunk_end s e mod 4096) =
    chunk_end s e - s div 4096 * 4096"
proof -
  let ?d = "chunk_end s e - s div 4096 * 4096"
  have d: "0 < ?d" "?d \<le> 4096" using chunk_end_bounds [OF assms] by simp_all
  have "chunk_end s e = s div 4096 * 4096 + ?d" using chunk_end_bounds(5) [OF assms] by simp
  then have "chunk_end s e mod 4096 = ?d mod 4096" by (metis mod_mult_self3)
  with d show ?thesis by (cases "?d = 4096") auto
qed

lemma VirtAddr_from_usize_small:
  "n < 2 ^ 38 \<Longrightarrow> VirtAddr_from_usize (word_of_nat n) = VirtAddr (word_of_nat n)"
  by (rule virt_addr.expand) (simp add: word_unat_eq_iff unat_of_nat)

lemma usize_from_VirtAddr_small:
  assumes "n < 2 ^ 38"
  shows "usize_from_VirtAddr (VirtAddr (word_of_nat n)) = word_of_nat n"
proof -
  have "unat (word_of_nat n :: usize) = n" using assms by (simp add: word_of_nat_unat_inverse)
  then have "unat (usize_from_VirtAddr (VirtAddr (word_of_nat n))) = n"
    using assms by (subst unat_usize_from_VirtAddr) simp_all
  then show ?thesis using \<open>unat (word_of_nat n :: usize) = n\<close> by (simp add: word_unat_eq_iff)
qed

lemma chunk_end_va:
  assumes "s < e" and "e < 2 ^ 38"
  shows "min (VirtAddr_from_VirtPageNum (VirtPageNum_step (VirtAddr_floor (VirtAddr (word_of_nat s)))))
      (VirtAddr (word_of_nat e)) = VirtAddr (word_of_nat (chunk_end s e))"
proof -
  let ?a = "VirtAddr_from_VirtPageNum (VirtPageNum_step (VirtAddr_floor (VirtAddr (word_of_nat s))))"
  have k: "s div 4096 < 2 ^ 26" using assms by (simp add: less_mult_imp_div_less)
  have "unat (vpn_0 (VirtPageNum_step (VirtAddr_floor (VirtAddr (word_of_nat s))))) = s div 4096 + 1"
    using assms k by (simp add: VirtPageNum_step_def unat_word_ariths word_of_nat_unat_inverse)
  then have a: "unat (va_0 ?a) = (s div 4096 + 1) * 4096" using k by simp
  have e: "unat (word_of_nat e :: usize) = e" using assms by (simp add: word_of_nat_unat_inverse)
  show ?thesis
  proof (cases "(s div 4096 + 1) * 4096 \<le> e")
    case True
    then have "unat (word_of_nat ((s div 4096 + 1) * 4096) :: usize) = (s div 4096 + 1) * 4096"
      using assms(2) by (intro word_of_nat_unat_inverse) simp
    then have "?a = VirtAddr (word_of_nat ((s div 4096 + 1) * 4096))"
      by (intro virt_addr.expand) (simp only: word_unat_eq_iff a virt_addr.sel)
    moreover have "?a \<le> VirtAddr (word_of_nat e)"
      using True a e by (simp only: less_eq_virt_addr_def word_le_nat_alt virt_addr.sel)
    ultimately show ?thesis using True by (simp add: chunk_end_def min_def)
  next
    case False
    then have "\<not> ?a \<le> VirtAddr (word_of_nat e)"
      using a e by (simp only: less_eq_virt_addr_def word_le_nat_alt virt_addr.sel) simp
    with False show ?thesis by (simp add: chunk_end_def min_def)
  qed
qed

lemma byte_buffer_step:
  assumes "s < e" and "e < 2 ^ 38"
    and "PageTable_translate m pt (VirtPageNum (word_of_nat (s div 4096))) = Some pte"
  shows "translated_byte_buffer_loop m pt (word_of_nat s) (word_of_nat e) v =
    translated_byte_buffer_loop m pt (word_of_nat (chunk_end s e)) (word_of_nat e) (v @ [chunk (pte_ppn pte) s e])"
proof -
  let ?n = "chunk_end s e"
  let ?d = "?n - s div 4096 * 4096"
  have less: "(word_of_nat s :: usize) < word_of_nat e"
    using assms(1,2) by (simp add: word_less_nat_alt word_of_nat_unat_inverse)
  note b = chunk_end_bounds [OF assms(1)]
  have n: "?n < 2 ^ 38" using b(2) assms(2) by simp
  have floor: "VirtAddr_floor (VirtAddr (word_of_nat s)) = VirtPageNum (word_of_nat (s div 4096))"
    using assms by (intro virt_page_num.expand) (simp add: word_unat_eq_iff word_of_nat_unat_inverse)
  have off: "VirtAddr_page_offset (VirtAddr (word_of_nat k)) = word_of_nat (k mod 4096)" if "k < 2 ^ 38" for k
    using that by (simp add: word_unat_eq_iff word_of_nat_unat_inverse)
  have zero: "(word_of_nat (?n mod 4096) :: usize) = 0 \<longleftrightarrow> ?n mod 4096 = 0"
    by (simp add: word_unat_eq_iff word_of_nat_unat_inverse)
  have le: "(word_of_nat (s mod 4096) :: usize) \<le> word_of_nat ?d" "(word_of_nat ?d :: usize) \<le> 4096"
    using b word_of_nat_unat_inverse [of ?d, where 'a = 64]
    by (simp_all add: word_le_nat_alt word_of_nat_unat_inverse del: of_nat_diff of_nat_mult)
  have "(if VirtAddr_page_offset (VirtAddr (word_of_nat ?n)) = 0
      then slice_index (pte_ppn pte) (VirtAddr_page_offset (VirtAddr (word_of_nat s))) 4096
      else slice_index (pte_ppn pte) (VirtAddr_page_offset (VirtAddr (word_of_nat s)))
        (VirtAddr_page_offset (VirtAddr (word_of_nat ?n)))) = Inr (chunk (pte_ppn pte) s e)"
    using chunk_end_offset [OF assms(1)] le zero n assms(1,2)
    by (auto simp: off slice_index_def chunk_def split: if_splits)
  moreover have "s < 2 ^ 38" using assms(1,2) by simp
  ultimately show ?thesis
    using less assms(3)
    by (subst translated_byte_buffer_loop.simps)
      (simp add: Let_def VirtAddr_from_usize_small [OF assms(2)] VirtAddr_from_usize_small floor [symmetric]
        chunk_end_va [OF assms(1,2)] usize_from_VirtAddr_small [OF n] split del: if_split cong: if_cong)
qed

lemma slice_bytes_chunk:
  assumes "s < e"
  shows "slice_bytes m (chunk p s e) =
      segment (s mod 4096) (chunk_end s e - s) (get_bytes_array m p)"
    and "unat (slice_len (chunk p s e)) = chunk_end s e - s"
proof -
  note b = chunk_end_bounds [OF assms]
  let ?d = "chunk_end s e - s div 4096 * 4096"
  have d: "unat (word_of_nat ?d :: usize) = ?d" "unat (word_of_nat (s mod 4096) :: usize) = s mod 4096"
    using b(3) by (auto intro: word_of_nat_unat_inverse)
  have "s = s div 4096 * 4096 + s mod 4096" by simp
  then have "?d - s mod 4096 = chunk_end s e - s" by linarith
  moreover have "unat (word_of_nat ?d - word_of_nat (s mod 4096) :: usize) = ?d - s mod 4096"
    using b(4) d by (subst unat_sub) (simp_all only: word_le_nat_alt less_imp_le)
  ultimately show "unat (slice_len (chunk p s e)) = chunk_end s e - s"
    unfolding slice_len_def chunk_def slice_ref.select_convs by (simp only:)
  then show "slice_bytes m (chunk p s e) = segment (s mod 4096) (chunk_end s e - s) (get_bytes_array m p)"
    unfolding slice_bytes_def chunk_def slice_ref.select_convs by (simp only: d)
qed

lemma user_byte_chunk:
  assumes "s < e" and "memory_ok m"
    and "PageTable_translate m pt (VirtPageNum (word_of_nat (s div 4096))) = Some pte"
  shows "map (user_byte m pt) [s..<chunk_end s e] = map Some (slice_bytes m (chunk (pte_ppn pte) s e))"
proof -
  let ?k = "s div 4096" and ?n = "chunk_end s e"
  let ?a = "s mod 4096" and ?d = "chunk_end s e - s div 4096 * 4096"
  note b = chunk_end_bounds [OF assms(1)]
  have "map (user_byte m pt) [?k * 4096 + ?a..<?k * 4096 + ?d] =
      map Some (segment ?a (?d - ?a) (get_bytes_array m (pte_ppn pte)))"
    using b by (intro user_byte_page [OF assms(3,2)]) auto
  moreover have "?k * 4096 + ?a = s" by simp
  moreover have "?k * 4096 + ?d = ?n" using b(5) by simp
  moreover have "?d - ?a = ?n - s" using \<open>?k * 4096 + ?a = s\<close> by linarith
  ultimately show ?thesis by (simp add: slice_bytes_chunk(1) [OF assms(1)])
qed

definition slice_fits :: "slice_ref \<Rightarrow> bool" where
  "slice_fits sl \<longleftrightarrow> sl_from sl < sl_to sl \<and> sl_to sl \<le> 4096"

lemma slice_fits_len: "slice_fits sl \<Longrightarrow> 0 < slice_len sl"
  by (auto simp: slice_fits_def slice_len_def word_neq_0_conv [symmetric])

lemma chunk_fits:
  assumes "s < e"
  shows "slice_fits (chunk p s e)"
proof -
  note b = chunk_end_bounds [OF assms]
  let ?d = "chunk_end s e - s div 4096 * 4096"
  have d: "unat (word_of_nat ?d :: usize) = ?d" "unat (word_of_nat (s mod 4096) :: usize) = s mod 4096"
    using b(3) by (auto intro: word_of_nat_unat_inverse)
  show ?thesis
    unfolding slice_fits_def chunk_def slice_ref.select_convs word_less_nat_alt word_le_nat_alt d using b(3,4) by simp
qed

lemma byte_buffer_loop:
  assumes "s \<le> e" and "e < 2 ^ 38" and "memory_ok m" and "\<And>a. s \<le> a \<Longrightarrow> a < e \<Longrightarrow> user_byte m pt a \<noteq> None"
  shows "\<exists>w. translated_byte_buffer_loop m pt (word_of_nat s) (word_of_nat e) v = Some (Inr (v @ w)) \<and>
    map Some (concat (map (slice_bytes m) w)) = map (user_byte m pt) [s..<e] \<and>
    (\<forall>sl \<in> set w. slice_fits sl) \<and> sum_list (map (\<lambda>sl. unat (slice_len sl)) w) = e - s"
  using assms
proof (induction "e - s" arbitrary: s v rule: less_induct)
  case less
  show ?case
  proof (cases "s = e")
    case True
    then show ?thesis by (subst translated_byte_buffer_loop.simps) simp
  next
    case False
    with less.prems have se: "s < e" by simp
    note b = chunk_end_bounds [OF se]
    have "user_byte m pt s \<noteq> None" using less.prems(4) se by simp
    then obtain pte where pte: "PageTable_translate m pt (VirtPageNum (word_of_nat (s div 4096))) = Some pte"
      by (auto simp: user_byte_def)
    let ?c = "chunk (pte_ppn pte) s e" and ?n = "chunk_end s e"
    have "e - ?n < e - s" using b se by simp
    from less.hyps [OF this b(2) less.prems(2,3), of "v @ [?c]"] less.prems(4) b(1)
    obtain w where w: "translated_byte_buffer_loop m pt (word_of_nat ?n) (word_of_nat e) (v @ [?c]) =
          Some (Inr ((v @ [?c]) @ w))"
        "map Some (concat (map (slice_bytes m) w)) = map (user_byte m pt) [?n..<e]"
        "\<forall>sl \<in> set w. slice_fits sl" "sum_list (map (\<lambda>sl. unat (slice_len sl)) w) = e - ?n"
      by auto
    have "[s..<e] = [s..<?n] @ [?n..<e]"
      using b(1,2) by (metis less_imp_le upt_add_eq_append le_add_diff_inverse)
    then have "map Some (concat (map (slice_bytes m) (?c # w))) = map (user_byte m pt) [s..<e]"
      using w(2) user_byte_chunk [OF se less.prems(3) pte] by simp
    moreover have "slice_fits ?c" by (rule chunk_fits [OF se])
    moreover have "sum_list (map (\<lambda>sl. unat (slice_len sl)) (?c # w)) = e - s"
      using w(4) slice_bytes_chunk(2) [OF se, of "pte_ppn pte"] b(1,2) by simp
    moreover have "translated_byte_buffer_loop m pt (word_of_nat s) (word_of_nat e) v = Some (Inr (v @ ?c # w))"
      using byte_buffer_step [OF se less.prems(2) pte] w(1) by simp
    ultimately show ?thesis using w(3) by (intro exI [of _ "?c # w"]) auto
  qed
qed

text \<open>The frames behind the pages of a range of addresses, and the slices that refer to them.\<close>

definition user_frames :: "mm \<Rightarrow> page_table \<Rightarrow> nat \<Rightarrow> nat \<Rightarrow> usize option list" where
  "user_frames m pt s e =
     map (\<lambda>k. map_option (page_index \<circ> pte_ppn) (PageTable_translate m pt (VirtPageNum (word_of_nat k))))
       [s div 4096..<(e + 4095) div 4096]"

lemma user_frames_step:
  assumes "s < e" and "PageTable_translate m pt (VirtPageNum (word_of_nat (s div 4096))) = Some pte"
  shows "user_frames m pt s e = Some (page_index (pte_ppn pte)) #
    (if chunk_end s e = e then [] else user_frames m pt (chunk_end s e) e)"
proof -
  have lt: "s div 4096 < (e + 4095) div 4096" using assms(1) by linarith
  have "(e + 4095) div 4096 = Suc (s div 4096)" if "chunk_end s e = e"
  proof -
    have "e \<le> (s div 4096 + 1) * 4096" using that by (simp add: chunk_end_def min_def split: if_splits)
    moreover have "s div 4096 * 4096 \<le> s" by simp
    ultimately show ?thesis using assms(1) by (intro div_nat_eqI; simp)
  qed
  moreover have "chunk_end s e div 4096 = Suc (s div 4096)" if "chunk_end s e \<noteq> e"
    using that by (auto simp: chunk_end_def min_def split: if_splits)
  ultimately show ?thesis
    using assms(2) unfolding user_frames_def upt_conv_Cons [OF lt] by auto
qed

lemma byte_buffer_pages:
  assumes "s \<le> e" and "e < 2 ^ 38" and "\<And>a. s \<le> a \<Longrightarrow> a < e \<Longrightarrow> user_byte m pt a \<noteq> None"
  shows "\<exists>w. (\<forall>m' v. (\<forall>p. PageTable_translate m' pt p = PageTable_translate m pt p) \<longrightarrow>
      translated_byte_buffer_loop m' pt (word_of_nat s) (word_of_nat e) v = Some (Inr (v @ w))) \<and>
    (s < e \<longrightarrow> map (Some \<circ> page_index \<circ> sl_page) w = user_frames m pt s e) \<and> (s = e \<longrightarrow> w = [])"
  using assms
proof (induction "e - s" arbitrary: s rule: less_induct)
  case less
  show ?case
  proof (cases "s = e")
    case True
    then show ?thesis by (intro exI [of _ "[]"]) (simp add: translated_byte_buffer_loop.simps)
  next
    case False
    with less.prems have se: "s < e" by simp
    note b = chunk_end_bounds [OF se]
    have "user_byte m pt s \<noteq> None" using less.prems(3) se by simp
    then obtain pte where pte: "PageTable_translate m pt (VirtPageNum (word_of_nat (s div 4096))) = Some pte"
      by (auto simp: user_byte_def)
    let ?c = "chunk (pte_ppn pte) s e" and ?n = "chunk_end s e"
    have "e - ?n < e - s" using b se by simp
    moreover have "user_byte m pt a \<noteq> None" if "?n \<le> a" "a < e" for a using less.prems(3) that b(1) by simp
    ultimately obtain w where w: "\<forall>m' v. (\<forall>p. PageTable_translate m' pt p = PageTable_translate m pt p) \<longrightarrow>
        translated_byte_buffer_loop m' pt (word_of_nat ?n) (word_of_nat e) v = Some (Inr (v @ w))"
      "?n < e \<longrightarrow> map (Some \<circ> page_index \<circ> sl_page) w = user_frames m pt ?n e" "?n = e \<longrightarrow> w = []"
      using less.hyps [of ?n] b(2) less.prems(2) by (elim exE conjE meta_impE) blast+
    have "translated_byte_buffer_loop m' pt (word_of_nat s) (word_of_nat e) v = Some (Inr (v @ ?c # w))"
      if "\<forall>p. PageTable_translate m' pt p = PageTable_translate m pt p" for m' v
      using byte_buffer_step [OF se less.prems(2), of m' pt pte v] w(1) that pte by simp
    moreover have "map (Some \<circ> page_index \<circ> sl_page) (?c # w) = user_frames m pt s e"
      using w(2,3) b(2) unfolding user_frames_step [OF se pte] by (auto simp: chunk_def)
    ultimately show ?thesis using se by (intro exI [of _ "?c # w"]) simp
  qed
qed

lemma UserBuffer_len_sum: "UserBuffer_len ub = sum_list (map slice_len (buffers ub))"
proof -
  have "fold (\<lambda>b total. total + slice_len b) bs t = t + sum_list (map slice_len bs)" for bs t
    by (induction bs arbitrary: t) (simp_all add: add.assoc)
  then show ?thesis by (simp add: UserBuffer_len_def)
qed

lemma word_of_sum_unat: "word_of_nat (sum_list (map (\<lambda>b. unat (f b)) bs)) = (sum_list (map f bs) :: usize)"
  by (induction bs) simp_all

lemma find_pte_token:
  assumes "unat (ppn_0 (root_ppn pt)) < 2 ^ 44"
  shows "find_pte m (PageTable_from_token (PageTable_token pt)) v = find_pte m pt v"
  by (simp add: find_pte_def root_ppn_token [OF assms])

lemma user_byte_token:
  assumes "unat (ppn_0 (root_ppn pt)) < 2 ^ 44"
  shows "user_byte m (PageTable_from_token (PageTable_token pt)) = user_byte m pt"
  by (simp add: fun_eq_iff user_byte_def PageTable_translate_def find_pte_token [OF assms])

section \<open>Reading a string\<close>

text \<open>Physical page 0 is never handed out; a reference into it would look like a null pointer.\<close>

definition nonnull_at :: "mm \<Rightarrow> page_table \<Rightarrow> nat \<Rightarrow> bool" where
  "nonnull_at m pt a \<longleftrightarrow>
     (case PageTable_translate m pt (VirtPageNum (word_of_nat (a div 4096))) of
        None \<Rightarrow> True | Some pte \<Rightarrow> ppn_0 (pte_ppn pte) \<noteq> 0)"

lemma read_translated:
  assumes "a < 2 ^ 38" and "user_byte m pt a = Some b" and "nonnull_at m pt a"
  obtains pa where "PageTable_translate_va m pt (VirtAddr_from_usize (word_of_nat a)) = Some pa"
    and "PhysAddr_get_mut pa = Inr pa" and "read_u8 m pa = b"
proof -
  let ?va = "VirtAddr (word_of_nat a)"
  have va: "unat (word_of_nat a :: usize) = a" using assms(1) by (simp add: word_of_nat_unat_inverse)
  have floor: "VirtAddr_floor ?va = VirtPageNum (word_of_nat (a div 4096))"
    using assms va by (intro virt_page_num.expand) (simp add: word_unat_eq_iff word_of_nat_unat_inverse)
  obtain p i where pte: "find_pte m pt (VirtAddr_floor ?va) = Some (p, i)"
    and b: "get_bytes_array m (pte_ppn (get_pte m p i)) ! (a mod 4096) = b"
    and nz: "ppn_0 (pte_ppn (get_pte m p i)) \<noteq> 0"
    using assms(2,3) by (auto simp: user_byte_def nonnull_at_def PageTable_translate_def floor)
  let ?p = "pte_ppn (get_pte m p i)"
  obtain pa where pa: "PageTable_translate_va m pt ?va = Some pa" "unat (pa_0 pa) = unat (ppn_0 ?p) * 4096 + a mod 4096"
    using unat_translate_va [OF pte] va by auto
  have "unat (ppn_0 ?p) \<noteq> 0" using nz by (simp add: unat_0_iff)
  then have "pa_0 pa \<noteq> 0" using pa(2) by auto
  moreover have "pa_0 pa div PAGE_SIZE = ppn_0 ?p"
    using pa(2) by (simp add: word_unat_eq_iff unat_div)
  moreover have "page_index ?p = ppn_0 ?p"
    using unat_pte_ppn(2) [of "get_pte m p i"] by (simp add: page_index_id del: unat_pte_ppn)
  moreover have "unat (PhysAddr_page_offset pa) = a mod 4096" using pa(2) by simp
  ultimately show ?thesis
    using that [of pa] pa(1) b VirtAddr_from_usize_small [OF assms(1)]
    by (simp add: PhysAddr_get_mut_def read_u8_def get_bytes_array_def)
qed

lemma str_loop:
  assumes "a + length bs < 2 ^ 38" and "\<And>i. i \<le> length bs \<Longrightarrow> nonnull_at m pt (a + i)"
    and "\<And>i. i < length bs \<Longrightarrow> user_byte m pt (a + i) = Some (bs ! i)" and "0 \<notin> set bs"
    and "user_byte m pt (a + length bs) = Some 0"
  shows "translated_str_loop m pt (word_of_nat a) str = Some (Inr (str @ map (\<lambda>b. char_of (unat b)) bs))"
  using assms
proof (induction bs arbitrary: a str)
  case Nil
  then have "a < 2 ^ 38" "user_byte m pt a = Some 0" "nonnull_at m pt a" using Nil.prems(2) [of 0] by simp_all
  then show ?case by (rule read_translated) (subst translated_str_loop.simps, simp)
next
  case (Cons b bs)
  have "a < 2 ^ 38" "user_byte m pt a = Some b" "nonnull_at m pt a"
    using Cons.prems(1) Cons.prems(2) [of 0] Cons.prems(3) [of 0] by simp_all
  then obtain pa where pa: "PageTable_translate_va m pt (VirtAddr_from_usize (word_of_nat a)) = Some pa"
      "PhysAddr_get_mut pa = Inr pa" "read_u8 m pa = b"
    by (rule read_translated)
  have "translated_str_loop m pt (word_of_nat (Suc a)) (str @ [char_of (unat b)]) =
      Some (Inr ((str @ [char_of (unat b)]) @ map (\<lambda>b. char_of (unat b)) bs))"
    using Cons.prems(1,4,5) Cons.prems(2) [of "Suc i" for i] Cons.prems(3) [of "Suc i" for i]
    by (intro Cons.IH) simp_all
  moreover have "b \<noteq> 0" using Cons.prems(4) by auto
  ultimately show ?case using pa by (subst translated_str_loop.simps) (simp add: Let_def add.commute)
qed

section \<open>Iterating over a user buffer\<close>

fun take_next :: "nat \<Rightarrow> (user_buffer_iterator, (phys_page_num \<times> usize) option list) action" where
  "take_next 0 = ret []"
| "take_next (Suc n) = bnd UserBufferIterator_next (\<lambda>r. bnd (take_next n) (\<lambda>rs. ret (r # rs)))"

definition slice_addrs :: "slice_ref \<Rightarrow> (phys_page_num \<times> usize) list" where
  "slice_addrs sl = map (\<lambda>i. (sl_page sl, sl_from sl + word_of_nat i)) [0..<unat (slice_len sl)]"

lemma iterator_rest_of_slice:
  assumes "j < length bs" and "i < unat (slice_len (bs ! j))" and "n = unat (slice_len (bs ! j)) - i"
  shows "take_next n \<lparr>it_buffers = bs, current_buffer = j, current_idx = word_of_nat i\<rparr> =
    Inr (map Some (drop i (slice_addrs (bs ! j))), \<lparr>it_buffers = bs, current_buffer = Suc j, current_idx = 0\<rparr>)"
  using assms
proof (induction n arbitrary: i)
  case 0
  then show ?case by simp
next
  case (Suc n)
  let ?b = "bs ! j"
  have len: "unat (slice_len ?b) < 2 ^ 64" using unat_less_64 by simp
  have i: "unat (word_of_nat i :: usize) = i" using Suc.prems(2) len by (intro word_of_nat_unat_inverse) simp
  then have lt: "(word_of_nat i :: usize) < slice_len ?b" using Suc.prems(2) by (simp add: word_less_nat_alt)
  have "unat (word_of_nat (Suc i) :: usize) = Suc i" using Suc.prems(2) len by (intro word_of_nat_unat_inverse) simp
  then have last: "word_of_nat i + 1 = slice_len ?b \<longleftrightarrow> Suc i = unat (slice_len ?b)"
    by (simp add: word_unat_eq_iff add.commute)
  have head: "drop i (slice_addrs ?b) = (sl_page ?b, sl_from ?b + word_of_nat i) # drop (Suc i) (slice_addrs ?b)"
    using Suc.prems(2) by (simp add: slice_addrs_def Cons_nth_drop_Suc [symmetric])
  show ?case
  proof (cases "Suc i = unat (slice_len ?b)")
    case True
    then have "n = 0" "drop (Suc i) (slice_addrs ?b) = []" using Suc.prems(3) by (simp_all add: slice_addrs_def)
    with True lt last head Suc.prems(1) show ?thesis
      by (simp add: UserBufferIterator_next_def action_defs Let_def)
  next
    case False
    then have "take_next n \<lparr>it_buffers = bs, current_buffer = j, current_idx = word_of_nat (Suc i)\<rparr> =
        Inr (map Some (drop (Suc i) (slice_addrs ?b)), \<lparr>it_buffers = bs, current_buffer = Suc j, current_idx = 0\<rparr>)"
      using Suc.prems by (intro Suc.IH) simp_all
    with False lt last head Suc.prems(1) show ?thesis
      by (simp add: UserBufferIterator_next_def action_defs Let_def add.commute)
  qed
qed

lemma take_next_add:
  "take_next (m + n) = bnd (take_next m) (\<lambda>rs. bnd (take_next n) (\<lambda>ss. ret (rs @ ss)))"
  by (induction m) (auto simp: fun_eq_iff action_defs split: sum.splits)

lemma iterator_rest_of_buffer:
  assumes "bs = cs @ ds" and "\<forall>b \<in> set ds. 0 < slice_len b"
  shows "take_next (sum_list (map (\<lambda>b. unat (slice_len b)) ds))
      \<lparr>it_buffers = bs, current_buffer = length cs, current_idx = 0\<rparr> =
    Inr (map Some (concat (map slice_addrs ds)), \<lparr>it_buffers = bs, current_buffer = length bs, current_idx = 0\<rparr>)"
  using assms
proof (induction ds arbitrary: cs)
  case Nil
  then show ?case by (simp add: ret_def)
next
  case (Cons d ds)
  have "take_next (unat (slice_len d)) \<lparr>it_buffers = bs, current_buffer = length cs, current_idx = word_of_nat 0\<rparr> =
      Inr (map Some (drop 0 (slice_addrs (bs ! length cs))), \<lparr>it_buffers = bs, current_buffer = Suc (length cs), current_idx = 0\<rparr>)"
    using Cons.prems by (intro iterator_rest_of_slice) (auto simp: word_less_nat_alt)
  moreover have "take_next (sum_list (map (\<lambda>b. unat (slice_len b)) ds))
      \<lparr>it_buffers = bs, current_buffer = length (cs @ [d]), current_idx = 0\<rparr> =
    Inr (map Some (concat (map slice_addrs ds)), \<lparr>it_buffers = bs, current_buffer = length bs, current_idx = 0\<rparr>)"
    using Cons.prems by (intro Cons.IH) auto
  ultimately show ?case using Cons.prems(1) by (simp add: take_next_add bnd_def ret_def)
qed

text \<open>The slices of a user buffer and what they hold.\<close>

lemma translated_byte_buffer_slices:
  assumes "memory_ok m" and "unat (ppn_0 (root_ppn pt)) < 2 ^ 44" and "unat ptr + unat len < 2 ^ 38"
    and "map Some bs = map (user_byte m pt) [unat ptr..<unat ptr + unat len]"
  shows "\<exists>v. translated_byte_buffer m (PageTable_token pt) ptr len = Some (Inr v) \<and> concat (map (slice_bytes m) v) = bs \<and>
    list_all slice_fits v \<and> UserBuffer_len (UserBuffer_new v) = len"
proof -
  let ?pt = "PageTable_from_token (PageTable_token pt)" and ?s = "unat ptr" and ?e = "unat ptr + unat len"
  have mapped: "user_byte m ?pt a \<noteq> None" if "?s \<le> a" "a < ?e" for a
  proof -
    have "length bs = unat len" using arg_cong [OF assms(4), of length] by simp
    then have "Some (bs ! (a - ?s)) = user_byte m pt a"
      using arg_cong [OF assms(4), of "\<lambda>xs. xs ! (a - ?s)"] that by simp
    then show ?thesis unfolding user_byte_token [OF assms(2)] by (metis option.distinct(1))
  qed
  have "\<exists>w. translated_byte_buffer_loop m ?pt (word_of_nat ?s) (word_of_nat ?e) [] = Some (Inr ([] @ w)) \<and>
      map Some (concat (map (slice_bytes m) w)) = map (user_byte m ?pt) [?s..<?e] \<and>
      (\<forall>sl \<in> set w. slice_fits sl) \<and> sum_list (map (\<lambda>sl. unat (slice_len sl)) w) = ?e - ?s"
    by (rule byte_buffer_loop [OF _ assms(3,1) mapped]) simp_all
  then obtain w where w: "translated_byte_buffer_loop m ?pt (word_of_nat ?s) (word_of_nat ?e) [] = Some (Inr w)"
      "map Some (concat (map (slice_bytes m) w)) = map (user_byte m pt) [?s..<?e]"
      "\<forall>sl \<in> set w. slice_fits sl" "sum_list (map (\<lambda>sl. unat (slice_len sl)) w) = ?e - ?s"
    unfolding user_byte_token [OF assms(2)] append_Nil by (elim exE conjE)
  have "translated_byte_buffer m (PageTable_token pt) ptr len = Some (Inr w)"
    using w(1) by (simp add: translated_byte_buffer_def)
  moreover have "map Some (concat (map (slice_bytes m) w)) = map Some bs" using w(2) assms(4) by (simp only:)
  then have "concat (map (slice_bytes m) w) = bs" by (rule map_injective) simp
  moreover have "UserBuffer_len (UserBuffer_new w) = len"
    using word_of_sum_unat [of slice_len w] w(4) by (simp add: UserBuffer_len_sum UserBuffer_new_def)
  ultimately show ?thesis using w(3) by (intro exI [of _ w]) (simp add: list_all_iff)
qed

section \<open>Properties\<close>

text \<open>The small machine with page \<open>0x10\<close> mapped to the page that holds a string.\<close>

lemma tiny_mapped:
  obtains pt m where "PageTable_map tiny_pt (VirtPageNum 0x10) (PhysPageNum 0x50) PTE_R tiny_mm = Inr (pt, m)"
    and "memory_ok m" and "unat (ppn_0 (root_ppn pt)) < 2 ^ 44"
    and "PageTable_translate m pt (VirtPageNum 0x10) = Some (PageTableEntry_new (PhysPageNum 0x50) (PTE_R OR PTE_V))"
    and "get_bytes_array m (PhysPageNum 0x50) = [104, 105] @ replicate 4094 0"
    and "pt_abs m pt (VirtPageNum 0x11) = None" and "memory m 0x51 = replicate 4096 0"
    and "pt_wf 2 m pt" and "0x50 \<notin> page_index ` set (pt_frames pt)"
proof -
  obtain pt m where run: "PageTable_map tiny_pt (VirtPageNum 0x10) (PhysPageNum 0x50) PTE_R tiny_mm = Inr (pt, m)"
    and grown: "pt_grown 2 20 tiny_mm tiny_pt m pt"
    and abs: "pt_abs m pt = abs_update (VirtPageNum 0x10)
      (Some (PageTableEntry_new (PhysPageNum 0x50) (PTE_R OR PTE_V))) (pt_abs tiny_mm tiny_pt)"
    using wp_PageTable_map [OF tiny_ok, of "VirtPageNum 0x10" "PhysPageNum 0x50" PTE_R] by (auto simp: wp_iff)
  have "set (pt_frames pt) \<subseteq> insert (PhysPageNum 2) (mm_free tiny_mm)"
    using grown by (auto simp: pt_grown_def tiny_pt_def)
  then have small: "unat (ppn_0 p) < 20" if "p \<in> set (pt_frames pt)" for p
    using that by (fastforce simp: tiny_mm_def fa_free_def)
  then have other: "page_index p \<noteq> q" if "p \<in> set (pt_frames pt)" "20 \<le> unat q" for p q
    using small [OF that(1)] that(2) by (auto simp: page_index_id)
  then have "0x50 \<notin> page_index ` set (pt_frames pt)" by auto
  moreover have "memory m 0x50 = memory tiny_mm 0x50" "memory m 0x51 = memory tiny_mm 0x51"
    using grown other by (auto simp: pt_grown_def image_iff)
  moreover have "VirtPageNum_indexes (VirtPageNum 0x11) \<noteq> VirtPageNum_indexes (VirtPageNum 0x10)"
    by (simp add: indexes_inject)
  then have "pt_abs m pt (VirtPageNum 0x11) = None" by (simp add: abs abs_update_def tiny_ok(4))
  moreover have "pt_abs m pt (VirtPageNum 0x10) = Some (PageTableEntry_new (PhysPageNum 0x50) (PTE_R OR PTE_V))"
    by (simp add: abs abs_update_def)
  moreover have "memory_ok m" "pt_wf 2 m pt" using grown by (simp_all add: pt_grown_def pt_wf_def)
  moreover have "root_ppn pt = PhysPageNum 2" using grown by (simp add: pt_grown_def tiny_pt_def)
  ultimately show ?thesis
    using run that [of pt m]
    by (auto simp: pt_abs_def tiny_mm_def get_bytes_array_def page_index_id split: option.splits if_splits)
qed

text \<open>
  C19: For a user buffer that lies in the lower half of the address space and whose pages
  have a page table entry, \<open>translated_byte_buffer\<close> returns, and the slices it returns are,
  one after the other, exactly the bytes of the buffer as the user program sees them; their
  total length is the length asked for, and iterating over the \<open>UserBuffer\<close> made of
  them yields a pointer to each byte, in order.
\<close>

theorem translated_byte_buffer_exact:
  assumes "memory_ok m" and "unat (ppn_0 (root_ppn pt)) < 2 ^ 44" and "unat ptr + unat len < 2 ^ 38"
    and "\<And>a. unat ptr \<le> a \<Longrightarrow> a < unat ptr + unat len \<Longrightarrow> user_byte m pt a \<noteq> None"
  shows "\<exists>v. translated_byte_buffer m (PageTable_token pt) ptr len = Some (Inr v) \<and>
    map Some (concat (map (slice_bytes m) v)) = map (user_byte m pt) [unat ptr..<unat ptr + unat len] \<and>
    UserBuffer_len (UserBuffer_new v) = len \<and>
    (\<exists>it. take_next (unat len) (UserBuffer_into_iter (UserBuffer_new v)) =
       Inr (map Some (concat (map slice_addrs v)), it) \<and> UserBufferIterator_next it = Inr (None, it))"
proof -
  let ?pt = "PageTable_from_token (PageTable_token pt)"
  let ?s = "unat ptr" and ?e = "unat ptr + unat len"
  have "ptr + len = word_of_nat ?e" by simp
  moreover obtain w where w: "translated_byte_buffer_loop m ?pt (word_of_nat ?s) (word_of_nat ?e) [] = Some (Inr ([] @ w))"
      "map Some (concat (map (slice_bytes m) w)) = map (user_byte m ?pt) [?s..<?e]"
      "\<forall>sl \<in> set w. slice_fits sl" "sum_list (map (\<lambda>sl. unat (slice_len sl)) w) = ?e - ?s"
    using byte_buffer_loop [of ?s ?e m ?pt "[]"] assms(1,3,4) unfolding user_byte_token [OF assms(2)] by auto
  ultimately have "translated_byte_buffer m (PageTable_token pt) ptr len = Some (Inr w)"
    by (simp add: translated_byte_buffer_def)
  moreover have "UserBuffer_len (UserBuffer_new w) = len"
    using word_of_sum_unat [of slice_len w] w(4) by (simp add: UserBuffer_len_sum UserBuffer_new_def)
  moreover have "take_next (unat len) (UserBuffer_into_iter (UserBuffer_new w)) =
      Inr (map Some (concat (map slice_addrs w)), \<lparr>it_buffers = w, current_buffer = length w, current_idx = 0\<rparr>)"
    using iterator_rest_of_buffer [of w "[]" w] w(3,4) slice_fits_len by (simp add: UserBuffer_into_iter_def UserBuffer_new_def)
  ultimately show ?thesis
    using w(2) by (auto simp: user_byte_token [OF assms(2)] UserBufferIterator_next_def)
qed

theorem translated_byte_buffer_exact_witness:
  "\<exists>pt m v. PageTable_map tiny_pt (VirtPageNum 0x10) (PhysPageNum 0x50) PTE_R tiny_mm = Inr (pt, m) \<and>
     translated_byte_buffer m (PageTable_token pt) 0x10000 2 = Some (Inr v) \<and>
     concat (map (slice_bytes m) v) = [104, 105]"
proof (rule tiny_mapped)
  fix pt m
  assume run: "PageTable_map tiny_pt (VirtPageNum 0x10) (PhysPageNum 0x50) PTE_R tiny_mm = Inr (pt, m)"
    and ok: "memory_ok m" "unat (ppn_0 (root_ppn pt)) < 2 ^ 44"
    and tr: "PageTable_translate m pt (VirtPageNum 0x10) = Some (PageTableEntry_new (PhysPageNum 0x50) (PTE_R OR PTE_V))"
    and bytes: "get_bytes_array m (PhysPageNum 0x50) = [104, 105] @ replicate 4094 0"
  have b: "user_byte m pt 0x10000 = Some 104" "user_byte m pt 0x10001 = Some 105"
    using tr bytes by (simp_all add: user_byte_def pte_ppn_new)
  have range: "unat (0x10000 :: usize) + unat (2 :: usize) < 2 ^ 38" by simp
  have "user_byte m pt a \<noteq> None" if "unat (0x10000 :: usize) \<le> a" "a < unat (0x10000 :: usize) + unat (2 :: usize)" for a
  proof -
    have "a = 0x10000 \<or> a = 0x10001" using that by auto
    then show ?thesis using b by auto
  qed
  from translated_byte_buffer_exact [OF ok range this] obtain v where
    "translated_byte_buffer m (PageTable_token pt) 0x10000 2 = Some (Inr v)"
    "map Some (concat (map (slice_bytes m) v)) = map (user_byte m pt) [65536..<65538]"
    by auto
  moreover have "map (user_byte m pt) [65536..<65538] = map Some [104, 105]"
    using b by (simp add: upt_rec)
  ultimately have "concat (map (slice_bytes m) v) = [104, 105]" by (metis map_injective inj_Some)
  with run \<open>translated_byte_buffer m (PageTable_token pt) 0x10000 2 = Some (Inr v)\<close> show ?thesis by blast
qed

text \<open>
  C34: \<open>translated_str\<close> on a pointer to a string of the user program that is ended by a
  zero byte, in the lower half of the address space, returns exactly the characters before
  the zero byte.
\<close>

theorem translated_str_exact:
  assumes "unat (ppn_0 (root_ppn pt)) < 2 ^ 44" and "unat ptr + length bs < 2 ^ 38"
    and "\<And>i. i < length bs \<Longrightarrow> user_byte m pt (unat ptr + i) = Some (bs ! i)" and "0 \<notin> set bs"
    and "user_byte m pt (unat ptr + length bs) = Some 0"
    and "\<And>i. i \<le> length bs \<Longrightarrow> nonnull_at m pt (unat ptr + i)"
  shows "translated_str m (PageTable_token pt) ptr = Some (Inr (map (\<lambda>b. char_of (unat b)) bs))"
proof -
  let ?pt = "PageTable_from_token (PageTable_token pt)"
  have "nonnull_at m ?pt a = nonnull_at m pt a" for a
    by (simp add: nonnull_at_def PageTable_translate_def find_pte_token [OF assms(1)])
  then have "translated_str_loop m ?pt (word_of_nat (unat ptr)) [] = Some (Inr ([] @ map (\<lambda>b. char_of (unat b)) bs))"
    using assms by (intro str_loop) (simp_all add: user_byte_token)
  then show ?thesis by (simp add: translated_str_def)
qed

theorem translated_str_exact_witness:
  "\<exists>pt m. PageTable_map tiny_pt (VirtPageNum 0x10) (PhysPageNum 0x50) PTE_R tiny_mm = Inr (pt, m) \<and>
     translated_str m (PageTable_token pt) 0x10000 = Some (Inr ''hi'')"
proof (rule tiny_mapped)
  fix pt m
  assume run: "PageTable_map tiny_pt (VirtPageNum 0x10) (PhysPageNum 0x50) PTE_R tiny_mm = Inr (pt, m)"
    and root: "unat (ppn_0 (root_ppn pt)) < 2 ^ 44"
    and tr: "PageTable_translate m pt (VirtPageNum 0x10) = Some (PageTableEntry_new (PhysPageNum 0x50) (PTE_R OR PTE_V))"
    and bytes: "get_bytes_array m (PhysPageNum 0x50) = [104, 105] @ replicate 4094 0"
  have at: "user_byte m pt (unat (0x10000 :: usize) + i) = Some (([104, 105, 0] :: byte list) ! i)"
      "nonnull_at m pt (unat (0x10000 :: usize) + i)" if "i \<le> 2" for i
  proof -
    from that consider "i = 0" | "i = 1" | "i = 2" by linarith
    then show "user_byte m pt (unat (0x10000 :: usize) + i) = Some (([104, 105, 0] :: byte list) ! i)"
        "nonnull_at m pt (unat (0x10000 :: usize) + i)"
      using tr bytes by (cases; simp add: user_byte_def nonnull_at_def pte_ppn_new)+
  qed
  have "translated_str m (PageTable_token pt) 0x10000 = Some (Inr (map (\<lambda>b. char_of (unat b)) [104, 105 :: byte]))"
  proof (rule translated_str_exact [OF root])
    fix i
    assume "i < length ([104, 105] :: byte list)"
    then have "i = 0 \<or> i = 1" by auto
    then show "user_byte m pt (unat (0x10000 :: usize) + i) = Some (([104, 105] :: byte list) ! i)"
      using at(1) [of i] by auto
  qed (use at(1) [of 2] at(2) in auto)
  moreover have "map (\<lambda>b. char_of (unat b)) [104, 105 :: byte] = ''hi''" by code_simp
  ultimately show ?thesis using run by auto
qed

text \<open>
  A pointer above the 39 bits of a virtual address makes \<open>translated_byte_buffer\<close> loop
  forever: the comparison of the loop uses the full 64-bit end, the step the low 39 bits.
\<close>

lemma byte_buffer_loop_diverges:
  assumes "PageTable_translate m pt (VirtPageNum 0) = Some pte"
  shows "translated_byte_buffer_loop m pt 8 0x8000000008 v = None"
proof -
  have va: "VirtAddr_from_usize 8 = VirtAddr 8" "VirtAddr_from_usize 0x8000000008 = VirtAddr 8"
      "VirtAddr_floor (VirtAddr 8) = VirtPageNum 0" "VirtAddr_page_offset (VirtAddr 8) = 8"
      "min (VirtAddr_from_VirtPageNum (VirtPageNum_step (VirtPageNum 0))) (VirtAddr 8) = VirtAddr 8"
      "usize_from_VirtAddr (VirtAddr 8) = 8"
    by code_simp+
  have "\<not> (m' = m \<and> pt' = pt \<and> s = 8 \<and> e = 0x8000000008)"
    if "translated_byte_buffer_loop m' pt' s e v = Some y" for m' pt' s e v y
    using that
  proof (rule translated_byte_buffer_loop.raw_induct [rotated, where P = "\<lambda>m' pt' s e v y.
      \<not> (m' = m \<and> pt' = pt \<and> s = 8 \<and> e = 0x8000000008)"], goal_cases)
    case (1 rec m' pt' s e v y)
    show ?case
    proof
      assume "m' = m \<and> pt' = pt \<and> s = 8 \<and> e = 0x8000000008"
      with 1(2) assms have "\<exists>w. rec m pt 8 0x8000000008 w = Some y"
        by (auto simp: va Let_def slice_index_def word_le_nat_alt split: if_splits)
      with 1(1) show False by blast
    qed
  qed
  then show ?thesis by (cases "translated_byte_buffer_loop m pt 8 0x8000000008 v") blast+
qed

theorem translated_byte_buffer_hangs:
  assumes "PageTable_translate m (PageTable_from_token token) (VirtPageNum 0) = Some pte"
  shows "translated_byte_buffer m token 0x8000000000 8 = None"
proof -
  have va: "VirtAddr_from_usize 0x8000000000 = VirtAddr 0" "VirtAddr_from_usize 0x8000000008 = VirtAddr 8"
      "VirtAddr_floor (VirtAddr 0) = VirtPageNum 0" "VirtAddr_page_offset (VirtAddr 8) = 8"
      "VirtAddr_page_offset (VirtAddr 0) = 0"
      "min (VirtAddr_from_VirtPageNum (VirtPageNum_step (VirtPageNum 0))) (VirtAddr 8) = VirtAddr 8"
      "usize_from_VirtAddr (VirtAddr 8) = 8"
    by code_simp+
  show ?thesis
    unfolding translated_byte_buffer_def Let_def
    by (subst translated_byte_buffer_loop.simps)
      (simp add: va assms Let_def slice_index_def word_le_nat_alt byte_buffer_loop_diverges [OF assms])
qed

text \<open>
  A reference to a multi-byte value that straddles the end of a page continues in the next
  physical page, which need not belong to the user program: the store of an exit code at the
  end of a page changes the first bytes of a page the program has not mapped.
\<close>

theorem refmut_store_crosses_page:
  "\<exists>pt m pa. PageTable_map tiny_pt (VirtPageNum 0x10) (PhysPageNum 0x50) PTE_R tiny_mm = Inr (pt, m) \<and>
     pt_abs m pt (VirtPageNum 0x11) = None \<and>
     translated_refmut m (PageTable_token pt) 0x10ffe = Inr pa \<and>
     memory m 0x51 ! 0 = 0 \<and> memory (write_phys (pa_0 pa) [1, 2, 3, 4] m) 0x51 ! 0 = 3"
proof (rule tiny_mapped)
  fix pt m
  assume run: "PageTable_map tiny_pt (VirtPageNum 0x10) (PhysPageNum 0x50) PTE_R tiny_mm = Inr (pt, m)"
    and ok: "memory_ok m" "unat (ppn_0 (root_ppn pt)) < 2 ^ 44"
    and tr: "PageTable_translate m pt (VirtPageNum 0x10) = Some (PageTableEntry_new (PhysPageNum 0x50) (PTE_R OR PTE_V))"
    and none: "pt_abs m pt (VirtPageNum 0x11) = None" and zero: "memory m 0x51 = replicate 4096 0"
  have va: "VirtAddr_from_usize 0x10ffe = VirtAddr 0x10ffe" "VirtAddr_floor (VirtAddr 0x10ffe) = VirtPageNum 0x10"
    by code_simp+
  obtain p i where p: "find_pte m pt (VirtPageNum 0x10) = Some (p, i)"
      "get_pte m p i = PageTableEntry_new (PhysPageNum 0x50) (PTE_R OR PTE_V)"
    using tr by (auto simp: PageTable_translate_def)
  have "map_option (\<lambda>pa. unat (pa_0 pa)) (PageTable_translate_va m (PageTable_from_token (PageTable_token pt)) (VirtAddr 0x10ffe))
      = Some 0x50ffe"
    using unat_translate_va [of m "PageTable_from_token (PageTable_token pt)" "VirtAddr 0x10ffe" p i] p
    by (simp add: find_pte_token [OF ok(2)] va pte_ppn_new)
  then obtain pa where pa: "PageTable_translate_va m (PageTable_from_token (PageTable_token pt)) (VirtAddr 0x10ffe) = Some pa"
      "unat (pa_0 pa) = 0x50ffe" by auto
  then have "pa_0 pa = 0x50ffe" by (simp add: word_unat_eq_iff)
  moreover have "memory (write_phys 0x50ffe [1, 2, 3, 4] m) 0x51 ! 0 = 3"
    using zero by (simp add: write_u8_def PAGE_SIZE_def PhysAddr_page_offset_def)
  ultimately show ?thesis
    using run none zero pa(1) by (simp add: translated_refmut_def va PhysAddr_get_mut_def)
qed

end
