(* ===== verification/Block_Device.thy ===== *)
theory Block_Device
  imports Prelude
begin

text \<open>
  Block devices (\<open>src/easy-fs/src/block_dev.rs\<close>): the \<open>BlockDevice\<close> trait is the locale
  \<open>block_device\<close>, whose operations act on the state of the device. The device of the
  packing tool, a host file (\<open>BlockFile\<close> in \<open>src/easy-fs-fuse/src/main.rs\<close>), provides it.
\<close>

definition BLOCK_SZ :: nat where "BLOCK_SZ = 512"

section \<open>The trait\<close>

text \<open>
  \<open>read_block id buf\<close> returns the new contents of the buffer. A device is a number of blocks
  of 512 bytes each; reading any other block panics.
\<close>

locale block_device =
  fixes read_block :: "nat \<Rightarrow> byte list \<Rightarrow> ('d, byte list) action"
    and write_block :: "nat \<Rightarrow> byte list \<Rightarrow> ('d, unit) action"
    and dev_blocks :: "'d \<Rightarrow> nat"
    and dev_block :: "'d \<Rightarrow> nat \<Rightarrow> byte list"
  assumes block_length: "b < dev_blocks d \<Longrightarrow> length (dev_block d b) = 512"
    and read_inside: "b < dev_blocks d \<Longrightarrow> length buf = 512 \<Longrightarrow>
      \<exists>d'. read_block b buf d = Inr (dev_block d b, d') \<and> dev_blocks d' = dev_blocks d \<and>
        (\<forall>c < dev_blocks d. dev_block d' c = dev_block d c)"
    and read_outside: "\<not> b < dev_blocks d \<Longrightarrow> length buf = 512 \<Longrightarrow> \<exists>e. read_block b buf d = Inl e"
    and write_inside: "b < dev_blocks d \<Longrightarrow> length buf = 512 \<Longrightarrow>
      \<exists>d'. write_block b buf d = Inr ((), d') \<and> dev_blocks d' = dev_blocks d \<and>
        (\<forall>c < dev_blocks d. dev_block d' c = (if c = b then buf else dev_block d c))"

section \<open>A host file as a device\<close>

text \<open>
  A file of the host: its bytes and the position of the next transfer. \<open>read\<close> transfers as
  many bytes as there are, up to the length of the buffer; \<open>write\<close> past the end extends the
  file.
\<close>

record host_file =
  file_bytes :: "byte list"
  file_pos :: nat

definition file_seek :: "nat \<Rightarrow> (host_file, unit) action" where
  "file_seek pos = upd (\<lambda>f. f\<lparr>file_pos := pos\<rparr>)"

definition file_read :: "byte list \<Rightarrow> (host_file, nat \<times> byte list) action" where
  "file_read buf f =
     (let got = segment (file_pos f) (length buf) (file_bytes f)
      in Inr ((length got, splice_at 0 got buf), f\<lparr>file_pos := file_pos f + length got\<rparr>))"

definition file_write :: "byte list \<Rightarrow> (host_file, nat) action" where
  "file_write buf f =
     (let old = file_bytes f @ replicate (file_pos f + length buf - length (file_bytes f)) 0
      in Inr (length buf, f\<lparr>file_bytes := splice_at (file_pos f) buf old, file_pos := file_pos f + length buf\<rparr>))"

definition BlockFile_read_block :: "nat \<Rightarrow> byte list \<Rightarrow> (host_file, byte list) action" where
  "BlockFile_read_block block_id buf =
     thn (file_seek (block_id * BLOCK_SZ))
       (bnd (file_read buf) (\<lambda>(n, buf). thn (assert_that (n = BLOCK_SZ)) (ret buf)))"

definition BlockFile_write_block :: "nat \<Rightarrow> byte list \<Rightarrow> (host_file, unit) action" where
  "BlockFile_write_block block_id buf =
     thn (file_seek (block_id * BLOCK_SZ))
       (bnd (file_write buf) (\<lambda>n. assert_that (n = BLOCK_SZ)))"

definition file_blocks :: "host_file \<Rightarrow> nat" where
  "file_blocks f = length (file_bytes f) div BLOCK_SZ"

definition file_block :: "host_file \<Rightarrow> nat \<Rightarrow> byte list" where
  "file_block f b = segment (b * BLOCK_SZ) BLOCK_SZ (file_bytes f)"

lemma block_fits: "b < file_blocks f \<Longrightarrow> b * 512 + 512 \<le> length (file_bytes f)"
proof -
  assume "b < file_blocks f"
  then have "Suc b * 512 \<le> file_blocks f * 512" by (intro mult_le_mono1) simp
  also have "\<dots> \<le> length (file_bytes f)" by (simp add: file_blocks_def BLOCK_SZ_def)
  finally show ?thesis by simp
qed

lemma block_outside: "\<not> b < file_blocks f \<Longrightarrow> length (file_bytes f) - b * 512 < 512"
proof -
  assume "\<not> b < file_blocks f"
  then have "length (file_bytes f) div 512 \<le> b" by (simp add: file_blocks_def BLOCK_SZ_def)
  then have "length (file_bytes f) < Suc b * 512"
    by (metis div_less_iff_less_mult less_Suc_eq_le zero_less_numeral)
  then show ?thesis by simp
qed

lemma BlockFile_read_inside:
  assumes "b < file_blocks f" and "length buf = 512"
  shows "BlockFile_read_block b buf f = Inr (file_block f b, f\<lparr>file_pos := b * 512 + 512\<rparr>)"
  using block_fits [OF assms(1)] assms(2)
  by (simp add: BlockFile_read_block_def file_seek_def file_read_def action_defs BLOCK_SZ_def
      file_block_def Let_def)

lemma BlockFile_write_inside:
  assumes "b < file_blocks f" and "length buf = 512"
  shows "BlockFile_write_block b buf f =
    Inr ((), f\<lparr>file_bytes := splice_at (b * 512) buf (file_bytes f), file_pos := b * 512 + 512\<rparr>)"
  using block_fits [OF assms(1)] assms(2)
  by (simp add: BlockFile_write_block_def file_seek_def file_write_def action_defs BLOCK_SZ_def Let_def)

lemma BlockFile_read_outside:
  assumes "\<not> b < file_blocks f" and "length buf = 512"
  shows "BlockFile_read_block b buf f = Inl AssertFailed"
  using block_outside [OF assms(1)] assms(2)
  by (simp add: BlockFile_read_block_def file_seek_def file_read_def action_defs BLOCK_SZ_def Let_def)

lemma file_block_splice:
  assumes "b < file_blocks f" and "c < file_blocks f" and "length buf = 512"
  shows "segment (c * 512) 512 (splice_at (b * 512) buf (file_bytes f)) = (if c = b then buf else file_block f c)"
proof (cases "c = b")
  case True
  then show ?thesis using block_fits [OF assms(1)] assms(3) by simp
next
  case False
  then have "c * 512 + 512 \<le> b * 512 \<or> b * 512 + 512 \<le> c * 512" by linarith
  then show ?thesis
    using False block_fits [OF assms(1)] block_fits [OF assms(2)] assms(3)
    by (subst segment_splice_at_other) (auto simp: file_block_def BLOCK_SZ_def)
qed

interpretation block_file: block_device BlockFile_read_block BlockFile_write_block file_blocks file_block
proof unfold_locales
  fix b d
  assume "b < file_blocks d"
  then show "length (file_block d b) = 512"
    using block_fits by (force simp: file_block_def BLOCK_SZ_def)
next
  fix b d and buf :: "byte list"
  assume "b < file_blocks d" "length buf = 512"
  from BlockFile_read_inside [OF this]
  show "\<exists>d'. BlockFile_read_block b buf d = Inr (file_block d b, d') \<and> file_blocks d' = file_blocks d \<and>
      (\<forall>c < file_blocks d. file_block d' c = file_block d c)"
    by (simp add: file_blocks_def file_block_def)
next
  fix b d and buf :: "byte list"
  assume "\<not> b < file_blocks d" "length buf = 512"
  then show "\<exists>e. BlockFile_read_block b buf d = Inl e" using BlockFile_read_outside by blast
next
  fix b d and buf :: "byte list"
  assume b: "b < file_blocks d" "length buf = 512"
  let ?d = "d\<lparr>file_bytes := splice_at (b * 512) buf (file_bytes d), file_pos := b * 512 + 512\<rparr>"
  have "file_blocks ?d = file_blocks d"
    using block_fits [OF b(1)] b(2) by (simp add: file_blocks_def)
  moreover have "file_block ?d c = (if c = b then buf else file_block d c)" if "c < file_blocks d" for c
    using file_block_splice [OF b(1) that b(2)] by (simp add: file_block_def BLOCK_SZ_def)
  ultimately show "\<exists>d'. BlockFile_write_block b buf d = Inr ((), d') \<and> file_blocks d' = file_blocks d \<and>
      (\<forall>c < file_blocks d. file_block d' c = (if c = b then buf else file_block d c))"
    using BlockFile_write_inside [OF b] by blast
qed

end
