(* ===== verification/Block_Store.thy ===== *)
theory Block_Store
  imports Block_Device Bytes
begin

text \<open>
  The block layer as its clients see it: a device of logical blocks, of which some are
  being accessed. Everywhere in easy-fs a block is reached by
  \<open>get_block_cache(id, dev).lock().read(offset, f)\<close> or \<open>.modify(offset, f)\<close>; here these two
  are \<open>read_as\<close> and \<open>modify_as\<close>, with the closure \<open>f\<close> as an argument. The lock is a spin
  lock and there is one thread, so taking the lock of a block that is being accessed never
  returns (\<open>Deadlock\<close>), and the cache has room for 16 blocks in use
  (\<open>RunOutOfBlockCache\<close>). That the real cache behaves like this is proved in
  \<open>Block_Cache\<close>.
\<close>

section \<open>Logical blocks\<close>

record store =
  blocks :: "nat \<Rightarrow> byte list"
  nblocks :: nat
  held :: "nat list"

type_synonym 'a store_action = "(store, 'a) action"

definition BLOCK_CACHE_SIZE :: nat where "BLOCK_CACHE_SIZE = 16"

definition acquire :: "nat \<Rightarrow> unit store_action" where
  "acquire b s =
     (if b \<in> set (held s) then Inl Deadlock
      else if BLOCK_CACHE_SIZE \<le> length (held s) then Inl RunOutOfBlockCache
      else if b < nblocks s then Inr ((), s\<lparr>held := b # held s\<rparr>)
      else Inl DeviceError)"

definition release :: "nat \<Rightarrow> unit store_action" where
  "release b = upd (\<lambda>s. s\<lparr>held := remove1 b (held s)\<rparr>)"

text \<open>A typed view of some bytes: the size of the type, reading it and updating it in place.\<close>

record 'a view =
  v_size :: nat
  v_get :: "byte list \<Rightarrow> 'a"
  v_put :: "'a \<Rightarrow> byte list \<Rightarrow> byte list"

definition view_at :: "'a view \<Rightarrow> nat \<Rightarrow> byte list \<Rightarrow> 'a" where
  "view_at V off bs = v_get V (segment off (v_size V) bs)"

definition put_at :: "'a view \<Rightarrow> nat \<Rightarrow> 'a \<Rightarrow> byte list \<Rightarrow> byte list" where
  "put_at V off x bs = splice_at off (v_put V x (segment off (v_size V) bs)) bs"

definition read_as :: "'a view \<Rightarrow> nat \<Rightarrow> nat \<Rightarrow> ('a \<Rightarrow> 'v store_action) \<Rightarrow> 'v store_action" where
  "read_as V b off f =
     thn (acquire b)
     (thn (assert_that (off + v_size V \<le> BLOCK_SZ))
     (bnd (gets (\<lambda>s. view_at V off (blocks s b))) (\<lambda>x.
      bnd (f x) (\<lambda>v.
      thn (release b) (ret v)))))"

definition modify_as ::
    "'a view \<Rightarrow> nat \<Rightarrow> nat \<Rightarrow> ('a \<Rightarrow> ('v \<times> 'a) store_action) \<Rightarrow> 'v store_action" where
  "modify_as V b off f =
     thn (acquire b)
     (thn (assert_that (off + v_size V \<le> BLOCK_SZ))
     (bnd (gets (\<lambda>s. view_at V off (blocks s b))) (\<lambda>x.
      bnd (f x) (\<lambda>(v, x').
      thn (upd (\<lambda>s. s\<lparr>blocks := (blocks s)(b := put_at V off x' (blocks s b))\<rparr>))
      (thn (release b) (ret v))))))"

section \<open>Weakest preconditions\<close>

definition acquirable :: "nat \<Rightarrow> store \<Rightarrow> bool" where
  "acquirable b s \<longleftrightarrow> b < nblocks s \<and> b \<notin> set (held s) \<and> length (held s) < 16"

lemma wp_acquire [wp_simps]: "wp (acquire b) Q = (\<lambda>s. acquirable b s \<and> Q () (s\<lparr>held := b # held s\<rparr>))"
  by (auto simp: fun_eq_iff wp_def acquire_def acquirable_def BLOCK_CACHE_SIZE_def)

lemma wp_release [wp_simps]: "wp (release b) Q = (\<lambda>s. Q () (s\<lparr>held := remove1 b (held s)\<rparr>))"
  by (simp add: release_def wp_upd)

definition set_block :: "nat \<Rightarrow> byte list \<Rightarrow> store \<Rightarrow> store" where
  "set_block b bs s = s\<lparr>blocks := (blocks s)(b := bs)\<rparr>"

lemma set_block_simps [simp]:
  "blocks (set_block b bs s) = (blocks s)(b := bs)" "nblocks (set_block b bs s) = nblocks s"
  "held (set_block b bs s) = held s" "acquirable c (set_block b bs s) = acquirable c s"
  by (simp_all add: set_block_def acquirable_def)

text \<open>The state inside and after an access.\<close>

definition entered :: "nat \<Rightarrow> store \<Rightarrow> store" where
  "entered b s = s\<lparr>held := b # held s\<rparr>"

definition left :: "nat \<Rightarrow> store \<Rightarrow> store" where
  "left b s = s\<lparr>held := remove1 b (held s)\<rparr>"

lemma acquire_cases:
  "acquirable b t \<Longrightarrow> acquire b t = Inr ((), entered b t)"
  "\<not> acquirable b t \<Longrightarrow> \<exists>e. acquire b t = Inl e"
  by (auto simp: acquire_def acquirable_def entered_def BLOCK_CACHE_SIZE_def)

lemma entered_left_simps [simp]:
  "blocks (entered b s) = blocks s" "nblocks (entered b s) = nblocks s" "held (entered b s) = b # held s"
  "blocks (left b s) = blocks s" "nblocks (left b s) = nblocks s" "held (left b s) = remove1 b (held s)"
  "left b (entered b s) = s" "left b (set_block c bs s) = set_block c bs (left b s)"
  by (simp_all add: entered_def left_def set_block_def)

lemma wp_read_as [wp_simps]:
  "wp (read_as V b off f) Q = (\<lambda>s. acquirable b s \<and> off + v_size V \<le> 512 \<and>
     wp (f (view_at V off (blocks s b))) (\<lambda>v s'. Q v (left b s')) (entered b s))"
  by (auto simp: fun_eq_iff read_as_def wp_simps entered_def left_def BLOCK_SZ_def)

lemma wp_modify_as [wp_simps]:
  "wp (modify_as V b off f) Q = (\<lambda>s. acquirable b s \<and> off + v_size V \<le> 512 \<and>
     wp (f (view_at V off (blocks s b)))
       (\<lambda>r s'. Q (fst r) (left b (set_block b (put_at V off (snd r) (blocks s' b)) s'))) (entered b s))"
  by (auto simp: fun_eq_iff modify_as_def wp_simps entered_def left_def set_block_def BLOCK_SZ_def
      case_prod_beta)

text \<open>Accesses whose closure touches no other block.\<close>

lemma wp_read_pure:
  "wp (read_as V b off (\<lambda>x. ret (g x))) Q = (\<lambda>s. acquirable b s \<and> off + v_size V \<le> 512 \<and>
     Q (g (view_at V off (blocks s b))) s)"
  by (auto simp: fun_eq_iff wp_simps)

lemma wp_modify_pure:
  "wp (modify_as V b off (\<lambda>x. ret (g x))) Q = (\<lambda>s. acquirable b s \<and> off + v_size V \<le> 512 \<and>
     Q (fst (g (view_at V off (blocks s b))))
       (set_block b (put_at V off (snd (g (view_at V off (blocks s b)))) (blocks s b)) s))"
  by (auto simp: fun_eq_iff wp_simps)

section \<open>Laws of views\<close>

text \<open>
  A view is lawful for the values \<open>ok\<close>: an update keeps the length of the bytes and is read
  back.
\<close>

locale view_laws =
  fixes V :: "'a view" and ok :: "'a \<Rightarrow> bool"
  assumes put_length: "length bs = v_size V \<Longrightarrow> ok x \<Longrightarrow> length (v_put V x bs) = v_size V"
    and get_put: "length bs = v_size V \<Longrightarrow> ok x \<Longrightarrow> v_get V (v_put V x bs) = x"
    and get_ok: "length bs = v_size V \<Longrightarrow> ok (v_get V bs)"
begin

lemma put_at_length: "off + v_size V \<le> length bs \<Longrightarrow> ok x \<Longrightarrow> length (put_at V off x bs) = length bs"
  by (simp add: put_at_def put_length)

lemma view_put_same: "off + v_size V \<le> length bs \<Longrightarrow> ok x \<Longrightarrow> view_at V off (put_at V off x bs) = x"
  by (simp add: put_at_def view_at_def put_length get_put)

lemma segment_put_other:
  assumes "off + v_size V \<le> length bs" and "ok x" and "off' + n \<le> length bs"
    and "off' + n \<le> off \<or> off + v_size V \<le> off'"
  shows "segment off' n (put_at V off x bs) = segment off' n bs"
  using assms put_length [of "segment off (v_size V) bs" x]
  by (auto simp: put_at_def intro!: segment_splice_at_other)

lemma view_put_other:
  assumes "off + v_size V \<le> length bs" and "ok x" and "off' + v_size W \<le> length bs"
    and "off' + v_size W \<le> off \<or> off + v_size V \<le> off'"
  shows "view_at W off' (put_at V off x bs) = view_at W off' bs"
  unfolding view_at_def using segment_put_other [OF assms] by simp

lemma view_ok: "off + v_size V \<le> length bs \<Longrightarrow> ok (view_at V off bs)"
  by (simp add: view_at_def get_ok)

end

section \<open>Whole blocks\<close>

text \<open>Blocks as arrays of bytes, of \<open>u32\<close> (\<open>IndirectBlock\<close>) and of \<open>u64\<close> (\<open>BitmapBlock\<close>).\<close>

definition DataBlock :: "byte list view" where
  "DataBlock = \<lparr>v_size = 512, v_get = id, v_put = (\<lambda>x bs. x)\<rparr>"

definition IndirectBlock :: "nat list view" where
  "IndirectBlock = \<lparr>v_size = 512, v_get = le_array 4 128, v_put = (\<lambda>x bs. enc_array 4 x)\<rparr>"

definition BitmapBlock :: "nat list view" where
  "BitmapBlock = \<lparr>v_size = 512, v_get = le_array 8 64, v_put = (\<lambda>x bs. enc_array 8 x)\<rparr>"

definition words_ok :: "nat \<Rightarrow> nat \<Rightarrow> nat list \<Rightarrow> bool" where
  "words_ok w n xs \<longleftrightarrow> length xs = n \<and> (\<forall>x \<in> set xs. x < 256 ^ w)"

lemma words_ok_upd: "words_ok w n ws \<Longrightarrow> x < 256 ^ w \<Longrightarrow> words_ok w n (ws[j := x])"
  using set_update_subset_insert [of ws j x] by (auto simp: words_ok_def)

interpretation data_block: view_laws DataBlock "\<lambda>x. length x = 512"
  by unfold_locales (simp_all add: DataBlock_def)

interpretation indirect_block: view_laws IndirectBlock "words_ok 4 128"
  by unfold_locales (auto simp: IndirectBlock_def words_ok_def dest: le_array_less [rotated])

interpretation bitmap_block: view_laws BitmapBlock "words_ok 8 64"
  by unfold_locales (auto simp: BitmapBlock_def words_ok_def dest: le_array_less [rotated])

lemma whole_block_simps [simp]:
  "v_size DataBlock = 512" "v_size IndirectBlock = 512" "v_size BitmapBlock = 512"
  "view_at DataBlock 0 bs = take 512 bs"
  "length x = 512 \<Longrightarrow> length bs = 512 \<Longrightarrow> put_at DataBlock 0 x bs = x"
  by (simp_all add: DataBlock_def IndirectBlock_def BitmapBlock_def view_at_def put_at_def segment_def)

definition store_ok :: "store \<Rightarrow> bool" where
  "store_ok s \<longleftrightarrow> (\<forall>b. length (blocks s b) = 512)"

lemma store_ok_set_block [simp]: "store_ok s \<Longrightarrow> length bs = 512 \<Longrightarrow> store_ok (set_block b bs s)"
  by (simp add: store_ok_def)

lemma store_okD [simp]: "store_ok s \<Longrightarrow> length (blocks s b) = 512"
  by (simp add: store_ok_def)

lemma store_ok_entered_left [simp]: "store_ok (entered b s) = store_ok s" "store_ok (left b s) = store_ok s"
  by (simp_all add: store_ok_def)

end
