(* ===== verification/Bitmap.thy ===== *)
theory Bitmap
  imports Block_Store Allocator
begin

text \<open>
  The on-disk bitmaps (\<open>src/easy-fs/src/bitmap.rs\<close>): a range of blocks, each 64 words of 64
  bits, in which a set bit is an allocated inode or data block. They provide the interface of
  an allocator that reports exhaustion.
\<close>

section \<open>Operations\<close>

definition BLOCK_BITS :: nat where "BLOCK_BITS = BLOCK_SZ * 8"

definition u64_MAX :: nat where "u64_MAX = 2 ^ 64 - 1"

record bitmap =
  start_block_id :: nat
  bitmap_blocks :: nat

definition decomposition :: "nat \<Rightarrow> nat \<times> nat \<times> nat" where
  "decomposition b =
     (let block_pos = b div BLOCK_BITS; b = b mod BLOCK_BITS
      in (block_pos, b div 64, b mod 64))"

definition Bitmap_new :: "nat \<Rightarrow> nat \<Rightarrow> bitmap" where
  "Bitmap_new start n = \<lparr>start_block_id = start, bitmap_blocks = n\<rparr>"

function trailing_ones :: "nat \<Rightarrow> nat" where
  "trailing_ones n = (if odd n then Suc (trailing_ones (n div 2)) else 0)"
  by auto

termination trailing_ones
  by (relation "measure (\<lambda>n. n)") (auto elim: oddE)

declare trailing_ones.simps [simp del]

text \<open>The first word that is not full, and its lowest clear bit.\<close>

primrec find_free :: "nat list \<Rightarrow> nat \<Rightarrow> (nat \<times> nat) option" where
  "find_free [] i = None"
| "find_free (w # ws) i = (if w \<noteq> u64_MAX then Some (i, trailing_ones w) else find_free ws (Suc i))"

definition alloc_in_block :: "nat \<Rightarrow> nat list \<Rightarrow> nat option \<times> nat list" where
  "alloc_in_block block_id bitmap_block =
     (case find_free bitmap_block 0 of
        Some (bits64_pos, inner_pos) \<Rightarrow>
          (Some (block_id * BLOCK_BITS + bits64_pos * 64 + inner_pos),
           bitmap_block[bits64_pos := (bitmap_block ! bits64_pos) OR push_bit inner_pos 1])
      | None \<Rightarrow> (None, bitmap_block))"

primrec Bitmap_alloc_loop :: "bitmap \<Rightarrow> nat list \<Rightarrow> nat option store_action" where
  "Bitmap_alloc_loop bm [] = ret None"
| "Bitmap_alloc_loop bm (block_id # ids) =
     bnd (modify_as BitmapBlock (block_id + start_block_id bm) 0 (\<lambda>ws. ret (alloc_in_block block_id ws)))
       (\<lambda>pos. case pos of Some b \<Rightarrow> ret (Some b) | None \<Rightarrow> Bitmap_alloc_loop bm ids)"

definition Bitmap_alloc :: "bitmap \<Rightarrow> nat option store_action" where
  "Bitmap_alloc bm = Bitmap_alloc_loop bm [0..<bitmap_blocks bm]"

definition Bitmap_dealloc :: "bitmap \<Rightarrow> nat \<Rightarrow> unit store_action" where
  "Bitmap_dealloc bm b =
     (let (block_pos, bits64_pos, inner_pos) = decomposition b
      in modify_as BitmapBlock (block_pos + start_block_id bm) 0 (\<lambda>ws.
         bnd (index ws bits64_pos) (\<lambda>w.
         thn (assert_that (0 < w AND push_bit inner_pos 1))
         (ret ((), ws[bits64_pos := w - push_bit inner_pos 1])))))"

definition maximum :: "bitmap \<Rightarrow> nat" where
  "maximum bm = bitmap_blocks bm * BLOCK_BITS"

section \<open>Bits of a word\<close>

lemma trailing_ones_bits: "j < trailing_ones n \<Longrightarrow> bit n j"
proof (induction n arbitrary: j rule: trailing_ones.induct)
  case (1 n)
  show ?case
  proof (cases "odd n")
    case True
    then show ?thesis
      using 1 by (cases j) (auto simp: trailing_ones.simps [of n] bit_0 bit_Suc)
  next
    case False
    then show ?thesis using 1(2) by (simp add: trailing_ones.simps [of n])
  qed
qed

lemma trailing_ones_clear: "\<not> bit n (trailing_ones n)"
proof (induction n rule: trailing_ones.induct)
  case (1 n)
  then show ?case by (cases "odd n") (simp_all add: trailing_ones.simps [of n] bit_0 bit_Suc)
qed

lemma bits_eq_mask:
  fixes n :: nat
  assumes "n < 2 ^ k" and "\<And>j. j < k \<Longrightarrow> bit n j"
  shows "n = mask k"
proof (rule bit_eqI)
  fix j
  have "\<not> bit n j" if "k \<le> j"
  proof -
    have "n < 2 ^ j" using less_le_trans [OF assms(1) power_increasing [OF that]] by simp
    then show ?thesis by (simp add: bit_nat_def)
  qed
  then show "bit n j \<longleftrightarrow> bit (mask k :: nat) j"
    using assms(2) by (cases "j < k") (auto simp: bit_mask_iff)
qed

lemma trailing_ones_less: "n < 2 ^ 64 \<Longrightarrow> n \<noteq> u64_MAX \<Longrightarrow> trailing_ones n < 64"
  using bits_eq_mask [of n 64] trailing_ones_bits [of _ n]
  by (fastforce simp: u64_MAX_def mask_eq_exp_minus_1)

lemma full_word_bits: "j < 64 \<Longrightarrow> bit u64_MAX j"
  unfolding u64_MAX_def mask_eq_exp_minus_1 [symmetric] by (simp add: bit_mask_iff)

lemma bit_or_exp: "bit (n OR push_bit k 1) j \<longleftrightarrow> bit n j \<or> j = (k :: nat)" for n :: nat
  by (auto simp: bit_or_iff push_bit_eq_mult bit_exp_iff)

lemma and_exp_pos: "0 < n AND push_bit k 1 \<longleftrightarrow> bit n k" for n :: nat
  by (simp add: bit_iff_and_push_bit_not_eq_0)

lemma bit_minus_exp:
  fixes n :: nat
  assumes "bit n k"
  shows "bit (n - push_bit k 1) j \<longleftrightarrow> bit n j \<and> j \<noteq> k"
proof -
  let ?u = "unset_bit k n"
  have "?u + 2 ^ k = ?u OR 2 ^ k"
    by (rule disjunctive_add_eq_or) (auto simp: bit_eq_iff bit_and_iff bit_unset_bit_iff bit_exp_iff)
  also have "\<dots> = n"
    using assms by (auto intro!: bit_eqI simp: bit_or_iff bit_unset_bit_iff bit_exp_iff)
  finally have "n - 2 ^ k = ?u" by simp
  then show ?thesis by (auto simp: push_bit_eq_mult bit_unset_bit_iff)
qed

lemma or_exp_less:
  fixes n :: nat
  assumes "n < 2 ^ 64" and "k < 64"
  shows "n OR push_bit k 1 < 2 ^ 64"
proof -
  have "push_bit k 1 < (2 :: nat) ^ 64"
    using assms(2) power_strict_increasing [of k 64 "2 :: nat"] by (simp add: push_bit_eq_mult)
  then have "take_bit 64 n = n" "take_bit 64 (push_bit k 1) = (push_bit k 1 :: nat)"
    using assms(1) by (simp_all only: take_bit_nat_eq_self_iff)
  then have "take_bit 64 (n OR push_bit k 1) = n OR push_bit k 1" by (simp only: take_bit_or)
  then show ?thesis by (simp only: take_bit_nat_eq_self_iff)
qed

section \<open>Bits of a block\<close>

definition word_bit :: "nat list \<Rightarrow> nat \<Rightarrow> bool" where
  "word_bit ws p \<longleftrightarrow> bit (ws ! (p div 64)) (p mod 64)"

lemma find_free_cases:
  "find_free ws i = None \<and> (\<forall>w \<in> set ws. w = u64_MAX) \<or>
   (\<exists>j < length ws. find_free ws i = Some (i + j, trailing_ones (ws ! j)) \<and> ws ! j \<noteq> u64_MAX \<and>
     (\<forall>m < j. ws ! m = u64_MAX))"
proof (induction ws arbitrary: i)
  case Nil
  then show ?case by simp
next
  case (Cons w ws)
  show ?case
  proof (cases "w = u64_MAX")
    case False
    then show ?thesis by (intro disjI2 exI [of _ 0]) simp
  next
    case True
    from Cons.IH [of "Suc i"] show ?thesis
    proof (elim disjE exE conjE)
      fix j
      assume j: "j < length ws" "find_free ws (Suc i) = Some (Suc i + j, trailing_ones (ws ! j))"
        "ws ! j \<noteq> u64_MAX" "\<forall>m < j. ws ! m = u64_MAX"
      then have "\<forall>m < Suc j. (w # ws) ! m = u64_MAX" using True by (simp add: nth_Cons split: nat.splits)
      with j True show ?thesis by (intro disjI2 exI [of _ "Suc j"]) simp
    qed (use True in simp)
  qed
qed

lemma word_bit_full: "length ws = 64 \<Longrightarrow> p < 4096 \<Longrightarrow> ws ! (p div 64) = u64_MAX \<Longrightarrow> word_bit ws p"
  by (simp add: word_bit_def full_word_bits)

lemma word_bit_upd:
  assumes "length ws = 64" and "j < 64" and "k < 64" and "q < 4096"
  shows "word_bit (ws[j := ws ! j OR push_bit k 1]) q \<longleftrightarrow> word_bit ws q \<or> q = j * 64 + k"
    and "word_bit ws (j * 64 + k) \<Longrightarrow>
      word_bit (ws[j := ws ! j - push_bit k 1]) q \<longleftrightarrow> word_bit ws q \<and> q \<noteq> j * 64 + k"
proof -
  have "q = j * 64 + k \<longleftrightarrow> q div 64 = j \<and> q mod 64 = k" using assms(3) by auto
  moreover have "q div 64 < 64" using assms(4) by auto
  ultimately show "word_bit (ws[j := ws ! j OR push_bit k 1]) q \<longleftrightarrow> word_bit ws q \<or> q = j * 64 + k"
    and "word_bit ws (j * 64 + k) \<Longrightarrow>
      word_bit (ws[j := ws ! j - push_bit k 1]) q \<longleftrightarrow> word_bit ws q \<and> q \<noteq> j * 64 + k"
    using assms by (auto simp: word_bit_def nth_list_update bit_or_exp [simplified] bit_minus_exp [simplified])
qed

text \<open>Allocation in one block finds its lowest clear bit.\<close>

lemma alloc_in_block_cases:
  assumes "words_ok 8 64 ws"
  obtains "alloc_in_block block ws = (None, ws)" "\<And>p. p < 4096 \<Longrightarrow> word_bit ws p"
  | p ws' where "alloc_in_block block ws = (Some (block * 4096 + p), ws')" "p < 4096" "\<not> word_bit ws p"
    "\<And>q. q < p \<Longrightarrow> word_bit ws q" "words_ok 8 64 ws'"
    "\<And>q. q < 4096 \<Longrightarrow> word_bit ws' q \<longleftrightarrow> word_bit ws q \<or> q = p"
proof -
  have len: "length ws = 64" and bound: "\<And>w. w \<in> set ws \<Longrightarrow> w < 2 ^ 64"
    using assms by (simp_all add: words_ok_def)
  from find_free_cases [of ws 0] show thesis
  proof (elim disjE exE conjE)
    assume "find_free ws 0 = None" and full: "\<forall>w \<in> set ws. w = u64_MAX"
    then have "alloc_in_block block ws = (None, ws)" by (simp add: alloc_in_block_def)
    moreover have "word_bit ws p" if "p < 4096" for p
      using len full that by (intro word_bit_full) simp_all
    ultimately show thesis by (rule that(1))
  next
    fix j
    assume j: "j < length ws" "find_free ws 0 = Some (0 + j, trailing_ones (ws ! j))"
      "ws ! j \<noteq> u64_MAX" "\<forall>m < j. ws ! m = u64_MAX"
    let ?k = "trailing_ones (ws ! j)"
    have wj: "ws ! j < 2 ^ 64" using bound j(1) by simp
    then have k: "?k < 64" using j(3) by (rule trailing_ones_less)
    show thesis
    proof (rule that(2))
      show "alloc_in_block block ws = (Some (block * 4096 + (j * 64 + ?k)), ws[j := ws ! j OR push_bit ?k 1])"
        using j(2) by (simp add: alloc_in_block_def BLOCK_BITS_def BLOCK_SZ_def)
      show "j * 64 + ?k < 4096" using j(1) k len by simp
      show "\<not> word_bit ws (j * 64 + ?k)" using k by (simp add: word_bit_def trailing_ones_clear)
      show "words_ok 8 64 (ws[j := ws ! j OR push_bit ?k 1])"
        using or_exp_less [OF wj k] by (intro words_ok_upd [OF assms]) simp
      show "word_bit (ws[j := ws ! j OR push_bit ?k 1]) q \<longleftrightarrow> word_bit ws q \<or> q = j * 64 + ?k"
        if "q < 4096" for q
        using word_bit_upd(1) [OF len _ k that, of j] j(1) len by simp
      fix q
      assume q: "q < j * 64 + ?k"
      show "word_bit ws q"
      proof (cases "q div 64 = j")
        case True
        then have "q mod 64 < ?k" using q by (metis add_less_cancel_left div_mult_mod_eq)
        with True show ?thesis by (simp add: word_bit_def trailing_ones_bits)
      next
        case False
        then have "q div 64 < j" using q k by auto
        moreover have "q < 4096" using q j(1) k len by simp
        ultimately show ?thesis using j(4) len by (intro word_bit_full) simp_all
      qed
    qed
  qed
qed

section \<open>The bitmap as an allocator\<close>

definition bm_words :: "bitmap \<Rightarrow> store \<Rightarrow> nat \<Rightarrow> nat list" where
  "bm_words bm s b = view_at BitmapBlock 0 (blocks s (b + start_block_id bm))"

definition bm_bit :: "bitmap \<Rightarrow> store \<Rightarrow> nat \<Rightarrow> bool" where
  "bm_bit bm s i \<longleftrightarrow> word_bit (bm_words bm s (i div 4096)) (i mod 4096)"

definition bm_live :: "bitmap \<Rightarrow> store \<Rightarrow> nat set" where
  "bm_live bm s = {i. i < maximum bm \<and> bm_bit bm s i}"

definition bm_free :: "bitmap \<Rightarrow> store \<Rightarrow> nat set" where
  "bm_free bm s = {i. i < maximum bm \<and> \<not> bm_bit bm s i}"

definition bm_region :: "bitmap \<Rightarrow> nat set" where
  "bm_region bm = {start_block_id bm..<start_block_id bm + bitmap_blocks bm}"

definition bm_inv :: "bitmap \<Rightarrow> store \<Rightarrow> bool" where
  "bm_inv bm s \<longleftrightarrow> store_ok s \<and> start_block_id bm + bitmap_blocks bm \<le> nblocks s \<and>
     bm_region bm \<inter> set (held s) = {} \<and> length (held s) < 16"

text \<open>Two states that differ only inside some blocks.\<close>

definition same_outside :: "nat set \<Rightarrow> store \<Rightarrow> store \<Rightarrow> bool" where
  "same_outside B s s' \<longleftrightarrow> nblocks s' = nblocks s \<and> held s' = held s \<and> (\<forall>b. b \<notin> B \<longrightarrow> blocks s' b = blocks s b)"

lemma same_outside_refl [simp]: "same_outside B s s"
  by (simp add: same_outside_def)

lemma same_outside_trans: "same_outside B s s' \<Longrightarrow> same_outside C s' s'' \<Longrightarrow> same_outside (B \<union> C) s s''"
  by (simp add: same_outside_def)

lemma same_outside_mono: "same_outside B s s' \<Longrightarrow> B \<subseteq> C \<Longrightarrow> same_outside C s s'"
  by (auto simp: same_outside_def)

lemma same_outside_set_block: "b \<in> B \<Longrightarrow> same_outside B s (set_block b bs s)"
  by (auto simp: same_outside_def)

lemma maximum_eq: "maximum bm = bitmap_blocks bm * 4096"
  by (simp add: maximum_def BLOCK_BITS_def BLOCK_SZ_def)

lemma bm_words_ok: "store_ok s \<Longrightarrow> words_ok 8 64 (bm_words bm s b)"
  unfolding bm_words_def by (rule bitmap_block.view_ok) simp

lemma put_same_words: "length bs = 512 \<Longrightarrow> put_at BitmapBlock 0 (view_at BitmapBlock 0 bs) bs = bs"
  by (simp add: put_at_def view_at_def BitmapBlock_def)

text \<open>The effect of rewriting one bitmap block.\<close>

lemma bm_bit_set_block:
  assumes "store_ok s" and "words_ok 8 64 ws"
  shows "bm_bit bm (set_block (b + start_block_id bm) (put_at BitmapBlock 0 ws (blocks s (b + start_block_id bm))) s) i
    \<longleftrightarrow> (if i div 4096 = b then word_bit ws (i mod 4096) else bm_bit bm s i)"
  using assms bitmap_block.view_put_same [of 0 "blocks s (b + start_block_id bm)" ws]
  by (simp add: bm_bit_def bm_words_def)

lemma bm_inv_set_block:
  assumes "bm_inv bm s" and "words_ok 8 64 ws"
  shows "bm_inv bm (set_block b (put_at BitmapBlock 0 ws (blocks s b)) s)"
  using assms bitmap_block.put_at_length [of 0 "blocks s b" ws] by (simp add: bm_inv_def)

lemma acquirable_bm: "bm_inv bm s \<Longrightarrow> b < bitmap_blocks bm \<Longrightarrow> acquirable (b + start_block_id bm) s"
proof -
  assume inv: "bm_inv bm s" and b: "b < bitmap_blocks bm"
  then have "b + start_block_id bm \<in> bm_region bm" by (simp add: bm_region_def)
  then have "b + start_block_id bm \<notin> set (held s)" using inv by (auto simp: bm_inv_def)
  then show ?thesis using inv b by (simp add: bm_inv_def acquirable_def)
qed

definition alloc_post :: "bitmap \<Rightarrow> store \<Rightarrow> nat option \<Rightarrow> store \<Rightarrow> bool" where
  "alloc_post bm s r s' \<longleftrightarrow>
     (case r of
        None \<Rightarrow> bm_free bm s = {} \<and> s' = s
      | Some i \<Rightarrow> i \<in> bm_free bm s \<and> (\<forall>j < i. bm_bit bm s j) \<and> bm_inv bm s' \<and>
          (\<forall>j. bm_bit bm s' j \<longleftrightarrow> bm_bit bm s j \<or> j = i) \<and> same_outside (bm_region bm) s s')"

lemma wp_alloc_loop:
  assumes "bm_inv bm s" and "k \<le> bitmap_blocks bm" and "\<And>i. i < k * 4096 \<Longrightarrow> bm_bit bm s i"
  shows "wp (Bitmap_alloc_loop bm [k..<bitmap_blocks bm]) (alloc_post bm s) s"
  using assms(2,3)
proof (induction "bitmap_blocks bm - k" arbitrary: k)
  case 0
  then have "k = bitmap_blocks bm" by simp
  with 0 show ?case by (simp add: wp_simps alloc_post_def bm_free_def maximum_eq)
next
  case (Suc n)
  then have k: "k < bitmap_blocks bm" by simp
  let ?b = "k + start_block_id bm"
  have ok: "store_ok s" using assms(1) by (simp add: bm_inv_def)
  have loop: "wp (Bitmap_alloc_loop bm [k..<bitmap_blocks bm]) (alloc_post bm s) s \<longleftrightarrow>
      wp (case fst (alloc_in_block k (bm_words bm s k)) of
            Some i \<Rightarrow> ret (Some i) | None \<Rightarrow> Bitmap_alloc_loop bm [Suc k..<bitmap_blocks bm])
        (alloc_post bm s)
        (set_block ?b (put_at BitmapBlock 0 (snd (alloc_in_block k (bm_words bm s k))) (blocks s ?b)) s)"
    using k acquirable_bm [OF assms(1) k]
    by (simp add: upt_conv_Cons wp_bnd wp_modify_pure bm_words_def)
  from bm_words_ok [OF ok, of bm k] show ?case
  proof (cases rule: alloc_in_block_cases [of _ k])
    case 1
    have "set_block ?b (put_at BitmapBlock 0 (bm_words bm s k) (blocks s ?b)) s = s"
      using ok by (simp add: bm_words_def put_same_words set_block_def)
    moreover have "bm_bit bm s i" if "i < Suc k * 4096" for i
    proof (cases "i < k * 4096")
      case False
      then have "i div 4096 = k" "i mod 4096 < 4096" using that by auto
      then show ?thesis using 1(2) by (simp add: bm_bit_def)
    qed (rule Suc.prems)
    then have "wp (Bitmap_alloc_loop bm [Suc k..<bitmap_blocks bm]) (alloc_post bm s) s"
      using Suc.hyps k by (intro Suc.hyps(1)) simp_all
    ultimately show ?thesis using loop 1(1) by simp
  next
    case (2 p ws')
    let ?s = "set_block ?b (put_at BitmapBlock 0 ws' (blocks s ?b)) s"
    have div: "(k * 4096 + p) div 4096 = k" "(k * 4096 + p) mod 4096 = p" using 2(2) by simp_all
    have "bm_bit bm ?s j \<longleftrightarrow> bm_bit bm s j \<or> j = k * 4096 + p" for j
    proof (cases "j div 4096 = k")
      case True
      then have "j = k * 4096 + p \<longleftrightarrow> j mod 4096 = p" by (metis add_left_cancel div_mult_mod_eq)
      with True show ?thesis
        using 2(6) [of "j mod 4096"] unfolding bm_bit_set_block [OF ok 2(5)] by (simp add: bm_bit_def)
    qed (use div in \<open>auto simp: bm_bit_set_block [OF ok 2(5)]\<close>)
    moreover have "bm_bit bm s j" if "j < k * 4096 + p" for j
    proof (cases "j < k * 4096")
      case False
      then have "j div 4096 = k" using that 2(2) by auto
      moreover from this have "j mod 4096 < p" using that div_mult_mod_eq [of j 4096] by simp
      ultimately show ?thesis using 2(4) by (simp add: bm_bit_def)
    qed (rule Suc.prems)
    moreover have "k * 4096 + p \<in> bm_free bm s"
      using 2(2,3) k div by (simp add: bm_free_def maximum_eq bm_bit_def)
    moreover have "same_outside (bm_region bm) s ?s"
      using k by (intro same_outside_set_block) (simp add: bm_region_def)
    moreover have "bm_inv bm ?s" by (rule bm_inv_set_block [OF assms(1) 2(5)])
    ultimately have "alloc_post bm s (Some (k * 4096 + p)) ?s" by (simp add: alloc_post_def)
    then show ?thesis using loop 2(1) by (simp add: wp_ret)
  qed
qed

lemma wp_Bitmap_alloc: "bm_inv bm s \<Longrightarrow> wp (Bitmap_alloc bm) (alloc_post bm s) s"
  unfolding Bitmap_alloc_def by (rule wp_alloc_loop) simp_all

lemma decomposition_eq: "decomposition b = (b div 4096, b mod 4096 div 64, b mod 64)"
  by (simp add: decomposition_def BLOCK_BITS_def BLOCK_SZ_def Let_def mod_mod_cancel)

text \<open>Deallocation, of a bit of the bitmap: it clears a set bit, and panics on a clear one.\<close>

lemma wp_Bitmap_dealloc:
  assumes inv: "bm_inv bm s" and i: "i < maximum bm"
  shows "bm_bit bm s i \<Longrightarrow> wp (Bitmap_dealloc bm i) (\<lambda>_ s'. bm_inv bm s' \<and>
      (\<forall>j. bm_bit bm s' j \<longleftrightarrow> bm_bit bm s j \<and> j \<noteq> i) \<and> same_outside (bm_region bm) s s') s"
    and "\<not> bm_bit bm s i \<Longrightarrow> Bitmap_dealloc bm i s = Inl AssertFailed"
proof -
  let ?k = "i div 4096" and ?p = "i mod 4096"
  let ?b = "?k + start_block_id bm" and ?j = "?p div 64"
  let ?ws = "bm_words bm s ?k"
  have k: "?k < bitmap_blocks bm" using i by (simp add: maximum_eq less_mult_imp_div_less)
  have ok: "store_ok s" using inv by (simp add: bm_inv_def)
  have ws: "words_ok 8 64 ?ws" "length ?ws = 64" using bm_words_ok [OF ok] by (simp_all add: words_ok_def)
  have j: "?j < 64" by (simp add: less_mult_imp_div_less)
  have p: "?j * 64 + i mod 64 = ?p" using div_mult_mod_eq [of ?p 64] by (simp add: mod_mod_cancel)
  have bit: "bm_bit bm s i \<longleftrightarrow> bit (?ws ! ?j) (i mod 64)" by (simp add: bm_bit_def word_bit_def mod_mod_cancel)
  have acq: "acquirable ?b s" by (rule acquirable_bm [OF inv k])
  show "wp (Bitmap_dealloc bm i) (\<lambda>_ s'. bm_inv bm s' \<and>
        (\<forall>j. bm_bit bm s' j \<longleftrightarrow> bm_bit bm s j \<and> j \<noteq> i) \<and> same_outside (bm_region bm) s s') s"
    if set: "bm_bit bm s i"
  proof -
    let ?w = "?ws[?j := ?ws ! ?j - push_bit (i mod 64) 1]"
    let ?s = "set_block ?b (put_at BitmapBlock 0 ?w (blocks s ?b)) s"
    have "?ws ! ?j < 2 ^ 64" using ws j by (simp add: words_ok_def)
    then have w: "words_ok 8 64 ?w" by (intro words_ok_upd [OF ws(1)]) simp
    have "bm_bit bm ?s q \<longleftrightarrow> bm_bit bm s q \<and> q \<noteq> i" for q
    proof (cases "q div 4096 = ?k")
      case True
      then have "q = i \<longleftrightarrow> q mod 4096 = ?p" by (metis div_mult_mod_eq)
      moreover have "word_bit ?w (q mod 4096) \<longleftrightarrow> word_bit ?ws (q mod 4096) \<and> q mod 4096 \<noteq> ?p"
        using word_bit_upd(2) [OF ws(2) j, of "i mod 64" "q mod 4096"] set unfolding p by (simp add: bm_bit_def)
      ultimately show ?thesis
        using True unfolding bm_bit_set_block [OF ok w] by (simp add: bm_bit_def)
    next
      case False
      then show ?thesis unfolding bm_bit_set_block [OF ok w] by auto
    qed
    moreover have "same_outside (bm_region bm) s ?s"
      using k by (intro same_outside_set_block) (simp add: bm_region_def)
    ultimately show ?thesis
      using acq bm_inv_set_block [OF inv w, of ?b] set bit j ws(2)
      by (simp add: Bitmap_dealloc_def decomposition_eq wp_simps and_exp_pos [simplified] bm_words_def)
  qed
  show "Bitmap_dealloc bm i s = Inl AssertFailed" if "\<not> bm_bit bm s i"
    using that bit j ws(2) acquire_cases(1) [OF acq]
    by (simp add: Bitmap_dealloc_def decomposition_eq modify_as_def action_defs and_exp_pos [simplified]
        bm_words_def BLOCK_SZ_def)
qed

interpretation bitmaps: bounded_allocator "Bitmap_alloc bm" "Bitmap_dealloc bm" "bm_inv bm" "bm_live bm" "bm_free bm"
  for bm
proof unfold_locales
  fix s
  show "bm_live bm s \<inter> bm_free bm s = {}" by (auto simp: bm_live_def bm_free_def)
next
  fix s
  assume "bm_inv bm s" and "bm_free bm s \<noteq> {}"
  from wp_Bitmap_alloc [OF this(1)]
  show "wp (Bitmap_alloc bm) (\<lambda>r s'. \<exists>i. r = Some i \<and> i \<in> bm_free bm s \<and> bm_inv bm s' \<and>
      bm_live bm s' = insert i (bm_live bm s) \<and> bm_free bm s' = bm_free bm s - {i}) s"
    by (rule wp_conseq)
      (use \<open>bm_free bm s \<noteq> {}\<close> in \<open>auto simp: alloc_post_def bm_live_def bm_free_def split: option.splits\<close>)
next
  fix s i
  assume "bm_inv bm s" and i: "i \<in> bm_live bm s"
  then show "wp (Bitmap_dealloc bm i) (\<lambda>_ s'. bm_inv bm s' \<and> bm_live bm s' = bm_live bm s - {i} \<and>
      bm_free bm s' = insert i (bm_free bm s)) s"
    by (intro wp_conseq [OF wp_Bitmap_dealloc(1)]) (auto simp: bm_live_def bm_free_def)
next
  fix s
  assume inv: "bm_inv bm s" and free: "bm_free bm s = {}"
  from wp_Bitmap_alloc [OF inv] obtain r s' where "Bitmap_alloc bm s = Inr (r, s')" "alloc_post bm s r s'"
    by (auto simp: wp_iff)
  then show "Bitmap_alloc bm s = Inr (None, s)"
    using free by (auto simp: alloc_post_def split: option.splits)
qed

section \<open>Properties\<close>

text \<open>A store of four zeroed blocks with a bitmap in block 1, for the witnesses.\<close>

definition zero_store :: "nat \<Rightarrow> store" where
  "zero_store n = \<lparr>blocks = (\<lambda>_. replicate 512 0), nblocks = n, held = []\<rparr>"

lemma zero_bitmap:
  "bm_inv (Bitmap_new 1 1) (zero_store 4)" "bm_live (Bitmap_new 1 1) (zero_store 4) = {}"
  "\<not> bm_bit (Bitmap_new 1 1) (zero_store 4) i"
proof -
  have z: "view_at BitmapBlock 0 (replicate 512 0) = replicate 64 0"
    by (simp add: view_at_def BitmapBlock_def segment_def le_array_def map_replicate_const get_le_zero [abs_def])
  have "replicate 64 0 ! (i mod 4096 div 64) = (0 :: nat)" for i
    by (rule nth_replicate) (simp add: less_mult_imp_div_less)
  then show no: "\<not> bm_bit (Bitmap_new 1 1) (zero_store 4) i" for i
    by (simp add: bm_bit_def word_bit_def bm_words_def zero_store_def z)
  show "bm_live (Bitmap_new 1 1) (zero_store 4) = {}" using no by (simp add: bm_live_def)
  show "bm_inv (Bitmap_new 1 1) (zero_store 4)"
    by (simp add: bm_inv_def zero_store_def store_ok_def Bitmap_new_def bm_region_def)
qed

text \<open>
  C36: Bitmap allocation is exclusive. Starting from a bitmap with nothing allocated, whatever
  a client allocates and gives back, in whatever order, no operation panics, and the numbers
  it holds are pairwise different and marked in the bitmap on disk.
\<close>

theorem bitmap_allocation_exclusive:
  assumes "bm_inv bm s"
  shows "wp (run_client (Bitmap_alloc bm) (Bitmap_dealloc bm) ops [])
    (\<lambda>hs s'. distinct hs \<and> set hs \<subseteq> bm_live bm s') s"
  by (rule wp_conseq [OF bitmaps.client_exclusive [OF assms]]) simp_all

lemma bitmap_allocation_exclusive_witness:
  "wp (run_client (Bitmap_alloc (Bitmap_new 1 1)) (Bitmap_dealloc (Bitmap_new 1 1)) [Alloc, Alloc, Dealloc 0, Alloc] [])
    (\<lambda>hs s'. distinct hs \<and> set hs \<subseteq> bm_live (Bitmap_new 1 1) s') (zero_store 4)"
  by (rule bitmap_allocation_exclusive [OF zero_bitmap(1)])

text \<open>
  \<open>alloc\<close> returns the lowest clear bit and sets exactly that bit, touching no block outside
  the bitmap; with no clear bit it returns \<open>None\<close> and changes nothing. \<open>dealloc\<close> clears exactly
  a set bit, and panics on a clear one.
\<close>

theorem bitmap_alloc_dealloc_exact:
  assumes "bm_inv bm s" and "i < maximum bm"
  shows "wp (Bitmap_alloc bm)
      (\<lambda>r s'. case r of
         None \<Rightarrow> bm_free bm s = {} \<and> s' = s
       | Some i \<Rightarrow> i \<in> bm_free bm s \<and> (\<forall>j < i. bm_bit bm s j) \<and> (\<forall>j. bm_bit bm s' j \<longleftrightarrow> bm_bit bm s j \<or> j = i) \<and>
           same_outside (bm_region bm) s s') s \<and>
    (if bm_bit bm s i
     then wp (Bitmap_dealloc bm i)
       (\<lambda>_ s'. (\<forall>j. bm_bit bm s' j \<longleftrightarrow> bm_bit bm s j \<and> j \<noteq> i) \<and> same_outside (bm_region bm) s s') s
     else Bitmap_dealloc bm i s = Inl AssertFailed)"
    (is "wp _ ?A s \<and> ?D")
proof
  show "wp (Bitmap_alloc bm) ?A s"
    by (rule wp_conseq [OF wp_Bitmap_alloc [OF assms(1)]]) (auto simp: alloc_post_def split: option.splits)
  show ?D
  proof (cases "bm_bit bm s i")
    case True
    from wp_Bitmap_dealloc(1) [OF assms True] show ?thesis by (simp add: True) (erule wp_conseq, simp)
  next
    case False
    from wp_Bitmap_dealloc(2) [OF assms False] show ?thesis by (simp add: False)
  qed
qed

lemma bitmap_alloc_dealloc_exact_witness:
  "wp (Bitmap_alloc (Bitmap_new 1 1)) (\<lambda>r _. r \<noteq> None) (zero_store 4) \<and>
   Bitmap_dealloc (Bitmap_new 1 1) 7 (zero_store 4) = Inl AssertFailed"
proof -
  let ?bm = "Bitmap_new 1 1"
  have "0 \<in> bm_free ?bm (zero_store 4)" and m: "7 < maximum ?bm"
    using zero_bitmap(3) by (simp_all add: bm_free_def maximum_eq Bitmap_new_def)
  then have "bm_free ?bm (zero_store 4) \<noteq> {}" by blast
  with bitmap_alloc_dealloc_exact [OF zero_bitmap(1) m] zero_bitmap(3) [of 7]
  show ?thesis by (auto elim!: wp_conseq split: option.splits simp del: One_nat_def)
qed

end
