(* ===== verification/Layout.thy ===== *)
theory Layout
  imports Block_Store
begin

text \<open>
  The on-disk data structures of easy-fs (\<open>src/easy-fs/src/layout.rs\<close>): the super block, the
  disk inode with its direct block numbers and its index blocks of one, two and three levels,
  and directory entries, with the operations on them. This theory holds the definitions and
  their byte layout; the index blocks are verified in \<open>Index_Tree\<close> and \<open>Disk_Inode\<close>.
\<close>

section \<open>Constants\<close>

definition EFS_MAGIC :: nat where "EFS_MAGIC = 0x3b800001"
definition INODE_DIRECT_COUNT :: nat where "INODE_DIRECT_COUNT = 27"
definition NAME_LENGTH_LIMIT :: nat where "NAME_LENGTH_LIMIT = 27"
definition INODE_INDIRECT1_COUNT :: nat where "INODE_INDIRECT1_COUNT = BLOCK_SZ div 4"
definition INODE_INDIRECT2_COUNT :: nat where
  "INODE_INDIRECT2_COUNT = INODE_INDIRECT1_COUNT * INODE_INDIRECT1_COUNT"
definition INODE_INDIRECT3_COUNT :: nat where
  "INODE_INDIRECT3_COUNT = INODE_INDIRECT2_COUNT * INODE_INDIRECT1_COUNT"
definition DIRECT_BOUND :: nat where "DIRECT_BOUND = INODE_DIRECT_COUNT"
definition INDIRECT1_BOUND :: nat where "INDIRECT1_BOUND = DIRECT_BOUND + INODE_INDIRECT1_COUNT"
definition INDIRECT2_BOUND :: nat where "INDIRECT2_BOUND = INDIRECT1_BOUND + INODE_INDIRECT2_COUNT"
definition DIRENT_SZ :: nat where "DIRENT_SZ = 32"

lemma layout_consts:
  "INODE_DIRECT_COUNT = 27" "INODE_INDIRECT1_COUNT = 128" "INODE_INDIRECT2_COUNT = 16384"
  "INODE_INDIRECT3_COUNT = 2097152" "DIRECT_BOUND = 27" "INDIRECT1_BOUND = 155" "INDIRECT2_BOUND = 16539"
  "NAME_LENGTH_LIMIT = 27" "DIRENT_SZ = 32" "BLOCK_SZ = 512"
  by (simp_all add: INODE_DIRECT_COUNT_def INODE_INDIRECT1_COUNT_def INODE_INDIRECT2_COUNT_def
      INODE_INDIRECT3_COUNT_def DIRECT_BOUND_def INDIRECT1_BOUND_def INDIRECT2_BOUND_def
      NAME_LENGTH_LIMIT_def DIRENT_SZ_def BLOCK_SZ_def)

section \<open>The super block\<close>

record super_block =
  magic :: nat
  sb_total_blocks :: nat
  sb_inode_bitmap_blocks :: nat
  sb_inode_area_blocks :: nat
  sb_data_bitmap_blocks :: nat
  sb_data_area_blocks :: nat

text \<open>\<open>repr(C)\<close>: six consecutive \<open>u32\<close>.\<close>

definition SuperBlock :: "super_block view" where
  "SuperBlock =
     \<lparr>v_size = 24,
      v_get = (\<lambda>bs. \<lparr>magic = get_le 4 bs 0, sb_total_blocks = get_le 4 bs 1,
        sb_inode_bitmap_blocks = get_le 4 bs 2, sb_inode_area_blocks = get_le 4 bs 3,
        sb_data_bitmap_blocks = get_le 4 bs 4, sb_data_area_blocks = get_le 4 bs 5\<rparr>),
      v_put = (\<lambda>x bs. enc_array 4 [magic x, sb_total_blocks x, sb_inode_bitmap_blocks x,
        sb_inode_area_blocks x, sb_data_bitmap_blocks x, sb_data_area_blocks x])\<rparr>"

definition SuperBlock_initialize :: "nat \<Rightarrow> nat \<Rightarrow> nat \<Rightarrow> nat \<Rightarrow> nat \<Rightarrow> super_block" where
  "SuperBlock_initialize total_blocks inode_bitmap_blocks inode_area_blocks data_bitmap_blocks data_area_blocks =
     \<lparr>magic = EFS_MAGIC, sb_total_blocks = total_blocks, sb_inode_bitmap_blocks = inode_bitmap_blocks,
      sb_inode_area_blocks = inode_area_blocks, sb_data_bitmap_blocks = data_bitmap_blocks,
      sb_data_area_blocks = data_area_blocks\<rparr>"

definition SuperBlock_is_valid :: "super_block \<Rightarrow> bool" where
  "SuperBlock_is_valid sb \<longleftrightarrow> magic sb = EFS_MAGIC"

section \<open>Disk inodes\<close>

datatype disk_inode_type = File | Directory

record disk_inode =
  inode_size :: nat
  direct :: "nat list"
  indirect1 :: nat
  indirect2 :: nat
  indirect3 :: nat
  inode_type :: disk_inode_type

text \<open>
  \<open>repr(C)\<close>: 31 consecutive \<open>u32\<close>, the type in one byte (0 for a file, 1 for a directory) and
  three bytes of padding, which an update leaves alone.
\<close>

definition DiskInode :: "disk_inode view" where
  "DiskInode =
     \<lparr>v_size = 128,
      v_get = (\<lambda>bs. \<lparr>inode_size = get_le 4 bs 0, direct = map (get_le 4 bs) [1..<28],
        indirect1 = get_le 4 bs 28, indirect2 = get_le 4 bs 29, indirect3 = get_le 4 bs 30,
        inode_type = (if bs ! 124 = 0 then File else Directory)\<rparr>),
      v_put = (\<lambda>x bs. enc_array 4 (inode_size x # direct x @ [indirect1 x, indirect2 x, indirect3 x]) @
        (case inode_type x of File \<Rightarrow> 0 | Directory \<Rightarrow> 1) # drop 125 bs)\<rparr>"

definition DiskInode_initialize :: "disk_inode_type \<Rightarrow> disk_inode \<Rightarrow> disk_inode" where
  "DiskInode_initialize ty di =
     di\<lparr>inode_size := 0, direct := map (\<lambda>_. 0) (direct di), indirect1 := 0, indirect2 := 0,
       indirect3 := 0, inode_type := ty\<rparr>"

definition is_dir :: "disk_inode \<Rightarrow> bool" where
  "is_dir di \<longleftrightarrow> inode_type di = Directory"

definition is_file :: "disk_inode \<Rightarrow> bool" where
  "is_file di \<longleftrightarrow> inode_type di = File"

definition size_data_blocks :: "nat \<Rightarrow> nat" where
  "size_data_blocks sz = u32 (sz + BLOCK_SZ - 1) div BLOCK_SZ"

definition data_blocks :: "disk_inode \<Rightarrow> nat" where
  "data_blocks di = size_data_blocks (inode_size di)"

definition total_blocks :: "nat \<Rightarrow> nat" where
  "total_blocks sz =
     (let data_blocks = size_data_blocks sz;
          total = data_blocks;
          total = (if data_blocks > INODE_DIRECT_COUNT then total + 1 else total);
          total = (if data_blocks > INDIRECT1_BOUND
            then (let level2_extra = (data_blocks - INDIRECT1_BOUND + INODE_INDIRECT1_COUNT - 1) div INODE_INDIRECT1_COUNT
                  in total + 1 + min level2_extra INODE_INDIRECT1_COUNT)
            else total);
          total = (if data_blocks > INDIRECT2_BOUND
            then (let remaining = data_blocks - INDIRECT2_BOUND;
                      level2_extra = (remaining + INODE_INDIRECT2_COUNT - 1) div INODE_INDIRECT2_COUNT;
                      level3_extra = (remaining + INODE_INDIRECT1_COUNT - 1) div INODE_INDIRECT1_COUNT
                  in total + (1 + level2_extra + level3_extra))
            else total)
      in u32 total)"

definition blocks_num_needed :: "disk_inode \<Rightarrow> nat \<Rightarrow> ('s, nat) action" where
  "blocks_num_needed di new_size =
     thn (assert_that (inode_size di \<le> new_size))
       (ret (u32 (total_blocks new_size + 2 ^ 32 - total_blocks (inode_size di))))"

text \<open>Reading one entry of an index block.\<close>

definition read_entry :: "nat \<Rightarrow> nat \<Rightarrow> nat store_action" where
  "read_entry b i = read_as IndirectBlock b 0 (\<lambda>indirect_block. index indirect_block i)"

definition get_block_id :: "disk_inode \<Rightarrow> nat \<Rightarrow> nat store_action" where
  "get_block_id di inner_id =
     (if inner_id < INODE_DIRECT_COUNT then index (direct di) inner_id
      else if inner_id < INDIRECT1_BOUND then read_entry (indirect1 di) (inner_id - INODE_DIRECT_COUNT)
      else if inner_id < INDIRECT2_BOUND then
        (let last = inner_id - INDIRECT1_BOUND
         in bnd (read_entry (indirect2 di) (last div INODE_INDIRECT1_COUNT)) (\<lambda>indirect1.
            read_entry indirect1 (last mod INODE_INDIRECT1_COUNT)))
      else
        (let last = inner_id - INDIRECT2_BOUND
         in bnd (read_entry (indirect3 di) (last div INODE_INDIRECT2_COUNT)) (\<lambda>indirect1.
            bnd (read_entry indirect1 (last mod INODE_INDIRECT2_COUNT div INODE_INDIRECT1_COUNT)) (\<lambda>indirect2.
            read_entry indirect2 (last mod INODE_INDIRECT2_COUNT mod INODE_INDIRECT1_COUNT)))))"

definition decompose2 :: "nat \<Rightarrow> nat \<times> nat" where
  "decompose2 i = (i div INODE_INDIRECT1_COUNT, i mod INODE_INDIRECT1_COUNT)"

section \<open>Growing an inode\<close>

text \<open>\<open>new_blocks.next().unwrap()\<close>: the next of the given block numbers, and the rest.\<close>

definition next_block :: "nat list \<Rightarrow> ('s, nat \<times> nat list) action" where
  "next_block new_blocks = (case new_blocks of [] \<Rightarrow> fail UnwrapNone | b # bs \<Rightarrow> ret (b, bs))"

text \<open>\<open>while current < bound { arr[current] = new_blocks.next().unwrap(); current += 1; }\<close>\<close>

function fill_loop :: "nat \<Rightarrow> nat \<Rightarrow> nat list \<Rightarrow> nat list \<Rightarrow> ('s, nat list \<times> nat \<times> nat list) action" where
  "fill_loop current bound arr new_blocks =
     (if current < bound
      then bnd (next_block new_blocks) (\<lambda>(b, new_blocks).
           thn (index arr current)
           (fill_loop (current + 1) bound (arr[current := b]) new_blocks))
      else ret (arr, current, new_blocks))"
  by auto

termination fill_loop
  by (relation "measure (\<lambda>(current, bound, _). bound - current)") auto

declare fill_loop.simps [simp del]

text \<open>
  The loop that fills the level-two index block from \<open>(a0, b0)\<close> to \<open>(a1, b1)\<close>. The test
  \<open>b0 < INODE_INDIRECT1_COUNT\<close> is the bounds check of \<open>indirect1[b0]\<close>.
\<close>

function fill_indirect2_loop ::
    "nat \<Rightarrow> nat \<Rightarrow> nat \<Rightarrow> nat \<Rightarrow> nat \<Rightarrow> nat list \<Rightarrow> nat list \<Rightarrow> (nat list \<times> nat \<times> nat list) store_action" where
  "fill_indirect2_loop a0 b0 a1 b1 current ind2 new_blocks =
     (if a0 < a1 \<or> a0 = a1 \<and> b0 < b1
      then if b0 < INODE_INDIRECT1_COUNT
        then bnd (if b0 = 0
             then bnd (next_block new_blocks) (\<lambda>(b, new_blocks).
                  thn (index ind2 a0) (ret (ind2[a0 := b], new_blocks)))
             else ret (ind2, new_blocks)) (\<lambda>(ind2, new_blocks).
             bnd (index ind2 a0) (\<lambda>block_id.
             bnd (modify_as IndirectBlock block_id 0 (\<lambda>indirect1.
                  bnd (next_block new_blocks) (\<lambda>(b, new_blocks).
                  ret (new_blocks, indirect1[b0 := b])))) (\<lambda>new_blocks.
             if b0 + 1 = INODE_INDIRECT1_COUNT
             then fill_indirect2_loop (a0 + 1) 0 a1 b1 (current + 1) ind2 new_blocks
             else fill_indirect2_loop a0 (b0 + 1) a1 b1 (current + 1) ind2 new_blocks)))
        else fail IndexOutOfBounds
      else ret (ind2, current, new_blocks))"
  by pat_completeness auto

termination fill_indirect2_loop
  by (relation "measure (\<lambda>(a0, b0, a1, b1, _). (a1 * 128 + b1) - (a0 * 128 + b0))")
    (auto simp: layout_consts)

declare fill_indirect2_loop.simps [simp del]

text \<open>
  \<open>build_tree\<close>, by the height of the subtree (\<open>dst_depth - cur_depth\<close>); \<open>build_loop\<close> is the loop
  over the entries of one index block, which calls \<open>build_tree\<close> on the children.
\<close>

function build_loop ::
    "(nat list \<Rightarrow> nat \<Rightarrow> nat \<Rightarrow> (nat \<times> nat list) store_action) \<Rightarrow> nat \<Rightarrow> nat \<Rightarrow> nat \<Rightarrow> nat list \<Rightarrow> nat list \<Rightarrow>
     nat \<Rightarrow> (nat list \<times> nat list \<times> nat) store_action" where
  "build_loop child src_leaf dst_leaf i indirect_block new_blocks cur_leaf =
     (if i < INODE_INDIRECT1_COUNT \<and> cur_leaf < dst_leaf
      then bnd (if src_leaf \<le> cur_leaf
           then bnd (next_block new_blocks) (\<lambda>(b, new_blocks).
                thn (index indirect_block i) (ret (indirect_block[i := b], new_blocks)))
           else ret (indirect_block, new_blocks)) (\<lambda>(indirect_block, new_blocks).
           bnd (index indirect_block i) (\<lambda>block_id.
           bnd (child new_blocks block_id cur_leaf) (\<lambda>(cur_leaf, new_blocks).
           build_loop child src_leaf dst_leaf (i + 1) indirect_block new_blocks cur_leaf)))
      else ret (indirect_block, new_blocks, cur_leaf))"
  by pat_completeness auto

termination build_loop
  by (relation "measure (\<lambda>(_, _, _, i, _). 128 - i)") (auto simp: layout_consts)

declare build_loop.simps [simp del]

primrec build_tree ::
    "nat \<Rightarrow> nat \<Rightarrow> nat \<Rightarrow> nat list \<Rightarrow> nat \<Rightarrow> nat \<Rightarrow> (nat \<times> nat list) store_action" where
  "build_tree 0 src_leaf dst_leaf new_blocks block_id cur_leaf = ret (cur_leaf + 1, new_blocks)"
| "build_tree (Suc depth) src_leaf dst_leaf new_blocks block_id cur_leaf =
     modify_as IndirectBlock block_id 0 (\<lambda>indirect_block.
       bnd (build_loop (build_tree depth src_leaf dst_leaf) src_leaf dst_leaf 0 indirect_block new_blocks cur_leaf)
         (\<lambda>(indirect_block, new_blocks, cur_leaf). ret ((cur_leaf, new_blocks), indirect_block)))"

text \<open>\<open>increase_size\<close>, from its end to its beginning: the code after each of its early returns.\<close>

definition increase_indirect3 :: "disk_inode \<Rightarrow> nat \<Rightarrow> nat \<Rightarrow> nat list \<Rightarrow> disk_inode store_action" where
  "increase_indirect3 di current total_blks new_blocks =
     (if total_blks > INODE_INDIRECT2_COUNT
      then bnd (if current = INODE_INDIRECT2_COUNT
           then bnd (next_block new_blocks) (\<lambda>(b, new_blocks). ret (di\<lparr>indirect3 := b\<rparr>, new_blocks))
           else ret (di, new_blocks)) (\<lambda>(di, new_blocks).
           thn (build_tree 3 (current - INODE_INDIRECT2_COUNT) (total_blks - INODE_INDIRECT2_COUNT) new_blocks (indirect3 di) 0)
           (ret di))
      else ret di)"

definition increase_indirect2 :: "disk_inode \<Rightarrow> nat \<Rightarrow> nat \<Rightarrow> nat list \<Rightarrow> disk_inode store_action" where
  "increase_indirect2 di current total_blks new_blocks =
     (if total_blks > INODE_INDIRECT1_COUNT
      then bnd (if current = INODE_INDIRECT1_COUNT
           then bnd (next_block new_blocks) (\<lambda>(b, new_blocks). ret (di\<lparr>indirect2 := b\<rparr>, new_blocks))
           else ret (di, new_blocks)) (\<lambda>(di, new_blocks).
           let current = current - INODE_INDIRECT1_COUNT;
               total_blks = total_blks - INODE_INDIRECT1_COUNT;
               (a0, b0) = decompose2 current;
               (a1, b1) = decompose2 (min total_blks INODE_INDIRECT2_COUNT)
           in bnd (modify_as IndirectBlock (indirect2 di) 0 (\<lambda>indirect2.
                   bnd (fill_indirect2_loop a0 b0 a1 b1 current indirect2 new_blocks)
                     (\<lambda>(indirect2, current, new_blocks). ret ((current, new_blocks), indirect2))))
                (\<lambda>(current, new_blocks). increase_indirect3 di current total_blks new_blocks))
      else ret di)"

definition increase_indirect1 :: "disk_inode \<Rightarrow> nat \<Rightarrow> nat \<Rightarrow> nat list \<Rightarrow> disk_inode store_action" where
  "increase_indirect1 di current total_blks new_blocks =
     (if total_blks > INODE_DIRECT_COUNT
      then bnd (if current = INODE_DIRECT_COUNT
           then bnd (next_block new_blocks) (\<lambda>(b, new_blocks). ret (di\<lparr>indirect1 := b\<rparr>, new_blocks))
           else ret (di, new_blocks)) (\<lambda>(di, new_blocks).
           let current = current - INODE_DIRECT_COUNT;
               total_blks = total_blks - INODE_DIRECT_COUNT
           in bnd (modify_as IndirectBlock (indirect1 di) 0 (\<lambda>indirect1.
                   bnd (fill_loop current (min total_blks INODE_INDIRECT1_COUNT) indirect1 new_blocks)
                     (\<lambda>(indirect1, current, new_blocks). ret ((current, new_blocks), indirect1))))
                (\<lambda>(current, new_blocks). increase_indirect2 di current total_blks new_blocks))
      else ret di)"

definition DiskInode_increase_size :: "disk_inode \<Rightarrow> nat \<Rightarrow> nat list \<Rightarrow> disk_inode store_action" where
  "DiskInode_increase_size di new_size new_blocks =
     (let current = data_blocks di;
          di = di\<lparr>inode_size := new_size\<rparr>;
          total_blks = data_blocks di
      in bnd (fill_loop current (min total_blks INODE_DIRECT_COUNT) (direct di) new_blocks)
           (\<lambda>(direct, current, new_blocks). increase_indirect1 (di\<lparr>direct := direct\<rparr>) current total_blks new_blocks))"

section \<open>Clearing an inode\<close>

function clear_direct_loop :: "nat \<Rightarrow> nat \<Rightarrow> nat list \<Rightarrow> nat list \<Rightarrow> ('s, nat list \<times> nat list) action" where
  "clear_direct_loop current bound arr v =
     (if current < bound
      then bnd (index arr current) (\<lambda>b.
           clear_direct_loop (current + 1) bound (arr[current := 0]) (v @ [b]))
      else ret (arr, v))"
  by auto

termination clear_direct_loop
  by (relation "measure (\<lambda>(current, bound, _). bound - current)") auto

function collect_loop :: "nat \<Rightarrow> nat \<Rightarrow> nat list \<Rightarrow> nat list \<Rightarrow> ('s, nat list) action" where
  "collect_loop current bound arr v =
     (if current < bound
      then bnd (index arr current) (\<lambda>b. collect_loop (current + 1) bound arr (v @ [b]))
      else ret v)"
  by auto

termination collect_loop
  by (relation "measure (\<lambda>(current, bound, _). bound - current)") auto

declare clear_direct_loop.simps [simp del] collect_loop.simps [simp del]

text \<open>The full level-one index blocks below a level-two index block.\<close>

primrec collect_full :: "nat list \<Rightarrow> nat list \<Rightarrow> nat list store_action" where
  "collect_full [] v = ret v"
| "collect_full (entry # entries) v =
     bnd (modify_as IndirectBlock entry 0 (\<lambda>indirect1. ret ((v @ [entry]) @ indirect1, indirect1)))
       (collect_full entries)"

definition collect_indirect2 :: "nat \<Rightarrow> nat \<Rightarrow> nat list \<Rightarrow> nat list \<Rightarrow> nat list store_action" where
  "collect_indirect2 a1 b1 ind2 v =
     bnd (collect_full (take a1 ind2) v) (\<lambda>v.
     if b1 > 0
     then bnd (index ind2 a1) (\<lambda>entry.
          modify_as IndirectBlock entry 0 (\<lambda>indirect1. ret ((v @ [entry]) @ take b1 indirect1, indirect1)))
     else ret v)"

function collect_children ::
    "(nat list \<Rightarrow> nat \<Rightarrow> nat \<Rightarrow> (nat \<times> nat list) store_action) \<Rightarrow> nat \<Rightarrow> nat \<Rightarrow> nat list \<Rightarrow> nat list \<Rightarrow> nat \<Rightarrow>
     (nat \<times> nat list) store_action" where
  "collect_children child max_leaf i indirect_block collected cur_leaf =
     (if i < INODE_INDIRECT1_COUNT \<and> cur_leaf < max_leaf
      then bnd (index indirect_block i) (\<lambda>block_id.
           bnd (child (collected @ [block_id]) block_id cur_leaf) (\<lambda>(cur_leaf, collected).
           collect_children child max_leaf (i + 1) indirect_block collected cur_leaf))
      else ret (cur_leaf, collected))"
  by pat_completeness auto

termination collect_children
  by (relation "measure (\<lambda>(_, _, i, _). 128 - i)") (auto simp: layout_consts)

declare collect_children.simps [simp del]

primrec collect_tree_blocks :: "nat \<Rightarrow> nat \<Rightarrow> nat list \<Rightarrow> nat \<Rightarrow> nat \<Rightarrow> (nat \<times> nat list) store_action" where
  "collect_tree_blocks 0 max_leaf collected block_id cur_leaf = ret (cur_leaf + 1, collected)"
| "collect_tree_blocks (Suc depth) max_leaf collected block_id cur_leaf =
     read_as IndirectBlock block_id 0 (\<lambda>indirect_block.
       collect_children (collect_tree_blocks depth max_leaf) max_leaf 0 indirect_block collected cur_leaf)"

text \<open>\<open>clear_size\<close>, from its end to its beginning.\<close>

definition clear_indirect3 :: "disk_inode \<Rightarrow> nat \<Rightarrow> nat list \<Rightarrow> (nat list \<times> disk_inode) store_action" where
  "clear_indirect3 di data_blks v =
     thn (assert_that (data_blks \<le> INODE_INDIRECT3_COUNT))
     (if data_blks > INODE_INDIRECT2_COUNT
      then bnd (collect_tree_blocks 3 (data_blks - INODE_INDIRECT2_COUNT) (v @ [indirect3 di]) (indirect3 di) 0)
             (\<lambda>(_, v). ret (v, di\<lparr>indirect3 := 0\<rparr>))
      else ret (v, di))"

definition clear_indirect2 :: "disk_inode \<Rightarrow> nat \<Rightarrow> nat list \<Rightarrow> (nat list \<times> disk_inode) store_action" where
  "clear_indirect2 di data_blks v =
     (if data_blks > INODE_INDIRECT1_COUNT
      then (let data_blks = data_blks - INODE_INDIRECT1_COUNT;
                (a1, b1) = decompose2 (min data_blks INODE_INDIRECT2_COUNT)
            in bnd (modify_as IndirectBlock (indirect2 di) 0 (\<lambda>ind2.
                    bnd (collect_indirect2 a1 b1 ind2 (v @ [indirect2 di])) (\<lambda>v. ret (v, ind2)))) (\<lambda>v.
               clear_indirect3 (di\<lparr>indirect2 := 0\<rparr>) data_blks v))
      else ret (v, di))"

definition clear_indirect1 :: "disk_inode \<Rightarrow> nat \<Rightarrow> nat list \<Rightarrow> (nat list \<times> disk_inode) store_action" where
  "clear_indirect1 di data_blks v =
     (if data_blks > INODE_DIRECT_COUNT
      then (let data_blks = data_blks - INODE_DIRECT_COUNT
            in bnd (modify_as IndirectBlock (indirect1 di) 0 (\<lambda>ind1.
                    bnd (collect_loop 0 (min data_blks INODE_INDIRECT1_COUNT) ind1 (v @ [indirect1 di]))
                      (\<lambda>v. ret (v, ind1)))) (\<lambda>v.
               clear_indirect2 (di\<lparr>indirect1 := 0\<rparr>) data_blks v))
      else ret (v, di))"

definition DiskInode_clear_size :: "disk_inode \<Rightarrow> (nat list \<times> disk_inode) store_action" where
  "DiskInode_clear_size di =
     (let data_blks = data_blocks di; di = di\<lparr>inode_size := 0\<rparr>
      in bnd (clear_direct_loop 0 (min data_blks INODE_DIRECT_COUNT) (direct di) [])
           (\<lambda>(direct, v). clear_indirect1 (di\<lparr>direct := direct\<rparr>) data_blks v))"

section \<open>Reading and writing\<close>

text \<open>A slice \<open>xs[off..off + n]\<close>, with its bounds check.\<close>

definition slice_range :: "nat \<Rightarrow> nat \<Rightarrow> 'a list \<Rightarrow> ('s, 'a list) action" where
  "slice_range off n xs = (if off + n \<le> length xs then ret (segment off n xs) else fail IndexOutOfBounds)"

function read_loop ::
    "disk_inode \<Rightarrow> nat \<Rightarrow> nat \<Rightarrow> nat \<Rightarrow> nat \<Rightarrow> byte list \<Rightarrow> (nat \<times> byte list) store_action" where
  "read_loop di stop start start_block read_size buf =
     (let end_current_block = min ((start div BLOCK_SZ + 1) * BLOCK_SZ) stop;
          block_read_size = end_current_block - start
      in thn (slice_range read_size block_read_size buf)
         (bnd (get_block_id di (u32 start_block)) (\<lambda>block_id.
          bnd (read_as DataBlock block_id 0 (slice_range (start mod BLOCK_SZ) block_read_size)) (\<lambda>src.
          let buf = splice_at read_size src buf; read_size = read_size + block_read_size
          in if end_current_block = stop then ret (read_size, buf)
             else read_loop di stop end_current_block (start_block + 1) read_size buf))))"
  by auto

termination read_loop
  by (relation "measure (\<lambda>(_, stop, start, _). stop - start)") (auto simp: BLOCK_SZ_def min_def split: if_splits)

declare read_loop.simps [simp del]

definition DiskInode_read_at :: "disk_inode \<Rightarrow> nat \<Rightarrow> byte list \<Rightarrow> (nat \<times> byte list) store_action" where
  "DiskInode_read_at di offset buf =
     (let stop = min (offset + length buf) (inode_size di)
      in if stop \<le> offset then ret (0, buf)
         else read_loop di stop offset (offset div BLOCK_SZ) 0 buf)"

function write_loop :: "disk_inode \<Rightarrow> nat \<Rightarrow> nat \<Rightarrow> nat \<Rightarrow> nat \<Rightarrow> byte list \<Rightarrow> nat store_action" where
  "write_loop di stop start start_block write_size buf =
     (let end_current_block = min ((start div BLOCK_SZ + 1) * BLOCK_SZ) stop;
          block_write_size = end_current_block - start
      in bnd (get_block_id di (u32 start_block)) (\<lambda>block_id.
         thn (modify_as DataBlock block_id 0 (\<lambda>data_block.
              bnd (slice_range write_size block_write_size buf) (\<lambda>src.
              thn (slice_range (start mod BLOCK_SZ) block_write_size data_block)
              (ret ((), splice_at (start mod BLOCK_SZ) src data_block)))))
         (let write_size = write_size + block_write_size
          in if end_current_block = stop then ret write_size
             else write_loop di stop end_current_block (start_block + 1) write_size buf)))"
  by auto

termination write_loop
  by (relation "measure (\<lambda>(_, stop, start, _). stop - start)") (auto simp: BLOCK_SZ_def min_def split: if_splits)

declare write_loop.simps [simp del]

definition DiskInode_write_at :: "disk_inode \<Rightarrow> nat \<Rightarrow> byte list \<Rightarrow> nat store_action" where
  "DiskInode_write_at di offset buf =
     (let stop = min (offset + length buf) (inode_size di)
      in thn (assert_that (offset \<le> stop))
         (write_loop di stop offset (offset div BLOCK_SZ) 0 buf))"

section \<open>Directory entries\<close>

record dir_entry =
  entry_name :: "byte list"
  entry_inode_number :: nat

definition DirEntry_empty :: dir_entry where
  "DirEntry_empty = \<lparr>entry_name = replicate (NAME_LENGTH_LIMIT + 1) 0, entry_inode_number = 0\<rparr>"

text \<open>The name, a \<open>&str\<close>, is given by its bytes.\<close>

definition DirEntry_new :: "byte list \<Rightarrow> nat \<Rightarrow> ('s, dir_entry) action" where
  "DirEntry_new nam inode_number =
     (let bytes = replicate (NAME_LENGTH_LIMIT + 1) 0
      in thn (slice_range 0 (length nam) bytes)
         (ret \<lparr>entry_name = splice_at 0 nam bytes, entry_inode_number = inode_number\<rparr>))"

definition DirEntry_as_bytes :: "dir_entry \<Rightarrow> byte list" where
  "DirEntry_as_bytes e = entry_name e @ le_enc 4 (entry_inode_number e)"

text \<open>What a store through \<open>as_bytes_mut\<close> makes of the entry.\<close>

definition DirEntry_from_bytes :: "byte list \<Rightarrow> dir_entry" where
  "DirEntry_from_bytes bs = \<lparr>entry_name = take 28 bs, entry_inode_number = le_dec (segment 28 4 bs)\<rparr>"

text \<open>The UTF-8 check of \<open>core::str::from_utf8\<close>: the byte sequences of the Unicode standard.\<close>

definition utf8_cont :: "byte \<Rightarrow> bool" where
  "utf8_cont b \<longleftrightarrow> 0x80 \<le> unat b \<and> unat b \<le> 0xBF"

definition utf8_3 :: "byte \<Rightarrow> byte \<Rightarrow> byte \<Rightarrow> bool" where
  "utf8_3 a b c \<longleftrightarrow> 0xE0 \<le> unat a \<and> unat a \<le> 0xEF \<and> utf8_cont b \<and> utf8_cont c \<and>
     (unat a = 0xE0 \<longrightarrow> 0xA0 \<le> unat b) \<and> (unat a = 0xED \<longrightarrow> unat b \<le> 0x9F)"

definition utf8_4 :: "byte \<Rightarrow> byte \<Rightarrow> byte \<Rightarrow> byte \<Rightarrow> bool" where
  "utf8_4 a b c d \<longleftrightarrow> 0xF0 \<le> unat a \<and> unat a \<le> 0xF4 \<and> utf8_cont b \<and> utf8_cont c \<and> utf8_cont d \<and>
     (unat a = 0xF0 \<longrightarrow> 0x90 \<le> unat b) \<and> (unat a = 0xF4 \<longrightarrow> unat b \<le> 0x8F)"

fun utf8_valid :: "byte list \<Rightarrow> bool" where
  "utf8_valid [] = True"
| "utf8_valid (a # bs) =
     (if unat a \<le> 0x7F then utf8_valid bs
      else case bs of
        [] \<Rightarrow> False
      | b # bs \<Rightarrow>
          if 0xC2 \<le> unat a \<and> unat a \<le> 0xDF \<and> utf8_cont b then utf8_valid bs
          else (case bs of
            [] \<Rightarrow> False
          | c # bs \<Rightarrow>
              if utf8_3 a b c then utf8_valid bs
              else (case bs of
                [] \<Rightarrow> False
              | d # bs \<Rightarrow> utf8_4 a b c d \<and> utf8_valid bs)))"

definition from_utf8 :: "byte list \<Rightarrow> byte list option" where
  "from_utf8 bs = (if utf8_valid bs then Some bs else None)"

text \<open>The position of the terminating zero; running off the array panics.\<close>

primrec find_nul :: "byte list \<Rightarrow> nat \<Rightarrow> ('s, nat) action" where
  "find_nul [] i = fail IndexOutOfBounds"
| "find_nul (b # bs) i = (if b = 0 then ret i else find_nul bs (Suc i))"

definition DirEntry_name :: "dir_entry \<Rightarrow> ('s, byte list) action" where
  "DirEntry_name e = bnd (find_nul (entry_name e) 0) (\<lambda>len. unwrap (from_utf8 (take len (entry_name e))))"

end
