(* ===== verification/Efs.thy ===== *)
theory Efs
  imports Bitmap Layout
begin

text \<open>
  The file system over a block device (\<open>src/easy-fs/src/efs.rs\<close>): the areas of the device,
  formatting it, opening it, and the allocation of inodes and data blocks. The device and the
  block cache are the logical blocks of \<open>Block_Store\<close>.
\<close>

section \<open>Operations\<close>

record easy_file_system =
  inode_bitmap :: bitmap
  data_bitmap :: bitmap
  inode_area_start_block :: nat
  data_area_start_block :: nat

text \<open>The subtraction of \<open>u32\<close>, which wraps around.\<close>

definition u32_sub :: "nat \<Rightarrow> nat \<Rightarrow> nat" where
  "u32_sub a b = u32 (a + 2 ^ 32 - b)"

text \<open>
  \<open>block_cache_sync_all\<close> on the logical blocks: it takes the lock of every cached block, among
  them the ones that are being accessed, and changes no logical block.
\<close>

definition sync_all :: "unit store_action" where
  "sync_all s = (if held s = [] then Inr ((), s) else Inl Deadlock)"

definition get_disk_inode_pos :: "easy_file_system \<Rightarrow> nat \<Rightarrow> nat \<times> nat" where
  "get_disk_inode_pos fs inode_id =
     (let inode_sz = v_size DiskInode;
          inodes_per_block = BLOCK_SZ div inode_sz;
          block_id = u32 (inode_area_start_block fs + inode_id div inodes_per_block)
      in (block_id, (inode_id mod inodes_per_block) * inode_sz))"

definition get_data_block_id :: "easy_file_system \<Rightarrow> nat \<Rightarrow> nat" where
  "get_data_block_id fs data_block_id = u32 (data_area_start_block fs + data_block_id)"

definition alloc_inode :: "easy_file_system \<Rightarrow> nat store_action" where
  "alloc_inode fs = bnd (Bitmap_alloc (inode_bitmap fs)) (\<lambda>r. bnd (unwrap r) (\<lambda>i. ret (u32 i)))"

definition alloc_data :: "easy_file_system \<Rightarrow> nat store_action" where
  "alloc_data fs =
     bnd (Bitmap_alloc (data_bitmap fs)) (\<lambda>r. bnd (unwrap r) (\<lambda>i. ret (u32 (u32 i + data_area_start_block fs))))"

definition zero_block :: "nat \<Rightarrow> unit store_action" where
  "zero_block b = modify_as DataBlock b 0 (\<lambda>data_block. ret ((), map (\<lambda>_. 0) data_block))"

definition dealloc_data :: "easy_file_system \<Rightarrow> nat \<Rightarrow> unit store_action" where
  "dealloc_data fs block_id =
     thn (zero_block block_id)
       (Bitmap_dealloc (data_bitmap fs) (u32_sub block_id (data_area_start_block fs)))"

text \<open>The areas that \<open>create\<close> computes, in its order.\<close>

definition efs_geometry :: "nat \<Rightarrow> nat \<Rightarrow> easy_file_system \<times> super_block" where
  "efs_geometry total_blks inode_bitmap_blocks =
     (let inode_bitmap = Bitmap_new 1 inode_bitmap_blocks;
          inode_num = maximum inode_bitmap;
          inode_area_blocks = u32 ((inode_num * v_size DiskInode + BLOCK_SZ - 1) div BLOCK_SZ);
          inode_total_blocks = u32 (inode_bitmap_blocks + inode_area_blocks);
          data_total_blocks = u32_sub (u32_sub total_blks 1) inode_total_blocks;
          data_bitmap_blocks = u32 (data_total_blocks + 4096) div 4097;
          data_area_blocks = u32_sub data_total_blocks data_bitmap_blocks;
          data_bitmap = Bitmap_new (u32 (1 + inode_bitmap_blocks + inode_area_blocks)) data_bitmap_blocks
      in (\<lparr>inode_bitmap = inode_bitmap, data_bitmap = data_bitmap,
           inode_area_start_block = u32 (1 + inode_bitmap_blocks),
           data_area_start_block = u32 (1 + inode_total_blocks + data_bitmap_blocks)\<rparr>,
          SuperBlock_initialize total_blks inode_bitmap_blocks inode_area_blocks data_bitmap_blocks data_area_blocks))"

definition Efs_create :: "nat \<Rightarrow> nat \<Rightarrow> easy_file_system store_action" where
  "Efs_create total_blks inode_bitmap_blocks =
     (let (efs, sb) = efs_geometry total_blks inode_bitmap_blocks
      in thn (for_each zero_block [0..<total_blks])
         (thn (modify_as SuperBlock 0 0 (\<lambda>_. ret ((), sb)))
         (bnd (alloc_inode efs) (\<lambda>i.
          thn (assert_that (i = 0))
          (let (root_inode_block_id, root_inode_offset) = get_disk_inode_pos efs 0
           in thn (modify_as DiskInode root_inode_block_id root_inode_offset (\<lambda>disk_inode.
                   ret ((), DiskInode_initialize Directory disk_inode)))
              (thn sync_all (ret efs)))))))"

definition Efs_open :: "easy_file_system store_action" where
  "Efs_open =
     read_as SuperBlock 0 0 (\<lambda>super_block.
       thn (assert_that (SuperBlock_is_valid super_block))
       (let inode_total_blocks = u32 (sb_inode_bitmap_blocks super_block + sb_inode_area_blocks super_block)
        in ret \<lparr>inode_bitmap = Bitmap_new 1 (sb_inode_bitmap_blocks super_block),
             data_bitmap = Bitmap_new (u32 (1 + inode_total_blocks)) (sb_data_bitmap_blocks super_block),
             inode_area_start_block = u32 (1 + sb_inode_bitmap_blocks super_block),
             data_area_start_block = u32 (1 + inode_total_blocks + sb_data_bitmap_blocks super_block)\<rparr>))"

end
