(* ===== verification/Vfs.thy ===== *)
theory Vfs
  imports Efs
begin

text \<open>
  The inodes that the clients of easy-fs hold (\<open>src/easy-fs/src/vfs.rs\<close>), and the packing of
  programs into an image (\<open>src/easy-fs-fuse/src/main.rs\<close>). Every operation takes the lock of the
  file system for its whole duration and none is called while it is taken, so the lock is not
  part of the model.
\<close>

section \<open>Operations\<close>

record inode =
  inode_block_id :: nat
  inode_block_offset :: nat
  inode_fs :: easy_file_system

definition Inode_new :: "nat \<Rightarrow> nat \<Rightarrow> easy_file_system \<Rightarrow> inode" where
  "Inode_new block_id block_offset fs =
     \<lparr>inode_block_id = block_id, inode_block_offset = block_offset, inode_fs = fs\<rparr>"

definition root_inode :: "easy_file_system \<Rightarrow> inode" where
  "root_inode efs = (let (block_id, block_offset) = get_disk_inode_pos efs 0 in Inode_new block_id block_offset efs)"

definition read_disk_inode :: "inode \<Rightarrow> (disk_inode \<Rightarrow> 'v store_action) \<Rightarrow> 'v store_action" where
  "read_disk_inode ino f = read_as DiskInode (inode_block_id ino) (inode_block_offset ino) f"

definition modify_disk_inode :: "inode \<Rightarrow> (disk_inode \<Rightarrow> ('v \<times> disk_inode) store_action) \<Rightarrow> 'v store_action" where
  "modify_disk_inode ino f = modify_as DiskInode (inode_block_id ino) (inode_block_offset ino) f"

text \<open>Reading entry \<open>i\<close> of a directory into \<open>dirent\<close>.\<close>

definition read_dirent :: "disk_inode \<Rightarrow> nat \<Rightarrow> dir_entry \<Rightarrow> dir_entry store_action" where
  "read_dirent di i dirent =
     bnd (DiskInode_read_at di (DIRENT_SZ * i) (DirEntry_as_bytes dirent)) (\<lambda>(n, bytes).
     thn (assert_that (n = DIRENT_SZ)) (ret (DirEntry_from_bytes bytes)))"

primrec find_inode_loop :: "byte list \<Rightarrow> disk_inode \<Rightarrow> nat list \<Rightarrow> dir_entry \<Rightarrow> nat option store_action" where
  "find_inode_loop nam di [] dirent = ret None"
| "find_inode_loop nam di (i # is) dirent =
     bnd (read_dirent di i dirent) (\<lambda>dirent.
     bnd (DirEntry_name dirent) (\<lambda>entry_nam.
     if entry_nam = nam then ret (Some (entry_inode_number dirent))
     else find_inode_loop nam di is dirent))"

definition find_inode_id :: "byte list \<Rightarrow> disk_inode \<Rightarrow> nat option store_action" where
  "find_inode_id nam disk_inode =
     thn (assert_that (is_dir disk_inode))
       (find_inode_loop nam disk_inode [0..<inode_size disk_inode div DIRENT_SZ] DirEntry_empty)"

definition Inode_find :: "inode \<Rightarrow> byte list \<Rightarrow> inode option store_action" where
  "Inode_find ino nam =
     read_disk_inode ino (\<lambda>disk_inode.
       bnd (find_inode_id nam disk_inode) (\<lambda>r.
       ret (case r of
              None \<Rightarrow> None
            | Some inode_id \<Rightarrow>
                let (block_id, block_offset) = get_disk_inode_pos (inode_fs ino) inode_id
                in Some (Inode_new block_id block_offset (inode_fs ino)))))"

primrec alloc_data_loop :: "easy_file_system \<Rightarrow> nat \<Rightarrow> nat list \<Rightarrow> nat list store_action" where
  "alloc_data_loop fs 0 v = ret v"
| "alloc_data_loop fs (Suc n) v = bnd (alloc_data fs) (\<lambda>b. alloc_data_loop fs n (v @ [b]))"

definition Inode_increase_size :: "nat \<Rightarrow> disk_inode \<Rightarrow> easy_file_system \<Rightarrow> disk_inode store_action" where
  "Inode_increase_size new_size disk_inode fs =
     (if new_size < inode_size disk_inode then ret disk_inode
      else bnd (blocks_num_needed disk_inode new_size) (\<lambda>blocks_needed.
           bnd (alloc_data_loop fs blocks_needed []) (\<lambda>v.
           DiskInode_increase_size disk_inode new_size v)))"

definition Inode_create :: "inode \<Rightarrow> byte list \<Rightarrow> inode option store_action" where
  "Inode_create ino nam =
     (let fs = inode_fs ino
      in bnd (read_disk_inode ino (\<lambda>root.
              thn (assert_that (is_dir root)) (find_inode_id nam root))) (\<lambda>found.
         if found \<noteq> None then ret None
         else
           bnd (alloc_inode fs) (\<lambda>new_inode_id.
           let (new_inode_block_id, new_inode_block_offset) = get_disk_inode_pos fs new_inode_id
           in thn (modify_as DiskInode new_inode_block_id new_inode_block_offset (\<lambda>new_inode.
                   ret ((), DiskInode_initialize File new_inode)))
              (thn (modify_disk_inode ino (\<lambda>root.
                    let file_count = inode_size root div DIRENT_SZ;
                        new_size = (file_count + 1) * DIRENT_SZ
                    in bnd (Inode_increase_size (u32 new_size) root fs) (\<lambda>root.
                       bnd (DirEntry_new nam new_inode_id) (\<lambda>dirent.
                       thn (DiskInode_write_at root (file_count * DIRENT_SZ) (DirEntry_as_bytes dirent))
                       (ret ((), root))))))
              (let (block_id, block_offset) = get_disk_inode_pos fs new_inode_id
               in thn sync_all (ret (Some (Inode_new block_id block_offset fs))))))))"

primrec ls_loop :: "disk_inode \<Rightarrow> nat list \<Rightarrow> byte list list \<Rightarrow> byte list list store_action" where
  "ls_loop di [] v = ret v"
| "ls_loop di (i # is) v =
     bnd (read_dirent di i DirEntry_empty) (\<lambda>dirent.
     bnd (DirEntry_name dirent) (\<lambda>nam. ls_loop di is (v @ [nam])))"

definition Inode_ls :: "inode \<Rightarrow> byte list list store_action" where
  "Inode_ls ino = read_disk_inode ino (\<lambda>disk_inode. ls_loop disk_inode [0..<inode_size disk_inode div DIRENT_SZ] [])"

definition Inode_read_at :: "inode \<Rightarrow> nat \<Rightarrow> byte list \<Rightarrow> (nat \<times> byte list) store_action" where
  "Inode_read_at ino offset buf = read_disk_inode ino (\<lambda>disk_inode. DiskInode_read_at disk_inode offset buf)"

definition Inode_write_at :: "inode \<Rightarrow> nat \<Rightarrow> byte list \<Rightarrow> nat store_action" where
  "Inode_write_at ino offset buf =
     bnd (modify_disk_inode ino (\<lambda>disk_inode.
          bnd (Inode_increase_size (u32 (offset + length buf)) disk_inode (inode_fs ino)) (\<lambda>disk_inode.
          bnd (DiskInode_write_at disk_inode offset buf) (\<lambda>n. ret (n, disk_inode))))) (\<lambda>n.
     thn sync_all (ret n))"

definition Inode_clear :: "inode \<Rightarrow> unit store_action" where
  "Inode_clear ino =
     thn (modify_disk_inode ino (\<lambda>disk_inode.
          bnd (DiskInode_clear_size disk_inode) (\<lambda>(data_blocks_dealloc, disk_inode').
          thn (assert_that (length data_blocks_dealloc = total_blocks (inode_size disk_inode)))
          (thn (for_each (dealloc_data (inode_fs ino)) data_blocks_dealloc)
          (ret ((), disk_inode'))))))
     sync_all"

section \<open>Packing programs\<close>

text \<open>The programs, with their names and contents, come from the host's file system.\<close>

primrec pack_apps :: "inode \<Rightarrow> (byte list \<times> byte list) list \<Rightarrow> unit store_action" where
  "pack_apps root [] = ret ()"
| "pack_apps root (app # apps) =
     bnd (Inode_create root (fst app)) (\<lambda>r.
     bnd (unwrap r) (\<lambda>ino.
     thn (Inode_write_at ino 0 (snd app)) (pack_apps root apps)))"

definition easy_fs_pack :: "(byte list \<times> byte list) list \<Rightarrow> unit store_action" where
  "easy_fs_pack apps = bnd (Efs_create (16 * 2048) 1) (\<lambda>efs. pack_apps (root_inode efs) apps)"

end
