(* ===== verification/Index_Tree.thy ===== *)
theory Index_Tree
  imports Layout "HOL-Library.Sublist"
begin

text \<open>
  The index blocks of an inode as forests. A tree of height \<open>h\<close> is a block number; at height
  zero it is a data block, above it is an index block whose entries are trees of height
  \<open>h - 1\<close>, filled from the left. This theory gives the leaves, the inner blocks and all
  blocks of such a forest, their numbers, and what the loops of \<open>increase_size\<close> do to them.
\<close>

section \<open>Forests\<close>

definition ind :: "store \<Rightarrow> nat \<Rightarrow> nat list" where
  "ind s b = view_at IndirectBlock 0 (blocks s b)"

text \<open>The trees with the given roots, of \<open>c\<close> leaves each, up to \<open>k\<close> leaves altogether.\<close>

primrec forest :: "(nat \<Rightarrow> nat \<Rightarrow> 'a list) \<Rightarrow> nat \<Rightarrow> nat list \<Rightarrow> nat \<Rightarrow> 'a list" where
  "forest t c [] k = []"
| "forest t c (b # bs) k = (if k = 0 then [] else t b (min c k) @ forest t c bs (k - c))"

primrec tree_leaves :: "store \<Rightarrow> nat \<Rightarrow> nat \<Rightarrow> nat \<Rightarrow> nat list" where
  "tree_leaves s 0 b k = (if k = 0 then [] else [b])"
| "tree_leaves s (Suc h) b k = forest (tree_leaves s h) (128 ^ h) (ind s b) k"

primrec tree_inner :: "store \<Rightarrow> nat \<Rightarrow> nat \<Rightarrow> nat \<Rightarrow> nat list" where
  "tree_inner s 0 b k = []"
| "tree_inner s (Suc h) b k = b # forest (tree_inner s h) (128 ^ h) (ind s b) k"

primrec tree_blocks :: "store \<Rightarrow> nat \<Rightarrow> nat \<Rightarrow> nat \<Rightarrow> nat list" where
  "tree_blocks s 0 b k = [b]"
| "tree_blocks s (Suc h) b k = b # forest (tree_blocks s h) (128 ^ h) (ind s b) k"

definition leaves :: "store \<Rightarrow> nat \<Rightarrow> nat list \<Rightarrow> nat \<Rightarrow> nat list" where
  "leaves s h bs k = forest (tree_leaves s h) (128 ^ h) bs k"

definition inner :: "store \<Rightarrow> nat \<Rightarrow> nat list \<Rightarrow> nat \<Rightarrow> nat list" where
  "inner s h bs k = forest (tree_inner s h) (128 ^ h) bs k"

definition all_blocks :: "store \<Rightarrow> nat \<Rightarrow> nat list \<Rightarrow> nat \<Rightarrow> nat list" where
  "all_blocks s h bs k = forest (tree_blocks s h) (128 ^ h) bs k"

lemma forest_Nil [simp]: "forest t c bs 0 = []"
  by (cases bs) simp_all

lemma forest_cap: "0 < c \<Longrightarrow> length bs * c \<le> k \<Longrightarrow> forest t c bs k = concat (map (\<lambda>b. t b c) bs)"
proof (induction bs arbitrary: k)
  case Nil
  then show ?case by simp
next
  case (Cons b bs)
  then have "length bs * c \<le> k - c" "c \<le> k" by simp_all
  with Cons.IH [of "k - c"] Cons.prems(1) show ?case by (cases "k = 0") (auto simp: min_def)
qed

lemma forest_cap_min: "0 < c \<Longrightarrow> forest t c bs k = forest t c bs (min k (length bs * c))"
  using forest_cap [of c bs k t] forest_cap [of c bs "length bs * c" t] by (cases "k \<le> length bs * c") simp_all

text \<open>Forests of equal trees are equal.\<close>

lemma forest_cong:
  assumes "\<And>b k. 0 < k \<Longrightarrow> \<forall>x \<in> set (u b k). A x \<Longrightarrow> t b k = t' b k" and "0 < c"
  shows "\<forall>x \<in> set (forest u c bs k). A x \<Longrightarrow> forest t c bs k = forest t' c bs k"
  by (induction bs arbitrary: k) (use assms in auto)

lemma set_forest_Un:
  assumes "\<And>b k. 0 < k \<Longrightarrow> set (t b k) = set (u b k) \<union> set (v b k)" and "0 < c"
  shows "set (forest t c bs k) = set (forest u c bs k) \<union> set (forest v c bs k)"
  by (induction bs arbitrary: k) (use assms in auto)

lemma tree_blocks_split: "0 < k \<Longrightarrow> set (tree_blocks s h b k) = set (tree_inner s h b k) \<union> set (tree_leaves s h b k)"
proof (induction h arbitrary: b k)
  case 0
  then show ?case by simp
next
  case (Suc h)
  then show ?case using set_forest_Un [of "tree_blocks s h" "tree_inner s h" "tree_leaves s h"] by simp
qed

lemma all_blocks_split: "set (all_blocks s h bs k) = set (inner s h bs k) \<union> set (leaves s h bs k)"
  unfolding all_blocks_def inner_def leaves_def by (rule set_forest_Un) (simp_all add: tree_blocks_split)

section \<open>Numbers of blocks\<close>

text \<open>Rounding up, and how it splits at a multiple.\<close>

definition cdiv :: "nat \<Rightarrow> nat \<Rightarrow> nat" where
  "cdiv k c = (k + c - 1) div c"

lemma cdiv_0 [simp]: "0 < c \<Longrightarrow> cdiv 0 c = 0"
  by (simp add: cdiv_def)

lemma cdiv_1 [simp]: "cdiv k (Suc 0) = k"
  by (simp add: cdiv_def)

lemma cdiv_add_mult: "0 < c \<Longrightarrow> cdiv (m * c + k) c = m + cdiv k c"
proof -
  assume "0 < c"
  then have "m * c + k + c - 1 = (k + c - 1) + m * c" by simp
  with \<open>0 < c\<close> show ?thesis by (simp only: cdiv_def div_mult_self1)
qed

lemma cdiv_pos: "0 < k \<Longrightarrow> 0 < c \<Longrightarrow> 0 < cdiv k c"
  by (simp add: cdiv_def div_greater_zero_iff)

lemma cdiv_le_1: "0 < k \<Longrightarrow> k \<le> c \<Longrightarrow> cdiv k c = 1"
  unfolding cdiv_def by (rule div_nat_eqI) simp_all

lemma cdiv_mono: "k \<le> k' \<Longrightarrow> cdiv k c \<le> cdiv k' c"
  by (simp add: cdiv_def div_le_mono)

text \<open>The blocks of a forest of height \<open>h\<close> with \<open>k\<close> leaves, level by level.\<close>

definition count :: "nat \<Rightarrow> nat \<Rightarrow> nat" where
  "count h k = (\<Sum>j\<le>h. cdiv k (128 ^ j))"

lemma count_0 [simp]: "count h 0 = 0"
  by (simp add: count_def)

lemma count_mono: "k \<le> k' \<Longrightarrow> count h k \<le> count h k'"
  unfolding count_def by (intro sum_mono cdiv_mono)

lemma count_split:
  assumes "128 ^ h \<le> k"
  shows "count h k = count h (128 ^ h) + count h (k - 128 ^ h)"
proof -
  have "cdiv k (128 ^ j) = cdiv (128 ^ h) (128 ^ j) + cdiv (k - 128 ^ h) (128 ^ j)" if "j \<le> h" for j
  proof -
    have c: "(128 :: nat) ^ h = 128 ^ (h - j) * 128 ^ j" using that by (simp flip: power_add)
    have "cdiv (128 ^ (h - j) * 128 ^ j + 0) (128 ^ j) = 128 ^ (h - j) + cdiv 0 (128 ^ j)"
      by (rule cdiv_add_mult) simp
    moreover have "cdiv (128 ^ (h - j) * 128 ^ j + (k - 128 ^ h)) (128 ^ j) = 128 ^ (h - j) + cdiv (k - 128 ^ h) (128 ^ j)"
      by (rule cdiv_add_mult) simp
    ultimately show ?thesis using assms by (simp flip: c)
  qed
  then show ?thesis by (simp add: count_def flip: sum.distrib)
qed

lemma count_step: "count h k = count h (min (128 ^ h) k) + count h (k - 128 ^ h)"
  by (cases "128 ^ h \<le> k") (simp_all add: count_split [of h k])

lemma count_Suc: "0 < k \<Longrightarrow> k \<le> 128 ^ Suc h \<Longrightarrow> count (Suc h) k = 1 + count h k"
  using cdiv_le_1 [of k "128 ^ Suc h"] by (simp add: count_def)

lemma length_ind [simp]: "length (ind s b) = 128"
  by (simp add: ind_def view_at_def IndirectBlock_def)

lemma length_forest:
  assumes t: "\<And>b k. 0 < k \<Longrightarrow> k \<le> c \<Longrightarrow> length (t b k) = g k"
    and g: "g 0 = 0" "\<And>k. g k = g (min c k) + g (k - c)" and c: "0 < c"
  shows "k \<le> length bs * c \<Longrightarrow> length (forest t c bs k) = g k"
proof (induction bs arbitrary: k)
  case Nil
  then show ?case by (simp add: g(1))
next
  case (Cons b bs)
  show ?case
  proof (cases "k = 0")
    case True
    then show ?thesis by (simp add: g(1))
  next
    case False
    then have "length (t b (min c k)) = g (min c k)" using t c by simp
    moreover have "length (forest t c bs (k - c)) = g (k - c)" using Cons by simp
    ultimately show ?thesis using False g(2) [of k] by simp
  qed
qed

lemma length_tree_leaves: "0 < k \<Longrightarrow> k \<le> 128 ^ h \<Longrightarrow> length (tree_leaves s h b k) = k"
proof (induction h arbitrary: b k)
  case 0
  then show ?case by simp
next
  case (Suc h)
  have "length (forest (tree_leaves s h) (128 ^ h) (ind s b) k) = k"
    by (rule length_forest [where g = "\<lambda>k. k"]) (use Suc in auto)
  then show ?case by simp
qed

lemma length_leaves: "k \<le> length bs * 128 ^ h \<Longrightarrow> length (leaves s h bs k) = k"
  unfolding leaves_def by (rule length_forest [where g = "\<lambda>k. k"]) (auto simp: length_tree_leaves)

lemma length_tree_blocks: "0 < k \<Longrightarrow> k \<le> 128 ^ h \<Longrightarrow> length (tree_blocks s h b k) = count h k"
proof (induction h arbitrary: b k)
  case 0
  then show ?case by (simp add: count_def)
next
  case (Suc h)
  have "length (forest (tree_blocks s h) (128 ^ h) (ind s b) k) = count h k"
    by (rule length_forest) (use Suc in \<open>simp_all flip: count_step\<close>)
  then show ?case using count_Suc [OF Suc.prems] by simp
qed

lemma length_all_blocks: "k \<le> length bs * 128 ^ h \<Longrightarrow> length (all_blocks s h bs k) = count h k"
  unfolding all_blocks_def by (rule length_forest) (simp_all add: length_tree_blocks flip: count_step)

text \<open>Which leaf a position is.\<close>

lemma nth_forest:
  assumes t: "\<And>b k. 0 < k \<Longrightarrow> k \<le> c \<Longrightarrow> length (t b k) = k" and c: "0 < c"
  shows "k \<le> length bs * c \<Longrightarrow> n < k \<Longrightarrow>
    forest t c bs k ! n = t (bs ! (n div c)) (min c (k - n div c * c)) ! (n mod c)"
proof (induction bs arbitrary: k n)
  case Nil
  then show ?case by simp
next
  case (Cons b bs)
  have len: "length (t b (min c k)) = min c k" using t c Cons.prems by simp
  show ?case
  proof (cases "n < c")
    case True
    then have "n < min c k" using Cons.prems by simp
    then show ?thesis using Cons.prems True len by (simp add: nth_append)
  next
    case False
    then have n: "n div c = Suc ((n - c) div c)" "n mod c = (n - c) mod c"
      using le_div_geq [of c n] le_mod_geq [of c n] c by simp_all
    have "forest t c bs (k - c) ! (n - c) =
        t (bs ! ((n - c) div c)) (min c (k - c - (n - c) div c * c)) ! ((n - c) mod c)"
      using Cons.prems False by (intro Cons.IH) auto
    then show ?thesis using Cons.prems False len by (simp add: nth_append n diff_diff_left)
  qed
qed

section \<open>Frames\<close>

text \<open>A forest is determined by the contents of its inner blocks.\<close>

lemma tree_frame:
  assumes "\<forall>c \<in> set (tree_inner s h b k). blocks s' c = blocks s c"
  shows "tree_leaves s' h b k = tree_leaves s h b k" "tree_inner s' h b k = tree_inner s h b k"
    "tree_blocks s' h b k = tree_blocks s h b k"
proof -
  have "tree_leaves s' h b k = tree_leaves s h b k \<and> tree_inner s' h b k = tree_inner s h b k \<and>
      tree_blocks s' h b k = tree_blocks s h b k"
    using assms
  proof (induction h arbitrary: b k)
    case 0
    then show ?case by simp
  next
    case (Suc h)
    then have b: "ind s' b = ind s b" by (simp add: ind_def)
    have cs: "\<forall>c \<in> set (forest (tree_inner s h) (128 ^ h) (ind s b) k). blocks s' c = blocks s c"
      using Suc.prems by simp
    have "forest (tree_leaves s' h) (128 ^ h) (ind s b) k = forest (tree_leaves s h) (128 ^ h) (ind s b) k"
      "forest (tree_inner s' h) (128 ^ h) (ind s b) k = forest (tree_inner s h) (128 ^ h) (ind s b) k"
      "forest (tree_blocks s' h) (128 ^ h) (ind s b) k = forest (tree_blocks s h) (128 ^ h) (ind s b) k"
      using Suc.IH by (auto intro!: forest_cong [OF _ _ cs])
    then show ?case by (simp add: b)
  qed
  then show "tree_leaves s' h b k = tree_leaves s h b k" "tree_inner s' h b k = tree_inner s h b k"
    "tree_blocks s' h b k = tree_blocks s h b k" by simp_all
qed

lemma forest_frame:
  assumes "\<forall>c \<in> set (inner s h bs k). blocks s' c = blocks s c"
  shows "leaves s' h bs k = leaves s h bs k" "inner s' h bs k = inner s h bs k"
    "all_blocks s' h bs k = all_blocks s h bs k"
  using assms unfolding leaves_def inner_def all_blocks_def
  by (auto intro!: forest_cong [where A = "\<lambda>c. blocks s' c = blocks s c"] tree_frame)

lemma forests_same_blocks:
  assumes "blocks s' = blocks s"
  shows "leaves s' h bs k = leaves s h bs k" "inner s' h bs k = inner s h bs k"
    "all_blocks s' h bs k = all_blocks s h bs k" "ind s' b = ind s b"
    "tree_leaves s' h b k = tree_leaves s h b k" "tree_inner s' h b k = tree_inner s h b k"
    "tree_blocks s' h b k = tree_blocks s h b k"
  using assms forest_frame [of s h bs k s'] tree_frame [of s h b k s'] by (simp_all add: ind_def)

lemma forests_entered_left [simp]:
  "leaves (entered c s) h bs k = leaves s h bs k" "inner (entered c s) h bs k = inner s h bs k"
  "all_blocks (entered c s) h bs k = all_blocks s h bs k"
  "leaves (left c s) h bs k = leaves s h bs k" "inner (left c s) h bs k = inner s h bs k"
  "all_blocks (left c s) h bs k = all_blocks s h bs k"
  by (rule forests_same_blocks; simp)+

text \<open>Empty and cons forests.\<close>

lemma forest_simps [simp]:
  "leaves s h [] k = []" "inner s h [] k = []" "all_blocks s h [] k = []"
  "leaves s h bs 0 = []" "inner s h bs 0 = []" "all_blocks s h bs 0 = []"
  by (simp_all add: leaves_def inner_def all_blocks_def)

lemma forest_Cons:
  "0 < k \<Longrightarrow> leaves s h (b # bs) k = tree_leaves s h b (min (128 ^ h) k) @ leaves s h bs (k - 128 ^ h)"
  "0 < k \<Longrightarrow> inner s h (b # bs) k = tree_inner s h b (min (128 ^ h) k) @ inner s h bs (k - 128 ^ h)"
  "0 < k \<Longrightarrow> all_blocks s h (b # bs) k = tree_blocks s h b (min (128 ^ h) k) @ all_blocks s h bs (k - 128 ^ h)"
  by (simp_all add: leaves_def inner_def all_blocks_def)

lemma tree_Suc:
  "tree_leaves s (Suc h) b k = leaves s h (ind s b) k" "tree_inner s (Suc h) b k = b # inner s h (ind s b) k"
  "tree_blocks s (Suc h) b k = b # all_blocks s h (ind s b) k"
  by (simp_all add: leaves_def inner_def all_blocks_def)

lemma forest_min:
  "leaves s h bs (min (length bs * 128 ^ h) k) = leaves s h bs k"
  "inner s h bs (min (length bs * 128 ^ h) k) = inner s h bs k"
  "all_blocks s h bs (min (length bs * 128 ^ h) k) = all_blocks s h bs k"
  unfolding leaves_def inner_def all_blocks_def using forest_cap_min [of "128 ^ h" _ bs k, symmetric]
  by (simp_all add: min.commute)

lemma inner_subset: "set (inner s h bs k) \<subseteq> set (all_blocks s h bs k)"
  by (simp add: all_blocks_split)

lemma tree_inner_subset: "set (tree_inner s h b k) \<subseteq> set (tree_blocks s h b k)"
  by (cases "0 < k") (simp_all add: tree_blocks_split, cases h, simp_all)

lemma tree_root: "b \<in> set (tree_blocks s h b k)"
  by (cases h) simp_all

lemma tree_zero [simp]: "tree_leaves s h b 0 = []" "tree_blocks s h b 0 = [b]"
  by (cases h; simp)+

declare tree_leaves.simps(2) [simp del] tree_inner.simps(2) [simp del] tree_blocks.simps(2) [simp del]

section \<open>Growing\<close>

definition tree_grows :: "nat \<Rightarrow> nat \<Rightarrow> store \<Rightarrow> nat \<Rightarrow> store \<Rightarrow> nat \<Rightarrow> nat list \<Rightarrow> bool" where
  "tree_grows h b s k s' k' ns \<longleftrightarrow>
     prefix (tree_leaves s h b k) (tree_leaves s' h b k') \<and>
     set (tree_blocks s' h b k') = set (tree_blocks s h b k) \<union> set ns \<and>
     length (tree_blocks s' h b k') = length (tree_blocks s h b k) + length ns \<and>
     set (tree_inner s h b k) \<subseteq> set (tree_inner s' h b k') \<and>
     (\<forall>c. c \<notin> set (tree_inner s' h b k') \<longrightarrow> blocks s' c = blocks s c) \<and>
     nblocks s' = nblocks s \<and> held s' = held s \<and> store_ok s'"

definition grows :: "nat \<Rightarrow> nat list \<Rightarrow> store \<Rightarrow> nat \<Rightarrow> nat list \<Rightarrow> store \<Rightarrow> nat \<Rightarrow> nat list \<Rightarrow> bool" where
  "grows h bs s k bs' s' k' ns \<longleftrightarrow>
     prefix (leaves s h bs k) (leaves s' h bs' k') \<and>
     set (all_blocks s' h bs' k') = set (all_blocks s h bs k) \<union> set ns \<and>
     length (all_blocks s' h bs' k') = length (all_blocks s h bs k) + length ns \<and>
     set (inner s h bs k) \<subseteq> set (inner s' h bs' k') \<and>
     (\<forall>c. c \<notin> set (inner s' h bs' k') \<longrightarrow> blocks s' c = blocks s c) \<and>
     nblocks s' = nblocks s \<and> held s' = held s \<and> store_ok s'"

text \<open>Blocks that can be accessed now, and whose number fits an index entry.\<close>

definition usable :: "store \<Rightarrow> nat set \<Rightarrow> bool" where
  "usable s B \<longleftrightarrow> (\<forall>b \<in> B. b < nblocks s \<and> b \<notin> set (held s) \<and> b < 2 ^ 32)"

lemma usable_mono: "usable s B \<Longrightarrow> C \<subseteq> B \<Longrightarrow> usable s C"
  by (auto simp: usable_def)

lemma usable_Un [simp]: "usable s (B \<union> C) \<longleftrightarrow> usable s B \<and> usable s C"
  by (auto simp: usable_def)

lemma usable_insert [simp]:
  "usable s (insert b B) \<longleftrightarrow> b < nblocks s \<and> b \<notin> set (held s) \<and> b < 2 ^ 32 \<and> usable s B"
  by (auto simp: usable_def)

lemma prefix_same_length: "prefix xs ys \<Longrightarrow> length xs = length ys \<Longrightarrow> xs = ys"
  by (auto simp: prefix_def)

lemma distinct_appendD: "distinct (xs @ ys @ zs) \<Longrightarrow> distinct (xs @ ys)" "distinct (xs @ ys @ zs) \<Longrightarrow> distinct (xs @ zs)"
  by auto

text \<open>The first tree grows, then the others.\<close>

lemma grows_Cons:
  assumes tree: "tree_grows h b s (min (128 ^ h) k) s1 (min (128 ^ h) k') ns1"
    and tail: "grows h bs s1 (k - 128 ^ h) bs' s2 (k' - 128 ^ h) ns2"
    and ns: "ns = (if k = 0 then b # ns1 else ns1) @ ns2" and root: "0 < k \<Longrightarrow> b0 = b"
    and k: "k \<le> k'" "0 < k'"
    and dist: "distinct (all_blocks s h (b0 # bs) k @ ns)"
  shows "grows h (b0 # bs) s k (b # bs') s2 k' ns"
proof -
  let ?c = "128 ^ h :: nat"
  let ?H = "tree_blocks s h b (min ?c k)" and ?T = "all_blocks s h bs (k - ?c)"
  have old: "all_blocks s h (b0 # bs) k = (if k = 0 then [] else ?H @ ?T)"
    using root by (simp add: forest_Cons)
  have disj: "(set ?H \<union> set ns1) \<inter> (set ?T \<union> set ns2) = {}"
    using dist unfolding old ns by (cases "k = 0") auto
  have t: "set (tree_blocks s1 h b (min ?c k')) = set ?H \<union> set ns1"
    "\<And>c. c \<notin> set (tree_inner s1 h b (min ?c k')) \<Longrightarrow> blocks s1 c = blocks s c"
    using tree by (simp_all add: tree_grows_def)
  have "blocks s1 c = blocks s c" if "c \<in> set (inner s h bs (k - ?c))" for c
    using that t disj inner_subset [of s h bs "k - ?c"] tree_inner_subset [of s1 h b "min ?c k'"] by blast
  then have T: "leaves s1 h bs (k - ?c) = leaves s h bs (k - ?c)" "all_blocks s1 h bs (k - ?c) = ?T"
    "inner s1 h bs (k - ?c) = inner s h bs (k - ?c)" using forest_frame [of s h bs "k - ?c" s1] by blast+
  have u: "set (all_blocks s2 h bs' (k' - ?c)) = set ?T \<union> set ns2"
    "\<And>c. c \<notin> set (inner s2 h bs' (k' - ?c)) \<Longrightarrow> blocks s2 c = blocks s1 c"
    using tail by (simp_all add: grows_def T)
  have "blocks s2 c = blocks s1 c" if "c \<in> set (tree_inner s1 h b (min ?c k'))" for c
    using that t(1) u disj inner_subset [of s2 h bs' "k' - ?c"] tree_inner_subset [of s1 h b "min ?c k'"] by blast
  then have H: "tree_leaves s2 h b (min ?c k') = tree_leaves s1 h b (min ?c k')"
    "tree_inner s2 h b (min ?c k') = tree_inner s1 h b (min ?c k')"
    "tree_blocks s2 h b (min ?c k') = tree_blocks s1 h b (min ?c k')"
    using tree_frame [of s1 h b "min ?c k'" s2] by blast+
  have pre: "prefix (leaves s h (b0 # bs) k) (leaves s2 h (b # bs') k')"
  proof (cases "k \<le> ?c")
    case True
    then have "leaves s h (b0 # bs) k = (if k = 0 then [] else tree_leaves s h b (min ?c k))"
      using root by (simp add: forest_Cons)
    moreover have "prefix (tree_leaves s h b (min ?c k)) (tree_leaves s1 h b (min ?c k'))"
      using tree by (simp add: tree_grows_def)
    ultimately show ?thesis using k(2) by (auto simp: forest_Cons(1) H(1))
  next
    case False
    then have m: "min ?c k = ?c" "min ?c k' = ?c" "0 < k" using k by simp_all
    have "prefix (tree_leaves s h b ?c) (tree_leaves s1 h b ?c)"
      using tree by (simp add: tree_grows_def m)
    then have "tree_leaves s1 h b ?c = tree_leaves s h b ?c"
      by (intro prefix_same_length [symmetric]) (simp_all add: length_tree_leaves)
    moreover have "prefix (leaves s h bs (k - ?c)) (leaves s2 h bs' (k' - ?c))"
      using tail by (simp add: grows_def T)
    ultimately show ?thesis using k(2) m root by (simp add: forest_Cons(1) H(1) [unfolded m(2)] m)
  qed
  have new: "all_blocks s2 h (b # bs') k' = tree_blocks s1 h b (min ?c k') @ all_blocks s2 h bs' (k' - ?c)"
    "inner s2 h (b # bs') k' = tree_inner s1 h b (min ?c k') @ inner s2 h bs' (k' - ?c)"
    using k(2) by (simp_all add: forest_Cons H)
  have "set (all_blocks s2 h (b # bs') k') = set (all_blocks s h (b0 # bs) k) \<union> set ns"
    using t(1) u(1) by (auto simp: new old ns)
  moreover have "length (all_blocks s2 h (b # bs') k') = length (all_blocks s h (b0 # bs) k) + length ns"
    using tree tail by (auto simp: tree_grows_def grows_def new old ns T)
  moreover have "blocks s2 c = blocks s c" if "c \<notin> set (inner s2 h (b # bs') k')" for c
    using that t(2) u(2) by (simp add: new)
  moreover have "set (inner s h (b0 # bs) k) \<subseteq> set (inner s2 h (b # bs') k')"
    using tree tail root unfolding new by (cases "k = 0") (auto simp: forest_Cons(2) tree_grows_def grows_def T(3))
  ultimately show ?thesis
    using pre tree tail by (simp add: grows_def tree_grows_def)
qed

text \<open>The children of an index block grow while it is accessed, then it is written back.\<close>

lemma ind_set_block:
  assumes "store_ok s" and "words_ok 4 128 arr"
  shows "ind (set_block b (put_at IndirectBlock 0 arr (blocks s b)) s) c = (if c = b then arr else ind s c)"
  using assms indirect_block.view_put_same [of 0 "blocks s b" arr] by (simp add: ind_def)

lemma tree_grows_root:
  assumes g: "grows h (ind s b) (entered b s) k arr s1 k' ns" and arr: "words_ok 4 128 arr"
    and dist: "distinct (tree_blocks s (Suc h) b k @ ns)"
  shows "tree_grows (Suc h) b s k (left b (set_block b (put_at IndirectBlock 0 arr (blocks s1 b)) s1)) k' ns"
    (is "tree_grows _ _ _ _ ?s _ _")
proof -
  have ok: "store_ok s1" using g by (simp add: grows_def)
  have i: "ind ?s b = arr" using ind_set_block [OF ok arr, of b b] by (simp add: ind_def)
  have set1: "set (all_blocks s1 h arr k') = set (all_blocks s h (ind s b) k) \<union> set ns"
    using g by (simp add: grows_def)
  then have b: "b \<notin> set (inner s1 h arr k')"
    using dist inner_subset [of s1 h arr k'] by (auto simp: tree_Suc)
  then have same: "\<forall>c \<in> set (inner s1 h arr k'). blocks ?s c = blocks s1 c" by auto
  note f = forest_frame [OF same]
  have "length (put_at IndirectBlock 0 arr (blocks s1 b)) = 512"
    using indirect_block.put_at_length [of 0 "blocks s1 b" arr] ok arr by simp
  then have ok': "store_ok ?s" using ok by simp
  have "blocks ?s c = blocks s c" if "c \<notin> set (tree_inner ?s (Suc h) b k')" for c
    using that [unfolded tree_Suc i f] g by (auto simp: grows_def)
  then show ?thesis
    using g ok' unfolding tree_grows_def tree_Suc i f by (auto simp: grows_def)
qed

section \<open>Building a tree\<close>

definition build_tree_post ::
    "nat \<Rightarrow> nat \<Rightarrow> nat \<Rightarrow> nat list \<Rightarrow> nat \<Rightarrow> nat \<Rightarrow> store \<Rightarrow> nat \<times> nat list \<Rightarrow> store \<Rightarrow> bool" where
  "build_tree_post h src dst new b cur s r s' \<longleftrightarrow>
     (\<exists>ns. new = ns @ snd r \<and> fst r = cur + min (128 ^ h) (dst - cur) \<and>
       tree_grows h b s (min (128 ^ h) (src - cur)) s' (min (128 ^ h) (dst - cur)) ns)"

definition build_tree_pre :: "nat \<Rightarrow> nat \<Rightarrow> nat \<Rightarrow> nat list \<Rightarrow> nat \<Rightarrow> nat \<Rightarrow> store \<Rightarrow> bool" where
  "build_tree_pre h src dst new b cur s \<longleftrightarrow>
     (let old = tree_blocks s h b (min (128 ^ h) (src - cur))
      in store_ok s \<and> src \<le> dst \<and> cur < dst \<and> distinct (old @ new) \<and> usable s (set old \<union> set new) \<and>
         length (held s) + h \<le> 16 \<and> count h (min (128 ^ h) (dst - cur)) \<le> length new + length old)"

definition build_loop_pre :: "nat \<Rightarrow> nat \<Rightarrow> nat \<Rightarrow> nat \<Rightarrow> nat list \<Rightarrow> nat list \<Rightarrow> nat \<Rightarrow> store \<Rightarrow> bool" where
  "build_loop_pre h src dst i arr new cur s \<longleftrightarrow>
     (let old = all_blocks s h (drop i arr) (src - cur)
      in store_ok s \<and> src \<le> dst \<and> i \<le> 128 \<and> words_ok 4 128 arr \<and> distinct (old @ new) \<and>
         usable s (set old \<union> set new) \<and> length (held s) + h \<le> 16 \<and>
         count h (min ((128 - i) * 128 ^ h) (dst - cur)) \<le> length new + length old)"

definition build_loop_post ::
    "nat \<Rightarrow> nat \<Rightarrow> nat \<Rightarrow> nat \<Rightarrow> nat list \<Rightarrow> nat list \<Rightarrow> nat \<Rightarrow> store \<Rightarrow> nat list \<times> nat list \<times> nat \<Rightarrow> store \<Rightarrow> bool" where
  "build_loop_post h src dst i arr new cur s r s' \<longleftrightarrow>
     (\<exists>ns. words_ok 4 128 (fst r) \<and> take i (fst r) = take i arr \<and> new = ns @ fst (snd r) \<and>
       snd (snd r) = cur + min ((128 - i) * 128 ^ h) (dst - cur) \<and>
       grows h (drop i arr) s (src - cur) (drop i (fst r)) s' (dst - cur) ns)"

lemma grows_refl: "store_ok s \<Longrightarrow> grows h bs s k bs s k []"
  by (simp add: grows_def)

lemma build_loop_done:
  assumes "build_loop_pre h src dst i arr new cur s" and "\<not> (i < 128 \<and> cur < dst)"
  shows "build_loop_post h src dst i arr new cur s (arr, new, cur) s"
proof -
  have "drop i arr = [] \<or> src - cur = 0 \<and> dst - cur = 0"
    using assms by (auto simp: build_loop_pre_def Let_def words_ok_def)
  then have "grows h (drop i arr) s (src - cur) (drop i arr) s (dst - cur) []"
    using assms(1) by (auto simp: grows_def build_loop_pre_def Let_def)
  then show ?thesis using assms by (auto simp: build_loop_post_def build_loop_pre_def Let_def)
qed

lemma count_split_min:
  assumes "i < 128"
  shows "count h (min ((128 - i) * 128 ^ h) k) =
    count h (min (128 ^ h) k) + count h (min ((128 - Suc i) * 128 ^ h) (k - 128 ^ h))"
proof -
  let ?c = "128 ^ h :: nat" and ?m = "min ((128 - i) * 128 ^ h) k"
  have "128 - i = Suc (128 - Suc i)" using assms by simp
  then have "(128 - i) * ?c = ?c + (128 - Suc i) * ?c" by simp
  then have "min ?c ?m = min ?c k" "?m - ?c = min ((128 - Suc i) * ?c) (k - ?c)" by auto
  then show ?thesis using count_step [of h ?m] by simp
qed

lemma count_pos: "0 < k \<Longrightarrow> 0 < count h k"
  by (induction h) (simp_all add: count_def)

text \<open>
  One round of the loop: the root \<open>b\<close> of the next tree is an old entry, or the next of the
  new blocks; then the tree grows, and the rest of the loop follows.
\<close>

lemma build_step_child:
  assumes pre: "build_loop_pre h src dst i arr new cur s" and i: "i < 128" and cur: "cur < dst"
    and new: "new = (if src \<le> cur then b # new1 else new1)" and b: "cur < src \<Longrightarrow> b = arr ! i"
  shows "build_tree_pre h src dst new1 b cur s"
proof -
  let ?c = "128 ^ h :: nat" and ?k = "src - cur" and ?k' = "dst - cur"
  let ?T = "all_blocks s h (drop (Suc i) arr) (?k - ?c)"
  let ?H = "tree_blocks s h b (min ?c ?k)"
  have len: "length arr = 128" using pre by (simp add: build_loop_pre_def Let_def words_ok_def)
  then have d: "drop i arr = arr ! i # drop (Suc i) arr" using i by (simp add: Cons_nth_drop_Suc)
  have old: "all_blocks s h (drop i arr) ?k = (if src \<le> cur then [] else ?H @ ?T)"
    using b by (simp add: d forest_Cons)
  have "min ?c ?k' \<le> ?c" "0 < min ?c ?k'" using cur by simp_all
  have T: "length ?T = count h (min ((128 - Suc i) * ?c) (?k - ?c))"
    using length_all_blocks [of "min ((128 - Suc i) * ?c) (?k - ?c)" "drop (Suc i) arr" h s] len
      forest_min(3) [of s h "drop (Suc i) arr" "?k - ?c"] by simp
  have "src \<le> dst" using pre by (simp add: build_loop_pre_def Let_def)
  then have "length ?T \<le> count h (min ((128 - Suc i) * ?c) (?k' - ?c))"
    unfolding T by (intro count_mono) auto
  moreover have "count h (min ?c ?k') + count h (min ((128 - Suc i) * ?c) (?k' - ?c)) \<le>
      length new + length (all_blocks s h (drop i arr) ?k)"
    using pre by (simp add: build_loop_pre_def Let_def count_split_min [OF i])
  ultimately have enough: "count h (min ?c ?k') \<le> length new1 + length ?H"
    unfolding old by (cases "src \<le> cur") (auto simp: new)
  show ?thesis
  proof (cases "src \<le> cur")
    case True
    then show ?thesis using pre enough cur by (auto simp: build_loop_pre_def build_tree_pre_def Let_def new)
  next
    case False
    then show ?thesis using pre enough cur unfolding build_loop_pre_def old by (auto simp: build_tree_pre_def Let_def new)
  qed
qed

lemma build_step_next:
  assumes pre: "build_loop_pre h src dst i arr new cur s" and i: "i < 128" and cur: "cur < dst"
    and new: "new = (if src \<le> cur then b # new1 else new1)" and b: "cur < src \<Longrightarrow> b = arr ! i"
    and post: "new1 = ns1 @ new2" "cur2 = cur + min (128 ^ h) (dst - cur)"
      "tree_grows h b s (min (128 ^ h) (src - cur)) s1 (min (128 ^ h) (dst - cur)) ns1"
    and arr1: "words_ok 4 128 arr1" "drop (Suc i) arr1 = drop (Suc i) arr"
  shows "build_loop_pre h src dst (Suc i) arr1 new2 cur2 s1"
proof -
  let ?c = "128 ^ h :: nat" and ?k = "src - cur" and ?k' = "dst - cur"
  let ?T = "all_blocks s h (drop (Suc i) arr) (?k - ?c)"
  let ?H = "tree_blocks s h b (min ?c ?k)"
  have P: "store_ok s" "src \<le> dst" "length arr = 128" "length (held s) + h \<le> 16"
    "distinct (all_blocks s h (drop i arr) ?k @ new)" "usable s (set (all_blocks s h (drop i arr) ?k) \<union> set new)"
    "count h (min ?c ?k') + count h (min ((128 - Suc i) * ?c) (?k' - ?c)) \<le>
      length new + length (all_blocks s h (drop i arr) ?k)"
    using pre by (simp_all add: build_loop_pre_def Let_def words_ok_def count_split_min [OF i])
  have d: "drop i arr = arr ! i # drop (Suc i) arr" using i P(3) by (simp add: Cons_nth_drop_Suc)
  have old: "all_blocks s h (drop i arr) ?k = (if src \<le> cur then [] else ?H @ ?T)"
    using b by (simp add: d forest_Cons)
  have k: "src - cur2 = ?k - ?c" "dst - cur2 = ?k' - ?c" using post(2) P(2) cur by auto
  have g: "set (tree_blocks s1 h b (min ?c ?k')) = set ?H \<union> set ns1"
    "length (tree_blocks s1 h b (min ?c ?k')) = length ?H + length ns1"
    "\<And>c. c \<notin> set (tree_inner s1 h b (min ?c ?k')) \<Longrightarrow> blocks s1 c = blocks s c"
    "nblocks s1 = nblocks s" "held s1 = held s" "store_ok s1"
    using post(3) by (simp_all add: tree_grows_def)
  have T0: "src \<le> cur \<Longrightarrow> ?T = []" by simp
  have "blocks s1 c = blocks s c" if "c \<in> set (inner s h (drop (Suc i) arr) (?k - ?c))" for c
  proof -
    have "c \<in> set ?T" using that inner_subset by blast
    then have "c \<notin> set ?H \<union> set ns1"
      using P(5) T0 unfolding old new post(1) by (cases "src \<le> cur") auto
    then show ?thesis using g(1,3) tree_inner_subset [of s1 h b "min ?c ?k'"] by blast
  qed
  then have T1: "all_blocks s1 h (drop (Suc i) arr1) (?k - ?c) = ?T"
    using forest_frame(3) [of s h "drop (Suc i) arr" "?k - ?c" s1] by (simp add: arr1(2))
  have "count h (min ?c ?k') = length ?H + length ns1"
    using g(2) length_tree_blocks [of "min ?c ?k'" h s1 b] cur by simp
  then have "count h (min ((128 - Suc i) * ?c) (?k' - ?c)) \<le> length new2 + length ?T"
    using P(7) T0 unfolding old new post(1) by (cases "src \<le> cur") auto
  moreover have "distinct (?T @ new2)" "usable s (set ?T \<union> set new2)"
    using P(5,6) T0 unfolding old new post(1) by (cases "src \<le> cur"; auto)+
  ultimately show ?thesis
    using P(2,4) i g(4-6) arr1(1) unfolding build_loop_pre_def k T1 Let_def by (simp add: usable_def)
qed

lemma build_step_post:
  assumes pre: "build_loop_pre h src dst i arr new cur s" and i: "i < 128" and cur: "cur < dst"
    and new: "new = (if src \<le> cur then b # new1 else new1)" and b: "cur < src \<Longrightarrow> b = arr ! i"
    and post: "new1 = ns1 @ new2" "cur2 = cur + min (128 ^ h) (dst - cur)"
      "tree_grows h b s (min (128 ^ h) (src - cur)) s1 (min (128 ^ h) (dst - cur)) ns1"
    and arr1: "take i arr1 = take i arr" "arr1 ! i = b" "length arr1 = 128" "drop (Suc i) arr1 = drop (Suc i) arr"
    and rest: "build_loop_post h src dst (Suc i) arr1 new2 cur2 s1 r s2"
  shows "build_loop_post h src dst i arr new cur s r s2"
proof -
  let ?c = "128 ^ h :: nat" and ?k = "src - cur" and ?k' = "dst - cur"
  have P: "src \<le> dst" "length arr = 128" "distinct (all_blocks s h (drop i arr) ?k @ new)"
    using pre by (simp_all add: build_loop_pre_def Let_def words_ok_def)
  have k: "src - cur2 = ?k - ?c" "dst - cur2 = ?k' - ?c" using post(2) P(1) cur by auto
  from rest obtain ns2 where r: "words_ok 4 128 (fst r)" "take (Suc i) (fst r) = take (Suc i) arr1"
    "new2 = ns2 @ fst (snd r)" "snd (snd r) = cur2 + min ((128 - Suc i) * ?c) (?k' - ?c)"
    "grows h (drop (Suc i) arr) s1 (?k - ?c) (drop (Suc i) (fst r)) s2 (?k' - ?c) ns2"
    unfolding build_loop_post_def k arr1(4) by blast
  let ?ns = "(if ?k = 0 then b # ns1 else ns1) @ ns2"
  have n: "new = ?ns @ fst (snd r)" using r(3) post(1) new by auto
  have len: "length (fst r) = 128" using r(1) by (simp add: words_ok_def)
  have d: "drop i arr = arr ! i # drop (Suc i) arr" using i P(2) by (simp add: Cons_nth_drop_Suc)
  have ri: "fst r ! i = b" using r(2) arr1(2) by (metis lessI nth_take)
  have dr: "drop i (fst r) = b # drop (Suc i) (fst r)" using i len ri by (metis Cons_nth_drop_Suc)
  have "take i (fst r) = take i arr" using r(2) arr1(1) by (metis less_imp_le_nat lessI min.absorb1 take_take)
  moreover have "grows h (arr ! i # drop (Suc i) arr) s ?k (b # drop (Suc i) (fst r)) s2 ?k' ?ns"
  proof (rule grows_Cons [OF post(3) r(5) refl])
    show "distinct (all_blocks s h (arr ! i # drop (Suc i) arr) ?k @ ?ns)"
      by (rule distinct_appendD) (rule P(3) [unfolded n d])
  qed (use b P(1) cur in auto)
  moreover have "snd (snd r) = cur + min ((128 - i) * ?c) ?k'"
  proof -
    have "128 - i = Suc (128 - Suc i)" using i by simp
    then have "(128 - i) * ?c = ?c + (128 - Suc i) * ?c" by simp
    moreover have "min ?c ?k' + min m (?k' - ?c) = min (?c + m) ?k'" for m by linarith
    ultimately show ?thesis using r(4) post(2) by simp
  qed
  ultimately show ?thesis using r(1) n unfolding build_loop_post_def d dr by blast
qed

lemma wp_build_loop:
  assumes child: "\<And>new b cur s. build_tree_pre h src dst new b cur s \<Longrightarrow>
      wp (child new b cur) (build_tree_post h src dst new b cur s) s"
  shows "build_loop_pre h src dst i arr new cur s \<Longrightarrow>
    wp (build_loop child src dst i arr new cur) (build_loop_post h src dst i arr new cur s) s"
proof (induction "128 - i" arbitrary: i arr new cur s)
  case 0
  then show ?case by (simp add: build_loop.simps layout_consts wp_ret build_loop_done)
next
  case (Suc n)
  show ?case
  proof (cases "cur < dst")
    case False
    then show ?thesis using Suc.prems by (simp add: build_loop.simps layout_consts wp_ret build_loop_done)
  next
    case cur: True
    have i: "i < 128" using Suc.hyps(2) by simp
    have P: "words_ok 4 128 arr" "usable s (set new)" "src \<le> dst"
      "count h (min ((128 - i) * 128 ^ h) (dst - cur)) \<le> length new + length (all_blocks s h (drop i arr) (src - cur))"
      using Suc.prems by (simp_all add: build_loop_pre_def Let_def)
    have len: "length arr = 128" using P(1) by (simp add: words_ok_def)
    define b where "b = (if src \<le> cur then hd new else arr ! i)"
    define new1 where "new1 = (if src \<le> cur then tl new else new)"
    define arr1 where "arr1 = (if src \<le> cur then arr[i := b] else arr)"
    have ne: "new \<noteq> []" if "src \<le> cur"
      using P(4) that count_pos [of "min ((128 - i) * 128 ^ h) (dst - cur)" h] cur i by auto
    then have new: "new = (if src \<le> cur then b # new1 else new1)" by (simp add: b_def new1_def)
    have b: "cur < src \<Longrightarrow> b = arr ! i" by (simp add: b_def)
    have "b < 256 ^ 4" if "src \<le> cur" using P(2) ne that by (auto simp: usable_def b_def)
    then have w1: "words_ok 4 128 arr1" using P(1) words_ok_upd unfolding arr1_def by auto
    have a1: "take i arr1 = take i arr" "arr1 ! i = b" "length arr1 = 128" "drop (Suc i) arr1 = drop (Suc i) arr"
      using len i by (simp_all add: arr1_def b_def)
    have step: "wp (build_loop child src dst i arr new cur) Q s =
        wp (child new1 b cur) (\<lambda>(cur, new). wp (build_loop child src dst (i + 1) arr1 new cur) Q) s" for Q
      using cur i len ne unfolding build_loop.simps [of child src dst i arr new cur] layout_consts
      by (cases "src \<le> cur")
        (auto simp: wp_simps next_block_def b_def new1_def arr1_def case_prod_beta' neq_Nil_conv)
    show ?thesis
      unfolding step
    proof (rule wp_conseq [OF child [OF build_step_child [OF Suc.prems i cur new b]]])
      fix r s1
      assume "build_tree_post h src dst new1 b cur s r s1"
      then obtain ns1 where r: "new1 = ns1 @ snd r" "fst r = cur + min (128 ^ h) (dst - cur)"
        "tree_grows h b s (min (128 ^ h) (src - cur)) s1 (min (128 ^ h) (dst - cur)) ns1"
        by (auto simp: build_tree_post_def)
      have "build_loop_pre h src dst (Suc i) arr1 (snd r) (fst r) s1"
        by (rule build_step_next [OF Suc.prems i cur new b r w1 a1(4)])
      from Suc.hyps(1) [OF _ this] have "wp (build_loop child src dst (Suc i) arr1 (snd r) (fst r))
          (build_loop_post h src dst (Suc i) arr1 (snd r) (fst r) s1) s1" using Suc.hyps(2) by simp
      then have "wp (build_loop child src dst (Suc i) arr1 (snd r) (fst r)) (build_loop_post h src dst i arr new cur s) s1"
        by (rule wp_conseq) (rule build_step_post [OF Suc.prems i cur new b r a1])
      then show "(case r of (cur', new') \<Rightarrow> wp (build_loop child src dst (i + 1) arr1 new' cur')
          (build_loop_post h src dst i arr new cur s)) s1"
        by (simp add: case_prod_beta)
    qed
  qed
qed

lemma grows_min:
  assumes "length bs * 128 ^ h = m" and "length bs' = length bs"
  shows "grows h bs s (min m k) bs' s' (min m k') ns \<longleftrightarrow> grows h bs s k bs' s' k' ns"
  using forest_min [of s h bs k] forest_min [of s' h bs' k'] assms by (simp add: grows_def)

lemma words_ok_ind: "store_ok s \<Longrightarrow> words_ok 4 128 (ind s b)"
  unfolding ind_def by (rule indirect_block.view_ok) simp

lemma wp_build_tree:
  "build_tree_pre h src dst new b cur s \<Longrightarrow> wp (build_tree h src dst new b cur) (build_tree_post h src dst new b cur s) s"
proof (induction h arbitrary: new b cur s)
  case 0
  then have "store_ok s" "cur < dst" by (simp_all add: build_tree_pre_def Let_def)
  then have "tree_grows 0 b s (min 1 (src - cur)) s (min 1 (dst - cur)) []"
    by (simp add: tree_grows_def min_def)
  with \<open>cur < dst\<close> show ?case by (simp add: wp_ret build_tree_post_def)
next
  case (Suc h)
  let ?k = "min (128 ^ Suc h) (src - cur)" and ?k' = "min (128 ^ Suc h) (dst - cur)"
  have P: "store_ok s" "src \<le> dst" "cur < dst" "distinct (tree_blocks s (Suc h) b ?k @ new)"
    "usable s (set (tree_blocks s (Suc h) b ?k) \<union> set new)" "length (held s) + Suc h \<le> 16"
    "count (Suc h) ?k' \<le> length new + length (tree_blocks s (Suc h) b ?k)"
    using Suc.prems by (simp_all add: build_tree_pre_def Let_def)
  have m: "all_blocks s h (ind s b) ?k = all_blocks s h (ind s b) (src - cur)"
    using forest_min(3) [of s h "ind s b" "src - cur"] by simp
  have acq: "acquirable b s" using P(5,6) by (simp add: acquirable_def tree_Suc)
  have "count (Suc h) ?k' = 1 + count h ?k'" using P(3) by (intro count_Suc) auto
  then have pre: "build_loop_pre h src dst 0 (ind s b) new cur (entered b s)"
    using P words_ok_ind [OF P(1), of b] m
    by (auto simp: build_loop_pre_def Let_def tree_Suc usable_def)
  have "wp (build_loop (build_tree h src dst) src dst 0 (ind s b) new cur)
      (\<lambda>r s1. build_tree_post (Suc h) src dst new b cur s (snd (snd r), fst (snd r))
        (left b (set_block b (put_at IndirectBlock 0 (fst r) (blocks s1 b)) s1))) (entered b s)"
  proof (rule wp_conseq [OF wp_build_loop [OF Suc.IH pre]])
    fix r s1
    assume "build_loop_post h src dst 0 (ind s b) new cur (entered b s) r s1"
    then obtain ns where r: "words_ok 4 128 (fst r)" "new = ns @ fst (snd r)"
      "snd (snd r) = cur + min (128 * 128 ^ h) (dst - cur)"
      "grows h (ind s b) (entered b s) (src - cur) (fst r) s1 (dst - cur) ns"
      by (auto simp: build_loop_post_def)
    have len: "length (fst r) = 128" using r(1) by (simp add: words_ok_def)
    have "grows h (ind s b) (entered b s) ?k (fst r) s1 ?k' ns"
      using r(4) grows_min [of "ind s b" h "128 ^ Suc h" "fst r"] len by simp
    moreover have "distinct (tree_blocks s (Suc h) b ?k @ ns)" using P(4) unfolding r(2) by (rule distinct_appendD)
    ultimately have "tree_grows (Suc h) b s ?k (left b (set_block b (put_at IndirectBlock 0 (fst r) (blocks s1 b)) s1)) ?k' ns"
      using r(1) by (intro tree_grows_root)
    then show "build_tree_post (Suc h) src dst new b cur s (snd (snd r), fst (snd r))
        (left b (set_block b (put_at IndirectBlock 0 (fst r) (blocks s1 b)) s1))"
      using r(2,3) by (auto simp: build_tree_post_def)
  qed (simp_all)
  then show ?case
    using acq by (simp add: wp_modify_as wp_bnd wp_ret case_prod_beta' ind_def)
qed

section \<open>Growing leaf by leaf\<close>

lemma grows_trans:
  "grows h bs s k bs1 s1 k1 ns1 \<Longrightarrow> grows h bs1 s1 k1 bs2 s2 k2 ns2 \<Longrightarrow> grows h bs s k bs2 s2 k2 (ns1 @ ns2)"
  unfolding grows_def by (elim conjE, intro conjI) (auto dest: prefix_order.trans)

text \<open>Trees in front that are full stay as they are.\<close>

lemma forest_append: "0 < c \<Longrightarrow> forest t c (xs @ ys) k = forest t c xs k @ forest t c ys (k - length xs * c)"
  by (induction xs arbitrary: k) (simp_all add: diff_diff_left)

lemma append_forests:
  "leaves s h (xs @ ys) k = leaves s h xs k @ leaves s h ys (k - length xs * 128 ^ h)"
  "inner s h (xs @ ys) k = inner s h xs k @ inner s h ys (k - length xs * 128 ^ h)"
  "all_blocks s h (xs @ ys) k = all_blocks s h xs k @ all_blocks s h ys (k - length xs * 128 ^ h)"
  by (simp_all add: leaves_def inner_def all_blocks_def forest_append)

lemma grows_append:
  assumes g: "grows h ys s (k - length xs * 128 ^ h) ys' s' (k' - length xs * 128 ^ h) ns"
    and full: "length xs * 128 ^ h \<le> k" "k \<le> k'" and dist: "distinct (all_blocks s h (xs @ ys) k @ ns)"
  shows "grows h (xs @ ys) s k (xs @ ys') s' k' ns"
proof -
  let ?m = "length xs * 128 ^ h"
  have f: "leaves s'' h xs k' = leaves s'' h xs k" "inner s'' h xs k' = inner s'' h xs k"
    "all_blocks s'' h xs k' = all_blocks s'' h xs k" for s''
    using forest_min [of s'' h xs k] forest_min [of s'' h xs k'] full by simp_all
  have "set (all_blocks s' h ys' (k' - ?m)) = set (all_blocks s h ys (k - ?m)) \<union> set ns"
    using g by (simp add: grows_def)
  then have "set (inner s' h ys' (k' - ?m)) \<inter> set (all_blocks s h xs k) = {}"
    using dist inner_subset [of s' h ys' "k' - ?m"] unfolding append_forests by auto
  then have "\<forall>c \<in> set (inner s h xs k). blocks s' c = blocks s c"
    using g inner_subset [of s h xs k] unfolding grows_def by blast
  from forest_frame [OF this] g show ?thesis
    unfolding grows_def append_forests f by auto
qed

text \<open>Forests of height zero are arrays of which a prefix is used.\<close>

lemma forest_0:
  "leaves s 0 bs k = take k bs" "inner s 0 bs k = []" "all_blocks s 0 bs k = take k bs"
proof -
  have "forest t (Suc 0) bs k = concat (map (\<lambda>b. t b (Suc 0)) (take k bs))" for t :: "nat \<Rightarrow> nat \<Rightarrow> nat list"
  proof (induction bs arbitrary: k)
    case Nil
    then show ?case by simp
  next
    case (Cons b bs)
    then show ?case by (cases k) simp_all
  qed
  then show "leaves s 0 bs k = take k bs" "inner s 0 bs k = []" "all_blocks s 0 bs k = take k bs"
    by (simp_all add: leaves_def inner_def all_blocks_def)
qed

lemma grows_0:
  assumes "k + length ns \<le> length arr" and "store_ok s"
  shows "grows 0 arr s k (splice_at k ns arr) s (k + length ns) ns"
proof -
  have "take (k + length ns) (splice_at k ns arr) = take k arr @ ns"
    using assms(1) by (simp add: splice_at_def)
  then show ?thesis using assms by (simp add: grows_def forest_0)
qed

lemma fill_loop_run:
  "current + n = bound \<Longrightarrow> bound \<le> length arr \<Longrightarrow> n \<le> length new \<Longrightarrow>
    (fill_loop current bound arr new :: ('s, _) action) = ret (splice_at current (take n new) arr, bound, drop n new)"
proof (induction n arbitrary: current arr new)
  case 0
  then show ?case by (simp add: fill_loop.simps)
next
  case (Suc n)
  then obtain b bs where new: "new = b # bs" by (cases new) auto
  have "current < length arr" using Suc.prems by simp
  then have "splice_at (Suc current) (take n bs) (arr[current := b]) = splice_at current (b # take n bs) arr"
    by (simp add: splice_at_def take_Suc_conv_app_nth)
  moreover have "(fill_loop (Suc current) bound (arr[current := b]) bs :: ('s, _) action) =
      ret (splice_at (Suc current) (take n bs) (arr[current := b]), bound, drop n bs)"
    using Suc.prems new by (intro Suc.IH) simp_all
  ultimately show ?case
    using Suc.prems \<open>current < length arr\<close>
    by (simp add: fill_loop.simps [of current] next_block_def new bnd_ret index_def thn_def)
qed

lemma words_ok_splice:
  assumes "words_ok w n arr" and "k + length ns \<le> n" and "\<forall>x \<in> set ns. x < 256 ^ w"
  shows "words_ok w n (splice_at k ns arr)"
  using assms by (auto simp: words_ok_def splice_at_def dest: in_set_takeD in_set_dropD)

text \<open>The loop that fills the level-two index block adds one leaf in each round.\<close>

lemma list_update_splice: "i < length xs \<Longrightarrow> xs[i := x] = splice_at i [x] xs"
  by (simp add: splice_at_def upd_conv_take_nth_drop)

lemma grow_leaf:
  assumes ok: "store_ok s" and b: "words_ok 4 128 arr" "a < 128" "j < 128"
    and new: "new = (if j = 0 then b # leaf # rest else leaf # rest)" "0 < j \<Longrightarrow> b = arr ! a"
    and dist: "distinct (all_blocks s 1 arr (a * 128 + j) @ new)" and leaf: "leaf < 2 ^ 32"
  shows "grows 1 arr s (a * 128 + j) (arr[a := b])
      (set_block b (put_at IndirectBlock 0 ((ind s b)[j := leaf]) (blocks s b)) s) (a * 128 + j + 1)
      (if j = 0 then [b, leaf] else [leaf])" (is "grows 1 arr s ?k _ ?s _ ?ns")
proof -
  let ?xs = "take a arr" and ?ys = "drop (Suc a) arr"
  have len: "length arr = 128" using b(1) by (simp add: words_ok_def)
  then have a: "a < length arr" using b(2) by simp
  have arr: "arr = ?xs @ arr ! a # ?ys" "arr[a := b] = ?xs @ b # ?ys" "length ?xs * 128 ^ 1 = a * 128"
    using a by (rule id_take_nth_drop, simp add: upd_conv_take_nth_drop [OF a], simp add: a)
  have dist': "distinct (all_blocks s 1 (?xs @ arr ! a # ?ys) ?k @ ?ns)"
    using dist unfolding arr(1) [symmetric] by (cases "j = 0") (auto simp: new)
  have w: "words_ok 4 128 ((ind s b)[j := leaf])"
    using leaf by (intro words_ok_upd words_ok_ind [OF ok]) simp
  have kids: "grows 0 (ind s b) (entered b s) j ((ind s b)[j := leaf]) (entered b s) (j + 1) [leaf]"
    using grows_0 [of j "[leaf]" "ind s b" "entered b s"] b(3) ok by (simp add: list_update_splice)
  have m: "?k - length ?xs * 128 ^ 1 = j" "(?k + 1) - length ?xs * 128 ^ 1 = j + 1" using arr(3) by simp_all
  have all: "all_blocks s 1 (arr ! a # ?ys) j = (if j = 0 then [] else tree_blocks s 1 b j)"
    using b(3) new(2) by (simp add: forest_Cons(3))
  have dist1: "distinct (all_blocks s 1 (arr ! a # ?ys) j @ ?ns)"
    using dist' unfolding append_forests(3) m(1) by auto
  have "distinct (tree_blocks s 1 b j @ [leaf])"
    using dist1 unfolding all by (cases "j = 0") simp_all
  then have "tree_grows 1 b s j (left b (set_block b (put_at IndirectBlock 0 ((ind s b)[j := leaf]) (blocks (entered b s) b)) (entered b s))) (j + 1) [leaf]"
    using tree_grows_root [OF kids w] by simp
  then have "tree_grows 1 b s (min (128 ^ 1) j) ?s (min (128 ^ 1) (j + 1)) [leaf]"
    using b(3) by simp
  moreover have z: "j - 128 ^ 1 = 0" "j + 1 - 128 ^ 1 = 0" using b(3) by simp_all
  have "grows 1 ?ys ?s (j - 128 ^ 1) ?ys ?s (j + 1 - 128 ^ 1) []"
    unfolding z using indirect_block.put_at_length [of 0 "blocks s b" "(ind s b)[j := leaf]"] w ok
    by (intro grows_refl) simp
  ultimately have "grows 1 (arr ! a # ?ys) s j (b # ?ys) ?s (j + 1) ?ns"
    using new(2) dist1 by (intro grows_Cons [where ?ns1.0 = "[leaf]" and ?ns2.0 = "[]"]) auto
  then have "grows 1 (arr ! a # ?ys) s (?k - length ?xs * 128 ^ 1) (b # ?ys) ?s ((?k + 1) - length ?xs * 128 ^ 1) ?ns"
    by (simp only: m)
  then have "grows 1 (?xs @ arr ! a # ?ys) s ?k (?xs @ b # ?ys) ?s (?k + 1) ?ns"
    by (rule grows_append) (use arr(3) dist' in simp_all)
  then show ?thesis unfolding arr(1) [symmetric] arr(2) .
qed

definition fill2_pre :: "nat \<Rightarrow> nat \<Rightarrow> nat \<Rightarrow> nat list \<Rightarrow> nat list \<Rightarrow> store \<Rightarrow> bool" where
  "fill2_pre a j k' arr new s \<longleftrightarrow>
     (let old = all_blocks s 1 arr (a * 128 + j)
      in store_ok s \<and> words_ok 4 128 arr \<and> j < 128 \<and> a * 128 + j \<le> k' \<and> k' \<le> 16384 \<and>
         distinct (old @ new) \<and> usable s (set old \<union> set new) \<and> length (held s) < 16 \<and>
         count 1 k' \<le> length new + length old)"

definition fill2_post ::
    "nat \<Rightarrow> nat \<Rightarrow> nat \<Rightarrow> nat list \<Rightarrow> nat list \<Rightarrow> store \<Rightarrow> nat list \<times> nat \<times> nat list \<Rightarrow> store \<Rightarrow> bool" where
  "fill2_post k k' current arr new s r s' \<longleftrightarrow>
     (\<exists>ns. words_ok 4 128 (fst r) \<and> new = ns @ snd (snd r) \<and> fst (snd r) = current + (k' - k) \<and>
       grows 1 arr s k (fst r) s' k' ns)"

lemma grows_length:
  assumes "grows h bs s k bs' s' k' ns" and "k \<le> length bs * 128 ^ h" and "k' \<le> length bs' * 128 ^ h"
  shows "count h k' = count h k + length ns"
  using assms by (simp add: grows_def length_all_blocks)

lemma grows_distinct:
  assumes "grows h bs s k bs' s' k' ns" and "distinct (all_blocks s h bs k @ ns)"
  shows "distinct (all_blocks s' h bs' k')"
  using assms card_distinct [of "all_blocks s' h bs' k'"] distinct_card [OF assms(2)] by (simp add: grows_def)

text \<open>What stays true of the blocks and of the new block numbers that are left after growing.\<close>

lemma grows_keeps:
  assumes g: "grows h bs s k bs' s' k' ns" and dist: "distinct (all_blocks s h bs k @ ns @ rest)"
    and use: "usable s (set (all_blocks s h bs k) \<union> set (ns @ rest))"
  shows "distinct (all_blocks s' h bs' k' @ rest)" "usable s' (set (all_blocks s' h bs' k') \<union> set rest)"
proof -
  have "distinct (all_blocks s' h bs' k')" using dist by (intro grows_distinct [OF g]) auto
  moreover have set: "set (all_blocks s' h bs' k') = set (all_blocks s h bs k) \<union> set ns" using g by (simp add: grows_def)
  ultimately show "distinct (all_blocks s' h bs' k' @ rest)" using dist by auto
  show "usable s' (set (all_blocks s' h bs' k') \<union> set rest)"
    using use g unfolding set by (simp add: usable_def grows_def)
qed

lemma fill2_next:
  assumes pre: "fill2_pre a j k' arr new s" and lt: "a * 128 + j < k'"
    and new: "new = (if j = 0 then b # leaf # rest else leaf # rest)"
    and nx: "(a', j') = (if j + 1 = 128 then (a + 1, 0) else (a, j + 1))"
    and g: "grows 1 arr s (a * 128 + j) arr' s' (a * 128 + j + 1) (if j = 0 then [b, leaf] else [leaf])"
    and arr': "words_ok 4 128 arr'"
  shows "fill2_pre a' j' k' arr' rest s'" "a' * 128 + j' = a * 128 + j + 1"
proof -
  let ?ns = "if j = 0 then [b, leaf] else [leaf]"
  have new': "new = ?ns @ rest" using new by simp
  have P: "store_ok s" "words_ok 4 128 arr" "j < 128" "k' \<le> 16384"
    "distinct (all_blocks s 1 arr (a * 128 + j) @ ?ns @ rest)"
    "usable s (set (all_blocks s 1 arr (a * 128 + j)) \<union> set (?ns @ rest))" "length (held s) < 16"
    "count 1 k' \<le> length (?ns @ rest) + length (all_blocks s 1 arr (a * 128 + j))"
    using pre unfolding fill2_pre_def Let_def new' by (simp_all only:)
  show eq: "a' * 128 + j' = a * 128 + j + 1" using nx by (auto split: if_splits)
  have "length (all_blocks s' 1 arr' (a * 128 + j + 1)) = length (all_blocks s 1 arr (a * 128 + j)) + length ?ns"
    using g by (simp add: grows_def)
  moreover have "held s' = held s" "store_ok s'" using g by (simp_all add: grows_def)
  moreover have "j' < 128" using nx P(3) by (auto split: if_splits)
  ultimately show "fill2_pre a' j' k' arr' rest s'"
    using P arr' lt grows_keeps [OF g P(5,6)] unfolding fill2_pre_def eq Let_def by simp
qed

lemma count_Suc_1: "j < 128 \<Longrightarrow> count 1 (Suc (a * 128 + j)) = count 1 (a * 128 + j) + (if j = 0 then 2 else 1)"
proof -
  assume j: "j < 128"
  have "(a * 128 + j + 128) div 128 = Suc a" using j by (intro div_nat_eqI) simp_all
  moreover have "(a * 128 + j + 127) div 128 = (if j = 0 then a else Suc a)"
    using j by (intro div_nat_eqI) simp_all
  ultimately show ?thesis by (simp add: count_def cdiv_def add.commute)
qed

lemma wp_fill_indirect2_loop:
  assumes "b1 < 128"
  shows "fill2_pre a0 b0 (a1 * 128 + b1) arr new s \<Longrightarrow>
    wp (fill_indirect2_loop a0 b0 a1 b1 current arr new)
      (fill2_post (a0 * 128 + b0) (a1 * 128 + b1) current arr new s) s"
proof (induction "(a1 * 128 + b1) - (a0 * 128 + b0)" arbitrary: a0 b0 current arr new s)
  case 0
  then have eq: "a0 * 128 + b0 = a1 * 128 + b1" and b0: "b0 < 128" by (simp_all add: fill2_pre_def Let_def)
  have "\<not> (a0 < a1 \<or> a0 = a1 \<and> b0 < b1)" using eq assms b0 by linarith
  moreover have "store_ok s" "words_ok 4 128 arr" using 0 by (simp_all add: fill2_pre_def Let_def)
  ultimately show ?case
    using eq unfolding fill_indirect2_loop.simps [of a0 b0 a1 b1] by (simp only: if_False) (simp add: wp_ret fill2_post_def grows_refl)
next
  case (Suc n)
  let ?k = "a0 * 128 + b0" and ?k' = "a1 * 128 + b1"
  have P: "store_ok s" "words_ok 4 128 arr" "b0 < 128" "?k' \<le> 16384" "usable s (set new)"
    "distinct (all_blocks s 1 arr ?k @ new)" "usable s (set (all_blocks s 1 arr ?k))" "length (held s) < 16"
    "count 1 ?k' \<le> length new + length (all_blocks s 1 arr ?k)"
    using Suc.prems by (simp_all add: fill2_pre_def Let_def)
  have lt: "?k < ?k'" and go: "a0 < a1 \<or> a0 = a1 \<and> b0 < b1"
    using Suc.hyps(2) assms P(3) by auto
  have len: "length arr = 128" using P(2) by (simp add: words_ok_def)
  have a0: "a0 < 128" using lt P(4) by simp
  have "count 1 (Suc ?k) \<le> count 1 ?k'" using lt by (intro count_mono) simp
  moreover have "length (all_blocks s 1 arr ?k) = count 1 ?k"
    using len lt P(4) by (intro length_all_blocks) simp
  ultimately have need: "count 1 (Suc ?k) \<le> length new + count 1 ?k" using P(9) by simp
  have cnt: "count 1 (Suc ?k) = count 1 ?k + (if b0 = 0 then 2 else 1)"
    using count_Suc_1 [OF P(3)] by simp
  define b where "b = (if b0 = 0 then hd new else arr ! a0)"
  define leaf where "leaf = (if b0 = 0 then hd (tl new) else hd new)"
  define rest where "rest = (if b0 = 0 then tl (tl new) else tl new)"
  have new: "new = (if b0 = 0 then b # leaf # rest else leaf # rest)"
    using need cnt by (cases new; cases "tl new") (auto simp: b_def leaf_def rest_def split: if_splits)
  have b: "0 < b0 \<Longrightarrow> b = arr ! a0" by (simp add: b_def)
  have leaf: "leaf < 2 ^ 32" using P(5) new by (auto simp: usable_def split: if_splits)
  let ?s = "set_block b (put_at IndirectBlock 0 ((ind s b)[b0 := leaf]) (blocks s b)) s"
  note g = grow_leaf [OF P(1,2) a0 P(3) new b P(6) leaf]
  have "b \<in> set (all_blocks s 1 arr ?k) \<union> set new"
  proof (cases "b0 = 0")
    case False
    have "arr ! a0 \<in> set (all_blocks s 1 arr ?k)"
      using False len a0 by (subst id_take_nth_drop [of a0 arr]) (simp_all add: append_forests forest_Cons tree_root)
    then show ?thesis using b False by simp
  qed (use new in simp)
  then have bu: "b < nblocks s" "b \<notin> set (held s)" "b < 2 ^ 32" using P(5,7) by (auto simp: usable_def)
  have w: "words_ok 4 128 (arr[a0 := b])" using bu(3) by (intro words_ok_upd [OF P(2)]) simp
  have up: "b0 = 0 \<or> arr[a0 := b] = arr" by (cases "b0 = 0") (simp_all add: b)
  define a' where "a' = (if b0 + 1 = 128 then a0 + 1 else a0)"
  define j' where "j' = (if b0 + 1 = 128 then 0 else b0 + 1)"
  have nx: "(a', j') = (if b0 + 1 = 128 then (a0 + 1, 0) else (a0, b0 + 1))" by (simp add: a'_def j'_def)
  note nxt = fill2_next [OF Suc.prems lt new nx g w]
  have nk: "a' * 128 + j' = ?k + 1" by (rule nxt(2))
  have step: "wp (fill_indirect2_loop a0 b0 a1 b1 current arr new) Q s =
      wp (fill_indirect2_loop a' j' a1 b1 (current + 1) (arr[a0 := b]) rest) Q ?s" for Q
  proof (cases "b0 = 0")
    case True
    then show ?thesis
      using go P(3,8) a0 len bu(1,2) new
      unfolding fill_indirect2_loop.simps [of a0 b0 a1 b1 current arr new] layout_consts
      by (simp add: wp_simps next_block_def acquirable_def ind_def a'_def j'_def wp_modify_pure)
  next
    case False
    then have "arr ! a0 = b" "arr[a0 := b] = arr" using b up by simp_all
    with False show ?thesis
      using go P(3,8) a0 len bu(1,2) new
      unfolding fill_indirect2_loop.simps [of a0 b0 a1 b1 current arr new] layout_consts
      by (simp add: wp_simps next_block_def acquirable_def ind_def a'_def j'_def wp_modify_pure)
  qed
  have "wp (fill_indirect2_loop a' j' a1 b1 (current + 1) (arr[a0 := b]) rest)
      (fill2_post (a' * 128 + j') ?k' (current + 1) (arr[a0 := b]) rest ?s) ?s"
    using nxt Suc.hyps(2) by (intro Suc.hyps(1)) simp_all
  then have "wp (fill_indirect2_loop a' j' a1 b1 (current + 1) (arr[a0 := b]) rest)
      (fill2_post ?k ?k' current arr new s) ?s"
  proof (rule wp_conseq)
    fix r s'
    assume "fill2_post (a' * 128 + j') ?k' (current + 1) (arr[a0 := b]) rest ?s r s'"
    then obtain ns where r: "words_ok 4 128 (fst r)" "rest = ns @ snd (snd r)"
      "fst (snd r) = current + 1 + (?k' - (?k + 1))"
      "grows 1 (arr[a0 := b]) ?s (?k + 1) (fst r) s' ?k' ns"
      unfolding fill2_post_def by (elim exE conjE) (simp only: nk)
    from grows_trans [OF g r(4)] r(1-3) new lt show "fill2_post ?k ?k' current arr new s r s'"
      unfolding fill2_post_def by (intro exI [of _ "(if b0 = 0 then [b, leaf] else [leaf]) @ ns"]) auto
  qed
  then show ?case unfolding step .
qed

end
