(* ===== verification/Disk_Inode.thy ===== *)
theory Disk_Inode
  imports Index_Tree
begin

text \<open>
  What a disk inode owns and how its operations change it. The blocks of an inode are four
  forests: the direct blocks and the trees below \<open>indirect1\<close>, \<open>indirect2\<close> and \<open>indirect3\<close>.
  This theory proves that \<open>get_block_id\<close> finds the data blocks of the file in their order, that
  \<open>total_blocks\<close> counts the blocks, what \<open>increase_size\<close> and \<open>clear_size\<close> do to them, and that
  \<open>read_at\<close> and \<open>write_at\<close> read and change the contents of the file.
\<close>

section \<open>Lists of forests\<close>

text \<open>A part is the height of a forest, its roots and the number of its leaves.\<close>

type_synonym part = "nat \<times> nat list \<times> nat"

definition p_leaves :: "store \<Rightarrow> part list \<Rightarrow> nat list" where
  "p_leaves s ps = concat (map (\<lambda>(h, bs, k). leaves s h bs k) ps)"

definition p_inner :: "store \<Rightarrow> part list \<Rightarrow> nat list" where
  "p_inner s ps = concat (map (\<lambda>(h, bs, k). inner s h bs k) ps)"

definition p_blocks :: "store \<Rightarrow> part list \<Rightarrow> nat list" where
  "p_blocks s ps = concat (map (\<lambda>(h, bs, k). all_blocks s h bs k) ps)"

definition p_count :: "part list \<Rightarrow> nat" where
  "p_count ps = sum_list (map (\<lambda>(h, bs, k). count h (min (length bs * 128 ^ h) k)) ps)"

lemma parts_simps [simp]:
  "p_leaves s [] = []" "p_inner s [] = []" "p_blocks s [] = []" "p_count [] = 0"
  "p_leaves s ((h, bs, k) # ps) = leaves s h bs k @ p_leaves s ps"
  "p_inner s ((h, bs, k) # ps) = inner s h bs k @ p_inner s ps"
  "p_blocks s ((h, bs, k) # ps) = all_blocks s h bs k @ p_blocks s ps"
  "p_count ((h, bs, k) # ps) = count h (min (length bs * 128 ^ h) k) + p_count ps"
  by (simp_all add: p_leaves_def p_inner_def p_blocks_def p_count_def)

lemma length_all_blocks_min: "length (all_blocks s h bs k) = count h (min (length bs * 128 ^ h) k)"
  using length_all_blocks [of "min (length bs * 128 ^ h) k" bs h s] forest_min(3) [of s h bs k] by simp

lemma length_leaves_min: "length (leaves s h bs k) = min (length bs * 128 ^ h) k"
  using length_leaves [of "min (length bs * 128 ^ h) k" bs h s] forest_min(1) [of s h bs k] by simp

lemma length_p_blocks: "length (p_blocks s ps) = p_count ps"
  by (induction ps) (auto simp: length_all_blocks_min)

lemma p_inner_subset: "set (p_inner s ps) \<subseteq> set (p_blocks s ps)"
proof (induction ps)
  case (Cons p ps)
  obtain h bs k where "p = (h, bs, k)" by (cases p)
  with Cons inner_subset [of s h bs k] show ?case by auto
qed simp

lemma parts_frame:
  assumes "\<forall>c \<in> set (p_inner s ps). blocks s' c = blocks s c"
  shows "p_leaves s' ps = p_leaves s ps" "p_inner s' ps = p_inner s ps" "p_blocks s' ps = p_blocks s ps"
proof -
  have "p_leaves s' ps = p_leaves s ps \<and> p_inner s' ps = p_inner s ps \<and> p_blocks s' ps = p_blocks s ps"
    using assms
  proof (induction ps)
    case (Cons p ps)
    obtain h bs k where "p = (h, bs, k)" by (cases p)
    with Cons forest_frame [of s h bs k s'] show ?case by simp
  qed simp
  then show "p_leaves s' ps = p_leaves s ps" "p_inner s' ps = p_inner s ps" "p_blocks s' ps = p_blocks s ps"
    by simp_all
qed

definition pgrows :: "part list \<Rightarrow> store \<Rightarrow> part list \<Rightarrow> store \<Rightarrow> nat list \<Rightarrow> bool" where
  "pgrows ps s ps' s' ns \<longleftrightarrow>
     prefix (p_leaves s ps) (p_leaves s' ps') \<and>
     set (p_blocks s' ps') = set (p_blocks s ps) \<union> set ns \<and>
     length (p_blocks s' ps') = length (p_blocks s ps) + length ns \<and>
     set (p_inner s ps) \<subseteq> set (p_inner s' ps') \<and>
     (\<forall>c. c \<notin> set (p_inner s' ps') \<longrightarrow> blocks s' c = blocks s c) \<and>
     nblocks s' = nblocks s \<and> held s' = held s \<and> store_ok s'"

lemma pgrows_refl: "store_ok s \<Longrightarrow> pgrows ps s ps s []"
  by (simp add: pgrows_def)

lemma grows_full:
  assumes "grows h bs s k bs' s' k' ns" and "length bs' = length bs" and "length bs * 128 ^ h \<le> k" and "k \<le> k'"
  shows "leaves s' h bs' k' = leaves s h bs k"
  using assms by (intro prefix_same_length [symmetric]) (auto simp: grows_def length_leaves_min)

text \<open>The first forest grows, then the others, which it does not share blocks with.\<close>

lemma head_frame:
  assumes g: "grows h bs s k bs' s1 k' ns1" and dist: "distinct (p_blocks s ((h, bs, k) # ps) @ ns1 @ rest)"
  shows "p_leaves s1 ps = p_leaves s ps" "p_inner s1 ps = p_inner s ps" "p_blocks s1 ps = p_blocks s ps"
proof -
  have "set (inner s1 h bs' k') \<subseteq> set (all_blocks s h bs k) \<union> set ns1"
    using g inner_subset [of s1 h bs' k'] by (simp add: grows_def)
  moreover have "set (p_blocks s ps) \<inter> (set (all_blocks s h bs k) \<union> set ns1) = {}" using dist by auto
  ultimately have "set (inner s1 h bs' k') \<inter> set (p_inner s ps) = {}"
    using p_inner_subset [of s ps] by blast
  then have "\<forall>c \<in> set (p_inner s ps). blocks s1 c = blocks s c" using g by (auto simp: grows_def)
  then show "p_leaves s1 ps = p_leaves s ps" "p_inner s1 ps = p_inner s ps" "p_blocks s1 ps = p_blocks s ps"
    by (rule parts_frame)+
qed

lemma pgrows_Cons:
  assumes g: "grows h bs s k bs' s1 k' ns1" and t: "pgrows ps s1 ps' s2 ns2"
    and dist: "distinct (p_blocks s ((h, bs, k) # ps) @ ns1 @ ns2)"
    and lv: "p_leaves s ps = [] \<or> leaves s1 h bs' k' = leaves s h bs k"
  shows "pgrows ((h, bs, k) # ps) s ((h, bs', k') # ps') s2 (ns1 @ ns2)"
proof -
  note f = head_frame [OF g dist]
  have b1: "set (all_blocks s1 h bs' k') = set (all_blocks s h bs k) \<union> set ns1" using g by (simp add: grows_def)
  have "set (p_blocks s2 ps') = set (p_blocks s ps) \<union> set ns2" using t by (simp add: pgrows_def f)
  then have "set (p_inner s2 ps') \<inter> set (all_blocks s1 h bs' k') = {}"
    using dist p_inner_subset [of s2 ps'] unfolding b1 by auto
  then have same: "\<forall>c \<in> set (inner s1 h bs' k'). blocks s2 c = blocks s1 c"
    using t inner_subset [of s1 h bs' k'] by (auto simp: pgrows_def)
  note f2 = forest_frame [OF same]
  have "prefix (leaves s h bs k @ p_leaves s ps) (leaves s1 h bs' k' @ p_leaves s2 ps')"
    using lv
  proof
    assume "p_leaves s ps = []"
    then show ?thesis using g by (auto simp: grows_def)
  qed (use t in \<open>simp add: pgrows_def f\<close>)
  then show ?thesis
    using g t unfolding pgrows_def parts_simps f2 f by (auto simp: grows_def)
qed

section \<open>Growing one part after another\<close>

text \<open>
  Growing the parts \<open>ps\<close> to the shape \<open>ps'\<close> with the block numbers \<open>new\<close>: they are enough, and
  distinct from each other and from the blocks owned so far, and all these blocks can be accessed.
\<close>

definition parts_pre :: "part list \<Rightarrow> part list \<Rightarrow> nat list \<Rightarrow> store \<Rightarrow> bool" where
  "parts_pre ps ps' new s \<longleftrightarrow>
     store_ok s \<and> distinct (p_blocks s ps @ new) \<and> usable s (set (p_blocks s ps) \<union> set new) \<and>
     length (held s) + 3 \<le> 16 \<and> p_count ps' \<le> length new + p_count ps"

definition parts_post :: "part list \<Rightarrow> store \<Rightarrow> nat list \<Rightarrow> part list \<Rightarrow> store \<Rightarrow> bool" where
  "parts_post ps s new ps' s' \<longleftrightarrow> (\<exists>ns. prefix ns new \<and> pgrows ps s ps' s' ns)"

lemma parts_pre_tail:
  assumes pre: "parts_pre ((h, bs, k) # ps) ((h, cs, k') # ps') (ns1 @ rest) s"
    and g: "grows h bs s k bs' s1 k' ns1" and len: "length bs' = length bs" "length cs = length bs"
  shows "parts_pre ps ps' rest s1"
proof -
  have dist: "distinct (p_blocks s ((h, bs, k) # ps) @ ns1 @ rest)" using pre by (simp only: parts_pre_def)
  note f = head_frame [OF g dist]
  have "length (all_blocks s1 h bs' k') = length (all_blocks s h bs k) + length ns1" using g by (simp add: grows_def)
  then have "p_count ps' \<le> length rest + p_count ps"
    using pre len by (simp add: parts_pre_def length_all_blocks_min)
  then show ?thesis
    using pre g unfolding parts_pre_def f by (auto simp: grows_def usable_def)
qed

lemma parts_post_Cons:
  assumes pre: "parts_pre ((h, bs, k) # ps) qs (ns1 @ rest) s" and g: "grows h bs s k bs' s1 k' ns1"
    and t: "parts_post ps s1 rest ps' s2"
    and lv: "p_leaves s ps = [] \<or> length bs * 128 ^ h \<le> k" and len: "length bs' = length bs" and k: "k \<le> k'"
  shows "parts_post ((h, bs, k) # ps) s (ns1 @ rest) ((h, bs', k') # ps') s2"
proof -
  from t obtain ns2 where ns2: "prefix ns2 rest" "pgrows ps s1 ps' s2 ns2" by (auto simp: parts_post_def)
  have "distinct (p_blocks s ((h, bs, k) # ps) @ ns1 @ ns2)"
    using pre ns2(1) unfolding parts_pre_def prefix_def by auto
  moreover have "p_leaves s ps = [] \<or> leaves s1 h bs' k' = leaves s h bs k"
    using lv grows_full [OF g len _ k] by blast
  ultimately have "pgrows ((h, bs, k) # ps) s ((h, bs', k') # ps') s2 (ns1 @ ns2)"
    by (intro pgrows_Cons [OF g ns2(2)])
  moreover have "prefix (ns1 @ ns2) (ns1 @ rest)" using ns2(1) by simp
  ultimately show ?thesis unfolding parts_post_def by blast
qed

text \<open>A tree: its root is new when the tree was empty.\<close>

lemma tree_pre:
  assumes pre: "parts_pre ((h, [r], k) # ps) ((h, [r'], k') # ps') new s" and k: "0 < k'" "k \<le> k'" and h: "h \<le> 3"
    and more: "p_count ps \<le> p_count ps'"
    and new: "new = (if k = 0 then b # new1 else new1)" and b: "0 < k \<Longrightarrow> b = r"
  shows "build_tree_pre h k k' new1 b 0 s"
proof -
  have old: "all_blocks s h [r] k = (if k = 0 then [] else tree_blocks s h b (min (128 ^ h) k))"
    using b by (simp add: forest_Cons(3))
  have "count h (min (128 ^ h) k') + p_count ps' \<le> length new + length (all_blocks s h [r] k) + p_count ps"
    using pre by (simp add: parts_pre_def length_all_blocks_min)
  then have "count h (min (128 ^ h) k') \<le> length new + length (all_blocks s h [r] k)" using more by simp
  then show ?thesis
    using pre k h unfolding parts_pre_def parts_simps old build_tree_pre_def Let_def
    by (cases "k = 0") (auto simp: new)
qed

lemma tree_new_root:
  assumes pre: "parts_pre ((h, [r], 0) # ps) ((h, [r'], k') # ps') new s" and k: "0 < k'"
    and more: "p_count ps \<le> p_count ps'"
  shows "new \<noteq> []"
proof -
  have "0 < count h (min (128 ^ h) k')" using k by (intro count_pos) simp
  then show ?thesis using pre more by (auto simp: parts_pre_def)
qed

lemma tree_grown:
  assumes pre: "parts_pre ((h, [r], k) # ps) qs new s" and k: "0 < k'" "k \<le> k'"
    and new: "new = (if k = 0 then b # new1 else new1)" and b: "0 < k \<Longrightarrow> b = r"
    and post: "new1 = ns1 @ rest" "tree_grows h b s (min (128 ^ h) k) s' (min (128 ^ h) k') ns1"
  shows "grows h [r] s k [b] s' k' (if k = 0 then b # ns1 else ns1)"
proof -
  have "distinct (all_blocks s h [r] k @ new)" using pre by (auto simp: parts_pre_def)
  then have "distinct (all_blocks s h [r] k @ (if k = 0 then b # ns1 else ns1))"
    by (cases "k = 0") (auto simp: new post(1))
  moreover have "store_ok s'" using post(2) by (simp add: tree_grows_def)
  then have "grows h [] s' (k - 128 ^ h) [] s' (k' - 128 ^ h) []" by (simp add: grows_def)
  ultimately show ?thesis
    using post(2) k b by (intro grows_Cons [where ?ns1.0 = ns1 and ?ns2.0 = "[]"]) auto
qed

section \<open>The index blocks of increase\_size\<close>

text \<open>The loops below \<open>indirect1\<close> and \<open>indirect2\<close> do what \<open>build_tree\<close> does at their height.\<close>

lemma fill_loop_idle: "bound \<le> current \<Longrightarrow> fill_loop current bound arr new = ret (arr, current, new)"
  by (simp add: fill_loop.simps)

lemma build_post_idle:
  assumes "store_ok s" and "128 ^ h \<le> k" and "k \<le> k'"
  shows "build_tree_post h k k' new b 0 s (min (128 ^ h) k', new) s"
  using assms by (simp add: build_tree_post_def tree_grows_def min_absorb1)

lemma put_same_indirect: "store_ok s \<Longrightarrow> put_at IndirectBlock 0 (ind s b) (blocks s b) = blocks s b"
  by (simp add: ind_def put_at_def view_at_def IndirectBlock_def)

lemma set_block_same [simp]: "set_block b (blocks s b) s = s"
  by (simp add: set_block_def)

lemma tree_post_root:
  assumes pre: "build_tree_pre (Suc h) k k' new b 0 s" and k: "k' \<le> 128 ^ Suc h \<or> k < 128 ^ Suc h"
    and g: "grows h (ind s b) (entered b s) k arr s1 (min (128 ^ Suc h) k') ns" and arr: "words_ok 4 128 arr"
    and new: "new = ns @ rest"
  shows "build_tree_post (Suc h) k k' new b 0 s (min (128 ^ Suc h) k', rest)
    (left b (set_block b (put_at IndirectBlock 0 arr (blocks s1 b)) s1))"
proof -
  have "k \<le> k'" using pre by (simp add: build_tree_pre_def Let_def)
  then have m: "min (128 ^ Suc h) k = k" using k by auto
  have "distinct (tree_blocks s (Suc h) b k @ ns @ rest)"
    using pre unfolding build_tree_pre_def Let_def new by (simp only: m diff_zero)
  then have "distinct (tree_blocks s (Suc h) b k @ ns)" by (rule distinct_appendD)
  from tree_grows_root [OF g arr this] show ?thesis
    unfolding build_tree_post_def using new m by (auto simp: min.assoc)
qed

lemma wp_fill1:
  assumes pre: "build_tree_pre 1 k k' new b 0 s"
  shows "wp (modify_as IndirectBlock b 0 (\<lambda>arr.
      bnd (fill_loop k (min k' 128) arr new) (\<lambda>(arr, current, new). ret ((current, new), arr))))
    (\<lambda>r s'. fst r = max k (min k' 128) \<and> build_tree_post 1 k k' new b 0 s (min 128 k', snd r) s') s"
proof -
  have P: "store_ok s" "k \<le> k'" "0 < k'" "usable s {b}" "usable s (set new)" "length (held s) < 16"
    using pre tree_root [of b s 1 "min 128 k"] by (auto simp: build_tree_pre_def Let_def usable_def)
  then have acq: "acquirable b s" by (simp add: acquirable_def usable_def)
  show ?thesis
  proof (cases "128 \<le> k")
    case True
    then have "fill_loop k (min k' 128) arr new = (ret (arr, k, new) :: (store, _) action)" for arr by (intro fill_loop_idle) simp
    then show ?thesis
      using True acq P build_post_idle [of s 1 k k' new b]
      by (simp add: wp_simps put_same_indirect flip: ind_def)
  next
    case False
    define m where "m = min k' 128"
    define n where "n = m - k"
    have m: "k + n = m" "m \<le> 128" "min 128 k' = m" using P(2) False by (simp_all add: n_def m_def)
    have "count 1 m = 1 + m" using P(3) m(2) count_Suc [of m 0] by (simp add: m_def count_def)
    moreover have "length (tree_blocks s 1 b k) = 1 + k"
      using False by (simp add: tree_Suc forest_0)
    ultimately have n: "n \<le> length new"
      using pre False m by (simp add: build_tree_pre_def Let_def min_absorb2)
    let ?arr = "splice_at k (take n new) (ind s b)"
    have run: "fill_loop k m (ind s b) new = (ret (?arr, m, drop n new) :: (store, _) action)"
      using m n by (intro fill_loop_run) simp_all
    have "grows 0 (ind s b) (entered b s) k ?arr (entered b s) (k + length (take n new)) (take n new)"
      using m n P(1) by (intro grows_0) simp_all
    then have g: "grows 0 (ind s b) (entered b s) k ?arr (entered b s) (min (128 ^ Suc 0) k') (take n new)"
      using m n by simp
    have "\<forall>x \<in> set (take n new). x < 256 ^ 4" using P(5) by (auto simp: usable_def dest: in_set_takeD)
    then have arr: "words_ok 4 128 ?arr" using m n by (intro words_ok_splice words_ok_ind [OF P(1)]) simp_all
    have "build_tree_post (Suc 0) k k' new b 0 s (min (128 ^ Suc 0) k', drop n new)
        (left b (set_block b (put_at IndirectBlock 0 ?arr (blocks (entered b s) b)) (entered b s)))"
      by (rule tree_post_root [OF _ _ g arr]) (use pre False in simp_all)
    moreover have "max k m = m" using m by simp
    ultimately show ?thesis
      using acq m unfolding m_def [symmetric] by (simp add: wp_simps run flip: ind_def)
  qed
qed

lemma wp_fill2:
  assumes pre: "build_tree_pre 2 k k' new b 0 s"
  shows "wp (modify_as IndirectBlock b 0 (\<lambda>arr.
      bnd (fill_indirect2_loop (k div 128) (k mod 128) (min k' 16384 div 128) (min k' 16384 mod 128) k arr new)
        (\<lambda>(arr, current, new). ret ((current, new), arr))))
    (\<lambda>r s'. fst r = max k (min k' 16384) \<and> build_tree_post 2 k k' new b 0 s (min 16384 k', snd r) s') s"
proof -
  let ?a1 = "min k' 16384 div 128" and ?b1 = "min k' 16384 mod 128"
  have P: "store_ok s" "k \<le> k'" "0 < k'" "usable s {b}" "length (held s) + 2 \<le> 16"
    using pre tree_root [of b s 2 "min 16384 k"] by (auto simp: build_tree_pre_def Let_def usable_def)
  then have acq: "acquirable b s" by (simp add: acquirable_def usable_def)
  show ?thesis
  proof (cases "16384 \<le> k")
    case True
    then have "min k' 16384 = 16384" using P(2) by simp
    then have "fill_indirect2_loop (k div 128) (k mod 128) ?a1 ?b1 k arr new = ret (arr, k, new)" for arr
      using True div_le_mono [of 16384 k 128] by (subst fill_indirect2_loop.simps) auto
    then show ?thesis
      using True acq P build_post_idle [of s 2 k k' new b]
      by (simp add: wp_simps put_same_indirect flip: ind_def)
  next
    case False
    define m where "m = min k' 16384"
    have m: "k \<le> m" "m \<le> 16384" "0 < m" "min 16384 k' = m" using P False by (simp_all add: m_def)
    have e: "k div 128 * 128 + k mod 128 = k" "m div 128 * 128 + m mod 128 = m" by simp_all
    have old: "tree_blocks s 2 b k = b # all_blocks s 1 (ind s b) k"
      using tree_Suc(3) [of s 1 b k] by (simp add: numeral_2_eq_2)
    have "count 2 m = 1 + count 1 m" using m count_Suc [of m 1] by (simp add: numeral_2_eq_2)
    then have "fill2_pre (k div 128) (k mod 128) (m div 128 * 128 + m mod 128) (ind s b) new (entered b s)"
      using pre P m False words_ok_ind [OF P(1), of b] unfolding fill2_pre_def e Let_def build_tree_pre_def
      by (auto simp: old usable_def min_absorb2)
    from wp_fill_indirect2_loop [OF _ this, of k]
    have "wp (fill_indirect2_loop (k div 128) (k mod 128) (m div 128) (m mod 128) k (ind s b) new)
        (fill2_post k m k (ind s b) new (entered b s)) (entered b s)" by (simp add: e)
    then have "wp (fill_indirect2_loop (k div 128) (k mod 128) (m div 128) (m mod 128) k (ind s b) new)
        (\<lambda>r s1. fst (snd r) = max k m \<and> build_tree_post 2 k k' new b 0 s (m, snd (snd r))
          (left b (set_block b (put_at IndirectBlock 0 (fst r) (blocks s1 b)) s1))) (entered b s)"
    proof (rule wp_conseq)
      fix r s1
      assume "fill2_post k m k (ind s b) new (entered b s) r s1"
      then obtain ns where r: "words_ok 4 128 (fst r)" "new = ns @ snd (snd r)" "fst (snd r) = k + (m - k)"
        "grows 1 (ind s b) (entered b s) k (fst r) s1 m ns" unfolding fill2_post_def by (elim exE conjE)
      have "build_tree_post (Suc 1) k k' new b 0 s (min (128 ^ Suc 1) k', snd (snd r))
          (left b (set_block b (put_at IndirectBlock 0 (fst r) (blocks s1 b)) s1))"
        by (rule tree_post_root [OF _ _ _ r(1,2)]) (use pre False r(4) m(4) in \<open>simp_all add: numeral_2_eq_2\<close>)
      then show "fst (snd r) = max k m \<and> build_tree_post 2 k k' new b 0 s (m, snd (snd r))
          (left b (set_block b (put_at IndirectBlock 0 (fst r) (blocks s1 b)) s1))"
        using r(3) m by (simp add: numeral_2_eq_2)
    qed
    then show ?thesis
      using acq unfolding m_def [symmetric] m(4) by (simp add: wp_simps case_prod_beta' flip: ind_def)
  qed
qed

section \<open>The parts of an inode\<close>

definition parts3 :: "disk_inode \<Rightarrow> nat \<Rightarrow> part list" where
  "parts3 di k = [(3, [indirect3 di], k - 16539)]"

definition parts2 :: "disk_inode \<Rightarrow> nat \<Rightarrow> part list" where
  "parts2 di k = (2, [indirect2 di], k - 155) # parts3 di k"

definition parts1 :: "disk_inode \<Rightarrow> nat \<Rightarrow> part list" where
  "parts1 di k = (1, [indirect1 di], k - 27) # parts2 di k"

definition inode_parts :: "disk_inode \<Rightarrow> nat \<Rightarrow> part list" where
  "inode_parts di k = (0, direct di, k) # parts1 di k"

lemmas parts_defs = inode_parts_def parts1_def parts2_def parts3_def

lemma parts_count_mono:
  assumes "k \<le> k'"
  shows "p_count (parts3 di k) \<le> p_count (parts3 di' k')" "p_count (parts2 di k) \<le> p_count (parts2 di' k')"
    "p_count (parts1 di k) \<le> p_count (parts1 di' k')"
proof -
  have m: "count h (min (length [r] * 128 ^ h) (k - n)) \<le> count h (min (length [r'] * 128 ^ h) (k' - n))" for h n and r r' :: nat
    using assms by (intro count_mono) auto
  show 3: "p_count (parts3 di k) \<le> p_count (parts3 di' k')"
    unfolding parts3_def parts_simps by (intro add_mono m order.refl)
  show 2: "p_count (parts2 di k) \<le> p_count (parts2 di' k')"
    unfolding parts2_def parts_simps by (intro add_mono m 3)
  show "p_count (parts1 di k) \<le> p_count (parts1 di' k')"
    unfolding parts1_def parts_simps by (intro add_mono m 2)
qed

lemma parts_post_refl: "store_ok s \<Longrightarrow> parts_post ps s new ps s"
  unfolding parts_post_def by (rule exI [of _ "[]"]) (simp add: pgrows_refl)

text \<open>The values the fields of a disk inode can have.\<close>

definition disk_inode_ok :: "disk_inode \<Rightarrow> bool" where
  "disk_inode_ok di \<longleftrightarrow> inode_size di < 2 ^ 32 \<and> words_ok 4 27 (direct di) \<and> indirect1 di < 2 ^ 32 \<and>
     indirect2 di < 2 ^ 32 \<and> indirect3 di < 2 ^ 32"

text \<open>Allocation of a root: \<open>if current == N { self.indirect = new_blocks.next().unwrap(); }\<close>\<close>

definition new_root :: "(nat \<Rightarrow> disk_inode \<Rightarrow> disk_inode) \<Rightarrow> bool \<Rightarrow> disk_inode \<Rightarrow> nat list \<Rightarrow> (disk_inode \<times> nat list) store_action" where
  "new_root set_root c di new =
     (if c then bnd (next_block new) (\<lambda>(b, new). ret (set_root b di, new)) else ret (di, new))"

lemma wp_new_root:
  assumes pre: "parts_pre ((h, [r], k) # ps) ((h, [r'], k') # ps') new s" and k: "0 < k'"
    and more: "p_count ps \<le> p_count ps'" and r: "set_root r di = di"
    and Q: "\<And>b new1. new = (if k = 0 then b # new1 else new1) \<Longrightarrow> (0 < k \<Longrightarrow> b = r) \<Longrightarrow>
      b = r \<or> b < 2 ^ 32 \<Longrightarrow> Q (set_root b di, new1) s"
  shows "wp (new_root set_root (k = 0) di new) Q s"
proof (cases "k = 0")
  case True
  then have "new \<noteq> []" using tree_new_root [OF _ k more] pre by blast
  then obtain b new1 where "new = b # new1" by (cases new) auto
  moreover have "usable s (set new)" using pre by (simp add: parts_pre_def)
  ultimately show ?thesis using Q [of b new1] True by (simp add: new_root_def wp_simps next_block_def)
next
  case False
  with Q [of r new] show ?thesis by (simp add: new_root_def wp_simps r)
qed

text \<open>One level: the root, the tree, and the levels after it.\<close>

lemma wp_level:
  assumes pre: "parts_pre ((h, [r], k) # ps) ((h, [r'], k') # ps') new s" and k: "0 < k'" "k \<le> k'" and h: "h \<le> 3"
    and more: "p_count ps \<le> p_count ps'" and full: "p_leaves s ps = [] \<or> 128 ^ h \<le> k" and r: "set_root r di = di"
    and act: "\<And>b new1. build_tree_pre h k k' new1 b 0 s \<Longrightarrow>
      wp (act (set_root b di) new1) (\<lambda>v s'. C (fst v) \<and> build_tree_post h k k' new1 b 0 s (min (128 ^ h) k', snd v) s') s"
    and cont: "\<And>b v s1. b = r \<or> b < 2 ^ 32 \<Longrightarrow> C (fst v) \<Longrightarrow> parts_pre ps ps' (snd v) s1 \<Longrightarrow>
      wp (cont (set_root b di) v) (\<lambda>di' s'. R b di' \<and> parts_post ps s1 (snd v) (P di') s') s1"
  shows "wp (bnd (new_root set_root (k = 0) di new) (\<lambda>(di, new). bnd (act di new) (cont di)))
    (\<lambda>di' s'. \<exists>b. R b di' \<and> parts_post ((h, [r], k) # ps) s new ((h, [b], k') # P di') s') s"
  unfolding wp_bnd
proof (rule wp_new_root [OF pre k(1) more, where set_root = set_root, OF r], simp (no_asm) only: prod.case wp_bnd)
  fix b new1
  assume new: "new = (if k = 0 then b # new1 else new1)" and b: "0 < k \<Longrightarrow> b = r" and br: "b = r \<or> b < 2 ^ 32"
  show "wp (act (set_root b di) new1) (\<lambda>v. wp (cont (set_root b di) v)
      (\<lambda>di' s'. \<exists>b. R b di' \<and> parts_post ((h, [r], k) # ps) s new ((h, [b], k') # P di') s')) s"
  proof (rule wp_conseq [OF act [OF tree_pre [OF pre k h more new b]]])
    fix v s1
    assume "C (fst v) \<and> build_tree_post h k k' new1 b 0 s (min (128 ^ h) k', snd v) s1"
    then obtain ns1 where v: "C (fst v)" "new1 = ns1 @ snd v"
      "tree_grows h b s (min (128 ^ h) k) s1 (min (128 ^ h) k') ns1"
      unfolding build_tree_post_def by auto
    let ?ns = "if k = 0 then b # ns1 else ns1"
    have g: "grows h [r] s k [b] s1 k' ?ns" by (rule tree_grown [OF pre k new b v(2,3)])
    have n: "new = ?ns @ snd v" using new v(2) by simp
    note pre' = pre [unfolded n]
    have "wp (cont (set_root b di) v) (\<lambda>di' s'. R b di' \<and> parts_post ps s1 (snd v) (P di') s') s1"
      by (rule cont [OF br v(1) parts_pre_tail [OF pre' g]]) simp_all
    then show "wp (cont (set_root b di) v)
        (\<lambda>di' s'. \<exists>b. R b di' \<and> parts_post ((h, [r], k) # ps) s new ((h, [b], k') # P di') s') s1"
    proof (rule wp_conseq)
      fix di' s'
      assume "R b di' \<and> parts_post ps s1 (snd v) (P di') s'"
      then show "\<exists>b. R b di' \<and> parts_post ((h, [r], k) # ps) s new ((h, [b], k') # P di') s'"
        unfolding n using full k(2) by (intro exI [of _ b] conjI parts_post_Cons [OF pre' g]) auto
    qed
  qed
qed

lemma wp_increase_indirect3:
  assumes pre: "parts_pre (parts3 di k) (parts3 di k') new s" and k: "k \<le> k'" and c: "current = max (k - 155) (min (k' - 155) 16384)"
  shows "wp (increase_indirect3 di current (k' - 155) new)
    (\<lambda>di' s'. di' = di\<lparr>indirect3 := indirect3 di'\<rparr> \<and> (disk_inode_ok di \<longrightarrow> disk_inode_ok di') \<and>
      parts_post (parts3 di k) s new (parts3 di' k') s') s"
proof (cases "k' - 155 > 16384")
  case False
  then have "k - 16539 = 0" "k' - 16539 = 0" using k by simp_all
  moreover have "store_ok s" using pre by (simp add: parts_pre_def)
  ultimately show ?thesis
    using False by (simp add: increase_indirect3_def layout_consts wp_ret parts3_def parts_post_refl)
next
  case True
  let ?k = "k - 16539" and ?k' = "k' - 16539"
  have e: "k' - 155 - 16384 = ?k'" "current - 16384 = ?k" "current = 16384 \<longleftrightarrow> ?k = 0"
    using True c by (simp_all add: max_def min_def split: if_splits)
  have kk: "0 < ?k'" "?k \<le> ?k'" using True k by simp_all
  have "wp (bnd (new_root (\<lambda>b di. di\<lparr>indirect3 := b\<rparr>) (?k = 0) di new) (\<lambda>(di, new).
        bnd (build_tree 3 ?k ?k' new (indirect3 di) 0) (\<lambda>_. ret di)))
      (\<lambda>di' s'. \<exists>b. (di' = di\<lparr>indirect3 := b\<rparr> \<and> (disk_inode_ok di \<longrightarrow> disk_inode_ok di')) \<and> parts_post ((3, [indirect3 di], ?k) # []) s new ((3, [b], ?k') # []) s') s"
  proof (rule wp_level [where C = "\<lambda>_. True" and P = "\<lambda>_. []" and ps' = "[]", OF pre [unfolded parts3_def] kk])
    fix b new1
    assume "build_tree_pre 3 ?k ?k' new1 b 0 s"
    from wp_build_tree [OF this]
    show "wp (build_tree 3 ?k ?k' new1 (indirect3 (di\<lparr>indirect3 := b\<rparr>)) 0)
        (\<lambda>v s'. True \<and> build_tree_post 3 ?k ?k' new1 b 0 s (min (128 ^ 3) ?k', snd v) s') s"
      by (auto simp: build_tree_post_def elim!: wp_conseq)
  qed (auto simp: wp_ret parts_pre_def disk_inode_ok_def intro: parts_post_refl)
  moreover have "increase_indirect3 di current (k' - 155) new =
      bnd (new_root (\<lambda>b di. di\<lparr>indirect3 := b\<rparr>) (?k = 0) di new) (\<lambda>(di, new).
        bnd (build_tree 3 ?k ?k' new (indirect3 di) 0) (\<lambda>_. ret di))"
    using True by (simp only: increase_indirect3_def layout_consts e new_root_def thn_def if_True)
  ultimately show ?thesis by (simp only:) (erule wp_conseq, auto simp: parts3_def)
qed

lemma root_eqs:
  "di' = di\<lparr>indirect2 := b, indirect3 := c\<rparr> \<Longrightarrow> indirect2 di' = b"
  "di' = di\<lparr>indirect1 := b, indirect2 := c, indirect3 := d\<rparr> \<Longrightarrow> indirect1 di' = b"
  by simp_all

lemma wp_increase_indirect2:
  assumes pre: "parts_pre (parts2 di k) (parts2 di k') new s" and k: "k \<le> k'" and c: "current = max (k - 27) (min (k' - 27) 128)"
  shows "wp (increase_indirect2 di current (k' - 27) new)
    (\<lambda>di' s'. di' = di\<lparr>indirect2 := indirect2 di', indirect3 := indirect3 di'\<rparr> \<and>
      (disk_inode_ok di \<longrightarrow> disk_inode_ok di') \<and> parts_post (parts2 di k) s new (parts2 di' k') s') s"
proof (cases "k' - 27 > 128")
  case False
  then have "k - 155 = 0" "k' - 155 = 0" "k - 16539 = 0" "k' - 16539 = 0" using k by simp_all
  moreover have "store_ok s" using pre by (simp add: parts_pre_def)
  ultimately show ?thesis
    using False by (simp add: increase_indirect2_def layout_consts wp_ret parts_defs parts_post_refl)
next
  case True
  let ?k = "k - 155" and ?k' = "k' - 155"
  let ?act = "\<lambda>di new. modify_as IndirectBlock (indirect2 di) 0 (\<lambda>arr.
      bnd (fill_indirect2_loop (?k div 128) (?k mod 128) (min ?k' 16384 div 128) (min ?k' 16384 mod 128) ?k arr new)
        (\<lambda>(arr, current, new). ret ((current, new), arr)))"
  have e: "k' - 27 - 128 = ?k'" "current - 128 = ?k" "current = 128 \<longleftrightarrow> ?k = 0"
    using True c by (simp_all add: max_def min_def split: if_splits)
  have kk: "0 < ?k'" "?k \<le> ?k'" using True k by simp_all
  have full: "p_leaves s (parts3 di k) = [] \<or> 128 ^ 2 \<le> ?k" by (cases "k \<le> 16539") (simp_all add: parts3_def, linarith)
  have "wp (bnd (new_root (\<lambda>b di. di\<lparr>indirect2 := b\<rparr>) (?k = 0) di new) (\<lambda>(di, new).
        bnd (?act di new) (\<lambda>(current, new). increase_indirect3 di current ?k' new)))
      (\<lambda>di' s'. \<exists>b. (di' = di\<lparr>indirect2 := b, indirect3 := indirect3 di'\<rparr> \<and> (disk_inode_ok di \<longrightarrow> disk_inode_ok di')) \<and>
        parts_post ((2, [indirect2 di], ?k) # parts3 di k) s new ((2, [b], ?k') # parts3 di' k') s') s"
  proof (rule wp_level [where C = "\<lambda>c. c = max ?k (min ?k' 16384)" and ps' = "parts3 di k'", OF pre [unfolded parts2_def] kk _ _ full])
    fix b new1
    assume "build_tree_pre 2 ?k ?k' new1 b 0 s"
    from wp_fill2 [OF this]
    show "wp (?act (di\<lparr>indirect2 := b\<rparr>) new1)
        (\<lambda>v s'. fst v = max ?k (min ?k' 16384) \<and> build_tree_post 2 ?k ?k' new1 b 0 s (min (128 ^ 2) ?k', snd v) s') s"
      by simp
  next
    fix b v s1
    assume b: "b = indirect2 di \<or> b < 2 ^ 32" and v: "fst v = max ?k (min ?k' 16384)" and "parts_pre (parts3 di k) (parts3 di k') (snd v) s1"
    then have "parts_pre (parts3 (di\<lparr>indirect2 := b\<rparr>) k) (parts3 (di\<lparr>indirect2 := b\<rparr>) k') (snd v) s1"
      by (simp add: parts3_def)
    from wp_increase_indirect3 [OF this k v]
    show "wp (case v of (current, new) \<Rightarrow> increase_indirect3 (di\<lparr>indirect2 := b\<rparr>) current ?k' new)
        (\<lambda>di' s'. (di' = di\<lparr>indirect2 := b, indirect3 := indirect3 di'\<rparr> \<and> (disk_inode_ok di \<longrightarrow> disk_inode_ok di')) \<and>
          parts_post (parts3 di k) s1 (snd v) (parts3 di' k') s') s1"
      using b unfolding case_prod_beta by (elim wp_conseq) (auto simp: parts3_def disk_inode_ok_def)
  qed (use parts_count_mono(1) [OF k] in simp_all)
  moreover have "increase_indirect2 di current (k' - 27) new =
      bnd (new_root (\<lambda>b di. di\<lparr>indirect2 := b\<rparr>) (?k = 0) di new) (\<lambda>(di, new).
        bnd (?act di new) (\<lambda>(current, new). increase_indirect3 di current ?k' new))"
    using True by (simp only: increase_indirect2_def layout_consts e new_root_def if_True Let_def decompose2_def prod.case)
  ultimately show ?thesis by (simp only:) (erule wp_conseq, elim exE conjE, frule root_eqs(1), simp only: parts2_def simp_thms)
qed

lemma wp_increase_indirect1:
  assumes pre: "parts_pre (parts1 di k) (parts1 di k') new s" and k: "k \<le> k'" and c: "current = max k (min k' 27)"
  shows "wp (increase_indirect1 di current k' new)
    (\<lambda>di' s'. di' = di\<lparr>indirect1 := indirect1 di', indirect2 := indirect2 di', indirect3 := indirect3 di'\<rparr> \<and>
      (disk_inode_ok di \<longrightarrow> disk_inode_ok di') \<and> parts_post (parts1 di k) s new (parts1 di' k') s') s"
proof (cases "k' > 27")
  case False
  then have "k - 27 = 0" "k' - 27 = 0" "k - 155 = 0" "k' - 155 = 0" "k - 16539 = 0" "k' - 16539 = 0" using k by simp_all
  moreover have "store_ok s" using pre by (simp add: parts_pre_def)
  ultimately show ?thesis
    using False by (simp add: increase_indirect1_def layout_consts wp_ret parts_defs parts_post_refl)
next
  case True
  let ?k = "k - 27" and ?k' = "k' - 27"
  let ?act = "\<lambda>di new. modify_as IndirectBlock (indirect1 di) 0 (\<lambda>arr.
      bnd (fill_loop ?k (min ?k' 128) arr new) (\<lambda>(arr, current, new). ret ((current, new), arr)))"
  have e: "current - 27 = ?k" "current = 27 \<longleftrightarrow> ?k = 0"
    using True c by (simp_all add: max_def min_def split: if_splits)
  have kk: "0 < ?k'" "?k \<le> ?k'" using True k by simp_all
  have full: "p_leaves s (parts2 di k) = [] \<or> 128 ^ 1 \<le> ?k" by (cases "k \<le> 155") (simp_all add: parts_defs, linarith)
  have "wp (bnd (new_root (\<lambda>b di. di\<lparr>indirect1 := b\<rparr>) (?k = 0) di new) (\<lambda>(di, new).
        bnd (?act di new) (\<lambda>(current, new). increase_indirect2 di current ?k' new)))
      (\<lambda>di' s'. \<exists>b. (di' = di\<lparr>indirect1 := b, indirect2 := indirect2 di', indirect3 := indirect3 di'\<rparr> \<and>
          (disk_inode_ok di \<longrightarrow> disk_inode_ok di')) \<and>
        parts_post ((1, [indirect1 di], ?k) # parts2 di k) s new ((1, [b], ?k') # parts2 di' k') s') s"
  proof (rule wp_level [where C = "\<lambda>c. c = max ?k (min ?k' 128)" and ps' = "parts2 di k'", OF pre [unfolded parts1_def] kk _ _ full])
    fix b new1
    assume "build_tree_pre 1 ?k ?k' new1 b 0 s"
    from wp_fill1 [OF this]
    show "wp (?act (di\<lparr>indirect1 := b\<rparr>) new1)
        (\<lambda>v s'. fst v = max ?k (min ?k' 128) \<and> build_tree_post 1 ?k ?k' new1 b 0 s (min (128 ^ 1) ?k', snd v) s') s"
      by simp
  next
    fix b v s1
    assume b: "b = indirect1 di \<or> b < 2 ^ 32" and v: "fst v = max ?k (min ?k' 128)" and "parts_pre (parts2 di k) (parts2 di k') (snd v) s1"
    then have "parts_pre (parts2 (di\<lparr>indirect1 := b\<rparr>) k) (parts2 (di\<lparr>indirect1 := b\<rparr>) k') (snd v) s1"
      by (simp add: parts_defs)
    from wp_increase_indirect2 [OF this k v]
    show "wp (case v of (current, new) \<Rightarrow> increase_indirect2 (di\<lparr>indirect1 := b\<rparr>) current ?k' new)
        (\<lambda>di' s'. (di' = di\<lparr>indirect1 := b, indirect2 := indirect2 di', indirect3 := indirect3 di'\<rparr> \<and>
            (disk_inode_ok di \<longrightarrow> disk_inode_ok di')) \<and>
          parts_post (parts2 di k) s1 (snd v) (parts2 di' k') s') s1"
      using b unfolding case_prod_beta by (elim wp_conseq) (auto simp: parts_defs disk_inode_ok_def)
  qed (use parts_count_mono(2) [OF k] in simp_all)
  moreover have "increase_indirect1 di current k' new =
      bnd (new_root (\<lambda>b di. di\<lparr>indirect1 := b\<rparr>) (?k = 0) di new) (\<lambda>(di, new).
        bnd (?act di new) (\<lambda>(current, new). increase_indirect2 di current ?k' new))"
    using True by (simp only: increase_indirect1_def layout_consts e new_root_def if_True Let_def prod.case)
  ultimately show ?thesis by (simp only:) (erule wp_conseq, elim exE conjE, frule root_eqs(2), simp only: parts1_def simp_thms)
qed

section \<open>Sizes\<close>

definition MAX_BLOCKS :: nat where
  "MAX_BLOCKS = INDIRECT2_BOUND + INODE_INDIRECT3_COUNT"

definition MAX_SIZE :: nat where
  "MAX_SIZE = MAX_BLOCKS * BLOCK_SZ"

lemma max_consts: "MAX_BLOCKS = 2113691" "MAX_SIZE = 1082209792"
  by (simp_all add: MAX_BLOCKS_def MAX_SIZE_def layout_consts)

lemma size_data_blocks_cdiv: "sz \<le> MAX_SIZE \<Longrightarrow> size_data_blocks sz = cdiv sz 512"
  by (simp add: size_data_blocks_def cdiv_def max_consts BLOCK_SZ_def)

lemma size_data_blocks_max: "sz \<le> MAX_SIZE \<Longrightarrow> size_data_blocks sz \<le> MAX_BLOCKS"
proof -
  assume sz: "sz \<le> MAX_SIZE"
  have "cdiv MAX_SIZE 512 = MAX_BLOCKS" by (simp add: max_consts cdiv_def)
  then show ?thesis using cdiv_mono [OF sz, of 512] sz by (simp add: size_data_blocks_cdiv)
qed

lemma size_data_blocks_mono: "sz \<le> sz' \<Longrightarrow> sz' \<le> MAX_SIZE \<Longrightarrow> size_data_blocks sz \<le> size_data_blocks sz'"
  by (simp add: size_data_blocks_cdiv cdiv_mono)

lemma counts:
  "count 0 x = x" "count 1 x = x + cdiv x 128"
  "0 < x \<Longrightarrow> x \<le> 16384 \<Longrightarrow> count 2 x = 1 + x + cdiv x 128"
  "0 < x \<Longrightarrow> x \<le> 2097152 \<Longrightarrow> count 3 x = 1 + x + cdiv x 128 + cdiv x 16384"
proof -
  show "count 0 x = x" "count 1 x = x + cdiv x 128" by (simp_all add: count_def)
  then show "0 < x \<Longrightarrow> x \<le> 16384 \<Longrightarrow> count 2 x = 1 + x + cdiv x 128"
    using count_Suc [of x 1] by (simp add: numeral_2_eq_2)
  have "count 2 x = x + cdiv x 128 + cdiv x 16384" by (simp add: count_def numeral_2_eq_2)
  then show "0 < x \<Longrightarrow> x \<le> 2097152 \<Longrightarrow> count 3 x = 1 + x + cdiv x 128 + cdiv x 16384"
    using count_Suc [of x 2] by (simp add: numeral_3_eq_3)
qed

definition inode_count :: "nat \<Rightarrow> nat" where
  "inode_count k = count 0 (min 27 k) + count 1 (min 128 (k - 27)) + count 2 (min 16384 (k - 155)) +
     count 3 (min 2097152 (k - 16539))"

lemma p_count_inode: "length (direct di) = 27 \<Longrightarrow> p_count (inode_parts di k) = inode_count k"
  by (simp add: parts_defs inode_count_def)

lemma inode_count_cases:
  "k \<le> 27 \<Longrightarrow> inode_count k = k"
  "27 < k \<Longrightarrow> k \<le> 155 \<Longrightarrow> inode_count k = k + 1"
  "155 < k \<Longrightarrow> k \<le> 16539 \<Longrightarrow> inode_count k = k + 2 + cdiv (k - 155) 128"
  "16539 < k \<Longrightarrow> k \<le> MAX_BLOCKS \<Longrightarrow>
     inode_count k = k + 131 + cdiv (k - 16539) 128 + cdiv (k - 16539) 16384"
proof -
  show "k \<le> 27 \<Longrightarrow> inode_count k = k" by (simp add: inode_count_def counts)
  show "27 < k \<Longrightarrow> k \<le> 155 \<Longrightarrow> inode_count k = k + 1"
    using cdiv_le_1 [of "k - 27" 128] by (simp add: inode_count_def counts(1) counts(2) [simplified] min_absorb2)
  have "cdiv 128 128 = 1" "cdiv 16384 128 = 128" by (simp_all add: cdiv_def)
  then show "155 < k \<Longrightarrow> k \<le> 16539 \<Longrightarrow> inode_count k = k + 2 + cdiv (k - 155) 128"
    "16539 < k \<Longrightarrow> k \<le> MAX_BLOCKS \<Longrightarrow>
       inode_count k = k + 131 + cdiv (k - 16539) 128 + cdiv (k - 16539) 16384"
    using counts(3) [of "k - 155"] counts(3) [of 16384] counts(4) [of "k - 16539"]
    by (simp_all add: inode_count_def counts(1) counts(2) [simplified] min_absorb1 min_absorb2 max_consts)
qed

lemma total_blocks_count:
  assumes "sz \<le> MAX_SIZE"
  shows "total_blocks sz = inode_count (size_data_blocks sz)"
proof -
  define k where "k = size_data_blocks sz"
  have k: "k \<le> 2113691" using size_data_blocks_max [OF assms] by (simp add: k_def max_consts)
  have c: "(x + 128 - 1) div 128 = cdiv x 128" "(x + 16384 - 1) div 16384 = cdiv x 16384" for x :: nat
    by (simp_all add: cdiv_def)
  have b: "cdiv x 128 \<le> x" "cdiv x 16384 \<le> x" for x
    by (simp_all add: cdiv_def)
  consider "k \<le> 27" | "27 < k" "k \<le> 155" | "155 < k" "k \<le> 16539" | "16539 < k" by linarith
  then show ?thesis
  proof cases
    case 3
    then have "cdiv (k - 155) 128 \<le> 128" using cdiv_mono [of "k - 155" 16384 128] by (simp add: cdiv_def)
    then show ?thesis
      using 3 b [of "k - 155"] k unfolding total_blocks_def layout_consts Let_def c k_def [symmetric]
      by (simp add: inode_count_cases(3))
  next
    case 4
    then have "128 \<le> cdiv (k - 155) 128" using cdiv_mono [of 16384 "k - 155" 128] by (simp add: cdiv_def)
    moreover have "inode_count k = k + 131 + cdiv (k - 16539) 128 + cdiv (k - 16539) 16384"
      using 4 k by (intro inode_count_cases(4)) (simp_all add: max_consts)
    ultimately show ?thesis
      using 4 k b [of "k - 16539"] unfolding total_blocks_def layout_consts Let_def c k_def [symmetric] by simp
  qed (use k in \<open>simp_all add: total_blocks_def layout_consts Let_def c inode_count_cases(1,2) flip: k_def\<close>)
qed

section \<open>The blocks of an inode\<close>

text \<open>
  The data blocks of the file in their order, its index blocks, and all its blocks in the order
  of \<open>clear_size\<close>.
\<close>

definition inode_leaves :: "store \<Rightarrow> disk_inode \<Rightarrow> nat list" where
  "inode_leaves s di = p_leaves s (inode_parts di (data_blocks di))"

definition inode_index :: "store \<Rightarrow> disk_inode \<Rightarrow> nat list" where
  "inode_index s di = p_inner s (inode_parts di (data_blocks di))"

definition inode_blocks :: "store \<Rightarrow> disk_inode \<Rightarrow> nat list" where
  "inode_blocks s di = p_blocks s (inode_parts di (data_blocks di))"

text \<open>Well-formed inodes: no block is used twice, and all of them can be accessed.\<close>

definition inode_ok :: "store \<Rightarrow> disk_inode \<Rightarrow> bool" where
  "inode_ok s di \<longleftrightarrow> disk_inode_ok di \<and> inode_size di \<le> MAX_SIZE \<and>
     distinct (inode_blocks s di) \<and> usable s (set (inode_blocks s di))"

lemma inode_ok_direct [simp]: "disk_inode_ok di \<Longrightarrow> length (direct di) = 27"
  by (simp add: disk_inode_ok_def words_ok_def)

lemma length_inode_blocks:
  "disk_inode_ok di \<Longrightarrow> inode_size di \<le> MAX_SIZE \<Longrightarrow> length (inode_blocks s di) = total_blocks (inode_size di)"
  by (simp add: inode_blocks_def length_p_blocks p_count_inode total_blocks_count data_blocks_def)

lemma length_inode_leaves:
  assumes "disk_inode_ok di" and "inode_size di \<le> MAX_SIZE"
  shows "length (inode_leaves s di) = data_blocks di"
proof -
  have "data_blocks di \<le> 2113691"
    using size_data_blocks_max [OF assms(2)] by (simp add: data_blocks_def max_consts)
  then show ?thesis using assms(1) by (simp add: inode_leaves_def parts_defs length_leaves_min)
qed

text \<open>What growing an inode does to its blocks and to all others.\<close>

definition inode_grown :: "disk_inode \<Rightarrow> store \<Rightarrow> disk_inode \<Rightarrow> store \<Rightarrow> nat list \<Rightarrow> bool" where
  "inode_grown di s di' s' new \<longleftrightarrow>
     prefix (inode_leaves s di) (inode_leaves s' di') \<and>
     set (inode_blocks s' di') = set (inode_blocks s di) \<union> set new \<and>
     set (inode_index s di) \<subseteq> set (inode_index s' di') \<and>
     (\<forall>c. c \<notin> set (inode_index s' di') \<longrightarrow> blocks s' c = blocks s c) \<and>
     nblocks s' = nblocks s \<and> held s' = held s \<and> store_ok s'"

lemma pgrows_distinct:
  assumes "pgrows ps s ps' s' ns" and "distinct (p_blocks s ps @ ns)"
  shows "distinct (p_blocks s' ps')"
  using assms card_distinct [of "p_blocks s' ps'"] distinct_card [OF assms(2)] by (simp add: pgrows_def)

lemma fill_direct:
  assumes pre: "parts_pre ((0, ds, k) # ps) ((0, ds', k') # ps') new s" and ds: "words_ok 4 27 ds" "length ds' = 27"
    and k: "k \<le> k'" and more: "p_count ps \<le> p_count ps'"
  obtains arr ns rest where "new = ns @ rest" "grows 0 ds s k arr s k' ns" "words_ok 4 27 arr"
    "fill_loop k (min k' 27) ds new = (ret (arr, max k (min k' 27), rest) :: (store, _) action)"
proof (cases "k < min k' 27")
  case True
  define n where "n = min k' 27 - k"
  have len: "length ds = 27" using ds by (simp add: words_ok_def)
  have n: "n \<le> length new" "k + n = min k' 27"
    using pre len ds(2) more True by (auto simp: n_def parts_pre_def counts)
  let ?arr = "splice_at k (take n new) ds"
  have run: "fill_loop k (min k' 27) ds new = (ret (?arr, min k' 27, drop n new) :: (store, _) action)"
    using n len by (intro fill_loop_run) simp_all
  have "usable s (set new)" "store_ok s" using pre by (simp_all add: parts_pre_def)
  then have "\<forall>x \<in> set (take n new). x < 256 ^ 4" by (auto simp: usable_def dest: in_set_takeD)
  then have w: "words_ok 4 27 ?arr" using ds(1) n by (intro words_ok_splice) simp_all
  have "grows 0 ds s k ?arr s (k + n) (take n new)"
    using grows_0 [of k "take n new" ds s] n len \<open>store_ok s\<close> by simp
  moreover have "min 27 k = k" "min 27 k' = k + n" using True n(2) by auto
  ultimately have "grows 0 ds s (min 27 k) ?arr s (min 27 k') (take n new)" by simp
  then have "grows 0 ds s k ?arr s k' (take n new)"
    using grows_min [of ds 0 27 ?arr s k s k' "take n new"] w len by (simp add: words_ok_def)
  then show thesis using that [of "take n new" "drop n new" ?arr] run w True by simp
next
  case False
  then have "min 27 k = min 27 k'" using k by auto
  moreover have "store_ok s" using pre by (simp add: parts_pre_def)
  ultimately have "grows 0 ds s (min 27 k) ds s (min 27 k') []" by (simp add: grows_refl)
  then have "grows 0 ds s k ds s k' []"
    using grows_min [of ds 0 27 ds s k s k' "[]"] ds by (simp add: words_ok_def)
  then show thesis using that [of "[]" new ds] False ds(1) by (simp add: fill_loop_idle)
qed

lemma inode_count_mono: "k \<le> k' \<Longrightarrow> inode_count k \<le> inode_count k'"
  unfolding inode_count_def by (intro add_mono count_mono) auto

lemma increase_pre:
  assumes "inode_ok s di" "store_ok s" and "inode_size di \<le> sz" "sz \<le> MAX_SIZE"
    and "distinct (inode_blocks s di @ new)" "usable s (set new)"
    and "length new = total_blocks sz - total_blocks (inode_size di)" and "length (held s) \<le> 13"
  shows "parts_pre (inode_parts di (data_blocks di)) (inode_parts di (size_data_blocks sz)) new s"
proof -
  have "total_blocks sz = inode_count (size_data_blocks sz)" "total_blocks (inode_size di) = inode_count (data_blocks di)"
    using assms(3,4) by (simp_all add: total_blocks_count data_blocks_def)
  moreover have "inode_count (data_blocks di) \<le> inode_count (size_data_blocks sz)"
    using size_data_blocks_mono [OF assms(3,4)] by (simp add: data_blocks_def inode_count_mono)
  moreover have "length (direct di) = 27" using assms(1) by (simp add: inode_ok_def)
  ultimately show ?thesis
    using assms unfolding parts_pre_def inode_ok_def inode_blocks_def by (simp add: p_count_inode)
qed

lemma inode_grownI:
  assumes ns: "prefix ns new" "pgrows (inode_parts di (data_blocks di)) s (inode_parts di' (data_blocks di')) s' ns"
    and len: "length new = total_blocks (inode_size di') - total_blocks (inode_size di)"
    and ok: "inode_ok s di" "disk_inode_ok di'" "inode_size di' \<le> MAX_SIZE"
    and new: "distinct (inode_blocks s di @ new)" "usable s (set new)"
  shows "inode_ok s' di'" "inode_grown di s di' s' new"
proof -
  have "length (inode_blocks s' di') = length (inode_blocks s di) + length ns"
    using ns(2) by (simp add: pgrows_def inode_blocks_def)
  then have "length ns = length new"
    using len ok by (simp add: length_inode_blocks inode_ok_def)
  then have pg: "pgrows (inode_parts di (data_blocks di)) s (inode_parts di' (data_blocks di')) s' new"
    using ns by (auto simp: prefix_def)
  have "distinct (inode_blocks s' di')" using pgrows_distinct [OF pg] new(1) by (simp add: inode_blocks_def)
  moreover have "usable s' (set (inode_blocks s' di'))"
    using pg ok(1) new(2) by (auto simp: pgrows_def inode_ok_def inode_blocks_def usable_def)
  ultimately show "inode_ok s' di'" using ok by (simp add: inode_ok_def)
  show "inode_grown di s di' s' new"
    using pg by (simp add: inode_grown_def pgrows_def inode_leaves_def inode_index_def inode_blocks_def)
qed

lemma wp_increase_size:
  assumes ok: "inode_ok s di" "store_ok s" and sz: "inode_size di \<le> sz" "sz \<le> MAX_SIZE"
    and new: "distinct (inode_blocks s di @ new)" "usable s (set new)"
      "length new = total_blocks sz - total_blocks (inode_size di)"
    and room: "length (held s) \<le> 13"
  shows "wp (DiskInode_increase_size di sz new) (\<lambda>di' s'. inode_size di' = sz \<and> inode_type di' = inode_type di \<and>
    inode_ok s' di' \<and> inode_grown di s di' s' new) s"
proof -
  let ?k = "data_blocks di" and ?k' = "size_data_blocks sz"
  have D: "disk_inode_ok di" "words_ok 4 27 (direct di)" using ok(1) by (simp_all add: inode_ok_def disk_inode_ok_def)
  have len: "length (direct di) = 27" using D by simp
  have k: "?k \<le> ?k'" using size_data_blocks_mono [OF sz] by (simp add: data_blocks_def)
  note pre = increase_pre [OF ok sz new room, unfolded inode_parts_def]
  from fill_direct [OF pre D(2) len k parts_count_mono(3) [OF k]]
  obtain arr ns rest where f: "new = ns @ rest" "grows 0 (direct di) s ?k arr s ?k' ns" "words_ok 4 27 arr"
    "fill_loop ?k (min ?k' 27) (direct di) new = (ret (arr, max ?k (min ?k' 27), rest) :: (store, _) action)" .
  define di1 where "di1 = di\<lparr>inode_size := sz, direct := arr\<rparr>"
  have p1: "parts1 di1 n = parts1 di n" for n by (simp add: di1_def parts_defs)
  have la: "length arr = 27" using f(3) by (simp add: words_ok_def)
  have pre1: "parts_pre (parts1 di1 ?k) (parts1 di1 ?k') rest s"
    using parts_pre_tail [OF pre [unfolded f(1)] f(2)] la len unfolding p1 by simp
  have ok1: "disk_inode_ok di1" using D(1) f(3) sz(2) by (simp add: disk_inode_ok_def max_consts di1_def)
  have full: "p_leaves s (parts1 di ?k) = [] \<or> length (direct di) * 128 ^ 0 \<le> ?k"
    using len by (cases "?k \<le> 27") (simp_all add: parts_defs)
  have "wp (increase_indirect1 di1 (max ?k (min ?k' 27)) ?k' rest) (\<lambda>di' s'. inode_size di' = sz \<and>
      inode_type di' = inode_type di \<and> inode_ok s' di' \<and> inode_grown di s di' s' new) s"
  proof (rule wp_conseq [OF wp_increase_indirect1 [OF pre1 k refl]], elim conjE)
    fix di' s'
    assume e: "di' = di1\<lparr>indirect1 := indirect1 di', indirect2 := indirect2 di', indirect3 := indirect3 di'\<rparr>"
      and o: "disk_inode_ok di1 \<longrightarrow> disk_inode_ok di'" and post: "parts_post (parts1 di1 ?k) s rest (parts1 di' ?k') s'"
    have g: "inode_size di' = sz" "inode_type di' = inode_type di" "direct di' = arr"
      by (subst e, simp add: di1_def)+
    have "parts_post ((0, direct di, ?k) # parts1 di ?k) s (ns @ rest) ((0, arr, ?k') # parts1 di' ?k') s'"
      using la len by (intro parts_post_Cons [OF pre [unfolded f(1)] f(2) post [unfolded p1] full _ k]) simp
    then obtain ms where ms: "prefix ms new" "pgrows (inode_parts di ?k) s (inode_parts di' (data_blocks di')) s' ms"
      unfolding parts_post_def by (auto simp: inode_parts_def data_blocks_def g f(1))
    have "inode_ok s' di'" "inode_grown di s di' s' new"
      using inode_grownI [OF ms _ ok(1) _ _ new(1,2)] new(3) o ok1 sz(2) g(1) by simp_all
    then show "inode_size di' = sz \<and> inode_type di' = inode_type di \<and> inode_ok s' di' \<and> inode_grown di s di' s' new"
      using g by simp
  qed
  then show ?thesis
    by (simp add: DiskInode_increase_size_def Let_def layout_consts data_blocks_def f(4) [unfolded data_blocks_def] wp_simps di1_def)
qed

section \<open>Finding a data block\<close>

text \<open>The way from the root of a tree to a leaf, and the index blocks on it.\<close>

primrec walk :: "store \<Rightarrow> nat \<Rightarrow> nat \<Rightarrow> nat \<Rightarrow> nat" where
  "walk s 0 b n = b"
| "walk s (Suc h) b n = walk s h (ind s b ! (n div 128 ^ h)) (n mod 128 ^ h)"

primrec path :: "store \<Rightarrow> nat \<Rightarrow> nat \<Rightarrow> nat \<Rightarrow> nat list" where
  "path s 0 b n = []"
| "path s (Suc h) b n = b # path s h (ind s b ! (n div 128 ^ h)) (n mod 128 ^ h)"

lemma div_piece:
  assumes "n < k" and "0 < (c :: nat)"
  shows "n mod c < min c (k - n div c * c)" "n div c * c < k"
proof -
  have "n div c * c + n mod c = n" "n mod c < c" using assms(2) by simp_all
  then show "n mod c < min c (k - n div c * c)" "n div c * c < k" using assms(1) by linarith+
qed

lemma nth_tree_leaves: "n < k \<Longrightarrow> k \<le> 128 ^ h \<Longrightarrow> tree_leaves s h b k ! n = walk s h b n"
proof (induction h arbitrary: b k n)
  case (Suc h)
  let ?c = "128 ^ h :: nat"
  have "tree_leaves s h (ind s b ! (n div ?c)) (min ?c (k - n div ?c * ?c)) ! (n mod ?c) =
      walk s h (ind s b ! (n div ?c)) (n mod ?c)"
    using div_piece(1) [OF Suc.prems(1), of ?c] by (intro Suc.IH) simp_all
  then show ?case
    using nth_forest [of ?c "tree_leaves s h" k "ind s b" n] Suc.prems
    by (simp add: tree_leaves.simps(2) length_tree_leaves)
qed (auto simp: le_Suc_eq)

lemma forest_piece:
  assumes "i < length bs" and "i * c < k" and "0 < c"
  shows "set (t (bs ! i) (min c (k - i * c))) \<subseteq> set (forest t c bs k)"
  using assms
proof (induction bs arbitrary: i k)
  case (Cons b bs)
  show ?case
  proof (cases i)
    case (Suc j)
    then have "set (t (bs ! j) (min c (k - c - j * c))) \<subseteq> set (forest t c bs (k - c))"
      using Cons.prems by (intro Cons.IH) auto
    then show ?thesis using Suc Cons.prems by (auto simp: diff_diff_left)
  qed (use Cons.prems in auto)
qed simp

lemma path_inner: "(n :: nat) < k \<Longrightarrow> k \<le> 128 ^ h \<Longrightarrow> set (path s h b n) \<subseteq> set (tree_inner s h b k)"
proof (induction h arbitrary: b k n)
  case (Suc h)
  let ?c = "128 ^ h :: nat" and ?i = "n div 128 ^ h"
  have i: "?i < 128" using Suc.prems by (simp add: less_mult_imp_div_less)
  note d = div_piece [OF Suc.prems(1), of ?c, simplified]
  have "set (path s h (ind s b ! ?i) (n mod ?c)) \<subseteq> set (tree_inner s h (ind s b ! ?i) (min ?c (k - ?i * ?c)))"
    using d(1) by (intro Suc.IH) simp_all
  also have "\<dots> \<subseteq> set (inner s h (ind s b) k)"
    unfolding inner_def using i d(2) by (intro forest_piece) simp_all
  finally show ?case by (auto simp: tree_Suc)
qed simp

lemma usable_acquirable: "usable s B \<Longrightarrow> length (held s) < 16 \<Longrightarrow> b \<in> B \<Longrightarrow> acquirable b s"
  by (simp add: usable_def acquirable_def)

lemma read_entry_eq: "acquirable b s \<Longrightarrow> i < 128 \<Longrightarrow> read_entry b i s = Inr (ind s b ! i, s)"
proof -
  assume "acquirable b s" "i < 128"
  then have "wp (read_entry b i) (\<lambda>v s'. v = ind s b ! i \<and> s' = s) s"
    using length_ind [of s b] by (simp add: read_entry_def wp_simps flip: ind_def)
  then show ?thesis by (auto simp: wp_iff)
qed

lemma bnd_read_entry: "acquirable b s \<Longrightarrow> i < 128 \<Longrightarrow> bnd (read_entry b i) f s = f (ind s b ! i) s"
  using read_entry_eq [of b s i] by (simp add: bnd_def)

text \<open>A position of one of the trees of an inode.\<close>

lemma nth_root_leaves:
  assumes "n < min (128 ^ h) k"
  shows "leaves s h [r] k ! n = walk s h r n" "set (path s h r n) \<subseteq> set (all_blocks s h [r] k)"
proof -
  have "0 < k" using assms by simp
  then show "leaves s h [r] k ! n = walk s h r n"
    using nth_tree_leaves [OF assms min.cobounded1, of s r] by (simp add: forest_Cons(1))
  show "set (path s h r n) \<subseteq> set (all_blocks s h [r] k)"
    using path_inner [OF assms min.cobounded1, of s r] inner_subset [of s h "[r]" k] \<open>0 < k\<close> by (auto simp: forest_Cons(2))
qed

lemma nth_inode_leaves:
  assumes "length (direct di) = 27" and "i < data_blocks di"
  shows "i < 27 \<Longrightarrow> inode_leaves s di ! i = direct di ! i"
    "27 \<le> i \<Longrightarrow> i < 155 \<Longrightarrow> inode_leaves s di ! i = leaves s 1 [indirect1 di] (data_blocks di - 27) ! (i - 27)"
    "155 \<le> i \<Longrightarrow> i < 16539 \<Longrightarrow> inode_leaves s di ! i = leaves s 2 [indirect2 di] (data_blocks di - 155) ! (i - 155)"
    "16539 \<le> i \<Longrightarrow> inode_leaves s di ! i = leaves s 3 [indirect3 di] (data_blocks di - 16539) ! (i - 16539)"
proof -
  let ?k = "data_blocks di"
  have e: "inode_leaves s di = leaves s 0 (direct di) ?k @ leaves s 1 [indirect1 di] (?k - 27) @
      leaves s 2 [indirect2 di] (?k - 155) @ leaves s 3 [indirect3 di] (?k - 16539)"
    by (simp add: inode_leaves_def parts_defs)
  have l: "length (leaves s 0 (direct di) ?k) = min 27 ?k" "length (leaves s 1 [indirect1 di] (?k - 27)) = min 128 (?k - 27)"
    "length (leaves s 2 [indirect2 di] (?k - 155)) = min 16384 (?k - 155)"
    using assms(1) by (simp_all add: length_leaves_min)
  note nth = nth_append l diff_diff_left
  show "i < 27 \<Longrightarrow> inode_leaves s di ! i = direct di ! i"
    unfolding e using assms(2) by (simp only: nth) (simp add: forest_0)
  show "27 \<le> i \<Longrightarrow> i < 155 \<Longrightarrow> inode_leaves s di ! i = leaves s 1 [indirect1 di] (?k - 27) ! (i - 27)"
  proof -
    assume "27 \<le> i" "i < 155"
    moreover from this have "min 27 ?k = 27" "i - 27 < min 128 (?k - 27)" using assms(2) by linarith+
    ultimately show ?thesis unfolding e by (simp only: nth) simp
  qed
  show "155 \<le> i \<Longrightarrow> i < 16539 \<Longrightarrow> inode_leaves s di ! i = leaves s 2 [indirect2 di] (?k - 155) ! (i - 155)"
  proof -
    assume "155 \<le> i" "i < 16539"
    moreover from this have "min 27 ?k = 27" "min 128 (?k - 27) = 128" "i - 155 < min 16384 (?k - 155)"
      using assms(2) by linarith+
    ultimately show ?thesis unfolding e by (simp only: nth) simp
  qed
  show "16539 \<le> i \<Longrightarrow> inode_leaves s di ! i = leaves s 3 [indirect3 di] (?k - 16539) ! (i - 16539)"
  proof -
    assume "16539 \<le> i"
    moreover from this have "min 27 ?k = 27" "min 128 (?k - 27) = 128" "min 16384 (?k - 155) = 16384"
      using assms(2) by simp_all
    ultimately show ?thesis unfolding e by (simp only: nth) simp
  qed
qed

lemma get_block_id_eq:
  assumes ok: "inode_ok s di" and room: "length (held s) < 16" and i: "i < data_blocks di"
  shows "get_block_id di i s = Inr (inode_leaves s di ! i, s)"
proof -
  let ?k = "data_blocks di"
  have D: "length (direct di) = 27" "usable s (set (p_blocks s (inode_parts di ?k)))"
    using ok by (simp_all add: inode_ok_def inode_blocks_def)
  have k: "?k \<le> 2113691"
    using ok size_data_blocks_max [of "inode_size di"] by (simp add: inode_ok_def data_blocks_def max_consts)
  have u: "usable s (set (all_blocks s 1 [indirect1 di] (?k - 27)))" "usable s (set (all_blocks s 2 [indirect2 di] (?k - 155)))"
    "usable s (set (all_blocks s 3 [indirect3 di] (?k - 16539)))"
    using D(2) by (simp_all add: parts_defs)
  note acq = usable_acquirable [OF usable_mono [OF _ nth_root_leaves(2)] room]
  note lv = nth_inode_leaves [OF D(1) i, of s]
  consider "i < 27" | "27 \<le> i" "i < 155" | "155 \<le> i" "i < 16539" | "16539 \<le> i" by linarith
  then show ?thesis
  proof cases
    case 1
    then show ?thesis using D(1) by (simp add: get_block_id_def layout_consts lv(1) index_def ret_def)
  next
    case 2
    then have n: "i - 27 < min (128 ^ 1) (?k - 27)" using i by auto
    have "acquirable (indirect1 di) s" by (rule acq [OF u(1) n]) simp
    then show ?thesis
      using 2 lv(2) nth_root_leaves(1) [OF n, of s "indirect1 di"]
      by (simp add: get_block_id_def layout_consts read_entry_eq)
  next
    case 3
    let ?n = "i - 155"
    have n: "?n < min (128 ^ 2) (?k - 155)" using i 3 by auto
    have p: "acquirable (indirect2 di) s" by (rule acq [OF u(2) n]) (simp add: numeral_2_eq_2)
    have q: "acquirable (ind s (indirect2 di) ! (?n div 128)) s" by (rule acq [OF u(2) n]) (simp add: numeral_2_eq_2)
    have a: "?n div 128 < 128" "?n mod 128 < 128" using n by (simp_all add: less_mult_imp_div_less)
    have "get_block_id di i = bnd (read_entry (indirect2 di) (?n div 128)) (\<lambda>b. read_entry b (?n mod 128))"
      using 3 by (simp add: get_block_id_def layout_consts Let_def)
    moreover have "inode_leaves s di ! i = walk s 2 (indirect2 di) ?n"
      using lv(3) [OF 3] nth_root_leaves(1) [OF n] by (simp only:)
    moreover have "walk s 2 (indirect2 di) ?n = ind s (ind s (indirect2 di) ! (?n div 128)) ! (?n mod 128)"
      by (simp add: numeral_2_eq_2)
    ultimately show ?thesis by (simp only: bnd_read_entry [OF p a(1)] read_entry_eq [OF q a(2)])
  next
    case 4
    let ?n = "i - 16539"
    have n: "?n < min (128 ^ 3) (?k - 16539)" using i 4 k by auto
    let ?b = "ind s (indirect3 di) ! (?n div 16384)"
    have p: "acquirable (indirect3 di) s" by (rule acq [OF u(3) n]) (simp add: numeral_3_eq_3)
    have q: "acquirable ?b s" by (rule acq [OF u(3) n]) (simp add: numeral_3_eq_3)
    have r: "acquirable (ind s ?b ! (?n mod 16384 div 128)) s" by (rule acq [OF u(3) n]) (simp add: numeral_3_eq_3)
    have a: "?n div 16384 < 128" "?n mod 16384 div 128 < 128" "?n mod 16384 mod 128 < 128"
      using n by (simp_all add: less_mult_imp_div_less)
    have "get_block_id di i = bnd (read_entry (indirect3 di) (?n div 16384)) (\<lambda>b.
        bnd (read_entry b (?n mod 16384 div 128)) (\<lambda>c. read_entry c (?n mod 16384 mod 128)))"
      using 4 by (simp add: get_block_id_def layout_consts Let_def)
    moreover have "inode_leaves s di ! i = walk s 3 (indirect3 di) ?n"
      using lv(4) [OF 4] nth_root_leaves(1) [OF n] by (simp only:)
    moreover have "walk s 3 (indirect3 di) ?n = ind s (ind s ?b ! (?n mod 16384 div 128)) ! (?n mod 16384 mod 128)"
      by (simp add: numeral_3_eq_3)
    ultimately show ?thesis
      by (simp only: bnd_read_entry [OF p a(1)] bnd_read_entry [OF q a(2)] read_entry_eq [OF r a(3)])
  qed
qed

text \<open>
  C14: Looking a block up through the direct numbers and the three levels of index blocks is
  the same as indexing the flat list of the file's data blocks, for every block of the file, and
  no lookup changes the store. \<open>total_blocks\<close> is the number of all blocks of the file, index
  blocks included.
\<close>

theorem get_block_id_flat:
  assumes "inode_ok s di" and "length (held s) < 16"
  shows "map (\<lambda>i. get_block_id di i s) [0..<data_blocks di] = map (\<lambda>b. Inr (b, s)) (inode_leaves s di) \<and>
    length (inode_blocks s di) = total_blocks (inode_size di)"
proof -
  have ok: "disk_inode_ok di" "inode_size di \<le> MAX_SIZE"
    using assms(1) by (simp_all add: inode_ok_def)
  show ?thesis
    using length_inode_leaves [OF ok, of s] length_inode_blocks [OF ok, of s]
    by (auto intro!: nth_equalityI simp: get_block_id_eq [OF assms])
qed

theorem get_block_id_flat_witness:
  "let s = \<lparr>blocks = \<lambda>_. replicate 512 0, nblocks = 10, held = []\<rparr>;
       di = \<lparr>inode_size = 600, direct = [7, 3] @ replicate 25 0, indirect1 = 0, indirect2 = 0, indirect3 = 0, inode_type = File\<rparr>
   in map (\<lambda>i. get_block_id di i s) [0..<2] = [Inr (7, s), Inr (3, s)] \<and> total_blocks 600 = 2"
proof -
  define s where "s = \<lparr>blocks = \<lambda>_::nat. replicate 512 (0::8 word), nblocks = 10, held = []\<rparr>"
  define di where "di = \<lparr>inode_size = 600, direct = [7, 3] @ replicate 25 0, indirect1 = 0, indirect2 = 0, indirect3 = 0,
    inode_type = File\<rparr>"
  have k: "data_blocks di = 2"
    by (simp add: di_def data_blocks_def size_data_blocks_def BLOCK_SZ_def u32_def)
  have l: "inode_leaves s di = [7, 3]" "inode_blocks s di = [7, 3]"
    unfolding inode_leaves_def inode_blocks_def k
    by (simp_all add: parts_defs leaves_def all_blocks_def di_def numeral_2_eq_2)
  have "inode_ok s di"
    using l(2) by (auto simp: inode_ok_def usable_def disk_inode_ok_def words_ok_def max_consts s_def di_def)
  then have "map (\<lambda>i. get_block_id di i s) [0..<2] = [Inr (7, s), Inr (3, s)] \<and> total_blocks 600 = 2"
    using get_block_id_flat [of s di] by (simp only: k l) (simp add: s_def di_def)
  then show ?thesis by (simp add: s_def di_def Let_def)
qed

end
