(* ===== verification/Inode_Ops.thy ===== *)
theory Inode_Ops
  imports Disk_Inode "HOL-Library.Multiset"
begin

text \<open>
  The operations of a disk inode that do not change its shape, and \<open>clear_size\<close>: what
  \<open>clear_size\<close> returns, and how \<open>read_at\<close> and \<open>write_at\<close> act on the contents of the file, the
  concatenation of its data blocks cut at its size.
\<close>

section \<open>Reading index blocks\<close>

lemma read_as_eq:
  assumes "acquirable b s" and "off + v_size V \<le> 512"
    and "f (view_at V off (blocks s b)) (entered b s) = Inr (v, entered b s)"
  shows "read_as V b off f s = Inr (v, s)"
proof -
  have "wp (read_as V b off f) (\<lambda>v' s'. v' = v \<and> s' = s) s"
    using assms by (simp add: wp_read_as wp_Inr)
  then show ?thesis by (auto simp: wp_iff)
qed

lemma modify_same:
  assumes "acquirable b s" and "store_ok s" and "f (ind s b) (entered b s) = Inr ((v, ind s b), entered b s)"
  shows "modify_as IndirectBlock b 0 f s = Inr (v, s)"
proof -
  have "wp (modify_as IndirectBlock b 0 f) (\<lambda>v' s'. v' = v \<and> s' = s) s"
    using assms by (simp add: wp_modify_as wp_Inr put_same_indirect flip: ind_def)
  then show ?thesis by (auto simp: wp_iff)
qed

lemma collect_loop_eq:
  "bound = current + n \<Longrightarrow> bound \<le> length arr \<Longrightarrow>
    (collect_loop current bound arr v :: ('s, _) action) = ret (v @ segment current n arr)"
proof (induction n arbitrary: current v)
  case 0
  then show ?case by (simp add: collect_loop.simps segment_def)
next
  case (Suc n)
  then have "segment current (Suc n) arr = arr ! current # segment (Suc current) n arr"
    by (simp add: segment_def Cons_nth_drop_Suc [symmetric])
  then show ?case
    using Suc.IH [of "Suc current" "v @ [arr ! current]"] Suc.prems
    by (simp add: collect_loop.simps [of current] index_def bnd_ret)
qed

lemma clear_direct_loop_eq:
  "bound = current + n \<Longrightarrow> bound \<le> length arr \<Longrightarrow>
    (clear_direct_loop current bound arr v :: ('s, _) action) =
      ret (splice_at current (replicate n 0) arr, v @ segment current n arr)"
proof (induction n arbitrary: current arr v)
  case 0
  then show ?case by (simp add: clear_direct_loop.simps segment_def)
next
  case (Suc n)
  have c: "current < length arr" using Suc.prems by simp
  then have "segment current (Suc n) arr = arr ! current # segment (Suc current) n (arr[current := 0])"
    by (simp add: segment_def Cons_nth_drop_Suc [symmetric])
  moreover have "splice_at (Suc current) (replicate n 0) (arr[current := 0]) = splice_at current (replicate (Suc n) 0) arr"
    using c by (simp add: splice_at_def take_Suc_conv_app_nth)
  ultimately show ?case
    using Suc.IH [of "Suc current" "arr[current := 0]" "v @ [arr ! current]"] Suc.prems
    by (simp add: clear_direct_loop.simps [of current] index_def bnd_ret)
qed

lemma collect_full_eq:
  "store_ok s \<Longrightarrow> \<forall>e \<in> set entries. acquirable e s \<Longrightarrow>
    collect_full entries v s = Inr (v @ concat (map (\<lambda>e. e # ind s e) entries), s)"
proof (induction entries arbitrary: v)
  case Nil
  then show ?case by (simp add: ret_def)
next
  case (Cons e es)
  have "modify_as IndirectBlock e 0 (\<lambda>indirect1. ret ((v @ [e]) @ indirect1, indirect1)) s = Inr ((v @ [e]) @ ind s e, s)"
    using Cons.prems by (intro modify_same) (simp_all add: ret_def)
  then show ?case using Cons by (simp add: bnd_Inr)
qed

text \<open>The blocks below a level-two index block: full index blocks and one that is partly used.\<close>

lemma all_blocks_1:
  assumes "length arr = 128" and "a * 128 + b \<le> 16384" and "b < 128"
  shows "all_blocks s 1 arr (a * 128 + b) = concat (map (\<lambda>e. e # ind s e) (take a arr)) @
    (if b = 0 then [] else arr ! a # take b (ind s (arr ! a)))"
proof -
  have a: "a \<le> 128" "b = 0 \<or> a < 128" using assms by auto
  have "all_blocks s 1 (take a arr @ drop a arr) (a * 128 + b) =
      all_blocks s 1 (take a arr) (a * 128 + b) @ all_blocks s 1 (drop a arr) b"
    using append_forests(3) [of s 1 "take a arr" "drop a arr" "a * 128 + b"] a assms(1) by simp
  moreover have "all_blocks s 1 (take a arr) (a * 128 + b) = concat (map (\<lambda>e. e # ind s e) (take a arr))"
  proof -
    have "tree_blocks s 1 e 128 = e # ind s e" for e by (simp add: tree_Suc forest_0)
    then show ?thesis
      using forest_cap [of 128 "take a arr" "a * 128 + b" "tree_blocks s 1"] a assms(1) by (simp add: all_blocks_def)
  qed
  moreover have "all_blocks s 1 (drop a arr) b = (if b = 0 then [] else arr ! a # take b (ind s (arr ! a)))"
  proof (cases "b = 0")
    case False
    then have "drop a arr = arr ! a # drop (Suc a) arr" using a assms(1) by (simp add: Cons_nth_drop_Suc)
    then show ?thesis using False assms(3) by (simp add: forest_Cons(3) tree_Suc forest_0 min_absorb2)
  qed simp
  ultimately show ?thesis by simp
qed

lemma collect_indirect2_eq:
  assumes ok: "store_ok s" and arr: "length arr = 128" and k: "k \<le> 16384"
    and use: "usable s (set (all_blocks s 1 arr k))" and room: "length (held s) < 16"
  shows "collect_indirect2 (k div 128) (k mod 128) arr v s = Inr (v @ all_blocks s 1 arr k, s)"
proof -
  let ?a = "k div 128" and ?b = "k mod 128"
  have e: "all_blocks s 1 arr k = concat (map (\<lambda>e. e # ind s e) (take ?a arr)) @
      (if ?b = 0 then [] else arr ! ?a # take ?b (ind s (arr ! ?a)))"
    using all_blocks_1 [of arr ?a ?b s] arr k by simp
  have "\<forall>x \<in> set (take ?a arr). acquirable x s"
    using usable_acquirable [OF use room] unfolding e by auto
  from collect_full_eq [OF ok this]
  have full: "collect_full (take ?a arr) v s = Inr (v @ concat (map (\<lambda>e. e # ind s e) (take ?a arr)), s)" for v .
  show ?thesis
  proof (cases "?b = 0")
    case True
    then show ?thesis using full by (simp add: collect_indirect2_def bnd_Inr ret_def e [simplified])
  next
    case False
    have "k \<noteq> 16384" using False by auto
    then have a: "?a < 128" using k by (intro less_mult_imp_div_less) simp
    have "acquirable (arr ! ?a) s" using usable_acquirable [OF use room] False unfolding e by simp
    moreover define w where "w = v @ concat (map (\<lambda>e. e # ind s e) (take ?a arr))"
    ultimately have "modify_as IndirectBlock (arr ! ?a) 0 (\<lambda>indirect1. ret ((w @ [arr ! ?a]) @ take ?b indirect1, indirect1)) s =
        Inr ((w @ [arr ! ?a]) @ take ?b (ind s (arr ! ?a)), s)"
      using ok by (intro modify_same) (simp_all add: ret_def)
    then show ?thesis
      using False full [of v, folded w_def] arr a unfolding collect_indirect2_def e
      by (simp add: bnd_Inr index_def bnd_ret) (simp add: w_def)
  qed
qed

section \<open>Collecting a tree\<close>

lemma min_diff_piece: "m - (n + min c (m - n)) = m - n - (c :: nat)"
  by linarith

lemma min_pieces:
  "d = c + e \<Longrightarrow> (n :: nat) + min c (m - n) + min e (m - (n + min c (m - n))) = n + min d (m - n)"
  by linarith

lemma collect_children_eq:
  assumes child: "\<And>b cur v. cur < max_leaf \<Longrightarrow>
      usable s (set (tree_blocks s h b (min (128 ^ h) (max_leaf - cur)))) \<Longrightarrow>
      distinct (tree_blocks s h b (min (128 ^ h) (max_leaf - cur))) \<Longrightarrow>
      child v b cur s = Inr ((cur + min (128 ^ h) (max_leaf - cur), v @ tl (tree_blocks s h b (min (128 ^ h) (max_leaf - cur)))), s)"
    and arr: "length arr = 128"
  shows "i \<le> 128 \<Longrightarrow> usable s (set (all_blocks s h (drop i arr) (max_leaf - cur))) \<Longrightarrow>
    distinct (all_blocks s h (drop i arr) (max_leaf - cur)) \<Longrightarrow>
    collect_children child max_leaf i arr v cur s =
      Inr ((cur + min ((128 - i) * 128 ^ h) (max_leaf - cur), v @ all_blocks s h (drop i arr) (max_leaf - cur)), s)"
proof (induction "128 - i" arbitrary: i cur v)
  case 0
  then have "i = 128" by simp
  then show ?case using arr by (subst collect_children.simps) (simp add: layout_consts ret_def)
next
  case (Suc n)
  then have i: "i < 128" by simp
  show ?case
  proof (cases "cur < max_leaf")
    case False
    then show ?thesis by (subst collect_children.simps) (simp add: ret_def)
  next
    case True
    let ?c = "128 ^ h :: nat" and ?b = "arr ! i"
    let ?H = "tree_blocks s h ?b (min ?c (max_leaf - cur))" and ?cur = "cur + min ?c (max_leaf - cur)"
    let ?T = "all_blocks s h (drop (Suc i) arr) (max_leaf - ?cur)"
    have d: "drop i arr = ?b # drop (Suc i) arr" using i arr by (simp add: Cons_nth_drop_Suc)
    have e: "all_blocks s h (drop i arr) (max_leaf - cur) = ?H @ ?T"
      using True by (simp add: d forest_Cons(3) min_diff_piece)
    have H: "?b # tl ?H = ?H" by (cases h) (simp_all add: tree_Suc)
    note P = Suc.prems(2,3) [unfolded e]
    have "child (v @ [?b]) ?b cur s = Inr ((?cur, (v @ [?b]) @ tl ?H), s)"
      using P True by (intro child) simp_all
    then have c: "child (v @ [?b]) ?b cur s = Inr ((?cur, v @ ?H), s)" using H by simp
    have "collect_children child max_leaf (Suc i) arr (v @ ?H) ?cur s =
        Inr ((?cur + min ((128 - Suc i) * ?c) (max_leaf - ?cur), (v @ ?H) @ ?T), s)"
      by (rule Suc.hyps(1)) (use Suc.hyps(2) i P in simp_all)
    moreover have "?cur + min ((128 - Suc i) * ?c) (max_leaf - ?cur) = cur + min ((128 - i) * ?c) (max_leaf - cur)"
    proof (rule min_pieces)
      have "128 - i = Suc (128 - Suc i)" using i by simp
      then show "(128 - i) * ?c = ?c + (128 - Suc i) * ?c" by simp
    qed
    ultimately have "collect_children child max_leaf (Suc i) arr (v @ ?H) ?cur s =
        Inr ((cur + min ((128 - i) * ?c) (max_leaf - cur), v @ ?H @ ?T), s)" by (simp only: append_assoc)
    moreover have "collect_children child max_leaf i arr v cur s =
        bnd (child (v @ [?b]) ?b cur) (\<lambda>(cur, w). collect_children child max_leaf (Suc i) arr w cur) s"
      using True i arr by (subst collect_children.simps) (simp add: layout_consts index_def bnd_ret)
    ultimately show ?thesis unfolding e by (simp only: bnd_Inr [where m = "child (v @ [?b]) ?b cur" and s = s, OF c] prod.case)
  qed
qed

lemma collect_tree_eq:
  "cur < max_leaf \<Longrightarrow> usable s (set (tree_blocks s h b (min (128 ^ h) (max_leaf - cur)))) \<Longrightarrow>
    distinct (tree_blocks s h b (min (128 ^ h) (max_leaf - cur))) \<Longrightarrow> length (held s) + h \<le> 16 \<Longrightarrow>
    collect_tree_blocks h max_leaf v b cur s =
      Inr ((cur + min (128 ^ h) (max_leaf - cur), v @ tl (tree_blocks s h b (min (128 ^ h) (max_leaf - cur)))), s)"
proof (induction h arbitrary: s v b cur)
  case 0
  then show ?case by (simp add: ret_def)
next
  case (Suc h)
  let ?k = "min (128 ^ Suc h) (max_leaf - cur)"
  have T: "tree_blocks s (Suc h) b ?k = b # all_blocks s h (ind s b) (max_leaf - cur)"
    using forest_min(3) [of s h "ind s b" "max_leaf - cur"] by (simp add: tree_Suc)
  have acq: "acquirable b s"
    using usable_acquirable [OF Suc.prems(2) _ tree_root [of b]] Suc.prems(4) by simp
  have sub: "usable (entered b s) (set (all_blocks s h (ind s b) (max_leaf - cur)))"
    using Suc.prems(2,3) unfolding T by (auto simp: usable_def)
  have dist: "distinct (all_blocks s h (ind s b) (max_leaf - cur))" using Suc.prems(3) unfolding T by simp
  have "collect_children (collect_tree_blocks h max_leaf) max_leaf 0 (ind s b) v cur (entered b s) =
      Inr ((cur + min ((128 - 0) * 128 ^ h) (max_leaf - cur), v @ all_blocks (entered b s) h (drop 0 (ind s b)) (max_leaf - cur)), entered b s)"
    using sub dist Suc.prems(4) by (intro collect_children_eq Suc.IH) simp_all
  then have "read_as IndirectBlock b 0 (\<lambda>arr. collect_children (collect_tree_blocks h max_leaf) max_leaf 0 arr v cur) s =
      Inr ((cur + ?k, v @ all_blocks s h (ind s b) (max_leaf - cur)), s)"
    using acq by (intro read_as_eq) (simp_all flip: ind_def)
  then show ?case by (simp only: collect_tree_blocks.simps T list.sel)
qed

section \<open>Clearing an inode\<close>

definition same_file :: "disk_inode \<Rightarrow> disk_inode \<Rightarrow> bool" where
  "same_file di di' \<longleftrightarrow> inode_size di' = inode_size di \<and> inode_type di' = inode_type di \<and> direct di' = direct di \<and>
     (disk_inode_ok di \<longrightarrow> disk_inode_ok di')"

lemma same_file_refl [simp]: "same_file di di"
  by (simp add: same_file_def)

lemma same_file_roots [simp]:
  "same_file di (di\<lparr>indirect1 := 0\<rparr>)" "same_file di (di\<lparr>indirect2 := 0\<rparr>)" "same_file di (di\<lparr>indirect3 := 0\<rparr>)"
  by (simp_all add: same_file_def disk_inode_ok_def)

lemma same_file_trans: "same_file di di1 \<Longrightarrow> same_file di1 di2 \<Longrightarrow> same_file di di2"
  by (auto simp: same_file_def)

text \<open>The parts are collected in their order; none of the blocks is changed.\<close>

definition collects :: "disk_inode \<Rightarrow> nat list \<Rightarrow> nat list \<Rightarrow> (nat list \<times> disk_inode) store_action \<Rightarrow> store \<Rightarrow> bool" where
  "collects di v bs m s \<longleftrightarrow> (\<exists>di'. same_file di di' \<and> m s = Inr ((v @ bs, di'), s))"

lemma clear_indirect3_eq:
  assumes room: "length (held s) \<le> 13" and k: "k \<le> 2097307"
    and use: "usable s (set (p_blocks s (parts3 di k)))" and dist: "distinct (p_blocks s (parts3 di k))"
  shows "collects di v (p_blocks s (parts3 di k)) (clear_indirect3 di (k - 155) v) s"
proof (cases "k - 155 > 16384")
  case True
  have le: "k - 155 \<le> 2097152" using k by simp
  let ?T = "tree_blocks s 3 (indirect3 di) (min (128 ^ 3) (k - 16539 - 0))"
  have T: "p_blocks s (parts3 di k) = ?T" using True by (simp add: parts3_def forest_Cons(3))
  have "indirect3 di # tl ?T = ?T" by (simp add: numeral_3_eq_3 tree_Suc)
  then have "(v @ [indirect3 di]) @ tl ?T = v @ ?T" by simp
  moreover have "collect_tree_blocks 3 (k - 16539) (v @ [indirect3 di]) (indirect3 di) 0 s =
      Inr ((0 + min (128 ^ 3) (k - 16539 - 0), (v @ [indirect3 di]) @ tl ?T), s)"
    using True room use dist unfolding T by (intro collect_tree_eq) simp_all
  ultimately have "collect_tree_blocks 3 (k - 16539) (v @ [indirect3 di]) (indirect3 di) 0 s =
      Inr ((min (128 ^ 3) (k - 16539), v @ ?T), s)" by simp
  then have "clear_indirect3 di (k - 155) v s = Inr ((v @ ?T, di\<lparr>indirect3 := 0\<rparr>), s)"
    using True le by (simp add: clear_indirect3_def layout_consts thn_def assert_that_def bnd_ret bnd_Inr ret_def)
  then show ?thesis unfolding collects_def T by auto
next
  case False
  then have "p_blocks s (parts3 di k) = []" by (simp add: parts3_def)
  with False k show ?thesis
    by (simp add: collects_def clear_indirect3_def layout_consts thn_def assert_that_def bnd_ret ret_def)
qed

lemma clear_indirect2_eq:
  assumes ok: "store_ok s" and room: "length (held s) \<le> 13" and k: "k \<le> 2097307"
    and use: "usable s (set (p_blocks s (parts2 di k)))" and dist: "distinct (p_blocks s (parts2 di k))"
  shows "collects di v (p_blocks s (parts2 di k)) (clear_indirect2 di (k - 27) v) s"
proof (cases "k - 27 > 128")
  case True
  let ?r = "indirect2 di" and ?k = "min (k - 155) 16384"
  have T: "all_blocks s 2 [?r] (k - 155) = ?r # all_blocks s 1 (ind s ?r) ?k"
    using True tree_Suc(3) [of s 1 ?r ?k] by (simp add: forest_Cons(3) numeral_2_eq_2 min.commute)
  have B: "p_blocks s (parts2 di k) = (?r # all_blocks s 1 (ind s ?r) ?k) @ p_blocks s (parts3 di k)"
    unfolding parts2_def parts_simps T ..
  have u: "usable (entered ?r s) (set (all_blocks (entered ?r s) 1 (ind s ?r) ?k))"
    using use dist unfolding B by (auto simp: usable_def)
  have "acquirable ?r s" using usable_acquirable [OF use] room unfolding B by simp
  moreover have "collect_indirect2 (?k div 128) (?k mod 128) (ind s ?r) (v @ [?r]) (entered ?r s) =
      Inr ((v @ [?r]) @ all_blocks (entered ?r s) 1 (ind s ?r) ?k, entered ?r s)"
    using ok room by (intro collect_indirect2_eq [OF _ _ _ u]) simp_all
  ultimately have "modify_as IndirectBlock ?r 0 (\<lambda>ind2.
      bnd (collect_indirect2 (?k div 128) (?k mod 128) ind2 (v @ [?r])) (\<lambda>v. ret (v, ind2))) s =
      Inr (v @ ?r # all_blocks s 1 (ind s ?r) ?k, s)" (is "?m = Inr (?v, s)")
    using ok by (intro modify_same) (simp_all add: bnd_Inr ret_def)
  then have "clear_indirect2 di (k - 27) v s = clear_indirect3 (di\<lparr>indirect2 := 0\<rparr>) (k - 155) ?v s"
    using True by (simp add: clear_indirect2_def layout_consts decompose2_def bnd_Inr Let_def)
  moreover have "collects (di\<lparr>indirect2 := 0\<rparr>) ?v (p_blocks s (parts3 di k))
      (clear_indirect3 (di\<lparr>indirect2 := 0\<rparr>) (k - 155) ?v) s"
    using clear_indirect3_eq [OF room k, of "di\<lparr>indirect2 := 0\<rparr>" ?v] use dist unfolding B by (simp add: parts3_def)
  ultimately show ?thesis unfolding collects_def B by (auto intro: same_file_trans [OF same_file_roots(2)])
next
  case False
  then have "p_blocks s (parts2 di k) = []" by (simp add: parts_defs)
  with False show ?thesis by (simp add: collects_def clear_indirect2_def layout_consts ret_def)
qed

lemma clear_indirect1_eq:
  assumes ok: "store_ok s" and room: "length (held s) \<le> 13" and k: "k \<le> 2097307"
    and use: "usable s (set (p_blocks s (parts1 di k)))" and dist: "distinct (p_blocks s (parts1 di k))"
  shows "collects di v (p_blocks s (parts1 di k)) (clear_indirect1 di k v) s"
proof (cases "k > 27")
  case True
  let ?r = "indirect1 di" and ?k = "min (k - 27) 128"
  have T: "all_blocks s 1 [?r] (k - 27) = ?r # segment 0 ?k (ind s ?r)"
    using True by (simp add: forest_Cons(3) tree_Suc forest_0 min.commute segment_def)
  have B: "p_blocks s (parts1 di k) = (?r # segment 0 ?k (ind s ?r)) @ p_blocks s (parts2 di k)"
    unfolding parts1_def parts_simps T ..
  have "acquirable ?r s" using usable_acquirable [OF use] room unfolding B by simp
  moreover have "(collect_loop 0 ?k (ind s ?r) (v @ [?r]) :: (store, _) action) = ret ((v @ [?r]) @ segment 0 ?k (ind s ?r))"
    by (rule collect_loop_eq) simp_all
  ultimately have "modify_as IndirectBlock ?r 0 (\<lambda>ind1.
      bnd (collect_loop 0 ?k ind1 (v @ [?r])) (\<lambda>v. ret (v, ind1))) s = Inr (v @ ?r # segment 0 ?k (ind s ?r), s)"
    (is "?m = Inr (?v, s)")
    using ok by (intro modify_same) (simp_all add: bnd_ret ret_def)
  then have "clear_indirect1 di k v s = clear_indirect2 (di\<lparr>indirect1 := 0\<rparr>) (k - 27) ?v s"
    using True by (simp add: clear_indirect1_def layout_consts bnd_Inr Let_def)
  moreover have "collects (di\<lparr>indirect1 := 0\<rparr>) ?v (p_blocks s (parts2 di k))
      (clear_indirect2 (di\<lparr>indirect1 := 0\<rparr>) (k - 27) ?v) s"
    using clear_indirect2_eq [OF ok room k, of "di\<lparr>indirect1 := 0\<rparr>" ?v] use dist unfolding B by (simp add: parts_defs)
  ultimately show ?thesis unfolding collects_def B by (auto intro: same_file_trans [OF same_file_roots(1)])
next
  case False
  then have "p_blocks s (parts1 di k) = []" by (simp add: parts_defs)
  with False show ?thesis by (simp add: collects_def clear_indirect1_def layout_consts ret_def)
qed

text \<open>\<open>clear_size\<close> asserts that the blocks behind \<open>indirect1\<close> are at most \<open>INODE_INDIRECT3_COUNT\<close>.\<close>

definition CLEAR_MAX :: nat where
  "CLEAR_MAX = INDIRECT1_BOUND + INODE_INDIRECT3_COUNT"

lemma clear_size_eq:
  assumes ok: "inode_ok s di" "store_ok s" and room: "length (held s) \<le> 13" and k: "data_blocks di \<le> CLEAR_MAX"
  shows "\<exists>di'. inode_size di' = 0 \<and> inode_type di' = inode_type di \<and> disk_inode_ok di' \<and>
    DiskInode_clear_size di s = Inr ((inode_blocks s di, di'), s)"
proof -
  let ?k = "data_blocks di" and ?m = "min (data_blocks di) 27"
  define di1 where "di1 = di\<lparr>inode_size := 0, direct := splice_at 0 (replicate ?m 0) (direct di)\<rparr>"
  have D: "words_ok 4 27 (direct di)" "length (direct di) = 27"
    using ok(1) by (simp_all add: inode_ok_def disk_inode_ok_def words_ok_def)
  have run: "clear_direct_loop 0 ?m (direct di) [] = (ret (splice_at 0 (replicate ?m 0) (direct di), [] @ segment 0 ?m (direct di)) :: (store, _) action)"
    using D(2) by (intro clear_direct_loop_eq) simp_all
  have d: "segment 0 ?m (direct di) = all_blocks s 0 (direct di) ?k"
    using D(2) by (simp add: segment_def forest_0 min_def)
  have p1: "parts1 di1 ?k = parts1 di ?k" by (simp add: di1_def parts_defs)
  have "disk_inode_ok di1"
    using ok(1) D(2) words_ok_splice [OF D(1), of 0 "replicate ?m 0"]
    by (simp add: inode_ok_def disk_inode_ok_def di1_def)
  moreover have "collects di1 (all_blocks s 0 (direct di) ?k) (p_blocks s (parts1 di ?k))
      (clear_indirect1 di1 ?k (all_blocks s 0 (direct di) ?k)) s"
    using ok room k
    by (intro clear_indirect1_eq [of s ?k di1, unfolded p1])
      (simp_all add: inode_ok_def inode_blocks_def inode_parts_def CLEAR_MAX_def layout_consts)
  moreover have "DiskInode_clear_size di s = clear_indirect1 di1 ?k (all_blocks s 0 (direct di) ?k) s"
    by (simp add: DiskInode_clear_size_def layout_consts run bnd_ret d di1_def Let_def)
  ultimately show ?thesis
    by (auto simp: collects_def same_file_def inode_blocks_def inode_parts_def di1_def)
qed

text \<open>Above that bound the assertion fails, whatever the blocks hold.\<close>

lemma clear_size_panics:
  assumes "CLEAR_MAX < data_blocks di"
  shows "\<exists>e. DiskInode_clear_size di s = Inl e"
proof -
  let ?k = "data_blocks di"
  have k: "27 < ?k" "128 < ?k - 27" "\<not> ?k - 27 - 128 \<le> INODE_INDIRECT3_COUNT"
    using assms by (simp_all add: CLEAR_MAX_def layout_consts)
  have "clear_indirect3 di' (?k - 27 - 128) v s = Inl AssertFailed" for di' v s
    using k(3) by (simp add: clear_indirect3_def action_defs)
  then have "\<exists>e. clear_indirect2 di' (?k - 27) v s = Inl e" for di' v s
    using k(2) unfolding clear_indirect2_def layout_consts Let_def split_beta if_P [OF k(2)] by (intro bnd_panics) simp
  then have "\<exists>e. clear_indirect1 di' ?k v s = Inl e" for di' v s
    unfolding clear_indirect1_def layout_consts Let_def if_P [OF k(1)] by (intro bnd_panics) simp
  then show ?thesis
    unfolding DiskInode_clear_size_def Let_def by (intro bnd_panics) (simp add: split_beta)
qed

section \<open>Data blocks and index blocks\<close>

lemma mset_forest_add:
  assumes "\<And>b k. 0 < k \<Longrightarrow> mset (t b k) = mset (u b k) + mset (v b k)" and "0 < c"
  shows "mset (forest t c bs k) = mset (forest u c bs k) + mset (forest v c bs k)"
  by (induction bs arbitrary: k) (use assms in auto)

lemma mset_tree_blocks: "0 < k \<Longrightarrow> mset (tree_blocks s h b k) = mset (tree_inner s h b k) + mset (tree_leaves s h b k)"
proof (induction h arbitrary: b k)
  case (Suc h)
  then show ?case
    using mset_forest_add [of "tree_blocks s h" "tree_inner s h" "tree_leaves s h" "128 ^ h"]
    by (simp add: tree_blocks.simps(2) tree_inner.simps(2) tree_leaves.simps(2))
qed simp

lemma mset_p_blocks: "mset (p_blocks s ps) = mset (p_inner s ps @ p_leaves s ps)"
proof (induction ps)
  case (Cons p ps)
  obtain h bs k where "p = (h, bs, k)" by (cases p)
  moreover have "mset (all_blocks s h bs k) = mset (inner s h bs k) + mset (leaves s h bs k)"
    unfolding all_blocks_def inner_def leaves_def by (rule mset_forest_add) (simp_all add: mset_tree_blocks)
  ultimately show ?case using Cons by simp
qed simp

lemma inode_blocks_split:
  assumes "inode_ok s di"
  shows "distinct (inode_index s di @ inode_leaves s di)"
    "set (inode_blocks s di) = set (inode_index s di) \<union> set (inode_leaves s di)"
proof -
  have m: "mset (inode_blocks s di) = mset (inode_index s di @ inode_leaves s di)"
    unfolding inode_blocks_def inode_index_def inode_leaves_def by (rule mset_p_blocks)
  have "distinct (inode_blocks s di)" using assms by (simp add: inode_ok_def)
  then show "distinct (inode_index s di @ inode_leaves s di)" using mset_eq_imp_distinct_iff [OF m] by simp
  show "set (inode_blocks s di) = set (inode_index s di) \<union> set (inode_leaves s di)"
    using mset_eq_setD [OF m] by simp
qed

text \<open>Writing a block that is not an index block leaves the shape of the file alone.\<close>

lemma inode_frame:
  assumes "\<forall>c \<in> set (inode_index s di). blocks s' c = blocks s c"
  shows "inode_leaves s' di = inode_leaves s di" "inode_index s' di = inode_index s di"
    "inode_blocks s' di = inode_blocks s di"
  using assms parts_frame [of s "inode_parts di (data_blocks di)" s']
  unfolding inode_leaves_def inode_index_def inode_blocks_def by auto

lemma inode_ok_frame:
  assumes "inode_ok s di" and "\<forall>c \<in> set (inode_index s di). blocks s' c = blocks s c"
    and "nblocks s' = nblocks s" and "held s' = held s"
  shows "inode_ok s' di"
  using assms inode_frame [OF assms(2)] by (simp add: inode_ok_def usable_def)

section \<open>Contents\<close>

definition contents :: "store \<Rightarrow> disk_inode \<Rightarrow> byte list" where
  "contents s di = concat (map (blocks s) (inode_leaves s di))"

definition file_bytes :: "store \<Rightarrow> disk_inode \<Rightarrow> byte list" where
  "file_bytes s di = take (inode_size di) (contents s di)"

lemma length_concat_blocks: "\<forall>b \<in> set bs. length b = n \<Longrightarrow> length (concat bs) = length bs * n"
  by (induction bs) simp_all

lemma length_contents: "inode_ok s di \<Longrightarrow> store_ok s \<Longrightarrow> length (contents s di) = data_blocks di * 512"
  using length_concat_blocks [of "map (blocks s) (inode_leaves s di)" 512]
  by (simp add: contents_def length_inode_leaves inode_ok_def)

lemma size_le_blocks: "inode_size di \<le> MAX_SIZE \<Longrightarrow> inode_size di \<le> data_blocks di * 512"
proof -
  assume "inode_size di \<le> MAX_SIZE"
  then have "data_blocks di = (inode_size di + 511) div 512"
    by (simp add: data_blocks_def size_data_blocks_cdiv cdiv_def)
  moreover have "x \<le> (x + 511) div 512 * 512" for x :: nat by linarith
  ultimately show ?thesis by simp
qed

lemma length_file_bytes: "inode_ok s di \<Longrightarrow> store_ok s \<Longrightarrow> length (file_bytes s di) = inode_size di"
  using size_le_blocks [of di] by (simp add: file_bytes_def length_contents inode_ok_def)

text \<open>A piece of one block is a piece of the contents.\<close>

lemma segment_concat:
  assumes "\<forall>b \<in> set bs. length b = c" and "i < length bs" and "off + n \<le> c"
  shows "segment (i * c + off) n (concat bs) = segment off n (bs ! i)"
  using assms
proof (induction bs arbitrary: i)
  case (Cons b bs)
  then show ?case
  proof (cases i)
    case (Suc j)
    with Cons have "segment (j * c + off) n (concat bs) = segment off n (bs ! j)" by simp
    with Suc Cons.prems show ?thesis by (simp add: segment_def add.assoc)
  qed (simp add: segment_def)
qed simp

lemma splice_concat:
  assumes "\<forall>b \<in> set bs. length b = c" and "i < length bs" and "off + length src \<le> c"
  shows "concat (bs[i := splice_at off src (bs ! i)]) = splice_at (i * c + off) src (concat bs)"
  using assms
proof (induction bs arbitrary: i)
  case (Cons b bs)
  then show ?case
  proof (cases i)
    case (Suc j)
    with Cons have "concat (bs[j := splice_at off src (bs ! j)]) = splice_at (j * c + off) src (concat bs)" by simp
    with Suc Cons.prems show ?thesis by (simp add: splice_at_def add.assoc)
  qed (simp add: splice_at_def)
qed simp

lemma segment_append: "segment off n xs @ segment (off + n) m xs = segment off (n + m) xs"
  by (simp add: segment_def take_add add.commute [of off n])

lemma splice_splice:
  "off + length xs \<le> length dst \<Longrightarrow> splice_at (off + length xs) ys (splice_at off xs dst) = splice_at off (xs @ ys) dst"
  by (simp add: splice_at_def ac_simps)

section \<open>Reading\<close>

text \<open>One round of the loops: the part of the range in the current block.\<close>

lemma block_piece:
  assumes "start < (stop :: nat)"
  defines "stop' \<equiv> min ((start div 512 + 1) * 512) stop"
  shows "start < stop'" "stop' \<le> stop" "start mod 512 + (stop' - start) \<le> 512" "stop' = stop \<or> stop' div 512 = start div 512 + 1"
proof -
  define q where "q = start div 512"
  define r where "r = start mod 512"
  have "start = q * 512 + r" "r < 512" by (simp_all add: q_def r_def)
  then have "start < min ((q + 1) * 512) stop" "r + (min ((q + 1) * 512) stop - start) \<le> 512"
    using assms(1) by auto
  then show "start < stop'" "stop' \<le> stop" "start mod 512 + (stop' - start) \<le> 512"
    unfolding stop'_def q_def r_def by simp_all
  show "stop' = stop \<or> stop' div 512 = start div 512 + 1"
    unfolding stop'_def by (cases "(start div 512 + 1) * 512 \<le> stop") (simp_all add: min_def)
qed

lemma size_block: "i < inode_size di \<Longrightarrow> inode_size di \<le> MAX_SIZE \<Longrightarrow> i div 512 < data_blocks di"
  using size_le_blocks [of di] by (intro less_mult_imp_div_less) simp

lemma data_blocks_u32: "inode_size di \<le> MAX_SIZE \<Longrightarrow> i < data_blocks di \<Longrightarrow> u32 i = i"
  using size_data_blocks_max [of "inode_size di"] by (intro u32_id) (simp add: data_blocks_def max_consts)

lemma leaf_facts:
  assumes "inode_ok s di" and "i < data_blocks di" and "length (held s) < 16"
  shows "inode_leaves s di ! i \<in> set (inode_leaves s di)" "acquirable (inode_leaves s di ! i) s"
proof -
  show mem: "inode_leaves s di ! i \<in> set (inode_leaves s di)"
    using assms(1,2) by (intro nth_mem) (simp add: length_inode_leaves inode_ok_def)
  have "usable s (set (inode_blocks s di))" using assms(1) by (simp add: inode_ok_def)
  then show "acquirable (inode_leaves s di ! i) s"
    by (rule usable_acquirable [OF _ assms(3)]) (use mem inode_blocks_split(2) [OF assms(1)] in blast)
qed

lemma contents_piece:
  assumes "inode_ok s di" and "store_ok s" and "start div 512 < data_blocks di" and "start mod 512 + n \<le> 512"
  shows "segment (start mod 512) n (blocks s (inode_leaves s di ! (start div 512))) = segment start n (contents s di)"
proof -
  have len: "length (inode_leaves s di) = data_blocks di" using assms(1) by (simp add: length_inode_leaves inode_ok_def)
  have "segment (start div 512 * 512 + start mod 512) n (concat (map (blocks s) (inode_leaves s di))) =
      segment (start mod 512) n (map (blocks s) (inode_leaves s di) ! (start div 512))"
    using assms(2-4) len by (intro segment_concat) simp_all
  then show ?thesis using assms(3) len by (simp add: contents_def)
qed

lemma read_loop_eq:
  assumes ok: "inode_ok s di" "store_ok s" and room: "length (held s) < 16" and stop: "stop \<le> inode_size di"
  shows "start < stop \<Longrightarrow> rd + (stop - start) \<le> length buf \<Longrightarrow>
    read_loop di stop start (start div 512) rd buf s =
      Inr ((rd + (stop - start), splice_at rd (segment start (stop - start) (contents s di)) buf), s)"
proof (induction "stop - start" arbitrary: start rd buf rule: less_induct)
  case less
  define stop' where "stop' = min ((start div 512 + 1) * 512) stop"
  define n where "n = stop' - start"
  let ?i = "start div 512" and ?b = "inode_leaves s di ! (start div 512)"
  let ?src = "segment start n (contents s di)"
  note p = block_piece [OF less.prems(1), folded stop'_def]
  have M: "inode_size di \<le> MAX_SIZE" using ok(1) by (simp add: inode_ok_def)
  have i: "?i < data_blocks di" using less.prems(1) stop M by (intro size_block) simp_all
  have n: "start mod 512 + n \<le> 512" "n \<le> stop - start" "0 < n" using p by (simp_all add: n_def)
  have len: "length ?src = n" using size_le_blocks [OF M] stop n(2) less.prems(1) by (simp add: length_contents [OF ok])
  have id: "get_block_id di (u32 ?i) s = Inr (?b, s)"
    using get_block_id_eq [OF ok(1) room i] data_blocks_u32 [OF M i] by simp
  have rd: "read_as DataBlock ?b 0 (slice_range (start mod 512) n) s = Inr (?src, s)"
    using leaf_facts(2) [OF ok(1) i room] n(1) ok(2) contents_piece [OF ok i n(1)]
    by (intro read_as_eq) (simp_all add: slice_range_def ret_def)
  have step: "read_loop di stop start ?i rd buf s =
      (if stop' = stop then Inr ((rd + n, splice_at rd ?src buf), s)
       else read_loop di stop stop' (?i + 1) (rd + n) (splice_at rd ?src buf) s)"
    using less.prems(2) n(2)
    unfolding read_loop.simps [of di stop start] BLOCK_SZ_def Let_def stop'_def [symmetric] n_def [symmetric]
    by (simp add: slice_range_def thn_def bnd_ret) (simp add: bnd_def id rd ret_def)
  show ?case
  proof (cases "stop' = stop")
    case True
    then show ?thesis by (simp add: step n_def)
  next
    case False
    then have "stop' < stop" "?i + 1 = stop' div 512" using p(2,4) by simp_all
    moreover have "stop - stop' < stop - start" using p(1,2) less.prems(1) by simp
    moreover have "rd + n + (stop - stop') \<le> length (splice_at rd ?src buf)"
      using less.prems(2) n(2) p(1,2) len by (simp add: n_def)
    ultimately have "read_loop di stop stop' (?i + 1) (rd + n) (splice_at rd ?src buf) s =
        Inr ((rd + n + (stop - stop'), splice_at (rd + n) (segment stop' (stop - stop') (contents s di)) (splice_at rd ?src buf)), s)"
      using less.hyps by simp
    moreover have "splice_at (rd + n) (segment stop' (stop - stop') (contents s di)) (splice_at rd ?src buf) =
        splice_at rd (segment start (stop - start) (contents s di)) buf"
    proof -
      have "?src @ segment (start + n) (stop - stop') (contents s di) = segment start (n + (stop - stop')) (contents s di)"
        by (rule segment_append)
      moreover have "start + n = stop'" "n + (stop - stop') = stop - start" using p(1,2) by (simp_all add: n_def)
      ultimately show ?thesis
        using splice_splice [of rd ?src buf "segment stop' (stop - stop') (contents s di)"] len less.prems(2) n(2) by simp
    qed
    ultimately show ?thesis using False p(1,2) by (simp add: step n_def)
  qed
qed

lemma segment_take: "off + n \<le> m \<Longrightarrow> segment off n (take m xs) = segment off n xs"
  by (simp add: segment_def drop_take min_absorb1)

lemma read_at_eq:
  assumes ok: "inode_ok s di" "store_ok s" and room: "length (held s) < 16"
  shows "DiskInode_read_at di offset buf s =
    (let n = min (length buf) (inode_size di - offset)
     in Inr ((n, splice_at 0 (segment offset n (file_bytes s di)) buf), s))"
proof (cases "min (offset + length buf) (inode_size di) \<le> offset")
  case True
  then have "min (length buf) (inode_size di - offset) = 0" by auto
  then show ?thesis using True by (simp add: DiskInode_read_at_def Let_def ret_def segment_def)
next
  case False
  define stop where "stop = min (offset + length buf) (inode_size di)"
  have n: "stop - offset = min (length buf) (inode_size di - offset)" "offset < stop" "stop \<le> inode_size di"
    using False by (auto simp: stop_def)
  have "read_loop di stop offset (offset div 512) 0 buf s =
      Inr ((0 + (stop - offset), splice_at 0 (segment offset (stop - offset) (contents s di)) buf), s)"
    using n by (intro read_loop_eq [OF ok room]) simp_all
  moreover have "segment offset (stop - offset) (contents s di) = segment offset (stop - offset) (file_bytes s di)"
    using n unfolding file_bytes_def by (intro segment_take [symmetric]) simp
  ultimately show ?thesis
    using False n unfolding DiskInode_read_at_def stop_def [symmetric] by (simp add: Let_def BLOCK_SZ_def)
qed

section \<open>Writing\<close>

text \<open>Only data blocks of the file change.\<close>

definition data_only :: "disk_inode \<Rightarrow> store \<Rightarrow> store \<Rightarrow> bool" where
  "data_only di s s' \<longleftrightarrow> (\<forall>c. c \<notin> set (inode_leaves s di) \<longrightarrow> blocks s' c = blocks s c) \<and>
     nblocks s' = nblocks s \<and> held s' = held s \<and> store_ok s'"

lemma data_only_frame:
  assumes "inode_ok s di" and "data_only di s s'"
  shows "inode_leaves s' di = inode_leaves s di" "inode_index s' di = inode_index s di"
    "inode_blocks s' di = inode_blocks s di" "inode_ok s' di"
proof -
  have same: "\<forall>c \<in> set (inode_index s di). blocks s' c = blocks s c"
    using assms(2) inode_blocks_split(1) [OF assms(1)] by (auto simp: data_only_def)
  show "inode_leaves s' di = inode_leaves s di" "inode_index s' di = inode_index s di"
    "inode_blocks s' di = inode_blocks s di" by (rule inode_frame [OF same])+
  show "inode_ok s' di" using assms(2) by (intro inode_ok_frame [OF assms(1) same]) (simp_all add: data_only_def)
qed

lemma data_only_refl: "store_ok s \<Longrightarrow> data_only di s s"
  by (simp add: data_only_def)

lemma data_only_trans:
  "inode_ok s di \<Longrightarrow> data_only di s s1 \<Longrightarrow> data_only di s1 s2 \<Longrightarrow> data_only di s s2"
  using data_only_frame(1) [of s di s1] by (simp add: data_only_def)

lemma write_piece:
  assumes ok: "inode_ok s di" "store_ok s" and i: "start div 512 < data_blocks di" and n: "start mod 512 + length src \<le> 512"
    and b: "b = inode_leaves s di ! (start div 512)" and s1: "s1 = set_block b (splice_at (start mod 512) src (blocks s b)) s"
  shows "data_only di s s1" "contents s1 di = splice_at start src (contents s di)"
proof -
  let ?i = "start div 512" and ?L = "inode_leaves s di"
  have len: "length ?L = data_blocks di" using ok(1) by (simp add: length_inode_leaves inode_ok_def)
  have "b \<in> set ?L" using i len by (simp add: b)
  then show d: "data_only di s s1" using ok(2) n by (auto simp: data_only_def s1)
  have "distinct ?L" using inode_blocks_split(1) [OF ok(1)] by simp
  then have "map (blocks s1) ?L = (map (blocks s) ?L)[?i := splice_at (start mod 512) src (map (blocks s) ?L ! ?i)]"
    using i len by (intro nth_equalityI) (auto simp: s1 b nth_list_update nth_eq_iff_index_eq)
  moreover have "concat ((map (blocks s) ?L)[?i := splice_at (start mod 512) src (map (blocks s) ?L ! ?i)]) =
      splice_at (?i * 512 + start mod 512) src (concat (map (blocks s) ?L))"
    using ok(2) i len n by (intro splice_concat) simp_all
  ultimately have "contents s1 di = splice_at (?i * 512 + start mod 512) src (concat (map (blocks s) ?L))"
    unfolding contents_def data_only_frame(1) [OF ok(1) d] by simp
  then show "contents s1 di = splice_at start src (contents s di)" by (simp add: contents_def)
qed

lemma wp_write_loop:
  assumes stop: "stop \<le> inode_size di"
  shows "inode_ok s di \<Longrightarrow> store_ok s \<Longrightarrow> length (held s) < 16 \<Longrightarrow> start < stop \<Longrightarrow> w + (stop - start) \<le> length buf \<Longrightarrow>
    wp (write_loop di stop start (start div 512) w buf)
      (\<lambda>r s'. r = w + (stop - start) \<and> data_only di s s' \<and>
        contents s' di = splice_at start (segment w (stop - start) buf) (contents s di)) s"
proof (induction "stop - start" arbitrary: start w s rule: less_induct)
  case less
  define stop' where "stop' = min ((start div 512 + 1) * 512) stop"
  define n where "n = stop' - start"
  define b where "b = inode_leaves s di ! (start div 512)"
  define src where "src = segment w n buf"
  define s1 where "s1 = set_block b (splice_at (start mod 512) src (blocks s b)) s"
  let ?i = "start div 512"
  note ok = less.prems(1,2) and room = less.prems(3)
  note p = block_piece [OF less.prems(4), folded stop'_def]
  have M: "inode_size di \<le> MAX_SIZE" using ok(1) by (simp add: inode_ok_def)
  have i: "?i < data_blocks di" using less.prems(4) stop M by (intro size_block) simp_all
  have n: "start mod 512 + n \<le> 512" "n \<le> stop - start" "0 < n" "start + n = stop'" using p by (simp_all add: n_def)
  have len: "length src = n" using n(2) less.prems(5) by (simp add: src_def)
  have acq: "acquirable b s" unfolding b_def by (rule leaf_facts(2) [OF ok(1) i room])
  have id: "get_block_id di (u32 ?i) s = Inr (b, s)"
    using get_block_id_eq [OF ok(1) room i] data_blocks_u32 [OF M i] by (simp add: b_def)
  have W: "data_only di s s1" "contents s1 di = splice_at start src (contents s di)"
    using write_piece [OF ok i _ b_def s1_def] len n(1) by simp_all
  note f = data_only_frame [OF ok(1) W(1)]
  have step: "wp (write_loop di stop start ?i w buf) Q s =
      (if stop' = stop then Q (w + n) s1 else wp (write_loop di stop stop' (?i + 1) (w + n) buf) Q s1)" for Q
    using less.prems(5) n(1,2) acq ok(2) len
    unfolding write_loop.simps [of di stop start] BLOCK_SZ_def Let_def stop'_def [symmetric] n_def [symmetric] wp_bnd
    by (simp add: wp_Inr [where m = "get_block_id di (u32 ?i)" and s = s, OF id] wp_simps slice_range_def src_def [symmetric] s1_def)
  show ?case
  proof (cases "stop' = stop")
    case True
    then show ?thesis using W n(4) by (simp add: step n_def src_def)
  next
    case False
    then have lt: "stop' < stop" "?i + 1 = stop' div 512" using p(2,4) by simp_all
    have "store_ok s1" "held s1 = held s" using W(1) by (simp_all add: data_only_def)
    then have "wp (write_loop di stop stop' (?i + 1) (w + n) buf) (\<lambda>r s'. r = w + n + (stop - stop') \<and> data_only di s1 s' \<and>
        contents s' di = splice_at stop' (segment (w + n) (stop - stop') buf) (contents s1 di)) s1"
      unfolding lt(2) using lt(1) p(1) less.prems n f(4) by (intro less.hyps) auto
    then show ?thesis
      using False unfolding step
    proof (simp, elim wp_conseq conjE)
      fix r s'
      assume r: "r = w + n + (stop - stop')" "data_only di s1 s'"
        and c: "contents s' di = splice_at stop' (segment (w + n) (stop - stop') buf) (contents s1 di)"
      have "length (contents s di) = data_blocks di * 512" by (rule length_contents [OF ok])
      then have "start + length src \<le> length (contents s di)"
        using size_le_blocks [OF M] stop p(2) n(4) len by simp
      from splice_splice [OF this, of "segment (w + n) (stop - stop') buf"]
      have "contents s' di = splice_at start (segment w n buf @ segment (w + n) (stop - stop') buf) (contents s di)"
        unfolding c W(2) len n(4) by (simp only: src_def)
      moreover have "n + (stop - stop') = stop - start" using n(4) p(2) by simp
      ultimately show "r = w + (stop - start) \<and> data_only di s s' \<and>
          contents s' di = splice_at start (segment w (stop - start) buf) (contents s di)"
        using r data_only_trans [OF ok(1) W(1) r(2)] by (simp add: segment_append)
    qed
  qed
qed

lemma take_splice: "off + length xs \<le> m \<Longrightarrow> m \<le> length ys \<Longrightarrow> take m (splice_at off xs ys) = splice_at off xs (take m ys)"
  by (simp add: splice_at_def min_absorb1 min_absorb2 drop_take)

text \<open>A write inside the file; \<open>increase_size\<close> has made room before.\<close>

lemma wp_write_at:
  assumes ok: "inode_ok s di" "store_ok s" and room: "length (held s) < 16"
    and fit: "offset + length buf \<le> inode_size di" and ne: "buf \<noteq> []"
  shows "wp (DiskInode_write_at di offset buf) (\<lambda>n s'. n = length buf \<and> data_only di s s' \<and>
    contents s' di = splice_at offset buf (contents s di) \<and>
    file_bytes s' di = splice_at offset buf (file_bytes s di)) s"
proof -
  have stop: "min (offset + length buf) (inode_size di) = offset + length buf" using fit by simp
  have M: "inode_size di \<le> MAX_SIZE" using ok(1) by (simp add: inode_ok_def)
  have "wp (write_loop di (offset + length buf) offset (offset div 512) 0 buf)
      (\<lambda>r s'. r = 0 + (offset + length buf - offset) \<and> data_only di s s' \<and>
        contents s' di = splice_at offset (segment 0 (offset + length buf - offset) buf) (contents s di)) s"
    using ok room fit ne by (intro wp_write_loop) simp_all
  then have "wp (write_loop di (offset + length buf) offset (offset div 512) 0 buf)
      (\<lambda>n s'. n = length buf \<and> data_only di s s' \<and> contents s' di = splice_at offset buf (contents s di) \<and>
        file_bytes s' di = splice_at offset buf (file_bytes s di)) s"
    by (rule wp_conseq) (use fit size_le_blocks [OF M] length_contents [OF ok] in \<open>auto simp: file_bytes_def take_splice\<close>)
  then show ?thesis
    using stop by (simp add: DiskInode_write_at_def Let_def wp_simps BLOCK_SZ_def)
qed

end
