(* ===== verification/File_System.thy ===== *)
theory File_System
  imports Vfs Inode_Ops
begin

text \<open>
  The file system as a whole. A formatted device holds two bitmaps, the inode area and the data
  area; this theory gives the invariant that ties them together (every block of a file is
  marked in the data bitmap and belongs to one file, every unmarked block is zero) and shows that
  the operations of \<open>vfs.rs\<close> implement a map from inode numbers to byte arrays.
\<close>

section \<open>Records on disk\<close>

lemma get_le_append: "w * i + w \<le> length xs \<Longrightarrow> get_le w (xs @ ys) i = get_le w xs i"
  by (simp add: get_le_def segment_def)

lemma disk_inode_words:
  assumes "disk_inode_ok di"
  defines "ws \<equiv> inode_size di # direct di @ [indirect1 di, indirect2 di, indirect3 di]"
  shows "length ws = 31" "\<forall>x \<in> set ws. x < 256 ^ 4"
  using assms by (auto simp: disk_inode_ok_def words_ok_def)

lemma DiskInode_get_put:
  assumes "disk_inode_ok di"
  shows "v_get DiskInode (v_put DiskInode di bs) = di"
proof -
  define ws where "ws = inode_size di # direct di @ [indirect1 di, indirect2 di, indirect3 di]"
  define xs where "xs = enc_array 4 ws @ (case inode_type di of File \<Rightarrow> 0 | Directory \<Rightarrow> 1) # drop 125 bs"
  note w = disk_inode_words [OF assms, folded ws_def]
  have g: "get_le 4 xs i = ws ! i" if "i < 31" for i
    using that w get_le_append [of 4 i "enc_array 4 ws"] by (simp add: xs_def get_le_enc_array)
  have len: "length (direct di) = 27" using assms by simp
  have "map (get_le 4 xs) [1..<28] = direct di"
    by (rule nth_equalityI) (use len g in \<open>auto simp: ws_def nth_append\<close>)
  moreover have "get_le 4 xs 0 = inode_size di" "get_le 4 xs 28 = indirect1 di" "get_le 4 xs 29 = indirect2 di"
    "get_le 4 xs 30 = indirect3 di"
    using g [of 0] g [of 28] g [of 29] g [of 30] len by (simp_all add: ws_def nth_append)
  moreover have "xs ! 124 = (case inode_type di of File \<Rightarrow> 0 | Directory \<Rightarrow> 1)"
    using w(1) by (simp add: xs_def nth_append)
  ultimately show ?thesis
    by (simp add: DiskInode_def xs_def ws_def split: disk_inode_type.splits)
qed

interpretation disk_inode_view: view_laws DiskInode disk_inode_ok
proof
  fix bs :: "byte list" and di
  assume len: "length bs = v_size DiskInode"
  show "length (v_put DiskInode di bs) = v_size DiskInode" if "disk_inode_ok di"
    using len disk_inode_words(1) [OF that] by (simp add: DiskInode_def)
  show "v_get DiskInode (v_put DiskInode di bs) = di" if "disk_inode_ok di"
    by (rule DiskInode_get_put [OF that])
  have "get_le 4 bs i < 256 ^ 4" if "i < 31" for i
    using len that by (intro get_le_less) (simp add: DiskInode_def)
  then show "disk_inode_ok (v_get DiskInode bs)"
    by (auto simp: disk_inode_ok_def words_ok_def DiskInode_def)
qed

definition super_block_ok :: "super_block \<Rightarrow> bool" where
  "super_block_ok sb \<longleftrightarrow> magic sb < 2 ^ 32 \<and> sb_total_blocks sb < 2 ^ 32 \<and> sb_inode_bitmap_blocks sb < 2 ^ 32 \<and>
     sb_inode_area_blocks sb < 2 ^ 32 \<and> sb_data_bitmap_blocks sb < 2 ^ 32 \<and> sb_data_area_blocks sb < 2 ^ 32"

interpretation super_block_view: view_laws SuperBlock super_block_ok
proof
  fix bs :: "byte list" and sb
  assume len: "length bs = v_size SuperBlock"
  show "length (v_put SuperBlock sb bs) = v_size SuperBlock" by (simp add: SuperBlock_def)
  show "v_get SuperBlock (v_put SuperBlock sb bs) = sb" if "super_block_ok sb"
    using that by (simp add: SuperBlock_def super_block_ok_def get_le_enc_array)
  have "get_le 4 bs i < 256 ^ 4" if "i < 6" for i
    using len that by (intro get_le_less) (simp add: SuperBlock_def)
  then show "super_block_ok (v_get SuperBlock bs)" by (simp add: super_block_ok_def SuperBlock_def)
qed

section \<open>The areas of the device\<close>

definition data_area :: "easy_file_system \<Rightarrow> store \<Rightarrow> nat set" where
  "data_area fs s = {data_area_start_block fs ..< nblocks s}"

definition inode_area :: "easy_file_system \<Rightarrow> nat set" where
  "inode_area fs = {inode_area_start_block fs ..< start_block_id (data_bitmap fs)}"

definition fs_layout :: "easy_file_system \<Rightarrow> store \<Rightarrow> bool" where
  "fs_layout fs s \<longleftrightarrow>
     start_block_id (inode_bitmap fs) = 1 \<and>
     inode_area_start_block fs = 1 + bitmap_blocks (inode_bitmap fs) \<and>
     start_block_id (data_bitmap fs) = inode_area_start_block fs + 1024 * bitmap_blocks (inode_bitmap fs) \<and>
     data_area_start_block fs = start_block_id (data_bitmap fs) + bitmap_blocks (data_bitmap fs) \<and>
     data_area_start_block fs \<le> nblocks s \<and> nblocks s < 2 ^ 32 \<and>
     nblocks s - data_area_start_block fs \<le> maximum (data_bitmap fs) \<and>
     maximum (inode_bitmap fs) \<le> 2 ^ 32"

text \<open>The place of an inode.\<close>

definition inode_blk :: "easy_file_system \<Rightarrow> nat \<Rightarrow> nat" where
  "inode_blk fs i = inode_area_start_block fs + i div 4"

definition inode_off :: "nat \<Rightarrow> nat" where
  "inode_off i = i mod 4 * 128"

definition inode_at :: "easy_file_system \<Rightarrow> store \<Rightarrow> nat \<Rightarrow> disk_inode" where
  "inode_at fs s i = view_at DiskInode (inode_off i) (blocks s (inode_blk fs i))"

lemma DiskInode_size [simp]: "v_size DiskInode = 128"
  by (simp add: DiskInode_def)

lemma inode_off_fits [simp]: "inode_off i + 128 \<le> 512"
proof -
  have "i mod 4 < 4" by simp
  then show ?thesis by (simp add: inode_off_def)
qed

lemma inode_blk_area:
  assumes "fs_layout fs s" and "i < maximum (inode_bitmap fs)"
  shows "inode_blk fs i \<in> inode_area fs"
proof -
  have "i div 4 < 1024 * bitmap_blocks (inode_bitmap fs)"
    using assms(2) by (intro less_mult_imp_div_less) (simp add: maximum_eq)
  then show ?thesis using assms(1) by (simp add: inode_blk_def inode_area_def fs_layout_def)
qed

lemma areas_disjoint:
  assumes "fs_layout fs s"
  shows "inode_area fs \<inter> data_area fs s = {}" "bm_region (data_bitmap fs) \<inter> data_area fs s = {}"
    "bm_region (inode_bitmap fs) \<inter> data_area fs s = {}" "inode_area fs \<inter> bm_region (data_bitmap fs) = {}"
    "inode_area fs \<inter> bm_region (inode_bitmap fs) = {}" "bm_region (inode_bitmap fs) \<inter> bm_region (data_bitmap fs) = {}"
  using assms by (auto simp: fs_layout_def inode_area_def data_area_def bm_region_def)

lemma areas_below: "fs_layout fs s \<Longrightarrow> b \<in> inode_area fs \<union> data_area fs s \<Longrightarrow> b < nblocks s \<and> b < 2 ^ 32"
  by (auto simp: fs_layout_def inode_area_def data_area_def)

lemma get_disk_inode_pos_eq:
  assumes "fs_layout fs s" and "i < maximum (inode_bitmap fs)"
  shows "get_disk_inode_pos fs i = (inode_blk fs i, inode_off i)"
  using areas_below [OF assms(1), of "inode_blk fs i"] inode_blk_area [OF assms]
  by (simp add: get_disk_inode_pos_def BLOCK_SZ_def inode_blk_def inode_off_def)

text \<open>Different inodes are in different places.\<close>

lemma inode_slots_disjoint:
  assumes "i \<noteq> j" and "inode_blk fs i = inode_blk fs j"
  shows "inode_off i + 128 \<le> inode_off j \<or> inode_off j + 128 \<le> inode_off i"
proof -
  have "i div 4 = j div 4" using assms(2) by (simp add: inode_blk_def)
  then have "i mod 4 \<noteq> j mod 4" using assms(1) div_mult_mod_eq [of i 4] div_mult_mod_eq [of j 4] by auto
  then show ?thesis by (auto simp: inode_off_def)
qed

definition put_inode :: "easy_file_system \<Rightarrow> nat \<Rightarrow> disk_inode \<Rightarrow> store \<Rightarrow> store" where
  "put_inode fs i di s =
     set_block (inode_blk fs i) (put_at DiskInode (inode_off i) di (blocks s (inode_blk fs i))) s"

lemma put_inode_simps [simp]:
  "nblocks (put_inode fs i di s) = nblocks s" "held (put_inode fs i di s) = held s"
  "b \<noteq> inode_blk fs i \<Longrightarrow> blocks (put_inode fs i di s) b = blocks s b"
  by (simp_all add: put_inode_def)

lemma store_ok_put_inode: "store_ok s \<Longrightarrow> disk_inode_ok di \<Longrightarrow> store_ok (put_inode fs i di s)"
  using disk_inode_view.put_at_length [of "inode_off i" "blocks s (inode_blk fs i)" di]
  by (simp add: put_inode_def)

lemma inode_at_put:
  assumes "store_ok s" and "disk_inode_ok di"
  shows "inode_at fs (put_inode fs i di s) j = (if j = i then di else inode_at fs s j)"
proof (cases "inode_blk fs j = inode_blk fs i")
  case True
  then show ?thesis
    using assms inode_slots_disjoint [of j i fs] disk_inode_view.view_put_same [of "inode_off i" "blocks s (inode_blk fs i)" di]
      disk_inode_view.view_put_other [of "inode_off i" "blocks s (inode_blk fs i)" di "inode_off j" DiskInode]
    by (auto simp: inode_at_def put_inode_def)
next
  case False
  then show ?thesis by (auto simp: inode_at_def)
qed

lemma inode_at_cong: "blocks s' (inode_blk fs i) = blocks s (inode_blk fs i) \<Longrightarrow> inode_at fs s' i = inode_at fs s i"
  by (simp add: inode_at_def)

section \<open>The invariant\<close>

definition marked :: "easy_file_system \<Rightarrow> store \<Rightarrow> nat \<Rightarrow> bool" where
  "marked fs s b \<longleftrightarrow> bm_bit (data_bitmap fs) s (b - data_area_start_block fs)"

definition free_blocks :: "easy_file_system \<Rightarrow> store \<Rightarrow> nat set" where
  "free_blocks fs s = {b \<in> data_area fs s. \<not> marked fs s b}"

definition zeros :: "byte list \<Rightarrow> bool" where
  "zeros bs \<longleftrightarrow> (\<forall>x \<in> set bs. x = 0)"

text \<open>Being inside an operation: some blocks of the inode area are held.\<close>

definition holds_ok :: "easy_file_system \<Rightarrow> store \<Rightarrow> bool" where
  "holds_ok fs s \<longleftrightarrow> set (held s) \<subseteq> inode_area fs \<and> length (held s) \<le> 12"

text \<open>One file, given by its inode.\<close>

definition file_ok :: "easy_file_system \<Rightarrow> store \<Rightarrow> disk_inode \<Rightarrow> bool" where
  "file_ok fs s di \<longleftrightarrow> inode_ok s di \<and> set (inode_blocks s di) \<subseteq> data_area fs s \<and>
     (\<forall>b \<in> set (inode_blocks s di). marked fs s b) \<and> zeros (drop (inode_size di) (contents s di))"

text \<open>
  The state of the file system when the inodes are \<open>D\<close>. An operation works on a copy of an inode
  and writes it back at its end, so \<open>D\<close> is not always what is on the device.
\<close>

definition fs_rel :: "easy_file_system \<Rightarrow> store \<Rightarrow> nat set \<Rightarrow> (nat \<Rightarrow> disk_inode) \<Rightarrow> bool" where
  "fs_rel fs s I D \<longleftrightarrow> store_ok s \<and> fs_layout fs s \<and> holds_ok fs s \<and>
     (\<forall>i \<in> I. file_ok fs s (D i)) \<and>
     (\<forall>i \<in> I. \<forall>j \<in> I. i \<noteq> j \<longrightarrow> set (inode_blocks s (D i)) \<inter> set (inode_blocks s (D j)) = {}) \<and>
     (\<forall>b \<in> free_blocks fs s. zeros (blocks s b))"

definition fs_inodes :: "easy_file_system \<Rightarrow> store \<Rightarrow> nat set" where
  "fs_inodes fs s = bm_live (inode_bitmap fs) s"

text \<open>The super block describes the file system.\<close>

definition super_describes :: "easy_file_system \<Rightarrow> byte list \<Rightarrow> bool" where
  "super_describes fs bs \<longleftrightarrow> (let sb = view_at SuperBlock 0 bs in SuperBlock_is_valid sb \<and>
     inode_bitmap fs = Bitmap_new 1 (sb_inode_bitmap_blocks sb) \<and>
     data_bitmap fs = Bitmap_new (start_block_id (data_bitmap fs)) (sb_data_bitmap_blocks sb) \<and>
     sb_inode_area_blocks sb = 1024 * sb_inode_bitmap_blocks sb)"

definition fs_inv :: "easy_file_system \<Rightarrow> store \<Rightarrow> bool" where
  "fs_inv fs s \<longleftrightarrow> fs_rel fs s (fs_inodes fs s) (inode_at fs s) \<and> held s = [] \<and> super_describes fs (blocks s 0)"

lemma fs_relD:
  assumes "fs_rel fs s I D"
  shows "store_ok s" "fs_layout fs s" "holds_ok fs s" "\<And>i. i \<in> I \<Longrightarrow> file_ok fs s (D i)"
    "\<And>i j. i \<in> I \<Longrightarrow> j \<in> I \<Longrightarrow> i \<noteq> j \<Longrightarrow> set (inode_blocks s (D i)) \<inter> set (inode_blocks s (D j)) = {}"
    "\<And>b. b \<in> free_blocks fs s \<Longrightarrow> zeros (blocks s b)"
  using assms by (auto simp: fs_rel_def)

lemma zeros_eq: "zeros bs \<longleftrightarrow> bs = replicate (length bs) 0"
  by (induction bs) (auto simp: zeros_def)

lemma zeros_append [simp]: "zeros (xs @ ys) \<longleftrightarrow> zeros xs \<and> zeros ys"
  by (auto simp: zeros_def)

lemma zeros_drop: "zeros xs \<Longrightarrow> zeros (drop n xs)"
  by (auto simp: zeros_def dest: in_set_dropD)

lemma fs_layout_cong: "nblocks s' = nblocks s \<Longrightarrow> fs_layout fs s' = fs_layout fs s"
  by (simp add: fs_layout_def)

lemma usable_data:
  assumes "fs_layout fs s" "holds_ok fs s" and "B \<subseteq> data_area fs s"
  shows "usable s B"
  unfolding usable_def
proof
  fix b assume "b \<in> B"
  then have "b \<in> data_area fs s" using assms(3) by auto
  then show "b < nblocks s \<and> b \<notin> set (held s) \<and> b < 2 ^ 32"
    using areas_below [OF assms(1), of b] areas_disjoint(1) [OF assms(1)] assms(2) by (auto simp: holds_ok_def)
qed

text \<open>A file only depends on its own blocks, on their marks, and on what is held.\<close>

lemma contents_frame:
  assumes "\<forall>c \<in> set (inode_blocks s di). blocks s' c = blocks s c" and "inode_ok s di"
  shows "contents s' di = contents s di" "inode_blocks s' di = inode_blocks s di" "inode_leaves s' di = inode_leaves s di"
    "file_bytes s' di = file_bytes s di"
proof -
  note sp = inode_blocks_split(2) [OF assms(2)]
  have f: "\<forall>c \<in> set (inode_index s di). blocks s' c = blocks s c" using assms(1) sp by auto
  note g = inode_frame [OF f]
  show "inode_blocks s' di = inode_blocks s di" "inode_leaves s' di = inode_leaves s di" by (rule g)+
  show c: "contents s' di = contents s di"
    using assms(1) sp unfolding contents_def g by (intro arg_cong [where f = concat] map_cong) auto
  show "file_bytes s' di = file_bytes s di" by (simp add: file_bytes_def c)
qed

lemma file_ok_frame:
  assumes "file_ok fs s di" and "\<forall>c \<in> set (inode_blocks s di). blocks s' c = blocks s c \<and> (marked fs s c \<longrightarrow> marked fs s' c)"
    and "nblocks s' = nblocks s" and "fs_layout fs s" and "holds_ok fs s'"
  shows "file_ok fs s' di" "file_bytes s' di = file_bytes s di" "inode_blocks s' di = inode_blocks s di"
proof -
  have io: "inode_ok s di" using assms(1) by (simp add: file_ok_def)
  have "\<forall>c \<in> set (inode_blocks s di). blocks s' c = blocks s c" using assms(2) by blast
  note f = contents_frame [OF this io]
  show "file_bytes s' di = file_bytes s di" "inode_blocks s' di = inode_blocks s di" by (rule f)+
  have l: "fs_layout fs s'" "data_area fs s' = data_area fs s"
    using assms(3,4) fs_layout_cong [OF assms(3)] by (simp_all add: data_area_def)
  have sub: "set (inode_blocks s di) \<subseteq> data_area fs s" using assms(1) by (simp add: file_ok_def)
  then have "usable s' (set (inode_blocks s di))" using assms(5) by (intro usable_data [OF l(1)]) (simp_all add: l(2))
  then show "file_ok fs s' di" using assms(1,2) io l sub by (auto simp: file_ok_def inode_ok_def f)
qed

lemma marked_cong:
  assumes "\<forall>c \<in> bm_region (data_bitmap fs). blocks s' c = blocks s c" and "fs_layout fs s" and "b \<in> data_area fs s"
  shows "marked fs s' b = marked fs s b"
proof -
  have "b - data_area_start_block fs < maximum (data_bitmap fs)"
    using assms(2,3) by (auto simp: fs_layout_def data_area_def)
  then have "(b - data_area_start_block fs) div 4096 < bitmap_blocks (data_bitmap fs)"
    by (intro less_mult_imp_div_less) (simp add: maximum_eq)
  then show ?thesis using assms(1) by (simp add: marked_def bm_bit_def bm_words_def bm_region_def)
qed

text \<open>The state of the file system only depends on the bitmaps and the data area.\<close>

lemma fs_rel_frame:
  assumes rel: "fs_rel fs s I D" and same: "\<forall>b. b \<notin> inode_area fs \<union> bm_region (inode_bitmap fs) \<longrightarrow> blocks s' b = blocks s b"
    and n: "nblocks s' = nblocks s" and h: "holds_ok fs s'" and ok: "store_ok s'"
  shows "fs_rel fs s' I D" "\<And>i. i \<in> I \<Longrightarrow> file_bytes s' (D i) = file_bytes s (D i)" "free_blocks fs s' = free_blocks fs s"
proof -
  note R = fs_relD [OF rel] and A = areas_disjoint [OF fs_relD(2) [OF rel]]
  have l: "fs_layout fs s'" "data_area fs s' = data_area fs s" "holds_ok fs s'"
    using R(2) n h fs_layout_cong [OF n] by (simp_all add: data_area_def)
  have b: "blocks s' c = blocks s c" if "c \<in> data_area fs s \<union> bm_region (data_bitmap fs)" for c
    by (rule same [rule_format]) (use that A in auto)
  have m: "marked fs s' c = marked fs s c" if "c \<in> data_area fs s" for c
    using b by (intro marked_cong [OF _ R(2) that]) auto
  show fr: "free_blocks fs s' = free_blocks fs s" using m by (auto simp: free_blocks_def l)
  have f: "file_ok fs s' (D i) \<and> file_bytes s' (D i) = file_bytes s (D i) \<and> inode_blocks s' (D i) = inode_blocks s (D i)"
    if "i \<in> I" for i
  proof -
    have sub: "set (inode_blocks s (D i)) \<subseteq> data_area fs s" using R(4) [OF that] by (simp add: file_ok_def)
    have "\<forall>c \<in> set (inode_blocks s (D i)). blocks s' c = blocks s c \<and> (marked fs s c \<longrightarrow> marked fs s' c)"
      using sub b m by blast
    from file_ok_frame [OF R(4) [OF that] this n R(2) l(3)] show ?thesis by simp
  qed
  then show "\<And>i. i \<in> I \<Longrightarrow> file_bytes s' (D i) = file_bytes s (D i)" by simp
  have "zeros (blocks s' c)" if "c \<in> free_blocks fs s'" for c
    using R(6) [of c] that b [of c] unfolding fr by (simp add: free_blocks_def)
  then show "fs_rel fs s' I D" using R(5) l ok f by (simp add: fs_rel_def)
qed

section \<open>Allocation of data blocks\<close>

lemma data_bm_inv: "fs_layout fs s \<Longrightarrow> store_ok s \<Longrightarrow> holds_ok fs s \<Longrightarrow> bm_inv (data_bitmap fs) s"
proof -
  assume L: "fs_layout fs s" "store_ok s" "holds_ok fs s"
  then have "bm_region (data_bitmap fs) \<inter> set (held s) = {}"
    using areas_disjoint(4) [OF L(1)] unfolding holds_ok_def by blast
  then show ?thesis using L by (simp add: bm_inv_def fs_layout_def holds_ok_def)
qed

definition allocated :: "easy_file_system \<Rightarrow> store \<Rightarrow> nat list \<Rightarrow> store \<Rightarrow> bool" where
  "allocated fs s ns s' \<longleftrightarrow> distinct ns \<and> set ns \<subseteq> free_blocks fs s \<and> store_ok s' \<and>
     same_outside (bm_region (data_bitmap fs)) s s' \<and>
     (\<forall>b \<in> data_area fs s. marked fs s' b \<longleftrightarrow> marked fs s b \<or> b \<in> set ns)"

lemma wp_alloc_data:
  assumes L: "fs_layout fs s" "store_ok s" "holds_ok fs s" and free: "free_blocks fs s \<noteq> {}"
  shows "wp (alloc_data fs) (\<lambda>b s'. allocated fs s [b] s') s"
proof -
  let ?bm = "data_bitmap fs" and ?d = "data_area_start_block fs"
  from free obtain b0 where b0: "b0 \<in> data_area fs s" "\<not> bm_bit ?bm s (b0 - ?d)" by (auto simp: free_blocks_def marked_def)
  have b0m: "b0 - ?d < maximum ?bm" using b0(1) L(1) by (auto simp: data_area_def fs_layout_def)
  show ?thesis
    unfolding alloc_data_def wp_bnd [of "Bitmap_alloc _"]
  proof (rule wp_conseq [OF wp_Bitmap_alloc [OF data_bm_inv [OF L]]])
    fix r s'
    assume post: "alloc_post ?bm s r s'"
    have "b0 - ?d \<in> bm_free ?bm s" using b0(2) b0m by (simp add: bm_free_def)
    then obtain i where r: "r = Some i" using post by (cases r) (auto simp: alloc_post_def)
    have i: "i \<in> bm_free ?bm s" "\<forall>j < i. bm_bit ?bm s j" "bm_inv ?bm s'"
      "\<And>j. bm_bit ?bm s' j \<longleftrightarrow> bm_bit ?bm s j \<or> j = i" "same_outside (bm_region ?bm) s s'"
      using post by (simp_all add: alloc_post_def r)
    have "i \<le> b0 - ?d"
    proof (rule leI, rule notI)
      assume "b0 - ?d < i"
      then show False using i(2) b0(2) by simp
    qed
    then have le: "?d + i \<le> b0" "b0 < nblocks s" using b0(1) by (auto simp: data_area_def)
    then have mem: "?d + i \<in> data_area fs s" by (simp add: data_area_def)
    have lt: "?d + i < 2 ^ 32" using areas_below [OF L(1), of "?d + i"] mem by simp
    then have u: "u32 (u32 i + ?d) = ?d + i" by (simp add: add.commute)
    have "marked fs s' b \<longleftrightarrow> marked fs s b \<or> b = ?d + i" if "b \<in> data_area fs s" for b
    proof -
      have "b - ?d = i \<longleftrightarrow> b = ?d + i" using that by (auto simp: data_area_def)
      then show ?thesis by (simp add: marked_def i(4))
    qed
    moreover have "?d + i \<in> free_blocks fs s" using mem i(1) by (simp add: free_blocks_def marked_def bm_free_def)
    ultimately have "allocated fs s [?d + i] s'" using i(3,5) by (simp add: allocated_def bm_inv_def)
    then show "wp (bnd (unwrap r) (\<lambda>i. ret (u32 (u32 i + ?d)))) (\<lambda>b s'. allocated fs s [b] s') s'"
      by (simp add: r wp_simps u)
  qed
qed

lemma allocated_layout:
  assumes "allocated fs s ns s'" and "fs_layout fs s" and "holds_ok fs s"
  shows "fs_layout fs s'" "holds_ok fs s'" "data_area fs s' = data_area fs s" "free_blocks fs s' = free_blocks fs s - set ns"
proof -
  have n: "nblocks s' = nblocks s" "held s' = held s" using assms(1) by (simp_all add: allocated_def same_outside_def)
  show "fs_layout fs s'" "holds_ok fs s'" "data_area fs s' = data_area fs s"
    using assms(2,3) n fs_layout_cong [OF n(1)] by (simp_all add: holds_ok_def data_area_def)
  then show "free_blocks fs s' = free_blocks fs s - set ns" using assms(1) by (auto simp: free_blocks_def allocated_def)
qed

lemma allocated_trans:
  assumes "allocated fs s ns s1" and "allocated fs s1 ms s2" and "fs_layout fs s" and "holds_ok fs s"
  shows "allocated fs s (ns @ ms) s2"
proof -
  note l = allocated_layout [OF assms(1,3,4)]
  have a: "distinct ns" "set ns \<subseteq> free_blocks fs s" "same_outside (bm_region (data_bitmap fs)) s s1"
    "distinct ms" "set ms \<subseteq> free_blocks fs s - set ns" "same_outside (bm_region (data_bitmap fs)) s1 s2" "store_ok s2"
    using assms(1,2) by (simp_all add: allocated_def l(4))
  have "same_outside (bm_region (data_bitmap fs)) s s2" using same_outside_trans [OF a(3,6)] by simp
  moreover have "\<forall>b \<in> data_area fs s. marked fs s2 b \<longleftrightarrow> marked fs s b \<or> b \<in> set (ns @ ms)"
    using assms(1,2) by (simp add: allocated_def l(3))
  moreover have "distinct (ns @ ms)" "set (ns @ ms) \<subseteq> free_blocks fs s" using a by auto
  ultimately show ?thesis using a(7) by (simp add: allocated_def)
qed

lemma wp_alloc_data_loop:
  "fs_layout fs s \<Longrightarrow> store_ok s \<Longrightarrow> holds_ok fs s \<Longrightarrow> n \<le> card (free_blocks fs s) \<Longrightarrow>
    wp (alloc_data_loop fs n v) (\<lambda>r s'. \<exists>ns. r = v @ ns \<and> length ns = n \<and> allocated fs s ns s') s"
proof (induction n arbitrary: v s)
  case 0
  then show ?case by (simp add: wp_ret allocated_def)
next
  case (Suc n)
  have fin: "finite (free_blocks fs s)" by (simp add: free_blocks_def data_area_def)
  then have "free_blocks fs s \<noteq> {}" using Suc.prems(4) by auto
  from wp_alloc_data [OF Suc.prems(1-3) this] show ?case
    unfolding alloc_data_loop.simps wp_bnd
  proof (rule wp_conseq)
    fix b s1
    assume a: "allocated fs s [b] s1"
    note l = allocated_layout [OF a Suc.prems(1,3)]
    have "b \<in> free_blocks fs s" "store_ok s1" using a by (simp_all add: allocated_def)
    then have "n \<le> card (free_blocks fs s1)" using Suc.prems(4) fin by (simp add: l(4))
    from Suc.IH [OF l(1) \<open>store_ok s1\<close> l(2) this, of "v @ [b]"]
    show "wp (alloc_data_loop fs n (v @ [b])) (\<lambda>r s'. \<exists>ns. r = v @ ns \<and> length ns = Suc n \<and> allocated fs s ns s') s1"
    proof (rule wp_conseq, elim exE conjE)
      fix r s' ns
      assume "r = (v @ [b]) @ ns" "length ns = n" "allocated fs s1 ns s'"
      then show "\<exists>ns. r = v @ ns \<and> length ns = Suc n \<and> allocated fs s ns s'"
        using allocated_trans [OF a _ Suc.prems(1,3), of ns s'] by (intro exI [of _ "b # ns"]) simp
    qed
  qed
qed

section \<open>Growing a file\<close>

lemma allocated_new:
  assumes rel: "fs_rel fs s I D" and i: "i \<in> I" and a: "allocated fs s ns s1"
  shows "distinct (inode_blocks s (D i) @ ns)" "usable s1 (set ns)" "inode_ok s1 (D i)"
    "inode_blocks s1 (D i) = inode_blocks s (D i)" "inode_leaves s1 (D i) = inode_leaves s (D i)"
proof -
  note R = fs_relD [OF rel] and l = allocated_layout [OF a fs_relD(2,3) [OF rel]]
  note f = R(4) [OF i, unfolded file_ok_def]
  have ns: "distinct ns" "set ns \<subseteq> free_blocks fs s" using a by (simp_all add: allocated_def)
  then show "distinct (inode_blocks s (D i) @ ns)" using f by (auto simp: free_blocks_def inode_ok_def)
  show "usable s1 (set ns)" using ns(2) by (intro usable_data [OF l(1,2)]) (auto simp: l(3) free_blocks_def)
  have "blocks s1 c = blocks s c" if "c \<in> data_area fs s" for c
    using a areas_disjoint(2) [OF R(2)] that by (auto simp: allocated_def same_outside_def)
  then have b: "\<forall>c \<in> set (inode_blocks s (D i)). blocks s1 c = blocks s c" using f by blast
  have io: "inode_ok s (D i)" using f by simp
  note c = contents_frame [OF b io]
  show "inode_blocks s1 (D i) = inode_blocks s (D i)" "inode_leaves s1 (D i) = inode_leaves s (D i)" by (rule c)+
  show "inode_ok s1 (D i)" using io f usable_data [OF l(1,2), of "set (inode_blocks s (D i))"]
    by (simp add: inode_ok_def c l(3))
qed

text \<open>The contents of a grown file: the old ones and fresh blocks, which are zero.\<close>

lemma grown_contents:
  assumes rel: "fs_rel fs s I D" and i: "i \<in> I" and a: "allocated fs s ns s1"
    and g: "inode_grown (D i) s1 di' s2 ns" and ok: "inode_ok s2 di'"
  obtains Z where "contents s2 di' = contents s (D i) @ Z" "zeros Z"
proof -
  note R = fs_relD [OF rel] and n = allocated_new [OF rel i a]
  note sp = inode_blocks_split [OF ok] and sp1 = inode_blocks_split [OF n(3)]
  have G: "prefix (inode_leaves s (D i)) (inode_leaves s2 di')"
    "set (inode_blocks s2 di') = set (inode_blocks s (D i)) \<union> set ns"
    "set (inode_index s1 (D i)) \<subseteq> set (inode_index s2 di')"
    "\<And>c. c \<notin> set (inode_index s2 di') \<Longrightarrow> blocks s2 c = blocks s1 c"
    using g by (simp_all add: inode_grown_def n(4,5))
  obtain xs where xs: "inode_leaves s2 di' = inode_leaves s (D i) @ xs" using G(1) by (auto simp: prefix_def)
  have data: "blocks s1 c = blocks s c" if "c \<in> data_area fs s" for c
    using a areas_disjoint(2) [OF R(2)] that by (auto simp: allocated_def same_outside_def)
  have sub: "set (inode_leaves s2 di') \<subseteq> data_area fs s"
    using sp(2) G(2) R(4) [OF i] a by (auto simp: file_ok_def allocated_def free_blocks_def)
  have same: "blocks s2 c = blocks s c" if "c \<in> set (inode_leaves s2 di')" for c
  proof -
    have "c \<notin> set (inode_index s2 di')" using sp(1) that by auto
    then show ?thesis using G(4) data sub that by auto
  qed
  have fresh: "set xs \<subseteq> set ns"
  proof
    fix x assume x: "x \<in> set xs"
    then have "x \<notin> set (inode_leaves s (D i))" "x \<notin> set (inode_index s2 di')"
      using sp(1) unfolding xs by auto
    then have "x \<notin> set (inode_blocks s (D i))" using sp1(2) G(3) n(4,5) by auto
    moreover have "x \<in> set (inode_blocks s2 di')" using sp(2) x unfolding xs by auto
    ultimately show "x \<in> set ns" using G(2) by auto
  qed
  have "contents s2 di' = concat (map (blocks s) (inode_leaves s2 di'))"
    unfolding contents_def using same by (intro arg_cong [where f = concat] map_cong) auto
  then have "contents s2 di' = contents s (D i) @ concat (map (blocks s) xs)" by (simp add: contents_def xs)
  moreover have "zeros (blocks s x)" if "x \<in> set xs" for x
    using R(6) [of x] fresh a that by (auto simp: allocated_def)
  then have "zeros (concat (map (blocks s) xs))" by (auto simp: zeros_def)
  ultimately show thesis by (rule that)
qed

lemma take_zero_tail:
  assumes "zeros (drop n xs)" and "zeros zs" and "n \<le> m" and "n \<le> length xs" and "m \<le> length (xs @ zs)"
  shows "take m (xs @ zs) = take n xs @ replicate (m - n) 0" "zeros (drop m (xs @ zs))"
proof -
  define ys where "ys = drop n xs @ zs"
  have e: "xs @ zs = take n xs @ ys" "length (take n xs) = n" using assms(4) by (simp_all add: ys_def)
  have z: "zeros ys" using assms(1,2) by (simp add: ys_def)
  then have y: "ys = replicate (length ys) 0" by (simp only: zeros_eq [of ys])
  have "m - n \<le> length ys" using assms(5) unfolding e by simp
  then have "take (m - n) ys = replicate (m - n) 0" by (subst y) (simp add: min_absorb1)
  then show "take m (xs @ zs) = take n xs @ replicate (m - n) 0" unfolding e using e(2) assms(3) by simp
  show "zeros (drop m (xs @ zs))" unfolding e using e(2) assms(3) z by (simp add: zeros_drop)
qed

text \<open>What a step on the file \<open>i\<close> leaves alone.\<close>

definition others_same :: "easy_file_system \<Rightarrow> store \<Rightarrow> nat set \<Rightarrow> (nat \<Rightarrow> disk_inode) \<Rightarrow> nat \<Rightarrow> store \<Rightarrow> bool" where
  "others_same fs s I D i s' \<longleftrightarrow> (\<forall>j \<in> I. j \<noteq> i \<longrightarrow> file_bytes s' (D j) = file_bytes s (D j)) \<and>
     same_outside (bm_region (data_bitmap fs) \<union> data_area fs s) s s'"

lemma fs_rel_update:
  assumes rel: "fs_rel fs s I D" and i: "i \<in> I" and ok: "store_ok s'"
    and same: "same_outside (bm_region (data_bitmap fs) \<union> data_area fs s) s s'"
    and blocks: "\<And>c. c \<in> data_area fs s \<Longrightarrow> c \<notin> B \<Longrightarrow> blocks s' c = blocks s c"
    and marks: "\<And>c. c \<in> data_area fs s \<Longrightarrow> c \<notin> B \<Longrightarrow> marked fs s' c = marked fs s c"
    and B: "\<And>b. b \<in> B \<Longrightarrow> b \<in> set (inode_blocks s (D i)) \<or> b \<in> free_blocks fs s"
    and fil: "file_ok fs s' di'" "set (inode_blocks s' di') \<subseteq> B \<union> set (inode_blocks s (D i))"
    and zero: "\<And>b. b \<in> B \<Longrightarrow> \<not> marked fs s' b \<Longrightarrow> zeros (blocks s' b)"
  shows "fs_rel fs s' I (D(i := di'))" "others_same fs s I D i s'"
proof -
  note R = fs_relD [OF rel]
  have n: "nblocks s' = nblocks s" "held s' = held s" using same by (simp_all add: same_outside_def)
  have l: "fs_layout fs s'" "data_area fs s' = data_area fs s" "holds_ok fs s'"
    using R(2,3) n fs_layout_cong [OF n(1)] by (simp_all add: data_area_def holds_ok_def)
  have other: "file_ok fs s' (D j) \<and> file_bytes s' (D j) = file_bytes s (D j) \<and> inode_blocks s' (D j) = inode_blocks s (D j)"
    and disj: "set (inode_blocks s (D j)) \<inter> (B \<union> set (inode_blocks s (D i))) = {}"
    if j: "j \<in> I" "j \<noteq> i" for j
  proof -
    have sub: "set (inode_blocks s (D j)) \<subseteq> data_area fs s" "\<And>b. b \<in> set (inode_blocks s (D j)) \<Longrightarrow> marked fs s b"
      using R(4) [OF j(1)] by (simp_all add: file_ok_def)
    show d: "set (inode_blocks s (D j)) \<inter> (B \<union> set (inode_blocks s (D i))) = {}"
      using R(5) [OF j(1) i j(2)] B sub(2) by (auto simp: free_blocks_def)
    have "\<forall>c \<in> set (inode_blocks s (D j)). blocks s' c = blocks s c \<and> (marked fs s c \<longrightarrow> marked fs s' c)"
      using sub(1) d blocks marks by blast
    from file_ok_frame [OF R(4) [OF j(1)] this n(1) R(2) l(3)]
    show "file_ok fs s' (D j) \<and> file_bytes s' (D j) = file_bytes s (D j) \<and> inode_blocks s' (D j) = inode_blocks s (D j)"
      by simp
  qed
  show "others_same fs s I D i s'" unfolding others_same_def using other same by simp
  have disj': "set (inode_blocks s' ((D(i := di')) j)) \<inter> set (inode_blocks s' ((D(i := di')) k)) = {}"
    if "j \<in> I" "k \<in> I" "j \<noteq> k" for j k
  proof -
    have e: "set (inode_blocks s' di') \<inter> set (inode_blocks s' (D m)) = {}" if "m \<in> I" "m \<noteq> i" for m
      using disj [OF that] other [OF that] fil(2) by auto
    show ?thesis
      using e [of j] e [of k] that R(5) [OF that] other [of j] other [of k] by (cases "j = i"; cases "k = i") auto
  qed
  have "zeros (blocks s' b)" if "b \<in> free_blocks fs s'" for b
    using that zero [of b] blocks [of b] marks [of b] R(6) [of b] l(2) by (cases "b \<in> B") (auto simp: free_blocks_def)
  then show "fs_rel fs s' I (D(i := di'))"
    unfolding fs_rel_def using ok l other fil(1) disj' by auto
qed

lemma total_blocks_mono: "a \<le> b \<Longrightarrow> b \<le> MAX_SIZE \<Longrightarrow> total_blocks a \<le> total_blocks b"
  by (simp add: total_blocks_count inode_count_mono size_data_blocks_mono)

lemma total_blocks_less: "a \<le> MAX_SIZE \<Longrightarrow> total_blocks a < 2 ^ 32"
  by (simp add: total_blocks_def Let_def)

lemma wp_blocks_num_needed:
  assumes "inode_size di \<le> sz" and "sz \<le> MAX_SIZE"
  shows "wp (blocks_num_needed di sz) Q s = Q (total_blocks sz - total_blocks (inode_size di)) s"
proof -
  have "total_blocks (inode_size di) \<le> total_blocks sz" using assms by (rule total_blocks_mono)
  then have "total_blocks sz + 2 ^ 32 - total_blocks (inode_size di) = (total_blocks sz - total_blocks (inode_size di)) + 2 ^ 32"
    by simp
  then have "u32 (total_blocks sz + 2 ^ 32 - total_blocks (inode_size di)) = total_blocks sz - total_blocks (inode_size di)"
    using total_blocks_less [OF assms(2)] by (simp only: u32_def mod_add_self2) simp
  then show ?thesis using assms(1) by (simp add: blocks_num_needed_def wp_simps)
qed

definition grow_post ::
    "easy_file_system \<Rightarrow> store \<Rightarrow> nat set \<Rightarrow> (nat \<Rightarrow> disk_inode) \<Rightarrow> nat \<Rightarrow> nat \<Rightarrow> disk_inode \<Rightarrow> store \<Rightarrow> bool" where
  "grow_post fs s I D i sz di' s' \<longleftrightarrow> fs_rel fs s' I (D(i := di')) \<and> others_same fs s I D i s' \<and>
     inode_size di' = max (inode_size (D i)) sz \<and> inode_type di' = inode_type (D i) \<and>
     file_bytes s' di' = file_bytes s (D i) @ replicate (sz - inode_size (D i)) 0 \<and>
     card (free_blocks fs s') = card (free_blocks fs s) - (total_blocks sz - total_blocks (inode_size (D i)))"

lemma grow_postI:
  assumes rel: "fs_rel fs s I D" and i: "i \<in> I" and a: "allocated fs s ns s1"
    and sz: "inode_size (D i) \<le> sz" "inode_size di' = sz" "inode_type di' = inode_type (D i)"
    and ok: "inode_ok s2 di'" and g: "inode_grown (D i) s1 di' s2 ns"
    and ln: "length ns = total_blocks sz - total_blocks (inode_size (D i))"
  shows "grow_post fs s I D i sz di' s2"
proof -
  note R = fs_relD [OF rel] and l = allocated_layout [OF a fs_relD(2,3) [OF rel]] and n = allocated_new [OF rel i a]
  note A = areas_disjoint [OF R(2)]
  let ?B = "set (inode_blocks s (D i)) \<union> set ns"
  have G: "set (inode_blocks s2 di') = ?B" "\<And>c. c \<notin> set (inode_index s2 di') \<Longrightarrow> blocks s2 c = blocks s1 c"
    "nblocks s2 = nblocks s1" "held s2 = held s1" "store_ok s2"
    using g by (simp_all add: inode_grown_def n(4))
  have inB: "set (inode_index s2 di') \<subseteq> ?B" using inode_blocks_split(2) [OF ok] G(1) by auto
  have Bd: "?B \<subseteq> data_area fs s" using R(4) [OF i] a by (auto simp: file_ok_def allocated_def free_blocks_def)
  have s1: "same_outside (bm_region (data_bitmap fs)) s s1" using a by (simp add: allocated_def)
  have "blocks s2 c = blocks s1 c" if "c \<notin> data_area fs s" for c by (rule G(2)) (use inB Bd that in auto)
  then have s12: "same_outside (data_area fs s) s1 s2" using G(3,4) by (simp add: same_outside_def)
  have m: "marked fs s2 c = (marked fs s c \<or> c \<in> set ns)" if "c \<in> data_area fs s" for c
  proof -
    have "\<forall>b \<in> bm_region (data_bitmap fs). blocks s2 b = blocks s1 b" using s12 A(2) by (auto simp: same_outside_def)
    then have "marked fs s2 c = marked fs s1 c" using that l(3) by (intro marked_cong [OF _ l(1)]) simp_all
    then show ?thesis using a that by (simp add: allocated_def)
  qed
  have io: "inode_ok s (D i)" "zeros (drop (inode_size (D i)) (contents s (D i)))"
    "\<And>b. b \<in> set (inode_blocks s (D i)) \<Longrightarrow> marked fs s b"
    using R(4) [OF i] by (simp_all add: file_ok_def)
  from grown_contents [OF rel i a g ok] obtain Z where Z: "contents s2 di' = contents s (D i) @ Z" "zeros Z" .
  have len: "inode_size (D i) \<le> length (contents s (D i))" "sz \<le> length (contents s (D i) @ Z)"
    using length_contents [OF io(1) R(1)] length_contents [OF ok G(5)] size_le_blocks [of "D i"] size_le_blocks [of di'] sz(2) Z(1)
      io(1) ok by (simp_all add: inode_ok_def)
  note t = take_zero_tail [OF io(2) Z(2) sz(1) len]
  have bytes: "file_bytes s2 di' = file_bytes s (D i) @ replicate (sz - inode_size (D i)) 0"
    using t(1) by (simp add: file_bytes_def Z(1) sz(2))
  have n2: "nblocks s2 = nblocks s" using s1 G(3) by (simp add: same_outside_def)
  have d2: "data_area fs s2 = data_area fs s" by (simp add: data_area_def n2)
  have "free_blocks fs s2 = free_blocks fs s - set ns" using m by (auto simp: free_blocks_def d2)
  then have free: "card (free_blocks fs s2) = card (free_blocks fs s) - (total_blocks sz - total_blocks (inode_size (D i)))"
    using a by (simp add: allocated_def card_Diff_subset distinct_card ln)
  have "marked fs s2 b" if "b \<in> ?B" for b
  proof -
    have "b \<in> data_area fs s" using Bd that by auto
    then show ?thesis using m [of b] io(3) [of b] that by auto
  qed
  then have F: "file_ok fs s2 di'" unfolding file_ok_def using ok G(1) Bd t(2) Z(1) sz(2) by (simp add: d2)
  have out: "same_outside (bm_region (data_bitmap fs) \<union> data_area fs s) s s2" by (rule same_outside_trans [OF s1 s12])
  have "blocks s2 c = blocks s c" if "c \<in> data_area fs s" "c \<notin> ?B" for c
  proof -
    have "blocks s1 c = blocks s c" using s1 A(2) that(1) by (auto simp: same_outside_def)
    moreover have "blocks s2 c = blocks s1 c" by (rule G(2)) (use inB that(2) in auto)
    ultimately show ?thesis by simp
  qed
  moreover have "marked fs s2 c = marked fs s c" if "c \<in> data_area fs s" "c \<notin> ?B" for c using m [OF that(1)] that(2) by simp
  moreover have "b \<in> set (inode_blocks s (D i)) \<or> b \<in> free_blocks fs s" if "b \<in> ?B" for b
    using that a by (auto simp: allocated_def)
  ultimately have "fs_rel fs s2 I (D(i := di'))" "others_same fs s I D i s2"
    using fs_rel_update [OF rel i G(5) out, of ?B di'] F G(1) Bd \<open>\<And>b. b \<in> ?B \<Longrightarrow> marked fs s2 b\<close> by simp_all
  then show ?thesis using bytes sz free by (simp add: grow_post_def)
qed

lemma wp_fs_increase:
  assumes rel: "fs_rel fs s I D" and i: "i \<in> I" and sz: "sz \<le> MAX_SIZE"
    and enough: "total_blocks sz - total_blocks (inode_size (D i)) \<le> card (free_blocks fs s)"
  shows "wp (Inode_increase_size sz (D i) fs) (grow_post fs s I D i sz) s"
proof (cases "sz < inode_size (D i)")
  case True
  then have "grow_post fs s I D i sz (D i) s"
    using rel total_blocks_mono [of sz "inode_size (D i)"] fs_relD(4) [OF rel i]
    by (simp add: grow_post_def others_same_def max_def file_ok_def inode_ok_def)
  then show ?thesis using True by (simp add: Inode_increase_size_def wp_ret)
next
  case False
  then have le: "inode_size (D i) \<le> sz" by simp
  note R = fs_relD [OF rel]
  have "wp (bnd (alloc_data_loop fs (total_blocks sz - total_blocks (inode_size (D i))) [])
      (DiskInode_increase_size (D i) sz)) (grow_post fs s I D i sz) s"
    unfolding wp_bnd
  proof (rule wp_conseq [OF wp_alloc_data_loop [OF R(2,1,3) enough]], elim exE conjE)
    fix v s1 ns
    assume v: "v = [] @ ns" "length ns = total_blocks sz - total_blocks (inode_size (D i))" and a: "allocated fs s ns s1"
    note n = allocated_new [OF rel i a]
    have "store_ok s1" "length (held s1) \<le> 13"
      using a R(3) by (simp_all add: allocated_def same_outside_def holds_ok_def)
    then have "wp (DiskInode_increase_size (D i) sz ns) (\<lambda>di' s'. inode_size di' = sz \<and> inode_type di' = inode_type (D i) \<and>
        inode_ok s' di' \<and> inode_grown (D i) s1 di' s' ns) s1"
      using n v(2) le sz by (intro wp_increase_size) simp_all
    then have "wp (DiskInode_increase_size (D i) sz ns) (grow_post fs s I D i sz) s1"
      by (rule wp_conseq) (elim conjE, rule grow_postI [OF rel i a le _ _ _ _ v(2)])
    then show "wp (DiskInode_increase_size (D i) sz v) (grow_post fs s I D i sz) s1" by (simp add: v(1))
  qed
  then show ?thesis using False by (simp add: Inode_increase_size_def wp_bnd wp_blocks_num_needed [OF le sz])
qed

section \<open>Writing inside a file\<close>

lemma drop_splice: "off + length xs \<le> m \<Longrightarrow> off \<le> length ys \<Longrightarrow> drop m (splice_at off xs ys) = drop m ys"
  by (simp add: splice_at_def)

lemma wp_fs_write:
  assumes rel: "fs_rel fs s I D" and i: "i \<in> I" and fit: "offset + length buf \<le> inode_size (D i)" and ne: "buf \<noteq> []"
  shows "wp (DiskInode_write_at (D i) offset buf) (\<lambda>n s'. n = length buf \<and> fs_rel fs s' I D \<and> others_same fs s I D i s' \<and>
    file_bytes s' (D i) = splice_at offset buf (file_bytes s (D i)) \<and> free_blocks fs s' = free_blocks fs s) s"
proof -
  note R = fs_relD [OF rel]
  have f: "inode_ok s (D i)" "set (inode_blocks s (D i)) \<subseteq> data_area fs s" "zeros (drop (inode_size (D i)) (contents s (D i)))"
    "\<And>b. b \<in> set (inode_blocks s (D i)) \<Longrightarrow> marked fs s b"
    using R(4) [OF i] by (simp_all add: file_ok_def)
  have room: "length (held s) < 16" using R(3) by (simp add: holds_ok_def)
  have le: "inode_size (D i) \<le> length (contents s (D i))"
    using length_contents [OF f(1) R(1)] size_le_blocks [of "D i"] f(1) by (simp add: inode_ok_def)
  show ?thesis
  proof (rule wp_conseq [OF wp_write_at [OF f(1) R(1) room fit ne]], elim conjE)
    fix n s'
    assume n: "n = length buf" and d: "data_only (D i) s s'"
      and c: "contents s' (D i) = splice_at offset buf (contents s (D i))"
      and b: "file_bytes s' (D i) = splice_at offset buf (file_bytes s (D i))"
    note A = areas_disjoint [OF R(2)] and df = data_only_frame [OF f(1) d]
    have D: "\<And>c. c \<notin> set (inode_blocks s (D i)) \<Longrightarrow> blocks s' c = blocks s c" "nblocks s' = nblocks s" "held s' = held s" "store_ok s'"
      using d inode_blocks_split(2) [OF f(1)] by (auto simp: data_only_def)
    have out: "same_outside (data_area fs s) s s'" using D f(2) by (auto simp: same_outside_def)
    have m: "marked fs s' c = marked fs s c" if "c \<in> data_area fs s" for c
      by (intro marked_cong [OF _ R(2) that] ballI D(1)) (use A(2) f(2) in auto)
    have z: "zeros (drop (inode_size (D i)) (contents s' (D i)))" using f(3) fit le by (simp add: c drop_splice)
    have da: "data_area fs s' = data_area fs s" by (simp add: data_area_def D(2))
    then have F: "file_ok fs s' (D i)" unfolding file_ok_def using df f z m by auto
    have "fs_rel fs s' I (D(i := D i))" "others_same fs s I D i s'"
      using fs_rel_update [OF rel i D(4) same_outside_mono [OF out], of "set (inode_blocks s (D i))" "D i"] D(1) m F df(3) f
      by auto
    moreover have "free_blocks fs s' = free_blocks fs s" using m by (auto simp: free_blocks_def da)
    ultimately show "n = length buf \<and> fs_rel fs s' I D \<and> others_same fs s I D i s' \<and>
        file_bytes s' (D i) = splice_at offset buf (file_bytes s (D i)) \<and> free_blocks fs s' = free_blocks fs s"
      using n b by simp
  qed
qed

section \<open>Releasing the blocks of a file\<close>

definition freed :: "easy_file_system \<Rightarrow> store \<Rightarrow> nat list \<Rightarrow> store \<Rightarrow> bool" where
  "freed fs s bs s' \<longleftrightarrow> store_ok s' \<and> same_outside (bm_region (data_bitmap fs) \<union> set bs) s s' \<and>
     (\<forall>c \<in> data_area fs s. marked fs s' c \<longleftrightarrow> marked fs s c \<and> c \<notin> set bs) \<and> (\<forall>b \<in> set bs. zeros (blocks s' b))"

lemma wp_dealloc_data:
  assumes L: "fs_layout fs s" "store_ok s" "holds_ok fs s" and b: "b \<in> data_area fs s" "marked fs s b"
  shows "wp (dealloc_data fs b) (\<lambda>_ s'. freed fs s [b] s') s"
proof -
  let ?bm = "data_bitmap fs" and ?d = "data_area_start_block fs"
  let ?s = "set_block b (replicate 512 0) s"
  have bl: "b < nblocks s" "b < 2 ^ 32" using areas_below [OF L(1), of b] b(1) by simp_all
  have acq: "acquirable b s" using usable_data [OF L(1,3), of "{b}"] b(1) L(3) by (simp add: acquirable_def usable_def holds_ok_def)
  have out: "b \<notin> bm_region ?bm" using areas_disjoint(2) [OF L(1)] b(1) by auto
  have sub: "u32_sub b ?d = b - ?d"
  proof -
    have "?d \<le> b" using b(1) by (simp add: data_area_def)
    then have "b + 2 ^ 32 - ?d = (b - ?d) + 2 ^ 32" by simp
    then show ?thesis using bl(2) by (simp only: u32_sub_def u32_def mod_add_self2) simp
  qed
  have m: "b - ?d < maximum ?bm" using L(1) b(1) by (auto simp: fs_layout_def data_area_def)
  have inv: "bm_inv ?bm ?s" using data_bm_inv [OF L] by (simp add: bm_inv_def)
  have bits: "bm_bit ?bm ?s (c - ?d) = bm_bit ?bm s (c - ?d)" if "c \<in> data_area fs s" for c
    using marked_cong [OF _ L(1) that, of ?s] out by (simp add: marked_def)
  have zb: "wp (zero_block b) Q s = Q () ?s" for Q
    using acq L(2) by (simp add: zero_block_def wp_modify_pure map_replicate_const)
  have "wp (Bitmap_dealloc ?bm (b - ?d)) (\<lambda>_ s'. freed fs s [b] s') ?s"
  proof (rule wp_conseq [OF wp_Bitmap_dealloc(1) [OF inv m]])
    show "bm_bit ?bm ?s (b - ?d)" using bits [OF b(1)] b(2) by (simp add: marked_def)
    fix v s'
    assume p: "bm_inv ?bm s' \<and> (\<forall>j. bm_bit ?bm s' j = (bm_bit ?bm ?s j \<and> j \<noteq> b - ?d)) \<and> same_outside (bm_region ?bm) ?s s'"
    have "marked fs s' c \<longleftrightarrow> marked fs s c \<and> c \<noteq> b" if c: "c \<in> data_area fs s" for c
    proof -
      have "c - ?d = b - ?d \<longleftrightarrow> c = b" using c b(1) by (auto simp: data_area_def)
      then show ?thesis using p bits [OF c] by (simp add: marked_def)
    qed
    moreover have "blocks s' b = replicate 512 0" using p out by (simp add: same_outside_def)
    moreover have "same_outside ({b} \<union> bm_region ?bm) s s'"
      using p same_outside_trans [OF same_outside_set_block [of b "{b}" s "replicate 512 0"], of "bm_region ?bm" s'] by simp
    ultimately show "freed fs s [b] s'" using p by (simp add: freed_def bm_inv_def zeros_def Un_commute)
  qed
  then show ?thesis by (simp add: dealloc_data_def sub wp_simps zb)
qed

lemma freed_step:
  assumes "freed fs s bs s1" and "freed fs s1 [b] s2" and "b \<notin> set bs" and "bm_region (data_bitmap fs) \<inter> set bs = {}"
  shows "freed fs s (bs @ [b]) s2"
proof -
  have o: "same_outside (bm_region (data_bitmap fs) \<union> set bs) s s1" "same_outside (bm_region (data_bitmap fs) \<union> {b}) s1 s2"
    using assms by (simp_all add: freed_def)
  have "data_area fs s1 = data_area fs s" using o(1) by (simp add: same_outside_def data_area_def)
  moreover have "same_outside (bm_region (data_bitmap fs) \<union> set (bs @ [b])) s s2"
    using same_outside_trans [OF o] by (rule same_outside_mono) auto
  moreover have "blocks s2 c = blocks s1 c" if "c \<in> set bs" for c
    using o(2) assms(3,4) that by (auto simp: same_outside_def)
  ultimately show ?thesis using assms(1,2) by (auto simp: freed_def)
qed

lemma wp_dealloc_loop:
  assumes L: "fs_layout fs s" "store_ok s" "holds_ok fs s" and bs: "distinct bs" "set bs \<subseteq> data_area fs s"
    and m: "\<And>b. b \<in> set bs \<Longrightarrow> marked fs s b"
  shows "wp (for_each (dealloc_data fs) bs) (\<lambda>_. freed fs s bs) s"
proof (rule wp_for_each)
  show "freed fs s [] s" using L(2) by (simp add: freed_def)
  fix b ys zs s1
  assume e: "bs = ys @ b # zs" and f: "freed fs s ys s1"
  have b: "b \<notin> set ys" "b \<in> data_area fs s" "marked fs s b" and ys: "set ys \<subseteq> data_area fs s" using bs m unfolding e by auto
  have s1: "store_ok s1" "nblocks s1 = nblocks s" "held s1 = held s" using f by (simp_all add: freed_def same_outside_def)
  have "fs_layout fs s1" "holds_ok fs s1" "data_area fs s1 = data_area fs s"
    using L(1,3) s1(2,3) fs_layout_cong [OF s1(2)] by (simp_all add: holds_ok_def data_area_def)
  moreover have "marked fs s1 b" using f b by (simp add: freed_def)
  ultimately have "wp (dealloc_data fs b) (\<lambda>_ s'. freed fs s1 [b] s') s1"
    using s1(1) b(2) by (intro wp_dealloc_data) simp_all
  then show "wp (dealloc_data fs b) (\<lambda>_. freed fs s (ys @ [b])) s1"
    by (rule wp_conseq) (use f b(1) ys areas_disjoint(2) [OF L(1)] in \<open>auto intro!: freed_step\<close>)
qed

text \<open>An empty file has no blocks.\<close>

lemma empty_file:
  assumes "disk_inode_ok di" and "inode_size di = 0"
  shows "inode_blocks s di = []" "file_ok fs s di" "file_bytes s di = []"
proof -
  have "length (inode_blocks s di) = 0"
    using length_inode_blocks [OF assms(1), of s] assms(2) by (simp add: total_blocks_def size_data_blocks_def Let_def u32_def BLOCK_SZ_def)
  then show b: "inode_blocks s di = []" by simp
  then have ok: "inode_ok s di" using assms by (simp add: inode_ok_def usable_def)
  have "inode_leaves s di = []" using inode_blocks_split(2) [OF ok] b by simp
  then show "file_ok fs s di" "file_bytes s di = []" using ok b by (simp_all add: file_ok_def contents_def zeros_def file_bytes_def)
qed

lemma wp_fs_release:
  assumes rel: "fs_rel fs s I D" and i: "i \<in> I" and di': "disk_inode_ok di'" "inode_size di' = 0"
  shows "wp (for_each (dealloc_data fs) (inode_blocks s (D i))) (\<lambda>_ s'. fs_rel fs s' I (D(i := di')) \<and>
    others_same fs s I D i s' \<and> free_blocks fs s' = free_blocks fs s \<union> set (inode_blocks s (D i))) s"
proof -
  note R = fs_relD [OF rel]
  let ?bs = "inode_blocks s (D i)"
  have f: "distinct ?bs" "set ?bs \<subseteq> data_area fs s" "\<And>b. b \<in> set ?bs \<Longrightarrow> marked fs s b"
    using R(4) [OF i] by (simp_all add: file_ok_def inode_ok_def)
  show ?thesis
  proof (rule wp_conseq [OF wp_dealloc_loop [OF R(2,1,3) f]])
    fix v s'
    assume p: "freed fs s ?bs s'"
    then have P: "store_ok s'" "same_outside (bm_region (data_bitmap fs) \<union> set ?bs) s s'"
      "\<And>c. c \<in> data_area fs s \<Longrightarrow> marked fs s' c \<longleftrightarrow> marked fs s c \<and> c \<notin> set ?bs" "\<And>b. b \<in> set ?bs \<Longrightarrow> zeros (blocks s' b)"
      by (simp_all add: freed_def)
    note A = areas_disjoint [OF R(2)]
    have out: "same_outside (bm_region (data_bitmap fs) \<union> data_area fs s) s s'"
      using P(2) by (rule same_outside_mono) (use f(2) in auto)
    have blk: "blocks s' c = blocks s c" if "c \<in> data_area fs s" "c \<notin> set ?bs" for c
      using P(2) A(2) that by (auto simp: same_outside_def)
    have fb: "free_blocks fs s' = free_blocks fs s \<union> set ?bs"
    proof -
      have "data_area fs s' = data_area fs s" using P(2) by (simp add: same_outside_def data_area_def)
      then show ?thesis using P(3) f(2) by (auto simp: free_blocks_def)
    qed
    have "fs_rel fs s' I (D(i := di'))" "others_same fs s I D i s'"
      using fs_rel_update [OF rel i P(1) out, of "set ?bs" di'] blk P(3,4) empty_file [OF di'] by simp_all
    then show "fs_rel fs s' I (D(i := di')) \<and> others_same fs s I D i s' \<and> free_blocks fs s' = free_blocks fs s \<union> set ?bs"
      using fb by simp
  qed
qed

section \<open>One operation on an inode\<close>

definition Inode_of :: "easy_file_system \<Rightarrow> nat \<Rightarrow> inode" where
  "Inode_of fs i = Inode_new (inode_blk fs i) (inode_off i) fs"

lemma Inode_of_simps [simp]:
  "inode_block_id (Inode_of fs i) = inode_blk fs i" "inode_block_offset (Inode_of fs i) = inode_off i"
  "inode_fs (Inode_of fs i) = fs"
  by (simp_all add: Inode_of_def Inode_new_def)

lemma fs_rel_cong: "\<forall>i \<in> I. D' i = D i \<Longrightarrow> fs_rel fs s I D' = fs_rel fs s I D"
  by (simp add: fs_rel_def cong: ball_cong)

lemma bm_live_cong: "\<forall>c \<in> bm_region bm. blocks s' c = blocks s c \<Longrightarrow> bm_live bm s' = bm_live bm s"
proof -
  assume a: "\<forall>c \<in> bm_region bm. blocks s' c = blocks s c"
  have "bm_bit bm s' i = bm_bit bm s i" if "i < maximum bm" for i
  proof -
    have "i div 4096 < bitmap_blocks bm" using that by (intro less_mult_imp_div_less) (simp add: maximum_eq)
    then show ?thesis using a by (simp add: bm_bit_def bm_words_def bm_region_def)
  qed
  then show ?thesis by (auto simp: bm_live_def)
qed

lemma fs_invD:
  assumes "fs_inv fs s"
  shows "fs_rel fs s (fs_inodes fs s) (inode_at fs s)" "held s = []" "store_ok s" "fs_layout fs s"
    "\<And>i. i \<in> fs_inodes fs s \<Longrightarrow> i < maximum (inode_bitmap fs)"
    "\<And>i. i \<in> fs_inodes fs s \<Longrightarrow> inode_blk fs i \<in> inode_area fs"
    "\<And>i. i \<in> fs_inodes fs s \<Longrightarrow> acquirable (inode_blk fs i) s"
    "\<And>i. i \<in> fs_inodes fs s \<Longrightarrow> fs_rel fs (entered (inode_blk fs i) s) (fs_inodes fs s) (inode_at fs s)"
    "super_describes fs (blocks s 0)"
proof -
  show "super_describes fs (blocks s 0)" using assms by (simp add: fs_inv_def)
  show r: "fs_rel fs s (fs_inodes fs s) (inode_at fs s)" and h: "held s = []" using assms by (simp_all add: fs_inv_def)
  show o: "store_ok s" and l: "fs_layout fs s" by (rule fs_relD [OF r])+
  fix i assume i: "i \<in> fs_inodes fs s"
  then show m: "i < maximum (inode_bitmap fs)" by (simp add: fs_inodes_def bm_live_def)
  show a: "inode_blk fs i \<in> inode_area fs" by (rule inode_blk_area [OF l m])
  then show "acquirable (inode_blk fs i) s" using areas_below [OF l] h by (simp add: acquirable_def)
  show "fs_rel fs (entered (inode_blk fs i) s) (fs_inodes fs s) (inode_at fs s)"
    by (rule fs_rel_frame(1) [OF r]) (use a h o in \<open>simp_all add: holds_ok_def\<close>)
qed

text \<open>Writing the inode back.\<close>

lemma fs_close:
  assumes inv: "fs_inv fs s" and i: "i \<in> fs_inodes fs s"
    and rel: "fs_rel fs s' (fs_inodes fs s) ((inode_at fs s)(i := di'))"
    and others: "others_same fs (entered (inode_blk fs i) s) (fs_inodes fs s) (inode_at fs s) i s'"
    and s'': "s'' = left (inode_blk fs i) (put_inode fs i di' s')"
  shows "fs_inv fs s''" "fs_inodes fs s'' = fs_inodes fs s" "inode_at fs s'' i = di'" "file_bytes s'' di' = file_bytes s' di'"
    "\<And>j. j \<in> fs_inodes fs s \<Longrightarrow> j \<noteq> i \<Longrightarrow>
      inode_at fs s'' j = inode_at fs s j \<and> file_bytes s'' (inode_at fs s j) = file_bytes s (inode_at fs s j)"
    "free_blocks fs s'' = free_blocks fs s'"
    "nblocks s'' = nblocks s"
proof -
  note V = fs_invD [OF inv] and A = areas_disjoint [OF fs_invD(4) [OF inv]] and R = fs_relD [OF rel]
  let ?b = "inode_blk fs i"
  have same: "same_outside (bm_region (data_bitmap fs) \<union> data_area fs s) (entered ?b s) s'"
    using others by (simp add: others_same_def data_area_def)
  have h: "held s' = [?b]" using same V(2) by (simp add: same_outside_def)
  have ok: "disk_inode_ok di'" using R(4) [OF i] by (simp add: file_ok_def inode_ok_def)
  have st: "store_ok s''" using store_ok_put_inode [OF R(1) ok] by (simp add: s'')
  have hs: "held s'' = []" by (simp add: s'' h)
  have b'': "blocks s'' c = blocks s' c" if "c \<noteq> ?b" for c using that by (simp add: s'')
  have n: "nblocks s'' = nblocks s'" by (simp add: s'')
  then show "nblocks s'' = nblocks s" using same by (simp add: same_outside_def)
  have fr: "\<forall>b. b \<notin> inode_area fs \<union> bm_region (inode_bitmap fs) \<longrightarrow> blocks s'' b = blocks s' b"
    using V(6) [OF i] by (intro allI impI b'') auto
  have hk: "holds_ok fs s''" by (simp add: holds_ok_def hs)
  note F = fs_rel_frame [OF rel fr n hk st]
  show "free_blocks fs s'' = free_blocks fs s'" by (rule F(3))
  show "file_bytes s'' di' = file_bytes s' di'" using F(2) [OF i] by simp
  have at: "inode_at fs s'' j = ((inode_at fs s)(i := di')) j" if "j \<in> fs_inodes fs s" for j
  proof -
    have "inode_at fs s'' j = (if j = i then di' else inode_at fs s' j)"
      using inode_at_put [OF R(1) ok, of fs i j] by (simp add: s'' inode_at_def)
    moreover have "inode_at fs s' j = inode_at fs s j"
      by (rule inode_at_cong) (use same V(6) [OF that] A(1,4) in \<open>auto simp: same_outside_def\<close>)
    ultimately show ?thesis by simp
  qed
  show "inode_at fs s'' i = di'" using at [OF i] by simp
  have "blocks s'' c = blocks s c" if "c \<in> bm_region (inode_bitmap fs)" for c
  proof -
    have "blocks s'' c = blocks s' c" by (rule b'') (use that A(5) V(6) [OF i] in auto)
    moreover have "blocks s' c = blocks s c" using same that A(3,6) by (auto simp: same_outside_def)
    ultimately show ?thesis by simp
  qed
  then show I: "fs_inodes fs s'' = fs_inodes fs s" unfolding fs_inodes_def by (intro bm_live_cong) simp
  have "fs_rel fs s'' (fs_inodes fs s) (inode_at fs s'')" 
    using F(1) fs_rel_cong [of "fs_inodes fs s" "inode_at fs s''" "(inode_at fs s)(i := di')"] at by simp
  moreover have "blocks s'' 0 = blocks s 0"
  proof -
    have z: "0 \<notin> inode_area fs" "0 \<notin> bm_region (data_bitmap fs) \<union> data_area fs s"
      using V(4) by (auto simp: fs_layout_def inode_area_def bm_region_def data_area_def)
    have "blocks s'' 0 = blocks s' 0" by (rule b'') (use z(1) V(6) [OF i] in metis)
    then show ?thesis using same z(2) by (simp add: same_outside_def)
  qed
  ultimately show "fs_inv fs s''" using V(9) by (simp add: fs_inv_def I hs)
  fix j assume j: "j \<in> fs_inodes fs s" "j \<noteq> i"
  have "file_bytes s'' (inode_at fs s j) = file_bytes s' (inode_at fs s j)" using F(2) [OF j(1)] j(2) by simp
  moreover have "file_bytes s' (inode_at fs s j) = file_bytes (entered ?b s) (inode_at fs s j)"
    using others j by (simp add: others_same_def)
  moreover have "file_bytes (entered ?b s) (inode_at fs s j) = file_bytes s (inode_at fs s j)"
    by (rule fs_rel_frame(2) [OF V(1) _ _ _ _ j(1)]) (use V(2,3) V(6) [OF i] in \<open>simp_all add: holds_ok_def\<close>)
  ultimately show "inode_at fs s'' j = inode_at fs s j \<and> file_bytes s'' (inode_at fs s j) = file_bytes s (inode_at fs s j)"
    using at [OF j(1)] j(2) by simp
qed

end
