(* ===== verification/File_Spec.thy ===== *)
theory File_Spec
  imports File_System
begin

text \<open>
  What the operations of \<open>src/easy-fs/src/vfs.rs\<close> promise, and that they keep the promise. The
  abstract file system is a map from inode numbers to a type and an array of bytes; reading,
  writing and clearing an inode act on one entry of it, creating a file adds one entry and
  appends a record to the directory.
\<close>

section \<open>The abstract file system\<close>

type_synonym abs_file = "disk_inode_type \<times> byte list"

definition fs_abs :: "easy_file_system \<Rightarrow> store \<Rightarrow> nat \<rightharpoonup> abs_file" where
  "fs_abs fs s i =
     (if i \<in> fs_inodes fs s then Some (inode_type (inode_at fs s i), file_bytes s (inode_at fs s i)) else None)"

text \<open>Writing past the end fills the gap with zeros.\<close>

definition write_bytes :: "nat \<Rightarrow> byte list \<Rightarrow> byte list \<Rightarrow> byte list" where
  "write_bytes offset buf bs = splice_at offset buf (bs @ replicate (offset + length buf - length bs) 0)"

definition read_bytes :: "nat \<Rightarrow> nat \<Rightarrow> byte list \<Rightarrow> byte list" where
  "read_bytes offset n bs = take n (drop offset bs)"

lemma length_write_bytes [simp]: "length (write_bytes offset buf bs) = max (length bs) (offset + length buf)"
  by (auto simp: write_bytes_def splice_at_def max_def)

lemma read_write_bytes: "read_bytes offset (length buf) (write_bytes offset buf bs) = buf"
  by (simp add: read_bytes_def write_bytes_def splice_at_def)

text \<open>Enough free blocks for a file to grow from \<open>n\<close> to \<open>sz\<close> bytes.\<close>

definition room_for :: "easy_file_system \<Rightarrow> store \<Rightarrow> nat \<Rightarrow> nat \<Rightarrow> bool" where
  "room_for fs s n sz \<longleftrightarrow> sz \<le> MAX_SIZE \<and> total_blocks sz - total_blocks n \<le> card (free_blocks fs s)"

section \<open>Operations on one inode\<close>

lemma entered_simps [simp]:
  "free_blocks fs (entered b s) = free_blocks fs s" "data_area fs (entered b s) = data_area fs s"
  by (simp_all add: free_blocks_def marked_def bm_bit_def bm_words_def data_area_def)

lemma others_same_trans:
  assumes "others_same fs s I D i s1" and "others_same fs s1 I (D(i := di)) i s2"
  shows "others_same fs s I D i s2"
proof -
  have o: "same_outside (bm_region (data_bitmap fs) \<union> data_area fs s) s s1"
    "same_outside (bm_region (data_bitmap fs) \<union> data_area fs s1) s1 s2"
    using assms by (simp_all add: others_same_def)
  have "data_area fs s1 = data_area fs s" using o(1) by (simp add: same_outside_def data_area_def)
  then have "same_outside (bm_region (data_bitmap fs) \<union> data_area fs s) s s2"
    using same_outside_trans [OF o] by simp
  then show ?thesis using assms by (simp add: others_same_def)
qed

lemma fs_abs_close:
  assumes "fs_inv fs s" and "i \<in> fs_inodes fs s"
    and "fs_rel fs s' (fs_inodes fs s) ((inode_at fs s)(i := di'))"
    and "others_same fs (entered (inode_blk fs i) s) (fs_inodes fs s) (inode_at fs s) i s'"
    and "s'' = left (inode_blk fs i) (put_inode fs i di' s')"
  shows "fs_abs fs s'' = (fs_abs fs s)(i \<mapsto> (inode_type di', file_bytes s' di'))"
proof
  note c = fs_close [OF assms]
  fix j
  show "fs_abs fs s'' j = ((fs_abs fs s)(i \<mapsto> (inode_type di', file_bytes s' di'))) j"
    using c(2-5) assms(2) by (simp add: fs_abs_def)
qed

lemma length_file_bytes_inv:
  assumes "fs_inv fs s" and "i \<in> fs_inodes fs s"
  shows "length (file_bytes s (inode_at fs s i)) = inode_size (inode_at fs s i)"
  using fs_relD(1,4) [OF fs_invD(1) [OF assms(1)]] assms(2) by (simp add: length_file_bytes file_ok_def)

lemma inode_at_view: "view_at DiskInode (inode_off i) (blocks s (inode_blk fs i)) = inode_at fs s i"
  by (simp add: inode_at_def)

lemma wp_modify_inode:
  assumes inv: "fs_inv fs s" and i: "i \<in> fs_inodes fs s"
    and f: "wp (f (inode_at fs s i)) (\<lambda>r s'. fs_rel fs s' (fs_inodes fs s) ((inode_at fs s)(i := snd r)) \<and>
        others_same fs (entered (inode_blk fs i) s) (fs_inodes fs s) (inode_at fs s) i s' \<and>
        P (fst r) (inode_type (snd r)) (file_bytes s' (snd r)) (free_blocks fs s')) (entered (inode_blk fs i) s)"
  shows "wp (modify_disk_inode (Inode_of fs i) f) (\<lambda>v s'. fs_inv fs s' \<and> held s' = [] \<and>
    (\<exists>t bs. P v t bs (free_blocks fs s') \<and> fs_abs fs s' = (fs_abs fs s)(i \<mapsto> (t, bs)))) s"
proof -
  have "wp (f (inode_at fs s i)) (\<lambda>r s'. let s'' = left (inode_blk fs i) (put_inode fs i (snd r) s') in
      fs_inv fs s'' \<and> held s'' = [] \<and> (\<exists>t bs. P (fst r) t bs (free_blocks fs s'') \<and> fs_abs fs s'' = (fs_abs fs s)(i \<mapsto> (t, bs))))
      (entered (inode_blk fs i) s)"
  proof (rule wp_conseq [OF f], elim conjE)
    fix r s'
    assume h: "fs_rel fs s' (fs_inodes fs s) ((inode_at fs s)(i := snd r))"
      "others_same fs (entered (inode_blk fs i) s) (fs_inodes fs s) (inode_at fs s) i s'"
      and P: "P (fst r) (inode_type (snd r)) (file_bytes s' (snd r)) (free_blocks fs s')"
    note c = fs_close [OF inv i h refl] and a = fs_abs_close [OF inv i h refl]
    show "let s'' = left (inode_blk fs i) (put_inode fs i (snd r) s') in
      fs_inv fs s'' \<and> held s'' = [] \<and> (\<exists>t bs. P (fst r) t bs (free_blocks fs s'') \<and> fs_abs fs s'' = (fs_abs fs s)(i \<mapsto> (t, bs)))"
      unfolding Let_def using c(1) fs_invD(2) [OF c(1)] P c(6) a by auto
  qed
  then show ?thesis
    using fs_invD(7) [OF inv i]
    by (simp add: modify_disk_inode_def wp_modify_as inode_at_view Let_def flip: put_inode_def)
qed

lemma wp_sync_all [wp_simps]: "wp sync_all Q = (\<lambda>s. held s = [] \<and> Q () s)"
  by (auto simp: fun_eq_iff sync_all_def wp_def)

subsection \<open>Writing\<close>

definition write_body :: "easy_file_system \<Rightarrow> nat \<Rightarrow> byte list \<Rightarrow> disk_inode \<Rightarrow> (nat \<times> disk_inode) store_action" where
  "write_body fs offset buf di =
     bnd (Inode_increase_size (offset + length buf) di fs) (\<lambda>di.
     bnd (DiskInode_write_at di offset buf) (\<lambda>n. ret (n, di)))"

lemma wp_write_body:
  assumes rel: "fs_rel fs s I D" and i: "i \<in> I" and ne: "buf \<noteq> []" and sz: "offset + length buf \<le> MAX_SIZE"
    and enough: "total_blocks (offset + length buf) - total_blocks (inode_size (D i)) \<le> card (free_blocks fs s)"
  shows "wp (write_body fs offset buf (D i)) (\<lambda>r s'. fs_rel fs s' I (D(i := snd r)) \<and> others_same fs s I D i s' \<and>
     fst r = length buf \<and> inode_type (snd r) = inode_type (D i) \<and>
     file_bytes s' (snd r) = write_bytes offset buf (file_bytes s (D i)) \<and>
     card (free_blocks fs s') = card (free_blocks fs s) -
       (total_blocks (offset + length buf) - total_blocks (inode_size (D i)))) s"
  unfolding write_body_def wp_bnd [of "Inode_increase_size _ _ _"]
proof (rule wp_conseq [OF wp_fs_increase [OF rel i sz enough]])
  fix di s1
  assume g: "grow_post fs s I D i (offset + length buf) di s1"
  have r1: "fs_rel fs s1 I (D(i := di))" and fit: "offset + length buf \<le> inode_size ((D(i := di)) i)"
    using g by (simp_all add: grow_post_def)
  have len: "length (file_bytes s (D i)) = inode_size (D i)"
    using fs_relD(1,4) [OF rel] i by (simp add: length_file_bytes file_ok_def)
  have "wp (DiskInode_write_at di offset buf) (\<lambda>n s'. n = length buf \<and> fs_rel fs s' I (D(i := di)) \<and>
      others_same fs s1 I (D(i := di)) i s' \<and> file_bytes s' di = splice_at offset buf (file_bytes s1 di) \<and>
      free_blocks fs s' = free_blocks fs s1) s1"
    using wp_fs_write [OF r1 i fit ne] by (simp only: fun_upd_same)
  then have "wp (DiskInode_write_at di offset buf) (\<lambda>n s'. fs_rel fs s' I (D(i := di)) \<and> others_same fs s I D i s' \<and>
      n = length buf \<and> inode_type di = inode_type (D i) \<and>
      file_bytes s' di = write_bytes offset buf (file_bytes s (D i)) \<and>
      card (free_blocks fs s') = card (free_blocks fs s) -
        (total_blocks (offset + length buf) - total_blocks (inode_size (D i)))) s1"
    by (rule wp_conseq) (use g len others_same_trans [of fs s I D i s1 di] in \<open>auto simp: grow_post_def write_bytes_def\<close>)
  then show "wp (bnd (DiskInode_write_at di offset buf) (\<lambda>n. ret (n, di)))
      (\<lambda>r s'. fs_rel fs s' I (D(i := snd r)) \<and> others_same fs s I D i s' \<and>
     fst r = length buf \<and> inode_type (snd r) = inode_type (D i) \<and>
     file_bytes s' (snd r) = write_bytes offset buf (file_bytes s (D i)) \<and>
     card (free_blocks fs s') = card (free_blocks fs s) -
       (total_blocks (offset + length buf) - total_blocks (inode_size (D i)))) s1"
    by (simp add: wp_simps)
qed

lemma MAX_SIZE_u32: "n \<le> MAX_SIZE \<Longrightarrow> u32 n = n"
  by (simp add: max_consts u32_def)

lemma fs_abs_Some: "fs_abs fs s i = Some (t, bs) \<longleftrightarrow>
    i \<in> fs_inodes fs s \<and> t = inode_type (inode_at fs s i) \<and> bs = file_bytes s (inode_at fs s i)"
  by (auto simp: fs_abs_def)

lemma file_bytes_entered:
  assumes "fs_inv fs s" and "i \<in> fs_inodes fs s"
  shows "file_bytes (entered (inode_blk fs i) s) (inode_at fs s i) = file_bytes s (inode_at fs s i)"
  by (rule fs_rel_frame(2) [OF fs_invD(1) [OF assms(1)] _ _ _ _ assms(2)])
    (use fs_invD(2,3) [OF assms(1)] fs_invD(6) [OF assms] in \<open>simp_all add: holds_ok_def\<close>)

text \<open>Writing, with the block of the inode held.\<close>

lemma wp_write_entered:
  assumes inv: "fs_inv fs s" and a: "fs_abs fs s i = Some (t, bs)" and ne: "buf \<noteq> []"
    and room: "room_for fs s (length bs) (offset + length buf)"
    and needed: "needed = total_blocks (offset + length buf) - total_blocks (length bs)"
  shows "wp (write_body fs offset buf (inode_at fs s i)) (\<lambda>r s'.
    fs_rel fs s' (fs_inodes fs s) ((inode_at fs s)(i := snd r)) \<and>
    others_same fs (entered (inode_blk fs i) s) (fs_inodes fs s) (inode_at fs s) i s' \<and>
    fst r = length buf \<and> inode_type (snd r) = t \<and> file_bytes s' (snd r) = write_bytes offset buf bs \<and>
    card (free_blocks fs s') = card (free_blocks fs s) - needed) (entered (inode_blk fs i) s)"
proof -
  have i: "i \<in> fs_inodes fs s" and t: "t = inode_type (inode_at fs s i)" and bs: "bs = file_bytes s (inode_at fs s i)"
    using a by (simp_all add: fs_abs_Some)
  have len: "length bs = inode_size (inode_at fs s i)" unfolding bs by (rule length_file_bytes_inv [OF inv i])
  have "offset + length buf \<le> MAX_SIZE" "total_blocks (offset + length buf) - total_blocks (inode_size (inode_at fs s i)) \<le>
      card (free_blocks fs (entered (inode_blk fs i) s))"
    using room by (simp_all add: room_for_def len)
  from wp_write_body [OF fs_invD(8) [OF inv i] i ne this] show ?thesis
    by (simp add: t file_bytes_entered [OF inv i] bs [symmetric] needed len)
qed

lemma wp_Inode_write_at:
  assumes inv: "fs_inv fs s" and a: "fs_abs fs s i = Some (t, bs)" and ne: "buf \<noteq> []"
    and room: "room_for fs s (length bs) (offset + length buf)"
    and needed: "needed = total_blocks (offset + length buf) - total_blocks (length bs)"
  shows "wp (Inode_write_at (Inode_of fs i) offset buf)
    (\<lambda>n s'. n = length buf \<and> fs_inv fs s' \<and> fs_abs fs s' = (fs_abs fs s)(i \<mapsto> (t, write_bytes offset buf bs)) \<and>
       card (free_blocks fs s') = card (free_blocks fs s) - needed) s"
proof -
  have i: "i \<in> fs_inodes fs s" using a by (simp add: fs_abs_Some)
  have sz: "u32 (offset + length buf) = offset + length buf" using room by (simp add: room_for_def MAX_SIZE_u32)
  have "wp (modify_disk_inode (Inode_of fs i) (write_body fs offset buf)) (\<lambda>v s'. fs_inv fs s' \<and> held s' = [] \<and>
    (\<exists>t' bs'. (v = length buf \<and> t' = t \<and> bs' = write_bytes offset buf bs \<and>
      card (free_blocks fs s') = card (free_blocks fs s) - needed) \<and> fs_abs fs s' = (fs_abs fs s)(i \<mapsto> (t', bs')))) s"
    by (rule wp_modify_inode [OF inv i, where P = "\<lambda>v t' bs' F. v = length buf \<and> t' = t \<and>
        bs' = write_bytes offset buf bs \<and> card F = card (free_blocks fs s) - needed"])
      (rule wp_write_entered [OF inv a ne room needed])
  then have "wp (modify_disk_inode (Inode_of fs i) (write_body fs offset buf)) (\<lambda>n s'. held s' = [] \<and> n = length buf \<and> fs_inv fs s' \<and>
     fs_abs fs s' = (fs_abs fs s)(i \<mapsto> (t, write_bytes offset buf bs)) \<and>
     card (free_blocks fs s') = card (free_blocks fs s) - needed) s"
    by (rule wp_conseq) auto
  then show ?thesis
    unfolding Inode_write_at_def sz Inode_of_simps write_body_def [symmetric]
    by (simp add: wp_simps)
qed

subsection \<open>Reading\<close>

lemma Inode_read_at_eq:
  assumes inv: "fs_inv fs s" and a: "fs_abs fs s i = Some (t, bs)"
  shows "Inode_read_at (Inode_of fs i) offset buf s =
    Inr ((min (length buf) (length bs - offset), splice_at 0 (read_bytes offset (length buf) bs) buf), s)"
proof -
  have i: "i \<in> fs_inodes fs s" and bs: "bs = file_bytes s (inode_at fs s i)" using a by (simp_all add: fs_abs_Some)
  let ?e = "entered (inode_blk fs i) s" and ?di = "inode_at fs s i"
  have fb: "file_bytes ?e ?di = bs" unfolding bs by (rule file_bytes_entered [OF inv i])
  have len: "length bs = inode_size ?di" unfolding bs by (rule length_file_bytes_inv [OF inv i])
  have ok: "inode_ok ?e ?di" using fs_relD(4) [OF fs_invD(8) [OF inv i] i] by (simp add: file_ok_def)
  have seg: "segment offset (min (length buf) (length bs - offset)) bs = read_bytes offset (length buf) bs"
    by (simp add: segment_def read_bytes_def min_def)
  have "DiskInode_read_at ?di offset buf ?e =
      Inr ((min (length buf) (length bs - offset), splice_at 0 (read_bytes offset (length buf) bs) buf), ?e)"
    using read_at_eq [OF ok, of offset buf] fs_invD(2,3) [OF inv] by (simp add: fb len [symmetric] seg Let_def)
  then show ?thesis
    unfolding Inode_read_at_def read_disk_inode_def
    by (intro read_as_eq) (use fs_invD(7) [OF inv i] in \<open>simp_all add: inode_at_view\<close>)
qed

subsection \<open>Clearing\<close>

lemma wp_Inode_clear:
  assumes inv: "fs_inv fs s" and a: "fs_abs fs s i = Some (t, bs)" and k: "data_blocks (inode_at fs s i) \<le> CLEAR_MAX"
  shows "wp (Inode_clear (Inode_of fs i)) (\<lambda>_ s'. fs_inv fs s' \<and> fs_abs fs s' = (fs_abs fs s)(i \<mapsto> (t, [])) \<and>
    free_blocks fs s' = free_blocks fs s \<union> set (inode_blocks s (inode_at fs s i))) s"
proof -
  have i: "i \<in> fs_inodes fs s" and t: "t = inode_type (inode_at fs s i)" using a by (simp_all add: fs_abs_Some)
  let ?e = "entered (inode_blk fs i) s" and ?di = "inode_at fs s i" and ?I = "fs_inodes fs s"
  let ?f = "\<lambda>disk_inode. bnd (DiskInode_clear_size disk_inode) (\<lambda>(data_blocks_dealloc, disk_inode').
          thn (assert_that (length data_blocks_dealloc = total_blocks (inode_size disk_inode)))
          (thn (for_each (dealloc_data fs) data_blocks_dealloc)
          (ret ((), disk_inode'))))"
  note rel = fs_invD(8) [OF inv i]
  have ok: "inode_ok ?e ?di" using fs_relD(4) [OF rel i] by (simp add: file_ok_def)
  have blk: "inode_blocks ?e ?di = inode_blocks s ?di"
    using contents_frame(2) [of s ?di ?e] fs_relD(4) [OF fs_invD(1) [OF inv] i] by (simp add: file_ok_def)
  obtain di' where di': "inode_size di' = 0" "inode_type di' = t" "disk_inode_ok di'"
    "DiskInode_clear_size ?di ?e = Inr ((inode_blocks ?e ?di, di'), ?e)"
    using clear_size_eq [OF ok _ _ k] fs_invD(2,3) [OF inv] t by auto
  have len: "length (inode_blocks ?e ?di) = total_blocks (inode_size ?di)"
    using ok by (intro length_inode_blocks) (simp_all add: inode_ok_def)
  let ?P = "\<lambda>(v :: unit) t' bs' F. t' = t \<and> bs' = [] \<and> F = free_blocks fs s \<union> set (inode_blocks s ?di)"
  have "wp (?f ?di) (\<lambda>r s'. fs_rel fs s' ?I ((inode_at fs s)(i := snd r)) \<and> others_same fs ?e ?I (inode_at fs s) i s' \<and>
      ?P (fst r) (inode_type (snd r)) (file_bytes s' (snd r)) (free_blocks fs s')) ?e"
    unfolding wp_bnd [of "DiskInode_clear_size _"] wp_Inr [where m = "DiskInode_clear_size ?di" and s = ?e, OF di'(4)]
    using wp_fs_release [OF rel i di'(3,1)] di'(2) empty_file(3) [OF di'(3,1)] by (simp add: wp_simps len [unfolded blk] blk)
  from wp_modify_inode [OF inv i, where f = ?f and P = ?P, OF this]
  have "wp (modify_disk_inode (Inode_of fs i) ?f) (\<lambda>_ s'. held s' = [] \<and> fs_inv fs s' \<and> fs_abs fs s' = (fs_abs fs s)(i \<mapsto> (t, [])) \<and>
    free_blocks fs s' = free_blocks fs s \<union> set (inode_blocks s ?di)) s"
    by (rule wp_conseq) auto
  then show ?thesis unfolding Inode_clear_def Inode_of_simps by (simp add: wp_simps)
qed

lemma Inode_clear_panics:
  assumes "CLEAR_MAX < data_blocks (inode_at fs s i)"
  shows "\<exists>e. Inode_clear (Inode_of fs i) s = Inl e"
proof (cases "acquire (inode_blk fs i) s")
  case (Inr r)
  then have "blocks (snd r) = blocks s" by (auto simp: acquire_def split: if_splits)
  then have "inode_at fs (snd r) i = inode_at fs s i" by (simp add: inode_at_def)
  with clear_size_panics [OF assms, of "snd r"] obtain e where "DiskInode_clear_size (inode_at fs (snd r) i) (snd r) = Inl e"
    by auto
  with Inr show ?thesis
    by (cases r) (simp add: Inode_clear_def modify_disk_inode_def modify_as_def action_defs inode_at_view)
qed (simp add: Inode_clear_def modify_disk_inode_def modify_as_def action_defs)

end
