(* ===== verification/Directory.thy ===== *)
theory Directory
  imports File_Spec
begin

text \<open>
  Directories (\<open>find\<close>, \<open>create\<close> and \<open>ls\<close> of \<open>src/easy-fs/src/vfs.rs\<close>, \<open>DirEntry\<close> of
  \<open>src/easy-fs/src/layout.rs\<close>). A directory is a file whose bytes encode a list of names and
  inode numbers; here it is shown that \<open>find\<close> is a lookup in that list, that \<open>ls\<close> gives its
  names and that \<open>create\<close> appends to it.
\<close>

section \<open>Entries\<close>

text \<open>The names that an entry can hold: at most 27 bytes of UTF-8, none of them zero.\<close>

definition name_ok :: "byte list \<Rightarrow> bool" where
  "name_ok nam \<longleftrightarrow> length nam \<le> 27 \<and> 0 \<notin> set nam \<and> utf8_valid nam"

definition entry_of :: "byte list \<times> nat \<Rightarrow> dir_entry" where
  "entry_of e = \<lparr>entry_name = fst e @ replicate (28 - length (fst e)) 0, entry_inode_number = snd e\<rparr>"

definition dir_bytes :: "(byte list \<times> nat) list \<Rightarrow> byte list" where
  "dir_bytes es = concat (map (DirEntry_as_bytes \<circ> entry_of) es)"

definition dir_ok :: "(byte list \<times> nat) list \<Rightarrow> bool" where
  "dir_ok es \<longleftrightarrow> (\<forall>(nam, i) \<in> set es. name_ok nam \<and> i < 2 ^ 32)"

text \<open>
  A longer name is not refused by a check: one of 28 bytes fills the array of the entry, so that reading
  it back runs past the end, and a still longer one does not fit.
\<close>

lemma find_nul_none: "0 \<notin> set xs \<Longrightarrow> find_nul xs k s = Inl IndexOutOfBounds"
  by (induction xs arbitrary: k) (auto simp: fail_def)

lemma long_names_panic:
  "length nam = 28 \<Longrightarrow> 0 \<notin> set nam \<Longrightarrow>
    DirEntry_new nam i s = Inr (\<lparr>entry_name = nam, entry_inode_number = i\<rparr>, s) \<and>
    DirEntry_name \<lparr>entry_name = nam, entry_inode_number = i\<rparr> s' = Inl IndexOutOfBounds"
  "28 < length nam \<Longrightarrow> DirEntry_new nam i s = Inl IndexOutOfBounds"
  by (simp_all add: DirEntry_new_def DirEntry_name_def NAME_LENGTH_LIMIT_def slice_range_def splice_at_def find_nul_none action_defs)

lemma find_nul_eq: "0 \<notin> set xs \<Longrightarrow> find_nul (xs @ 0 # ys) k = ret (k + length xs)"
  by (induction xs arbitrary: k) (auto simp: fun_eq_iff)

lemma entry_of_name:
  assumes "name_ok (fst e)"
  shows "DirEntry_name (entry_of e) = ret (fst e)"
proof -
  have "28 - length (fst e) = Suc (27 - length (fst e))" using assms by (auto simp: name_ok_def)
  then have "entry_name (entry_of e) = fst e @ 0 # replicate (27 - length (fst e)) 0"
    by (simp only: entry_of_def dir_entry.simps replicate_Suc)
  then show ?thesis
    using assms by (simp add: DirEntry_name_def find_nul_eq bnd_ret name_ok_def from_utf8_def unwrap_def)
qed

lemma length_as_bytes [simp]: "length (entry_name e) = 28 \<Longrightarrow> length (DirEntry_as_bytes e) = 32"
  by (simp add: DirEntry_as_bytes_def)

lemma length_entry_of [simp]: "name_ok (fst e) \<Longrightarrow> length (entry_name (entry_of e)) = 28"
  by (simp add: entry_of_def name_ok_def)

lemma DirEntry_from_as_bytes:
  "length (entry_name e) = 28 \<Longrightarrow> entry_inode_number e < 2 ^ 32 \<Longrightarrow> DirEntry_from_bytes (DirEntry_as_bytes e) = e"
  by (simp add: DirEntry_from_bytes_def DirEntry_as_bytes_def segment_def)

lemma DirEntry_new_eq: "name_ok nam \<Longrightarrow> DirEntry_new nam i = ret (entry_of (nam, i))"
  by (simp add: DirEntry_new_def slice_range_def layout_consts entry_of_def name_ok_def splice_at_def fun_eq_iff
      thn_def bnd_def ret_def)

lemma dir_ok_simps [simp]:
  "dir_ok []" "dir_ok (e # es) \<longleftrightarrow> name_ok (fst e) \<and> snd e < 2 ^ 32 \<and> dir_ok es"
  "dir_ok (es @ es') \<longleftrightarrow> dir_ok es \<and> dir_ok es'"
  by (auto simp: dir_ok_def)

lemma dir_okD: "dir_ok es \<Longrightarrow> k < length es \<Longrightarrow> name_ok (fst (es ! k)) \<and> snd (es ! k) < 2 ^ 32"
  using nth_mem [of k es] by (auto simp: dir_ok_def split_beta)

lemma length_dir_bytes: "dir_ok es \<Longrightarrow> length (dir_bytes es) = 32 * length es"
  by (induction es) (auto simp: dir_bytes_def)

lemma read_dir_bytes:
  "dir_ok es \<Longrightarrow> k < length es \<Longrightarrow> read_bytes (32 * k) 32 (dir_bytes es) = DirEntry_as_bytes (entry_of (es ! k))"
proof (induction es arbitrary: k)
  case Nil
  then show ?case by simp
next
  case (Cons e es)
  have len: "length (DirEntry_as_bytes (entry_of e)) = 32" using Cons.prems by simp
  show ?case
  proof (cases k)
    case 0
    then show ?thesis using len by (simp add: read_bytes_def dir_bytes_def)
  next
    case (Suc m)
    then show ?thesis using Cons len by (simp add: read_bytes_def dir_bytes_def)
  qed
qed

lemma write_dir_bytes:
  assumes "dir_ok es"
  shows "write_bytes (length es * 32) (DirEntry_as_bytes (entry_of e)) (dir_bytes es) = dir_bytes (es @ [e])"
  using length_dir_bytes [OF assms] by (simp add: write_bytes_def splice_at_def dir_bytes_def mult.commute)

section \<open>Lookup\<close>

text \<open>A directory that is open: its inode, in a state where its block is held.\<close>

definition opened :: "store \<Rightarrow> disk_inode \<Rightarrow> (byte list \<times> nat) list \<Rightarrow> bool" where
  "opened s di es \<longleftrightarrow> inode_ok s di \<and> store_ok s \<and> length (held s) < 16 \<and> is_dir di \<and> dir_ok es \<and> file_bytes s di = dir_bytes es"

lemma opened_size:
  assumes "opened s di es"
  shows "inode_size di = 32 * length es"
proof -
  have "inode_ok s di" "store_ok s" "file_bytes s di = dir_bytes es" "dir_ok es" using assms by (simp_all add: opened_def)
  then show ?thesis using length_file_bytes [of s di] length_dir_bytes [of es] by simp
qed

lemma read_dirent_eq:
  assumes o: "opened s di es" and k: "k < length es" and d: "length (entry_name dirent) = 28"
  shows "read_dirent di k dirent s = Inr (entry_of (es ! k), s)"
proof -
  have O: "inode_ok s di" "store_ok s" "length (held s) < 16" "dir_ok es" "file_bytes s di = dir_bytes es"
    using o by (simp_all add: opened_def)
  note e = dir_okD [OF O(4) k]
  have "min 32 (inode_size di - 32 * k) = 32" using opened_size [OF o] k by auto
  moreover have "segment (32 * k) 32 (dir_bytes es) = DirEntry_as_bytes (entry_of (es ! k))"
    using read_dir_bytes [OF O(4) k] by (simp add: read_bytes_def segment_def)
  ultimately have "DiskInode_read_at di (32 * k) (DirEntry_as_bytes dirent) s = Inr ((32, DirEntry_as_bytes (entry_of (es ! k))), s)"
    using read_at_eq [OF O(1-3), of "32 * k" "DirEntry_as_bytes dirent"] d e by (simp add: O(5) Let_def)
  moreover have "entry_inode_number (entry_of (es ! k)) < 2 ^ 32" using e by (simp add: entry_of_def)
  ultimately show ?thesis
    using e DirEntry_from_as_bytes [of "entry_of (es ! k)"]
    by (simp add: read_dirent_def layout_consts bnd_def thn_def assert_that_def ret_def)
qed

lemma find_inode_loop_eq:
  assumes o: "opened s di es"
  shows "k + n = length es \<Longrightarrow> length (entry_name dirent) = 28 \<Longrightarrow>
    find_inode_loop nam di [k..<length es] dirent s = Inr (map_of (drop k es) nam, s)"
proof (induction n arbitrary: k dirent)
  case 0
  then show ?case by (simp add: ret_def)
next
  case (Suc n)
  have k: "k < length es" using Suc.prems by simp
  have e: "name_ok (fst (es ! k))" using o k dir_okD by (simp add: opened_def)
  have "[k..<length es] = k # [Suc k..<length es]" using k by (rule upt_conv_Cons)
  moreover have "drop k es = es ! k # drop (Suc k) es" using k by (simp add: Cons_nth_drop_Suc)
  moreover have "find_inode_loop nam di [Suc k..<length es] (entry_of (es ! k)) s = Inr (map_of (drop (Suc k) es) nam, s)"
    using Suc.prems(1) e by (intro Suc.IH) simp_all
  ultimately show ?case
    using e by (simp add: bnd_Inr [where m = "read_dirent di k dirent", OF read_dirent_eq [OF o k Suc.prems(2)]]
        entry_of_name bnd_ret) (auto simp: ret_def entry_of_def split_beta)
qed

lemma find_inode_id_eq:
  assumes "opened s di es"
  shows "find_inode_id nam di s = Inr (map_of es nam, s)"
  using find_inode_loop_eq [OF assms, of 0 "length es" DirEntry_empty nam] opened_size [OF assms] assms
  by (simp add: find_inode_id_def layout_consts thn_def bnd_def assert_that_def ret_def DirEntry_empty_def opened_def)

lemma ls_loop_eq:
  assumes o: "opened s di es"
  shows "k + n = length es \<Longrightarrow> ls_loop di [k..<length es] v s = Inr (v @ map fst (drop k es), s)"
proof (induction n arbitrary: k v)
  case 0
  then show ?case by (simp add: ret_def)
next
  case (Suc n)
  have k: "k < length es" using Suc.prems by simp
  have e: "name_ok (fst (es ! k))" using o k dir_okD by (simp add: opened_def)
  have d: "length (entry_name DirEntry_empty) = 28" by (simp add: DirEntry_empty_def layout_consts)
  have "[k..<length es] = k # [Suc k..<length es]" using k by (rule upt_conv_Cons)
  moreover have "drop k es = es ! k # drop (Suc k) es" using k by (simp add: Cons_nth_drop_Suc)
  moreover have "ls_loop di [Suc k..<length es] (v @ [fst (es ! k)]) s = Inr ((v @ [fst (es ! k)]) @ map fst (drop (Suc k) es), s)"
    using Suc.prems(1) by (intro Suc.IH) simp
  ultimately show ?case
    using e by (simp add: bnd_Inr [where m = "read_dirent di k DirEntry_empty", OF read_dirent_eq [OF o k d]] entry_of_name bnd_ret)
qed

section \<open>Operations on a directory\<close>

lemma opened_entered:
  assumes inv: "fs_inv fs s" and a: "fs_abs fs s r = Some (Directory, dir_bytes es)" and es: "dir_ok es"
  shows "opened (entered (inode_blk fs r) s) (inode_at fs s r) es"
proof -
  have r: "r \<in> fs_inodes fs s" and t: "inode_type (inode_at fs s r) = Directory"
    and b: "file_bytes s (inode_at fs s r) = dir_bytes es"
    using a by (auto simp: fs_abs_Some)
  have ok: "inode_ok (entered (inode_blk fs r) s) (inode_at fs s r)"
    using fs_relD(4) [OF fs_invD(8) [OF inv r] r] by (simp add: file_ok_def)
  show ?thesis using ok t b es fs_invD(2,3) [OF inv] file_bytes_entered [OF inv r] by (simp add: opened_def is_dir_def)
qed

lemma read_inode_eq:
  assumes inv: "fs_inv fs s" and r: "r \<in> fs_inodes fs s"
    and f: "f (inode_at fs s r) (entered (inode_blk fs r) s) = Inr (v, entered (inode_blk fs r) s)"
  shows "read_disk_inode (Inode_of fs r) f s = Inr (v, s)"
  unfolding read_disk_inode_def Inode_of_simps
  by (rule read_as_eq) (use f fs_invD(7) [OF inv r] in \<open>simp_all add: inode_at_view\<close>)

lemma Inode_find_eq:
  assumes inv: "fs_inv fs s" and a: "fs_abs fs s r = Some (Directory, dir_bytes es)" and es: "dir_ok es"
    and ids: "snd ` set es \<subseteq> fs_inodes fs s"
  shows "Inode_find (Inode_of fs r) nam s = Inr (map_option (Inode_of fs) (map_of es nam), s)"
proof -
  have r: "r \<in> fs_inodes fs s" using a by (simp add: fs_abs_Some)
  have m: "i < maximum (inode_bitmap fs)" if "map_of es nam = Some i" for i
    using map_of_SomeD [OF that] ids fs_invD(5) [OF inv, of i] by force
  note f = bnd_Inr [where m = "find_inode_id nam (inode_at fs s r)", OF find_inode_id_eq [OF opened_entered [OF inv a es]]]
  show ?thesis
    unfolding Inode_find_def Inode_of_simps
    by (rule read_inode_eq [OF inv r])
      (use get_disk_inode_pos_eq [OF fs_invD(4) [OF inv]] m in \<open>auto simp: ret_def f Inode_of_def split: option.splits\<close>)
qed

lemma Inode_ls_eq:
  assumes inv: "fs_inv fs s" and a: "fs_abs fs s r = Some (Directory, dir_bytes es)" and es: "dir_ok es"
  shows "Inode_ls (Inode_of fs r) s = Inr (map fst es, s)"
proof -
  have r: "r \<in> fs_inodes fs s" using a by (simp add: fs_abs_Some)
  note o = opened_entered [OF inv a es]
  show ?thesis
    unfolding Inode_ls_def
    by (rule read_inode_eq [OF inv r]) (use ls_loop_eq [OF o, of 0 "length es" "[]"] opened_size [OF o] in \<open>simp add: layout_consts\<close>)
qed

section \<open>Creating a file\<close>

lemma dom_fs_abs: "dom (fs_abs fs s) = fs_inodes fs s"
  by (auto simp: fs_abs_def dom_def split: if_splits)

lemma inode_bm_inv: "fs_inv fs s \<Longrightarrow> bm_inv (inode_bitmap fs) s"
  using fs_invD(2-4) [of fs s] by (auto simp: bm_inv_def fs_layout_def)

lemma free_inode_exists:
  assumes "card (dom (fs_abs fs s)) < maximum (inode_bitmap fs)"
  shows "bm_free (inode_bitmap fs) s \<noteq> {}"
proof
  assume "bm_free (inode_bitmap fs) s = {}"
  then have "fs_inodes fs s = {..<maximum (inode_bitmap fs)}" by (auto simp: fs_inodes_def bm_live_def bm_free_def)
  then show False using assms by (simp add: dom_fs_abs)
qed

lemma initialize_ok:
  assumes "disk_inode_ok di"
  shows "disk_inode_ok (DiskInode_initialize ty di)" "inode_size (DiskInode_initialize ty di) = 0"
    "inode_type (DiskInode_initialize ty di) = ty"
  using assms by (simp_all add: DiskInode_initialize_def disk_inode_ok_def words_ok_def)

lemma fs_rel_insert:
  assumes "fs_rel fs s I D" and "disk_inode_ok di" and "inode_size di = 0"
  shows "fs_rel fs s (insert i I) (D(i := di))"
  using assms(1) empty_file(1,2) [OF assms(2,3)] by (auto simp: fs_rel_def)

text \<open>A new inode: a free bit of the bitmap and an empty inode in its place.\<close>

definition new_inode :: "easy_file_system \<Rightarrow> disk_inode_type \<Rightarrow> nat store_action" where
  "new_inode fs ty =
     bnd (alloc_inode fs) (\<lambda>i.
     let (block_id, block_offset) = get_disk_inode_pos fs i
     in thn (modify_as DiskInode block_id block_offset (\<lambda>di. ret ((), DiskInode_initialize ty di))) (ret i))"

lemma fs_inv_new:
  assumes inv: "fs_inv fs s" and i: "i \<notin> fs_inodes fs s" "i < maximum (inode_bitmap fs)"
    and b: "same_outside (bm_region (inode_bitmap fs)) s s1" "store_ok s1" "fs_inodes fs s1 = insert i (fs_inodes fs s)"
    and di: "disk_inode_ok di" "inode_size di = 0" and s2: "s2 = put_inode fs i di s1"
  shows "fs_inv fs s2" "fs_abs fs s2 = (fs_abs fs s)(i \<mapsto> (inode_type di, []))" "free_blocks fs s2 = free_blocks fs s"
proof -
  note V = fs_invD [OF inv] and A = areas_disjoint [OF fs_invD(4) [OF inv]]
  have blk: "inode_blk fs i \<in> inode_area fs" by (rule inode_blk_area [OF V(4) i(2)])
  have n: "nblocks s2 = nblocks s" "held s2 = []" "store_ok s2"
    using b V(2) store_ok_put_inode [OF b(2) di(1)] by (simp_all add: s2 same_outside_def)
  have fr: "\<forall>c. c \<notin> inode_area fs \<union> bm_region (inode_bitmap fs) \<longrightarrow> blocks s2 c = blocks s c"
  proof (intro allI impI)
    fix c assume c: "c \<notin> inode_area fs \<union> bm_region (inode_bitmap fs)"
    then have "c \<noteq> inode_blk fs i" using blk by auto
    then show "blocks s2 c = blocks s c" using b(1) c by (simp add: s2 same_outside_def)
  qed
  note F = fs_rel_frame [OF V(1) fr n(1) _ n(3)]
  have h: "holds_ok fs s2" using n(2) by (simp add: holds_ok_def)
  show "free_blocks fs s2 = free_blocks fs s" by (rule F(3) [OF h])
  have at: "inode_at fs s2 j = ((inode_at fs s)(i := di)) j" if "j \<in> insert i (fs_inodes fs s)" for j
  proof -
    have "inode_at fs s1 j = inode_at fs s j" if "j \<noteq> i"
    proof -
      have "inode_blk fs j \<in> inode_area fs" using \<open>j \<in> insert i (fs_inodes fs s)\<close> V(6) that by auto
      then show ?thesis by (intro inode_at_cong) (use b(1) A(5) in \<open>auto simp: same_outside_def\<close>)
    qed
    then show ?thesis using inode_at_put [OF b(2) di(1), of fs i j] by (simp add: s2)
  qed
  have "blocks s2 c = blocks s1 c" if "c \<in> bm_region (inode_bitmap fs)" for c
  proof -
    have "c \<noteq> inode_blk fs i" using that blk A(5) by auto
    then show ?thesis by (simp add: s2)
  qed
  then have "fs_inodes fs s2 = fs_inodes fs s1" unfolding fs_inodes_def by (intro bm_live_cong) simp
  then have I: "fs_inodes fs s2 = insert i (fs_inodes fs s)" using b(3) by simp
  have "fs_rel fs s2 (insert i (fs_inodes fs s)) ((inode_at fs s)(i := di))" by (rule fs_rel_insert [OF F(1) [OF h] di])
  then have "fs_rel fs s2 (fs_inodes fs s2) (inode_at fs s2)"
    unfolding I using fs_rel_cong [of "insert i (fs_inodes fs s)" "inode_at fs s2" "(inode_at fs s)(i := di)"] at by simp
  moreover have "blocks s2 0 = blocks s 0"
    by (rule fr [rule_format]) (use V(4) in \<open>auto simp: fs_layout_def inode_area_def bm_region_def\<close>)
  ultimately show "fs_inv fs s2" using n(2) V(9) by (simp add: fs_inv_def)
  show "fs_abs fs s2 = (fs_abs fs s)(i \<mapsto> (inode_type di, []))"
  proof
    fix j
    show "fs_abs fs s2 j = ((fs_abs fs s)(i \<mapsto> (inode_type di, []))) j"
      using at [of j] F(2) [OF h, of j] i(1) empty_file(3) [OF di] by (auto simp: fs_abs_def I)
  qed
qed

lemma left_put_entered: "left b (put_inode fs i di (entered b s)) = put_inode fs i di s"
  by (simp add: put_inode_def)

lemma wp_new_inode:
  assumes inv: "fs_inv fs s" and free: "card (dom (fs_abs fs s)) < maximum (inode_bitmap fs)"
  shows "wp (new_inode fs ty) (\<lambda>i s'. i \<notin> dom (fs_abs fs s) \<and> (\<forall>j < i. j \<in> dom (fs_abs fs s)) \<and> i < maximum (inode_bitmap fs) \<and> fs_inv fs s' \<and>
    fs_abs fs s' = (fs_abs fs s)(i \<mapsto> (ty, [])) \<and> free_blocks fs s' = free_blocks fs s) s"
  unfolding new_inode_def alloc_inode_def bnd_assoc wp_bnd [of "Bitmap_alloc _"]
proof (rule wp_conseq [OF wp_Bitmap_alloc [OF inode_bm_inv [OF inv]]])
  fix r s1
  assume post: "alloc_post (inode_bitmap fs) s r s1"
  then obtain i where r: "r = Some i" using free_inode_exists [OF free] by (cases r) (auto simp: alloc_post_def)
  have p: "i \<in> bm_free (inode_bitmap fs) s" "bm_inv (inode_bitmap fs) s1" "same_outside (bm_region (inode_bitmap fs)) s s1"
    "\<And>j. bm_bit (inode_bitmap fs) s1 j \<longleftrightarrow> bm_bit (inode_bitmap fs) s j \<or> j = i" "\<forall>j < i. bm_bit (inode_bitmap fs) s j"
    using post by (simp_all add: r alloc_post_def)
  have i: "i \<notin> fs_inodes fs s" "i < maximum (inode_bitmap fs)" using p(1) by (simp_all add: bm_free_def fs_inodes_def bm_live_def)
  have s1: "store_ok s1" "nblocks s1 = nblocks s" "held s1 = []"
    using p(2,3) fs_invD(2) [OF inv] by (simp_all add: bm_inv_def same_outside_def)
  have I: "fs_inodes fs s1 = insert i (fs_inodes fs s)" using p(4) i(2) by (auto simp: fs_inodes_def bm_live_def)
  have least: "\<forall>j < i. j \<in> fs_inodes fs s" using p(5) i(2) by (simp add: fs_inodes_def bm_live_def)
  have l: "fs_layout fs s" by (rule fs_invD(4) [OF inv])
  have u: "u32 i = i" using i(2) l by (simp add: u32_def fs_layout_def)
  have acq: "acquirable (inode_blk fs i) s1"
    using areas_below [OF l, of "inode_blk fs i"] inode_blk_area [OF l i(2)] s1 by (simp add: acquirable_def)
  have ok: "disk_inode_ok (inode_at fs s1 i)"
    unfolding inode_at_def by (rule disk_inode_view.view_ok) (use s1(1) in simp)
  note n = fs_inv_new [OF inv i p(3) s1(1) I initialize_ok(1,2) [OF ok, of ty] refl]
  show "wp (bnd (unwrap r) (\<lambda>a. bnd (ret (u32 a)) (\<lambda>i. let (block_id, block_offset) = get_disk_inode_pos fs i
      in thn (modify_as DiskInode block_id block_offset (\<lambda>di. ret ((), DiskInode_initialize ty di))) (ret i))))
    (\<lambda>i s'. i \<notin> dom (fs_abs fs s) \<and> (\<forall>j < i. j \<in> dom (fs_abs fs s)) \<and> i < maximum (inode_bitmap fs) \<and> fs_inv fs s' \<and>
      fs_abs fs s' = (fs_abs fs s)(i \<mapsto> (ty, [])) \<and> free_blocks fs s' = free_blocks fs s) s1"
    using n i least acq initialize_ok(3) [OF ok, of ty]
    by (simp add: r u wp_simps get_disk_inode_pos_eq [OF l i(2)] dom_fs_abs inode_at_view left_put_entered
        flip: put_inode_def)
qed

text \<open>The second half of \<open>create\<close>: the new entry is written behind the last one.\<close>

definition create_body :: "easy_file_system \<Rightarrow> byte list \<Rightarrow> nat \<Rightarrow> disk_inode \<Rightarrow> (unit \<times> disk_inode) store_action" where
  "create_body fs nam new_inode_id root =
     (let file_count = inode_size root div DIRENT_SZ;
          new_size = (file_count + 1) * DIRENT_SZ
      in bnd (Inode_increase_size (u32 new_size) root fs) (\<lambda>root.
         bnd (DirEntry_new nam new_inode_id) (\<lambda>dirent.
         thn (DiskInode_write_at root (file_count * DIRENT_SZ) (DirEntry_as_bytes dirent))
         (ret ((), root)))))"

lemma create_body_eq:
  assumes "inode_size root = 32 * n" and "32 * (n + 1) \<le> MAX_SIZE" and "name_ok nam"
  shows "create_body fs nam i root =
    bnd (write_body fs (n * 32) (DirEntry_as_bytes (entry_of (nam, i))) root) (\<lambda>r. ret ((), snd r))"
proof -
  have "u32 (n * 32 + 32) = n * 32 + 32" using assms(2) by (intro MAX_SIZE_u32) simp
  moreover have "length (DirEntry_as_bytes (entry_of (nam, i))) = 32" using assms(3) by simp
  ultimately show ?thesis
    using assms(1) by (simp add: create_body_def write_body_def layout_consts DirEntry_new_eq [OF assms(3)] bnd_ret bnd_assoc
        thn_def add.commute)
qed

lemma wp_create_body:
  assumes inv: "fs_inv fs s" and a: "fs_abs fs s r = Some (Directory, dir_bytes es)" and es: "dir_ok es" and nam: "name_ok nam"
    and room: "room_for fs s (32 * length es) (32 * (length es + 1))"
    and needed: "needed = total_blocks (32 * (length es + 1)) - total_blocks (32 * length es)"
  shows "wp (modify_disk_inode (Inode_of fs r) (create_body fs nam i)) (\<lambda>_ s'. held s' = [] \<and> fs_inv fs s' \<and>
    fs_abs fs s' = (fs_abs fs s)(r \<mapsto> (Directory, dir_bytes (es @ [(nam, i)]))) \<and>
    card (free_blocks fs s') = card (free_blocks fs s) - needed) s"
proof -
  have r: "r \<in> fs_inodes fs s" using a by (simp add: fs_abs_Some)
  let ?buf = "DirEntry_as_bytes (entry_of (nam, i))"
  have sz: "inode_size (inode_at fs s r) = 32 * length es" by (rule opened_size [OF opened_entered [OF inv a es]])
  have len: "length ?buf = 32" "length (dir_bytes es) = 32 * length es" using nam length_dir_bytes [OF es] by simp_all
  have ne: "?buf \<noteq> []" using len(1) by auto
  have rm: "room_for fs s (length (dir_bytes es)) (length es * 32 + length ?buf)" using room len by (simp add: ac_simps)
  have nd: "needed = total_blocks (length es * 32 + length ?buf) - total_blocks (length (dir_bytes es))"
    using needed len by (simp add: ac_simps)
  have max: "32 * (length es + 1) \<le> MAX_SIZE" using room by (simp add: room_for_def)
  note eq = create_body_eq [OF sz max nam, of fs i]
  have "wp (create_body fs nam i (inode_at fs s r)) (\<lambda>v s'. fs_rel fs s' (fs_inodes fs s) ((inode_at fs s)(r := snd v)) \<and>
      others_same fs (entered (inode_blk fs r) s) (fs_inodes fs s) (inode_at fs s) r s' \<and>
      (inode_type (snd v) = Directory \<and> file_bytes s' (snd v) = dir_bytes (es @ [(nam, i)]) \<and>
       card (free_blocks fs s') = card (free_blocks fs s) - needed)) (entered (inode_blk fs r) s)"
    unfolding eq wp_bnd [of "write_body _ _ _ _"] wp_ret
    by (rule wp_conseq [OF wp_write_entered [OF inv a ne rm nd]]) (simp add: write_dir_bytes [OF es])
  from wp_modify_inode [OF inv r, where f = "create_body fs nam i" and P = "\<lambda>v t bs F. t = Directory \<and>
      bs = dir_bytes (es @ [(nam, i)]) \<and> card F = card (free_blocks fs s) - needed", OF this]
  show ?thesis by (rule wp_conseq) auto
qed

lemma Inode_create_eq:
  "Inode_create ino nam =
     bnd (read_disk_inode ino (\<lambda>root. thn (assert_that (is_dir root)) (find_inode_id nam root))) (\<lambda>found.
     if found \<noteq> None then ret None
     else bnd (new_inode (inode_fs ino) File) (\<lambda>i.
          thn (modify_disk_inode ino (create_body (inode_fs ino) nam i))
          (let (block_id, block_offset) = get_disk_inode_pos (inode_fs ino) i
           in thn sync_all (ret (Some (Inode_new block_id block_offset (inode_fs ino)))))))"
  by (simp add: Inode_create_def new_inode_def create_body_def [abs_def] Let_def bnd_assoc bnd_ret split_beta cong: if_cong)

lemma read_dir_find:
  assumes inv: "fs_inv fs s" and a: "fs_abs fs s r = Some (Directory, dir_bytes es)" and es: "dir_ok es"
  shows "read_disk_inode (Inode_of fs r) (\<lambda>root. thn (assert_that (is_dir root)) (find_inode_id nam root)) s =
    Inr (map_of es nam, s)"
proof (rule read_inode_eq [OF inv])
  show "r \<in> fs_inodes fs s" using a by (simp add: fs_abs_Some)
  note o = opened_entered [OF inv a es]
  then have "is_dir (inode_at fs s r)" by (simp add: opened_def)
  then show "thn (assert_that (is_dir (inode_at fs s r))) (find_inode_id nam (inode_at fs s r)) (entered (inode_blk fs r) s) =
      Inr (map_of es nam, entered (inode_blk fs r) s)"
    using find_inode_id_eq [OF o] by (simp add: assert_that_def thn_def bnd_def ret_def)
qed

lemma Inode_create_exists:
  assumes "fs_inv fs s" and "fs_abs fs s r = Some (Directory, dir_bytes es)" and "dir_ok es" and "nam \<in> fst ` set es"
  shows "Inode_create (Inode_of fs r) nam s = Inr (None, s)"
proof -
  have "map_of es nam \<noteq> None" using assms(4) by (simp add: map_of_eq_None_iff)
  then show ?thesis
    unfolding Inode_create_eq
    by (simp add: bnd_Inr [where m = "read_disk_inode _ _", OF read_dir_find [OF assms(1-3)]]) (simp add: ret_def)
qed

lemma wp_Inode_create:
  assumes inv: "fs_inv fs s" and a: "fs_abs fs s r = Some (Directory, dir_bytes es)" and es: "dir_ok es"
    and nam: "name_ok nam" "nam \<notin> fst ` set es" and free: "card (dom (fs_abs fs s)) < maximum (inode_bitmap fs)"
    and room: "room_for fs s (32 * length es) (32 * (length es + 1))"
    and needed: "needed = total_blocks (32 * (length es + 1)) - total_blocks (32 * length es)"
  shows "wp (Inode_create (Inode_of fs r) nam) (\<lambda>v s'. \<exists>i. i \<notin> dom (fs_abs fs s) \<and> (\<forall>j < i. j \<in> dom (fs_abs fs s)) \<and> i < maximum (inode_bitmap fs) \<and>
    v = Some (Inode_of fs i) \<and> fs_inv fs s' \<and>
    fs_abs fs s' = (fs_abs fs s)(i \<mapsto> (File, []), r \<mapsto> (Directory, dir_bytes (es @ [(nam, i)]))) \<and>
    card (free_blocks fs s') = card (free_blocks fs s) - needed) s"
proof -
  let ?Q = "\<lambda>v s'. \<exists>i. i \<notin> dom (fs_abs fs s) \<and> (\<forall>j < i. j \<in> dom (fs_abs fs s)) \<and> i < maximum (inode_bitmap fs) \<and> v = Some (Inode_of fs i) \<and> fs_inv fs s' \<and>
    fs_abs fs s' = (fs_abs fs s)(i \<mapsto> (File, []), r \<mapsto> (Directory, dir_bytes (es @ [(nam, i)]))) \<and>
    card (free_blocks fs s') = card (free_blocks fs s) - needed"
  have none: "map_of es nam = None" using nam(2) by (simp add: map_of_eq_None_iff)
  have "wp (bnd (new_inode fs File) (\<lambda>i. thn (modify_disk_inode (Inode_of fs r) (create_body fs nam i))
      (let (block_id, block_offset) = get_disk_inode_pos fs i
       in thn sync_all (ret (Some (Inode_new block_id block_offset fs)))))) ?Q s"
    unfolding wp_bnd [of "new_inode _ _"]
  proof (rule wp_conseq [OF wp_new_inode [OF inv free]], elim conjE)
    fix i s1
    assume i: "i \<notin> dom (fs_abs fs s)" "i < maximum (inode_bitmap fs)" "\<forall>j < i. j \<in> dom (fs_abs fs s)" and inv1: "fs_inv fs s1"
      and a1: "fs_abs fs s1 = (fs_abs fs s)(i \<mapsto> (File, []))" and f1: "free_blocks fs s1 = free_blocks fs s"
    have "r \<noteq> i" using i(1) a by auto
    then have a1r: "fs_abs fs s1 r = Some (Directory, dir_bytes es)" using a a1 by simp
    have room1: "room_for fs s1 (32 * length es) (32 * (length es + 1))" using room f1 by (simp add: room_for_def)
    have pos: "get_disk_inode_pos fs i = (inode_blk fs i, inode_off i)"
      by (rule get_disk_inode_pos_eq [OF fs_invD(4) [OF inv] i(2)])
    have "wp (modify_disk_inode (Inode_of fs r) (create_body fs nam i)) (\<lambda>_ s'. held s' = [] \<and> ?Q (Some (Inode_of fs i)) s') s1"
      by (rule wp_conseq [OF wp_create_body [OF inv1 a1r es nam(1) room1 needed]]) (use i a1 f1 in auto)
    then show "wp (thn (modify_disk_inode (Inode_of fs r) (create_body fs nam i))
      (let (block_id, block_offset) = get_disk_inode_pos fs i
       in thn sync_all (ret (Some (Inode_new block_id block_offset fs))))) ?Q s1"
      unfolding pos Let_def split_conv Inode_of_def [symmetric] wp_thn wp_sync_all wp_ret by simp
  qed
  then show ?thesis
    unfolding Inode_create_eq wp_bnd [of "read_disk_inode _ _"] wp_Inr [where m = "read_disk_inode _ _", OF read_dir_find [OF inv a es]]
    by (simp add: none)
qed

end
