(* ===== verification/Mkfs.thy ===== *)
theory Mkfs
  imports Directory
begin

text \<open>
  Formatting a device and opening it again (\<open>create\<close> and \<open>open\<close> of \<open>src/easy-fs/src/efs.rs\<close>),
  and packing programs into an image (\<open>src/easy-fs-fuse/src/main.rs\<close>).
\<close>

section \<open>The areas\<close>

definition mkfs_ok :: "nat \<Rightarrow> nat \<Rightarrow> bool" where
  "mkfs_ok tb ib \<longleftrightarrow> 0 < ib \<and> ib \<le> 2 ^ 20 \<and> 1 + 1025 * ib \<le> tb \<and> tb + 4096 \<le> 2 ^ 32"

definition mkfs_data :: "nat \<Rightarrow> nat \<Rightarrow> nat" where
  "mkfs_data tb ib = tb - 1 - 1025 * ib"

definition mkfs_bits :: "nat \<Rightarrow> nat \<Rightarrow> nat" where
  "mkfs_bits tb ib = (mkfs_data tb ib + 4096) div 4097"

definition mkfs_fs :: "nat \<Rightarrow> nat \<Rightarrow> easy_file_system" where
  "mkfs_fs tb ib =
     \<lparr>inode_bitmap = Bitmap_new 1 ib, data_bitmap = Bitmap_new (1 + 1025 * ib) (mkfs_bits tb ib),
      inode_area_start_block = 1 + ib, data_area_start_block = 1 + 1025 * ib + mkfs_bits tb ib\<rparr>"

definition mkfs_sb :: "nat \<Rightarrow> nat \<Rightarrow> super_block" where
  "mkfs_sb tb ib =
     SuperBlock_initialize tb ib (1024 * ib) (mkfs_bits tb ib) (mkfs_data tb ib - mkfs_bits tb ib)"

lemma mkfs_bits:
  "mkfs_bits tb ib \<le> mkfs_data tb ib" "mkfs_data tb ib \<le> 4097 * mkfs_bits tb ib"
proof -
  let ?d = "mkfs_data tb ib"
  have q: "(?d + 4096) div 4097 * 4097 + (?d + 4096) mod 4097 = ?d + 4096" "(?d + 4096) mod 4097 < 4097"
    by (rule div_mult_mod_eq) simp
  show "?d \<le> 4097 * mkfs_bits tb ib" unfolding mkfs_bits_def using q by linarith
  show "mkfs_bits tb ib \<le> ?d" unfolding mkfs_bits_def using q by (cases "?d = 0") (simp, linarith)
qed

lemma u32_sub_eq: "b \<le> a \<Longrightarrow> a < 2 ^ 32 \<Longrightarrow> u32_sub a b = a - b"
proof -
  assume "b \<le> a" "a < 2 ^ 32"
  moreover from this have "a + 2 ^ 32 - b = (a - b) + 2 ^ 32" by simp
  ultimately show ?thesis by (simp only: u32_sub_def u32_def mod_add_self2) simp
qed

lemma efs_geometry_eq:
  assumes "mkfs_ok tb ib"
  shows "efs_geometry tb ib = (mkfs_fs tb ib, mkfs_sb tb ib)"
proof -
  have b: "1 + 1025 * ib \<le> tb" "tb + 4096 \<le> 2 ^ 32" "ib \<le> 2 ^ 20" using assms by (simp_all add: mkfs_ok_def)
  have "ib * 4096 * 128 + 512 - 1 = 511 + 1024 * ib * 512" by simp
  then have "(ib * 4096 * 128 + 512 - 1) div 512 = 1024 * ib" by simp
  then have area: "u32 ((maximum (Bitmap_new 1 ib) * v_size DiskInode + BLOCK_SZ - 1) div BLOCK_SZ) = 1024 * ib"
    using b by (simp add: maximum_eq Bitmap_new_def BLOCK_SZ_def u32_def)
  have tot: "u32 (ib + 1024 * ib) = 1025 * ib" using b by (simp add: u32_def)
  have sub: "u32_sub (u32_sub tb 1) (1025 * ib) = mkfs_data tb ib"
    using b by (simp add: u32_sub_eq mkfs_data_def)
  have d: "mkfs_data tb ib + 4096 < 2 ^ 32" using b assms unfolding mkfs_data_def mkfs_ok_def by linarith
  then have bits: "u32 (mkfs_data tb ib + 4096) div 4097 = mkfs_bits tb ib" by (simp add: u32_def mkfs_bits_def)
  have rest: "u32_sub (mkfs_data tb ib) (mkfs_bits tb ib) = mkfs_data tb ib - mkfs_bits tb ib"
    using d mkfs_bits(1) by (intro u32_sub_eq) simp_all
  have start: "u32 (1 + ib + 1024 * ib) = 1 + 1025 * ib" "u32 (1 + ib) = 1 + ib" using b by (simp_all add: u32_def)
  have "mkfs_bits tb ib \<le> mkfs_data tb ib" by (rule mkfs_bits)
  then have data: "u32 (1 + 1025 * ib + mkfs_bits tb ib) = 1 + 1025 * ib + mkfs_bits tb ib"
    using b by (simp add: u32_def mkfs_data_def)
  show ?thesis
    unfolding efs_geometry_def Let_def area tot sub bits rest start data mkfs_fs_def mkfs_sb_def ..
qed

lemma mkfs_fs_simps [simp]:
  "inode_bitmap (mkfs_fs tb ib) = Bitmap_new 1 ib"
  "data_bitmap (mkfs_fs tb ib) = Bitmap_new (1 + 1025 * ib) (mkfs_bits tb ib)"
  "inode_area_start_block (mkfs_fs tb ib) = 1 + ib"
  "data_area_start_block (mkfs_fs tb ib) = 1 + 1025 * ib + mkfs_bits tb ib"
  by (simp_all add: mkfs_fs_def)

lemma Bitmap_new_simps [simp]: "start_block_id (Bitmap_new a b) = a" "bitmap_blocks (Bitmap_new a b) = b"
  by (simp_all add: Bitmap_new_def)

lemma mkfs_layout:
  assumes "mkfs_ok tb ib" and "nblocks s = tb"
  shows "fs_layout (mkfs_fs tb ib) s"
proof -
  have "mkfs_bits tb ib \<le> tb - 1 - 1025 * ib" "tb - 1 - 1025 * ib \<le> 4097 * mkfs_bits tb ib"
    using mkfs_bits [of tb ib] by (simp_all add: mkfs_data_def)
  then show ?thesis using assms by (auto simp: fs_layout_def mkfs_ok_def maximum_eq)
qed

section \<open>Formatting\<close>

lemma zero_words: "view_at BitmapBlock 0 (replicate 512 0) = replicate 64 0"
  by (simp add: view_at_def BitmapBlock_def segment_def le_array_def map_replicate_const get_le_zero [abs_def])

lemma zero_bits:
  assumes i: "i < maximum bm" and z: "\<And>b. b \<in> bm_region bm \<Longrightarrow> blocks s b = replicate 512 0"
  shows "\<not> bm_bit bm s i"
proof -
  have "i div 4096 < bitmap_blocks bm" using i by (intro less_mult_imp_div_less) (simp add: maximum_eq)
  then have "blocks s (i div 4096 + start_block_id bm) = replicate 512 0" by (intro z) (simp add: bm_region_def)
  moreover have "replicate 64 0 ! (i mod 4096 div 64) = (0 :: nat)" by (rule nth_replicate) (simp add: less_mult_imp_div_less)
  ultimately show ?thesis by (simp add: bm_bit_def word_bit_def bm_words_def zero_words)
qed

lemma wp_zero_all:
  assumes "store_ok s" and "held s = []" and "n \<le> nblocks s"
  shows "wp (for_each zero_block [0..<n]) (\<lambda>_ s'. store_ok s' \<and> held s' = [] \<and> nblocks s' = nblocks s \<and>
    (\<forall>b < n. blocks s' b = replicate 512 0)) s"
proof (rule wp_conseq [OF wp_for_each [where I = "\<lambda>ys s'. store_ok s' \<and> held s' = [] \<and> nblocks s' = nblocks s \<and>
    (\<forall>b \<in> set ys. blocks s' b = replicate 512 0)"]])
  fix x ys zs s'
  assume e: "[0..<n] = ys @ x # zs" and I: "store_ok s' \<and> held s' = [] \<and> nblocks s' = nblocks s \<and>
    (\<forall>b \<in> set ys. blocks s' b = replicate 512 0)"
  have "x \<in> set [0..<n]" unfolding e by simp
  then have "acquirable x s'" using I assms(3) by (simp add: acquirable_def)
  then show "wp (zero_block x) (\<lambda>_ s'. store_ok s' \<and> held s' = [] \<and> nblocks s' = nblocks s \<and>
      (\<forall>b \<in> set (ys @ [x]). blocks s' b = replicate 512 0)) s'"
    using I by (simp add: zero_block_def wp_modify_pure map_replicate_const)
qed (use assms in auto)

text \<open>The device after the super block is written: an empty file system.\<close>

lemma mkfs_super:
  assumes ok: "mkfs_ok tb ib" and len: "length bs = 512"
  shows "super_describes (mkfs_fs tb ib) (put_at SuperBlock 0 (mkfs_sb tb ib) bs)"
    "length (put_at SuperBlock 0 (mkfs_sb tb ib) bs) = 512"
proof -
  have "mkfs_bits tb ib \<le> tb" using mkfs_bits(1) [of tb ib] by (simp add: mkfs_data_def)
  then have sb: "super_block_ok (mkfs_sb tb ib)"
    using ok by (auto simp: super_block_ok_def mkfs_sb_def SuperBlock_initialize_def mkfs_ok_def EFS_MAGIC_def mkfs_data_def)
  have "v_size SuperBlock \<le> 512" by (simp add: SuperBlock_def)
  then show "length (put_at SuperBlock 0 (mkfs_sb tb ib) bs) = 512"
    "super_describes (mkfs_fs tb ib) (put_at SuperBlock 0 (mkfs_sb tb ib) bs)"
    using super_block_view.put_at_length [of 0 bs, OF _ sb] super_block_view.view_put_same [of 0 bs, OF _ sb] len
    by (simp_all add: super_describes_def Let_def SuperBlock_is_valid_def mkfs_sb_def SuperBlock_initialize_def)
qed

lemma mkfs_empty:
  assumes ok: "mkfs_ok tb ib" and s: "store_ok s" "held s = []" "nblocks s = tb" "\<forall>b < tb. blocks s b = replicate 512 0"
    and s': "s' = set_block 0 (put_at SuperBlock 0 (mkfs_sb tb ib) (blocks s 0)) s"
  shows "fs_inv (mkfs_fs tb ib) s'" "fs_abs (mkfs_fs tb ib) s' = Map.empty"
    "free_blocks (mkfs_fs tb ib) s' = {1 + 1025 * ib + mkfs_bits tb ib ..< tb}"
proof -
  let ?fs = "mkfs_fs tb ib"
  note sup = mkfs_super [OF ok, of "blocks s 0"]
  have s1: "store_ok s'" "held s' = []" "nblocks s' = tb" using s sup by (simp_all add: s')
  have z: "blocks s' b = replicate 512 0" if "0 < b" "b < tb" for b using s(4) that by (simp add: s')
  have l: "fs_layout ?fs s'" by (rule mkfs_layout [OF ok s1(3)])
  have "\<not> bm_bit (inode_bitmap ?fs) s' i" if "i < maximum (inode_bitmap ?fs)" for i
    by (rule zero_bits [OF that], rule z) (use ok in \<open>auto simp: bm_region_def mkfs_ok_def\<close>)
  then have "bm_live (inode_bitmap ?fs) s' = {}" by (auto simp: bm_live_def)
  then have none: "fs_inodes ?fs s' = {}" by (simp add: fs_inodes_def)
  then show "fs_abs ?fs s' = Map.empty" by (auto simp: fs_abs_def)
  have bits: "blocks s' c = replicate 512 0" if "c \<in> bm_region (data_bitmap ?fs)" for c
  proof (rule z)
    have "1 + 1025 * ib \<le> c" "c < data_area_start_block ?fs" using that by (simp_all add: bm_region_def)
    moreover have "data_area_start_block ?fs \<le> tb" using l s1(3) unfolding fs_layout_def by blast
    ultimately show "0 < c" "c < tb" by linarith+
  qed
  have "\<not> marked ?fs s' b" if "b \<in> data_area ?fs s'" for b
  proof -
    have "nblocks s' - data_area_start_block ?fs \<le> maximum (data_bitmap ?fs)" using l unfolding fs_layout_def by blast
    moreover have "data_area_start_block ?fs \<le> b" "b < nblocks s'" using that by (simp_all add: data_area_def)
    ultimately have "b - data_area_start_block ?fs < maximum (data_bitmap ?fs)" by linarith
    then show ?thesis unfolding marked_def using bits by (rule zero_bits)
  qed
  then have "free_blocks ?fs s' = data_area ?fs s'" by (auto simp: free_blocks_def)
  then show fr: "free_blocks ?fs s' = {1 + 1025 * ib + mkfs_bits tb ib ..< tb}" by (simp add: data_area_def s1(3))
  have "zeros (blocks s' b)" if "b \<in> free_blocks ?fs s'" for b
    using z [of b] that by (simp add: fr zeros_def)
  then show "fs_inv ?fs s'" using s1 l none sup s(1) by (simp add: fs_inv_def fs_rel_def holds_ok_def s')
qed

lemma wp_Efs_create:
  assumes ok: "mkfs_ok tb ib" and s: "store_ok s" "held s = []" "nblocks s = tb"
  shows "wp (Efs_create tb ib) (\<lambda>fs s'. fs = mkfs_fs tb ib \<and> fs_inv fs s' \<and> fs_abs fs s' = [0 \<mapsto> (Directory, [])] \<and>
    free_blocks fs s' = {1 + 1025 * ib + mkfs_bits tb ib ..< tb}) s"
proof -
  let ?fs = "mkfs_fs tb ib"
  let ?Q = "\<lambda>fs s'. fs = ?fs \<and> fs_inv fs s' \<and> fs_abs fs s' = [0 \<mapsto> (Directory, [])] \<and>
    free_blocks fs s' = {1 + 1025 * ib + mkfs_bits tb ib ..< tb}"
  let ?rest = "bnd (alloc_inode ?fs) (\<lambda>i. thn (assert_that (i = 0))
      (let (block_id, block_offset) = get_disk_inode_pos ?fs 0
       in thn (modify_as DiskInode block_id block_offset (\<lambda>di. ret ((), DiskInode_initialize Directory di)))
          (thn sync_all (ret ?fs))))"
  have rest: "wp ?rest ?Q s2" if inv: "fs_inv ?fs s2" and a: "fs_abs ?fs s2 = Map.empty"
    and fr: "free_blocks ?fs s2 = {1 + 1025 * ib + mkfs_bits tb ib ..< tb}" for s2
  proof -
    have "card (dom (fs_abs ?fs s2)) < maximum (inode_bitmap ?fs)" using ok by (simp add: a maximum_eq mkfs_ok_def)
    from wp_new_inode [OF inv this, of Directory]
    have "wp (alloc_inode ?fs) (\<lambda>i s'. wp (let (block_id, block_offset) = get_disk_inode_pos ?fs i
        in thn (modify_as DiskInode block_id block_offset (\<lambda>di. ret ((), DiskInode_initialize Directory di))) (ret i))
        (\<lambda>i s'. i = 0 \<and> held s' = [] \<and> ?Q ?fs s') s') s2"
      unfolding new_inode_def wp_bnd [of "alloc_inode _"]
      by (elim wp_conseq) (use fs_invD(2) in \<open>auto simp: a fr\<close>)
    then show ?thesis
      unfolding wp_bnd [of "alloc_inode _"]
    proof (rule wp_conseq)
      fix i s'
      assume w: "wp (let (block_id, block_offset) = get_disk_inode_pos ?fs i
        in thn (modify_as DiskInode block_id block_offset (\<lambda>di. ret ((), DiskInode_initialize Directory di))) (ret i))
        (\<lambda>i s'. i = 0 \<and> held s' = [] \<and> ?Q ?fs s') s'"
      then have "i = 0" by (auto simp: wp_iff thn_def bnd_def ret_def split_beta split: sum.splits)
      then show "wp (thn (assert_that (i = 0)) (let (block_id, block_offset) = get_disk_inode_pos ?fs 0
          in thn (modify_as DiskInode block_id block_offset (\<lambda>di. ret ((), DiskInode_initialize Directory di)))
             (thn sync_all (ret ?fs)))) ?Q s'"
        using w by (simp add: wp_thn wp_assert wp_ret wp_sync_all split_beta Let_def)
    qed
  qed
  have sup: "wp (thn (modify_as SuperBlock 0 0 (\<lambda>_. ret ((), mkfs_sb tb ib))) ?rest) ?Q s1"
    if s1: "store_ok s1" "held s1 = []" "nblocks s1 = tb" "\<forall>b < tb. blocks s1 b = replicate 512 0" for s1
  proof -
    have "acquirable 0 s1" using s1(2,3) ok by (auto simp: acquirable_def mkfs_ok_def)
    then show ?thesis
      using rest [OF mkfs_empty [OF ok s1 refl]] by (simp add: wp_thn wp_modify_pure SuperBlock_def)
  qed
  show ?thesis
    unfolding Efs_create_def efs_geometry_eq [OF ok] Let_def split_conv wp_thn [of "for_each _ _"]
    by (rule wp_conseq [OF wp_zero_all [OF s(1,2)]]) (use s(3) sup in \<open>auto simp: Let_def split_beta\<close>)
qed

section \<open>Opening\<close>

lemma Efs_open_eq:
  assumes inv: "fs_inv fs s"
  shows "Efs_open s = Inr (fs, s)"
proof -
  note l = fs_invD(4) [OF inv, unfolded fs_layout_def] and sup = fs_invD(9) [OF inv, unfolded super_describes_def Let_def]
  let ?sb = "view_at SuperBlock 0 (blocks s 0)"
  let ?ib = "sb_inode_bitmap_blocks ?sb" and ?db = "sb_data_bitmap_blocks ?sb"
  have S: "SuperBlock_is_valid ?sb" "inode_bitmap fs = Bitmap_new 1 ?ib"
    "data_bitmap fs = Bitmap_new (start_block_id (data_bitmap fs)) ?db" "sb_inode_area_blocks ?sb = 1024 * ?ib"
    using sup by simp_all
  have bb: "bitmap_blocks (inode_bitmap fs) = ?ib" "bitmap_blocks (data_bitmap fs) = ?db"
    by (simp add: S(2)) (subst S(3), simp)
  have f: "inode_area_start_block fs = 1 + ?ib" "start_block_id (data_bitmap fs) = 1 + 1025 * ?ib"
    "data_area_start_block fs = 1 + 1025 * ?ib + ?db" "data_area_start_block fs < 2 ^ 32"
    using l unfolding bb by auto
  have u: "u32 (?ib + 1024 * ?ib) = 1025 * ?ib" "u32 (1 + 1025 * ?ib) = 1 + 1025 * ?ib" "u32 (1 + ?ib) = 1 + ?ib"
    "u32 (1 + 1025 * ?ib + ?db) = 1 + 1025 * ?ib + ?db"
    using f(3,4) by (simp_all add: u32_def)
  have "fs = \<lparr>inode_bitmap = Bitmap_new 1 ?ib, data_bitmap = Bitmap_new (1 + 1025 * ?ib) ?db,
      inode_area_start_block = 1 + ?ib, data_area_start_block = 1 + 1025 * ?ib + ?db\<rparr>"
    using S(2) S(3) [unfolded f(2)] f(1,3) by (intro easy_file_system.equality) simp_all
  moreover have "acquirable 0 s" using l fs_invD(2) [OF inv] by (auto simp: acquirable_def)
  moreover have "v_size SuperBlock \<le> 512" by (simp add: SuperBlock_def)
  ultimately show ?thesis
    unfolding Efs_open_def
    by (intro read_as_eq) (simp_all add: S(1,2,4) u [simplified] thn_def bnd_def assert_that_def ret_def Let_def)
qed

section \<open>Packing\<close>

definition app_ok :: "byte list \<times> byte list \<Rightarrow> bool" where
  "app_ok app \<longleftrightarrow> name_ok (fst app) \<and> snd app \<noteq> [] \<and> length (snd app) \<le> MAX_SIZE"

text \<open>The data blocks that the programs and a directory of them need.\<close>

definition apps_blocks :: "nat \<Rightarrow> (byte list \<times> byte list) list \<Rightarrow> nat" where
  "apps_blocks n apps = (total_blocks (32 * (n + length apps)) - total_blocks (32 * n)) +
     sum_list (map (\<lambda>app. total_blocks (length (snd app))) apps)"

definition pack_pre :: "easy_file_system \<Rightarrow> store \<Rightarrow> (byte list \<times> nat) list \<Rightarrow> (byte list \<times> byte list) list \<Rightarrow> bool" where
  "pack_pre fs s es apps \<longleftrightarrow> fs_inv fs s \<and> fs_abs fs s 0 = Some (Directory, dir_bytes es) \<and> dir_ok es \<and>
     list_all app_ok apps \<and> distinct (map fst es @ map fst apps) \<and>
     card (dom (fs_abs fs s)) + length apps \<le> maximum (inode_bitmap fs) \<and>
     32 * (length es + length apps) \<le> MAX_SIZE \<and> apps_blocks (length es) apps \<le> card (free_blocks fs s)"

definition pack_post ::
    "easy_file_system \<Rightarrow> store \<Rightarrow> (byte list \<times> nat) list \<Rightarrow> (byte list \<times> byte list) list \<Rightarrow> store \<Rightarrow> bool" where
  "pack_post fs s es apps s' \<longleftrightarrow> fs_inv fs s' \<and> (\<exists>es'. map fst es' = map fst apps \<and> dir_ok (es @ es') \<and>
     fs_abs fs s' 0 = Some (Directory, dir_bytes (es @ es')) \<and>
     list_all2 (\<lambda>e app. fs_abs fs s' (snd e) = Some (File, snd app)) es' apps) \<and>
     (\<forall>j \<in> dom (fs_abs fs s). j \<noteq> 0 \<longrightarrow> fs_abs fs s' j = fs_abs fs s j)"

lemma total_blocks_0 [simp]: "total_blocks 0 = 0"
  by (simp add: total_blocks_def size_data_blocks_def Let_def u32_def BLOCK_SZ_def)

lemma apps_blocks_Cons:
  assumes "32 * (n + length (app # apps)) \<le> MAX_SIZE"
  shows "apps_blocks n (app # apps) =
    (total_blocks (32 * (n + 1)) - total_blocks (32 * n)) + total_blocks (length (snd app)) + apps_blocks (n + 1) apps"
proof -
  have "total_blocks (32 * n) \<le> total_blocks (32 * (n + 1))" "total_blocks (32 * (n + 1)) \<le> total_blocks (32 * (n + 1 + length apps))"
    using assms by (auto intro!: total_blocks_mono)
  moreover have "n + length (app # apps) = n + 1 + length apps" by simp
  ultimately show ?thesis unfolding apps_blocks_def by simp
qed

text \<open>One round: the file is created, then written.\<close>

lemma wp_pack_round:
  assumes pre: "pack_pre fs s es (app # apps)"
  shows "wp (bnd (Inode_create (Inode_of fs 0) (fst app)) (\<lambda>r. bnd (unwrap r) (\<lambda>ino. Inode_write_at ino 0 (snd app))))
    (\<lambda>_ s'. \<exists>i. i \<notin> dom (fs_abs fs s) \<and> i < 2 ^ 32 \<and> pack_pre fs s' (es @ [(fst app, i)]) apps \<and>
      fs_abs fs s' = (fs_abs fs s)(0 \<mapsto> (Directory, dir_bytes (es @ [(fst app, i)])), i \<mapsto> (File, snd app))) s"
proof -
  have P: "fs_inv fs s" "fs_abs fs s 0 = Some (Directory, dir_bytes es)" "dir_ok es" "app_ok app" "list_all app_ok apps"
    "distinct (map fst es @ map fst (app # apps))" "card (dom (fs_abs fs s)) + length (app # apps) \<le> maximum (inode_bitmap fs)"
    "32 * (length es + length (app # apps)) \<le> MAX_SIZE" "apps_blocks (length es) (app # apps) \<le> card (free_blocks fs s)"
    using pre by (simp_all add: pack_pre_def)
  let ?n = "total_blocks (32 * (length es + 1)) - total_blocks (32 * length es)" and ?m = "total_blocks (length (snd app))"
  note ab = P(9) [unfolded apps_blocks_Cons [OF P(8)]]
  have nam: "name_ok (fst app)" "fst app \<notin> fst ` set es" and data: "snd app \<noteq> []" "length (snd app) \<le> MAX_SIZE"
    using P(4,6) by (auto simp: app_ok_def)
  have fin: "finite (dom (fs_abs fs s))" by (simp add: dom_fs_abs fs_inodes_def bm_live_def)
  have room: "room_for fs s (32 * length es) (32 * (length es + 1))" using P(8) ab by (simp add: room_for_def)
  have free: "card (dom (fs_abs fs s)) < maximum (inode_bitmap fs)" using P(7) by simp
  show ?thesis
    unfolding wp_bnd [of "Inode_create _ _"]
  proof (rule wp_conseq [OF wp_Inode_create [OF P(1-3) nam free room refl]], elim exE conjE)
    fix r s1 i
    assume i: "i \<notin> dom (fs_abs fs s)" "i < maximum (inode_bitmap fs)" and r: "r = Some (Inode_of fs i)" and inv1: "fs_inv fs s1"
      and a1: "fs_abs fs s1 = (fs_abs fs s)(i \<mapsto> (File, []), 0 \<mapsto> (Directory, dir_bytes (es @ [(fst app, i)])))"
      and f1: "card (free_blocks fs s1) = card (free_blocks fs s) - ?n"
    have i0: "i \<noteq> 0" using i(1) P(2) by auto
    have i32: "i < 2 ^ 32" using i(2) fs_invD(4) [OF P(1)] by (simp add: fs_layout_def)
    have a1i: "fs_abs fs s1 i = Some (File, [])" using a1 i0 by simp
    have room1: "room_for fs s1 (length []) (0 + length (snd app))" using data(2) f1 ab by (simp add: room_for_def)
    have "wp (Inode_write_at (Inode_of fs i) 0 (snd app)) (\<lambda>_ s'. i \<notin> dom (fs_abs fs s) \<and> i < 2 ^ 32 \<and>
        pack_pre fs s' (es @ [(fst app, i)]) apps \<and>
        fs_abs fs s' = (fs_abs fs s)(0 \<mapsto> (Directory, dir_bytes (es @ [(fst app, i)])), i \<mapsto> (File, snd app))) s1"
    proof (rule wp_conseq [OF wp_Inode_write_at [OF inv1 a1i data(1) room1 refl]], elim conjE)
      fix n s2
      assume inv2: "fs_inv fs s2" and a2: "fs_abs fs s2 = (fs_abs fs s1)(i \<mapsto> (File, write_bytes 0 (snd app) []))"
        and f2: "card (free_blocks fs s2) = card (free_blocks fs s1) - (total_blocks (0 + length (snd app)) - total_blocks (length []))"
      have a: "fs_abs fs s2 = (fs_abs fs s)(0 \<mapsto> (Directory, dir_bytes (es @ [(fst app, i)])), i \<mapsto> (File, snd app))"
        using i0 by (simp add: a2 a1 write_bytes_def splice_at_def fun_eq_iff)
      have "dom (fs_abs fs s2) = insert i (dom (fs_abs fs s))" using P(2) by (auto simp: a)
      then have "card (dom (fs_abs fs s2)) = Suc (card (dom (fs_abs fs s)))" using i(1) fin by simp
      moreover have "apps_blocks (length es + 1) apps \<le> card (free_blocks fs s2)" using f1 f2 ab by simp
      ultimately have "pack_pre fs s2 (es @ [(fst app, i)]) apps"
        using P inv2 a i0 i32 nam(1) by (simp add: pack_pre_def)
      then show "i \<notin> dom (fs_abs fs s) \<and> i < 2 ^ 32 \<and> pack_pre fs s2 (es @ [(fst app, i)]) apps \<and>
          fs_abs fs s2 = (fs_abs fs s)(0 \<mapsto> (Directory, dir_bytes (es @ [(fst app, i)])), i \<mapsto> (File, snd app))"
        using i(1) i32 a by simp
    qed
    then have "wp (Inode_write_at (Inode_of fs i) 0 (snd app)) (\<lambda>_ s'. \<exists>i. i \<notin> dom (fs_abs fs s) \<and> i < 2 ^ 32 \<and>
        pack_pre fs s' (es @ [(fst app, i)]) apps \<and>
        fs_abs fs s' = (fs_abs fs s)(0 \<mapsto> (Directory, dir_bytes (es @ [(fst app, i)])), i \<mapsto> (File, snd app))) s1"
      by (rule wp_conseq) blast
    then show "wp (bnd (unwrap r) (\<lambda>ino. Inode_write_at ino 0 (snd app))) (\<lambda>_ s'. \<exists>i. i \<notin> dom (fs_abs fs s) \<and> i < 2 ^ 32 \<and>
        pack_pre fs s' (es @ [(fst app, i)]) apps \<and>
        fs_abs fs s' = (fs_abs fs s)(0 \<mapsto> (Directory, dir_bytes (es @ [(fst app, i)])), i \<mapsto> (File, snd app))) s1"
      by (simp add: r unwrap_def bnd_ret)
  qed
qed

lemma pack_post_step:
  assumes "i \<notin> dom (fs_abs fs s)" and "fs_abs fs s 0 = Some (Directory, dir_bytes es)"
    and a: "fs_abs fs s1 = (fs_abs fs s)(0 \<mapsto> (Directory, dir_bytes (es @ [(fst app, i)])), i \<mapsto> (File, snd app))"
    and post: "pack_post fs s1 (es @ [(fst app, i)]) apps s2"
  shows "pack_post fs s es (app # apps) s2"
proof -
  from post obtain es' where es': "map fst es' = map fst apps" "dir_ok ((es @ [(fst app, i)]) @ es')"
    "fs_abs fs s2 0 = Some (Directory, dir_bytes ((es @ [(fst app, i)]) @ es'))"
    "list_all2 (\<lambda>e app. fs_abs fs s2 (snd e) = Some (File, snd app)) es' apps"
    and inv: "fs_inv fs s2" and keep: "\<And>j. j \<in> dom (fs_abs fs s1) \<Longrightarrow> j \<noteq> 0 \<Longrightarrow> fs_abs fs s2 j = fs_abs fs s1 j"
    by (auto simp: pack_post_def)
  have "i \<noteq> 0" using assms(1,2) by auto
  then have "fs_abs fs s2 i = Some (File, snd app)" using keep [of i] a by simp
  then have "list_all2 (\<lambda>e app. fs_abs fs s2 (snd e) = Some (File, snd app)) ((fst app, i) # es') (app # apps)" using es'(4) by simp
  moreover have "fs_abs fs s2 j = fs_abs fs s j" if "j \<in> dom (fs_abs fs s)" "j \<noteq> 0" for j
  proof -
    have "j \<noteq> i" using that(1) assms(1) by auto
    then show ?thesis using keep [of j] that by (auto simp: a)
  qed
  ultimately show ?thesis
    unfolding pack_post_def using inv es'(1-3) by (intro conjI exI [of _ "(fst app, i) # es'"]) simp_all
qed

lemma wp_pack_apps: "pack_pre fs s es apps \<Longrightarrow> wp (pack_apps (Inode_of fs 0) apps) (\<lambda>_. pack_post fs s es apps) s"
proof (induction apps arbitrary: s es)
  case Nil
  then show ?case by (simp add: wp_ret pack_post_def pack_pre_def)
next
  case (Cons app apps)
  have a0: "fs_abs fs s 0 = Some (Directory, dir_bytes es)" using Cons.prems by (simp add: pack_pre_def)
  have "wp (bnd (Inode_create (Inode_of fs 0) (fst app)) (\<lambda>r. bnd (unwrap r) (\<lambda>ino. Inode_write_at ino 0 (snd app))))
      (\<lambda>_. wp (pack_apps (Inode_of fs 0) apps) (\<lambda>_. pack_post fs s es (app # apps))) s"
  proof (rule wp_conseq [OF wp_pack_round [OF Cons.prems]], elim exE conjE)
    fix v s1 i
    assume i: "i \<notin> dom (fs_abs fs s)" and pre: "pack_pre fs s1 (es @ [(fst app, i)]) apps"
      and a: "fs_abs fs s1 = (fs_abs fs s)(0 \<mapsto> (Directory, dir_bytes (es @ [(fst app, i)])), i \<mapsto> (File, snd app))"
    show "wp (pack_apps (Inode_of fs 0) apps) (\<lambda>_. pack_post fs s es (app # apps)) s1"
      by (rule wp_conseq [OF Cons.IH [OF pre]]) (rule pack_post_step [OF i a0 a])
  qed
  then show ?case by (simp add: wp_bnd wp_thn)
qed

lemma root_inode_eq:
  assumes "fs_inv fs s" and "0 < bitmap_blocks (inode_bitmap fs)"
  shows "root_inode fs = Inode_of fs 0"
  using get_disk_inode_pos_eq [OF fs_invD(4) [OF assms(1)], of 0] assms(2) by (simp add: root_inode_def Inode_of_def maximum_eq)

end
