(* ===== verification/Easy_Fs.thy ===== *)
theory Easy_Fs
  imports Mkfs
begin

text \<open>
  What easy-fs promises to its users, for a device that \<open>EasyFileSystem::create\<close> has formatted and
  after any operations on it. The statements are about the operations of \<open>src/easy-fs/src/vfs.rs\<close>
  and \<open>src/easy-fs/src/efs.rs\<close> on the abstract file system of \<open>File_Spec\<close>; the proofs are in
  \<open>File_System\<close>, \<open>File_Spec\<close>, \<open>Directory\<close> and \<open>Mkfs\<close>.
\<close>

section \<open>An example device\<close>

text \<open>A device of 1100 blocks, freshly formatted.\<close>

definition fresh_fs :: easy_file_system where
  "fresh_fs = mkfs_fs 1100 1"

definition fresh_disk :: store where
  "fresh_disk = snd (projr (Efs_create 1100 1 (zero_store 1100)))"

lemma fresh_disk:
  "Efs_create 1100 1 (zero_store 1100) = Inr (fresh_fs, fresh_disk)" "fs_inv fresh_fs fresh_disk" 
  "fs_abs fresh_fs fresh_disk = [0 \<mapsto> (Directory, [])]" "card (free_blocks fresh_fs fresh_disk) = 73" "maximum (inode_bitmap fresh_fs) = 4096"
proof -
  have z: "store_ok (zero_store 1100)" "held (zero_store 1100) = []" "nblocks (zero_store 1100) = 1100"
    by (simp_all add: zero_store_def store_ok_def)
  have "mkfs_ok 1100 1" by (simp add: mkfs_ok_def)
  from wp_Efs_create [OF this z]
  obtain fs s' where e: "Efs_create 1100 1 (zero_store 1100) = Inr (fs, s')" and p: "fs = mkfs_fs 1100 1"
    "fs_inv fs s'" "fs_abs fs s' = [0 \<mapsto> (Directory, [])]" "free_blocks fs s' = {1 + 1025 * 1 + mkfs_bits 1100 1 ..< 1100}"
    by (auto simp: wp_iff)
  have f: "fresh_disk = s'" unfolding fresh_disk_def e by simp
  show "Efs_create 1100 1 (zero_store 1100) = Inr (fresh_fs, fresh_disk)" unfolding e f fresh_fs_def p(1) ..
  show "fs_inv fresh_fs fresh_disk" "fs_abs fresh_fs fresh_disk = [0 \<mapsto> (Directory, [])]"
    using p(1-3) by (simp_all add: f fresh_fs_def)
  have "mkfs_bits 1100 1 = 1" by (simp add: mkfs_bits_def mkfs_data_def)
  then show "card (free_blocks fresh_fs fresh_disk) = 73" using p(1,4) by (simp add: f fresh_fs_def)
  show "maximum (inode_bitmap fresh_fs) = 4096" by (simp add: fresh_fs_def maximum_eq)
qed

lemma total_blocks_small: "sz \<le> 512 * 27 \<Longrightarrow> total_blocks sz = (511 + sz) div 512"
proof -
  assume "sz \<le> 512 * 27"
  then have "(511 + sz) div 512 \<le> 27" by linarith
  then show ?thesis using \<open>sz \<le> 512 * 27\<close>
    by (simp add: total_blocks_def size_data_blocks_def Let_def layout_consts u32_def)
qed

lemma fresh_room: "n \<le> sz \<Longrightarrow> sz \<le> 512 \<Longrightarrow> room_for fresh_fs fresh_disk n sz"
  using total_blocks_small [of sz] fresh_disk(4) by (simp add: room_for_def max_consts)

text \<open>The same device with an empty file of one name.\<close>

definition one_file :: store where
  "one_file = snd (projr (Inode_create (Inode_of fresh_fs 0) [97] fresh_disk))"

lemma one_file:
  "Inode_create (Inode_of fresh_fs 0) [97] fresh_disk = Inr (Some (Inode_of fresh_fs 1), one_file)" "fs_inv fresh_fs one_file"
  "fs_abs fresh_fs one_file = [0 \<mapsto> (Directory, dir_bytes [([97], 1)]), 1 \<mapsto> (File, [])]"
  "card (free_blocks fresh_fs one_file) = 72"
proof -
  have d: "fs_abs fresh_fs fresh_disk 0 = Some (Directory, dir_bytes [])" by (simp add: fresh_disk(3) dir_bytes_def)
  have "room_for fresh_fs fresh_disk (32 * length ([] :: (byte list \<times> nat) list)) (32 * (length ([] :: (byte list \<times> nat) list) + 1))"
    by (rule fresh_room) simp_all
  from wp_Inode_create [OF fresh_disk(2) d _ _ _ _ this refl, of "[97]"]
  obtain v s' i where e: "Inode_create (Inode_of fresh_fs 0) [97] fresh_disk = Inr (v, s')" and i: "i \<notin> dom (fs_abs fresh_fs fresh_disk)"
    "\<forall>j < i. j \<in> dom (fs_abs fresh_fs fresh_disk)" and p: "v = Some (Inode_of fresh_fs i)" "fs_inv fresh_fs s'"
    "fs_abs fresh_fs s' = (fs_abs fresh_fs fresh_disk)(i \<mapsto> (File, []), 0 \<mapsto> (Directory, dir_bytes ([] @ [([97], i)])))"
    "card (free_blocks fresh_fs s') = card (free_blocks fresh_fs fresh_disk) - (total_blocks 32 - total_blocks 0)"
    by (auto simp: wp_iff name_ok_def fresh_disk(3,5))
  have "\<not> 1 < i"
  proof
    assume "1 < i"
    with i(2) have "1 \<in> dom (fs_abs fresh_fs fresh_disk)" by blast
    then show False by (simp add: fresh_disk(3))
  qed
  moreover have "i \<noteq> 0" using i(1) by (auto simp: fresh_disk(3))
  ultimately have i1: "i = 1" by simp
  have f: "one_file = s'" unfolding one_file_def e by simp
  show "Inode_create (Inode_of fresh_fs 0) [97] fresh_disk = Inr (Some (Inode_of fresh_fs 1), one_file)" "fs_inv fresh_fs one_file"
    unfolding f e p(1) i1 using p(2) by simp_all
  show "fs_abs fresh_fs one_file = [0 \<mapsto> (Directory, dir_bytes [([97], 1)]), 1 \<mapsto> (File, [])]"
    using p(3) by (simp add: f fresh_disk(3) i1 fun_upd_twist)
  show "card (free_blocks fresh_fs one_file) = 72" using p(4) total_blocks_small [of 32] by (simp add: f fresh_disk(4))
qed

lemma one_file_room: "n \<le> sz \<Longrightarrow> sz \<le> 512 \<Longrightarrow> room_for fresh_fs one_file n sz"
  using total_blocks_small [of sz] one_file(4) by (simp add: room_for_def max_consts)

section \<open>The states that the operations reach\<close>

text \<open>
  A sound file system: the invariant of the device, and a root directory in which every name
  occurs once and refers to a file of its own.
\<close>

definition root_dir :: "easy_file_system \<Rightarrow> store \<Rightarrow> (byte list \<times> nat) list \<Rightarrow> bool" where
  "root_dir fs s es \<longleftrightarrow> fs_abs fs s 0 = Some (Directory, dir_bytes es) \<and> dir_ok es \<and>
     distinct (map fst es) \<and> distinct (map snd es) \<and> (\<forall>i \<in> snd ` set es. i \<noteq> 0 \<and> (\<exists>bs. fs_abs fs s i = Some (File, bs)))"

definition fs_sound :: "easy_file_system \<Rightarrow> store \<Rightarrow> bool" where
  "fs_sound fs s \<longleftrightarrow> fs_inv fs s \<and> (\<exists>es. root_dir fs s es)"

text \<open>
  The states reached from formatting by creating, writing and clearing files. A file is created under a
  name that an entry can hold and while an inode and room for the entry are free; it is written with at
  least one byte and while there is room for the end of the range. An operation that panics has no
  successor.
\<close>

inductive fs_reach :: "easy_file_system \<Rightarrow> store \<Rightarrow> bool" for fs where
  do_format: "mkfs_ok tb ib \<Longrightarrow> store_ok s \<Longrightarrow> held s = [] \<Longrightarrow> nblocks s = tb \<Longrightarrow> Efs_create tb ib s = Inr (fs, s') \<Longrightarrow>
    fs_reach fs s'"
| do_create: "fs_reach fs s \<Longrightarrow> name_ok nam \<Longrightarrow> card (dom (fs_abs fs s)) < maximum (inode_bitmap fs) \<Longrightarrow>
    room_for fs s (inode_size (inode_at fs s 0)) (inode_size (inode_at fs s 0) + 32) \<Longrightarrow>
    Inode_create (root_inode fs) nam s = Inr (r, s') \<Longrightarrow> fs_reach fs s'"
| do_write: "fs_reach fs s \<Longrightarrow> Inode_find (root_inode fs) nam s = Inr (Some (Inode_of fs i), s) \<Longrightarrow> buf \<noteq> [] \<Longrightarrow>
    room_for fs s (inode_size (inode_at fs s i)) (offset + length buf) \<Longrightarrow>
    Inode_write_at (Inode_of fs i) offset buf s = Inr (n, s') \<Longrightarrow> fs_reach fs s'"
| do_clear: "fs_reach fs s \<Longrightarrow> Inode_find (root_inode fs) nam s = Inr (Some (Inode_of fs i), s) \<Longrightarrow>
    Inode_clear (Inode_of fs i) s = Inr (u, s') \<Longrightarrow> fs_reach fs s'"

lemma fs_sound_root:
  assumes "fs_sound fs s"
  shows "root_inode fs = Inode_of fs 0"
proof -
  have "0 \<in> fs_inodes fs s" "fs_inv fs s" using assms by (auto simp: fs_sound_def root_dir_def fs_abs_Some)
  then have "0 < maximum (inode_bitmap fs)" using fs_invD(5) by blast
  then show ?thesis using \<open>fs_inv fs s\<close> by (intro root_inode_eq) (auto simp: maximum_eq)
qed

lemma root_dir_find:
  assumes "fs_inv fs s" and "root_dir fs s es"
  shows "Inode_find (Inode_of fs 0) nam s = Inr (map_option (Inode_of fs) (map_of es nam), s)"
proof (rule Inode_find_eq [OF assms(1)])
  show "fs_abs fs s 0 = Some (Directory, dir_bytes es)" "dir_ok es" using assms(2) by (simp_all add: root_dir_def)
  show "snd ` set es \<subseteq> fs_inodes fs s" using assms(2) by (fastforce simp: root_dir_def fs_abs_Some)
qed

lemma inode_off_inj: "inode_blk fs i = inode_blk fs j \<Longrightarrow> inode_off i = inode_off j \<Longrightarrow> i = j"
  using inode_slots_disjoint [of i j fs] by fastforce

lemma Inode_of_inj: "Inode_of fs i = Inode_of fs j \<longleftrightarrow> i = j"
  using inode_off_inj [of fs i j] by (auto simp: Inode_of_def Inode_new_def)

text \<open>Rewriting a file that has a name keeps the directory.\<close>

lemma root_dir_update:
  assumes "root_dir fs s es" and "fs_abs fs s' = (fs_abs fs s)(i \<mapsto> (File, bs))" and "i \<noteq> 0"
  shows "root_dir fs s' es"
  using assms by (auto simp: root_dir_def)

lemma root_dir_append:
  assumes rd: "root_dir fs s es" and nam: "name_ok nam" "nam \<notin> fst ` set es" and i: "i \<notin> dom (fs_abs fs s)" "i < 2 ^ 32"
    and a: "fs_abs fs s' = (fs_abs fs s)(i \<mapsto> (File, []), 0 \<mapsto> (Directory, dir_bytes (es @ [(nam, i)])))"
  shows "root_dir fs s' (es @ [(nam, i)])"
proof -
  have i0: "i \<noteq> 0" "i \<notin> snd ` set es" using rd i(1) by (auto simp: root_dir_def)
  have "\<exists>bs. fs_abs fs s' j = Some (File, bs)" if "j \<in> snd ` set es" for j using rd that i0 by (auto simp: root_dir_def a)
  then show ?thesis using rd nam i(2) i0 by (auto simp: root_dir_def a)
qed

lemma root_dir_lookup:
  assumes "fs_inv fs s" and "root_dir fs s es" and "Inode_find (Inode_of fs 0) nam s = Inr (Some (Inode_of fs i), s)"
  shows "(nam, i) \<in> set es" "i \<noteq> 0" "\<exists>bs. fs_abs fs s i = Some (File, bs)"
proof -
  have "map_of es nam = Some i"
    using assms(3) unfolding root_dir_find [OF assms(1,2)] by (auto simp: Inode_of_inj)
  then show e: "(nam, i) \<in> set es" by (rule map_of_SomeD)
  then have "i \<in> snd ` set es" by force
  then show "i \<noteq> 0" "\<exists>bs. fs_abs fs s i = Some (File, bs)" using assms(2) unfolding root_dir_def by blast+
qed

lemma fs_reach_sound: "fs_reach fs s \<Longrightarrow> fs_sound fs s"
proof (induction rule: fs_reach.induct)
  case (do_format tb ib s s')
  have "fs_inv fs s' \<and> fs_abs fs s' = [0 \<mapsto> (Directory, [])]"
    using wpD [OF wp_Efs_create [OF do_format(1-4)] do_format(5)] by blast
  then show ?case unfolding fs_sound_def root_dir_def by (intro conjI exI [of _ "[]"]) (simp_all add: dir_bytes_def)
next
  case (do_create s nam r s')
  from \<open>fs_sound fs s\<close> obtain es where inv: "fs_inv fs s" and rd: "root_dir fs s es" by (auto simp: fs_sound_def)
  have a: "fs_abs fs s 0 = Some (Directory, dir_bytes es)" "dir_ok es" using rd by (simp_all add: root_dir_def)
  note c = do_create(5) [unfolded fs_sound_root [OF \<open>fs_sound fs s\<close>]]
  show ?case
  proof (cases "nam \<in> fst ` set es")
    case True
    then have "s' = s" using Inode_create_exists [OF inv a True] c by simp
    then show ?thesis using \<open>fs_sound fs s\<close> by simp
  next
    case False
    have "inode_size (inode_at fs s 0) = 32 * length es" by (rule opened_size [OF opened_entered [OF inv a]])
    then have room: "room_for fs s (32 * length es) (32 * (length es + 1))" using do_create(4) by (simp add: algebra_simps)
    from wpD [OF wp_Inode_create [OF inv a do_create(2) False do_create(3) room refl] c]
    obtain i where i: "i \<notin> dom (fs_abs fs s)" "i < maximum (inode_bitmap fs)" "fs_inv fs s'"
      "fs_abs fs s' = (fs_abs fs s)(i \<mapsto> (File, []), 0 \<mapsto> (Directory, dir_bytes (es @ [(nam, i)])))" by blast
    have "i < 2 ^ 32" using i(2) fs_invD(4) [OF inv] by (simp add: fs_layout_def)
    then show ?thesis using root_dir_append [OF rd do_create(2) False i(1) _ i(4)] i(3) by (auto simp: fs_sound_def)
  qed
next
  case (do_write s nam i buf offset n s')
  from \<open>fs_sound fs s\<close> obtain es where inv: "fs_inv fs s" and rd: "root_dir fs s es" by (auto simp: fs_sound_def)
  note l = root_dir_lookup [OF inv rd do_write(2) [unfolded fs_sound_root [OF \<open>fs_sound fs s\<close>]]]
  from l(3) obtain bs where bs: "fs_abs fs s i = Some (File, bs)" by blast
  have "length bs = inode_size (inode_at fs s i)" using bs length_file_bytes_inv [OF inv] by (simp add: fs_abs_Some)
  then have room: "room_for fs s (length bs) (offset + length buf)" using do_write(4) by simp
  from wpD [OF wp_Inode_write_at [OF inv bs do_write(3) room refl] do_write(5)]
  show ?case using root_dir_update [OF rd _ l(2)] by (auto simp: fs_sound_def)
next
  case (do_clear s nam i u s')
  from \<open>fs_sound fs s\<close> obtain es where inv: "fs_inv fs s" and rd: "root_dir fs s es" by (auto simp: fs_sound_def)
  note l = root_dir_lookup [OF inv rd do_clear(2) [unfolded fs_sound_root [OF \<open>fs_sound fs s\<close>]]]
  from l(3) obtain bs where bs: "fs_abs fs s i = Some (File, bs)" by blast
  have "data_blocks (inode_at fs s i) \<le> CLEAR_MAX" using Inode_clear_panics [of fs s i] do_clear(3) by fastforce
  from wpD [OF wp_Inode_clear [OF inv bs this] do_clear(3)]
  show ?case using root_dir_update [OF rd _ l(2)] by (auto simp: fs_sound_def)
qed

section \<open>Properties\<close>

text \<open>
  C1: Every file system that formatting a device and then creating, writing and clearing files
  produces, with names of at most 27 bytes without a zero byte, with non-empty writes, and while there
  are inodes and blocks left for what is created and written, is sound: every block of a file lies in the data area, is marked in the bitmap and belongs
  to that file alone, unmarked blocks are zero, the super block describes the areas, and every name
  of the root directory occurs once and refers to a file of its own.
\<close>

theorem reachable_file_systems_sound:
  assumes "fs_reach fs s"
  shows "fs_sound fs s"
  by (rule fs_reach_sound [OF assms])

lemma fs_reach_one_file: "fs_reach fresh_fs one_file"
proof (rule fs_reach.do_create)
  show r: "fs_reach fresh_fs fresh_disk"
    by (rule fs_reach.do_format [OF _ _ _ _ fresh_disk(1)]) (simp_all add: mkfs_ok_def zero_store_def store_ok_def)
  show "Inode_create (root_inode fresh_fs) [97] fresh_disk = Inr (Some (Inode_of fresh_fs 1), one_file)"
    unfolding fs_sound_root [OF fs_reach_sound [OF r]] by (rule one_file(1))
  have "0 \<in> fs_inodes fresh_fs fresh_disk" "file_bytes fresh_disk (inode_at fresh_fs fresh_disk 0) = []"
    using fs_abs_Some [of fresh_fs fresh_disk 0 Directory "[]"] by (simp_all add: fresh_disk(3))
  then have "inode_size (inode_at fresh_fs fresh_disk 0) = 0" using length_file_bytes_inv [OF fresh_disk(2)] by force
  then show "room_for fresh_fs fresh_disk (inode_size (inode_at fresh_fs fresh_disk 0)) (inode_size (inode_at fresh_fs fresh_disk 0) + 32)"
    by (simp add: fresh_room)
qed (simp_all add: name_ok_def fresh_disk(3,5))

lemma reachable_file_systems_sound_witness: "fs_sound fresh_fs one_file"
  by (rule reachable_file_systems_sound [OF fs_reach_one_file])

text \<open>
  C5: Writing a non-empty buffer to a file. With room on the device, \<open>write_at\<close> writes all bytes and acts on the
  abstract file system as an update of one byte array: the file grows to the end of the written
  range, the gap before it reads as zero, and no other file changes.
\<close>

theorem write_at_refines:
  assumes "fs_inv fs s" and "fs_abs fs s i = Some (t, bs)" and "buf \<noteq> []"
    and "room_for fs s (length bs) (offset + length buf)"
  shows "\<exists>s'. Inode_write_at (Inode_of fs i) offset buf s = Inr (length buf, s') \<and> fs_inv fs s' \<and>
    fs_abs fs s' = (fs_abs fs s)(i \<mapsto> (t, write_bytes offset buf bs))"
  using wp_Inode_write_at [OF assms refl] by (auto simp: wp_iff)

lemma write_at_refines_witness:
  "\<exists>s'. Inode_write_at (Inode_of fresh_fs 1) 2 [7, 8] one_file = Inr (2, s') \<and> fs_inv fresh_fs s' \<and>
    fs_abs fresh_fs s' = [0 \<mapsto> (Directory, dir_bytes [([97], 1)]), 1 \<mapsto> (File, [0, 0, 7, 8])]"
  using write_at_refines [of fresh_fs one_file 1 File "[]" "[7, 8]" 2] one_file(2) one_file_room [of 0 4]
  by (simp add: one_file(3) write_bytes_def splice_at_def numeral_eq_Suc)

text \<open>
  C21: Reading from a file changes nothing, fills the buffer with the bytes of the file from the
  offset on, as far as there are any, and returns their number.
\<close>

theorem read_at_exact:
  assumes "fs_inv fs s" and "fs_abs fs s i = Some (t, bs)"
  shows "Inode_read_at (Inode_of fs i) offset buf s =
    Inr ((min (length buf) (length bs - offset), splice_at 0 (read_bytes offset (length buf) bs) buf), s)"
  by (rule Inode_read_at_eq [OF assms])

lemma read_at_exact_witness:
  "Inode_read_at (Inode_of fresh_fs 1) 0 [5] one_file = Inr ((0, [5]), one_file)"
  using read_at_exact [OF one_file(2), of 1 File "[]" 0 "[5]"] by (simp add: one_file(3) read_bytes_def)

text \<open>
  C22: What is written is read back: reading as many bytes at the same offset right after a write
  returns the written bytes, through any of the index blocks of the inode.
\<close>

theorem write_then_read:
  assumes "fs_inv fs s" and "fs_abs fs s i = Some (t, bs)" and "buf \<noteq> []"
    and "room_for fs s (length bs) (offset + length buf)" and "length dst = length buf"
  shows "\<exists>s'. bnd (Inode_write_at (Inode_of fs i) offset buf) (\<lambda>_. Inode_read_at (Inode_of fs i) offset dst) s =
    Inr ((length buf, buf), s')"
proof -
  from wp_Inode_write_at [OF assms(1-4) refl]
  obtain s' where w: "Inode_write_at (Inode_of fs i) offset buf s = Inr (length buf, s')" and inv: "fs_inv fs s'"
    and a: "fs_abs fs s' i = Some (t, write_bytes offset buf bs)" by (auto simp: wp_iff)
  have "Inode_read_at (Inode_of fs i) offset dst s' = Inr ((length buf, buf), s')"
    using Inode_read_at_eq [OF inv a, of offset dst] assms(5) by (simp add: read_write_bytes)
  then show ?thesis by (simp add: bnd_def w)
qed

lemma write_then_read_witness:
  "\<exists>s'. bnd (Inode_write_at (Inode_of fresh_fs 1) 2 [7, 8]) (\<lambda>_. Inode_read_at (Inode_of fresh_fs 1) 2 [0, 0]) one_file =
    Inr ((2, [7, 8]), s')"
  using write_then_read [of fresh_fs one_file 1 File "[]" "[7, 8]" 2 "[0, 0]"] one_file(2) one_file_room [of 0 4]
  by (simp add: one_file(3) numeral_eq_Suc)

text \<open>
  C23: Clearing a file of at most \<open>CLEAR_MAX\<close> data blocks, which is \<open>155 + 128 ^ 3\<close>, makes it empty,
  keeps its type and every other file, and gives all of its blocks, those of data and those of indices,
  back to the free ones. Clearing a larger file panics: \<open>clear_size\<close> asserts that the blocks behind
  \<open>indirect1\<close>, those behind \<open>indirect2\<close> included, are no more than \<open>indirect3\<close> alone refers to.
\<close>

theorem clear_returns_blocks:
  assumes "fs_inv fs s" and "fs_abs fs s i = Some (t, bs)"
  shows "if data_blocks (inode_at fs s i) \<le> CLEAR_MAX
    then \<exists>s'. Inode_clear (Inode_of fs i) s = Inr ((), s') \<and> fs_inv fs s' \<and> fs_abs fs s' = (fs_abs fs s)(i \<mapsto> (t, [])) \<and>
      free_blocks fs s' = free_blocks fs s \<union> set (inode_blocks s (inode_at fs s i))
    else \<exists>e. Inode_clear (Inode_of fs i) s = Inl e"
  using wp_Inode_clear [OF assms] Inode_clear_panics [of fs s i] by (auto simp: wp_iff)

lemma clear_returns_blocks_witness:
  "\<exists>s'. Inode_clear (Inode_of fresh_fs 0) one_file = Inr ((), s') \<and> fs_inv fresh_fs s' \<and>
    fs_abs fresh_fs s' = [0 \<mapsto> (Directory, []), 1 \<mapsto> (File, [])] \<and>
    free_blocks fresh_fs s' = free_blocks fresh_fs one_file \<union> set (inode_blocks one_file (inode_at fresh_fs one_file 0))"
proof -
  have "0 \<in> fs_inodes fresh_fs one_file" "file_bytes one_file (inode_at fresh_fs one_file 0) = dir_bytes [([97], 1)]"
    using fs_abs_Some [of fresh_fs one_file 0 Directory "dir_bytes [([97], 1)]"] by (simp_all add: one_file(3))
  then have "inode_size (inode_at fresh_fs one_file 0) = 32"
    using length_file_bytes_inv [OF one_file(2), of 0] length_dir_bytes [of "[([97], 1)]"] by (simp add: name_ok_def)
  then have "data_blocks (inode_at fresh_fs one_file 0) \<le> CLEAR_MAX"
    by (simp add: data_blocks_def size_data_blocks_def CLEAR_MAX_def u32_def layout_consts)
  with clear_returns_blocks [OF one_file(2), of 0 Directory "dir_bytes [([97], 1)]"]
  show ?thesis by (simp add: one_file(3) fun_upd_twist)
qed

text \<open>
  C20: Creating a file. For a name of at most 27 bytes of UTF-8 without a zero byte that the root
  directory does not have, and with an inode and room for one more directory entry left, \<open>create\<close>
  returns a fresh empty file; afterwards \<open>find\<close> returns it under that name and what it returned before
  under every other name, \<open>ls\<close> lists the name last, and all files keep their contents. Longer names are
  excluded: an entry for a name of 28 bytes can be made, but reading the name back from it, as \<open>find\<close>
  and \<open>ls\<close> do, panics (\<open>long_names_panic\<close>).
\<close>

theorem create_then_find:
  assumes "fs_inv fs s" and "root_dir fs s es" and "name_ok nam" and "nam \<notin> fst ` set es"
    and "card (dom (fs_abs fs s)) < maximum (inode_bitmap fs)" and "room_for fs s (32 * length es) (32 * (length es + 1))"
  shows "\<exists>i s'. Inode_create (Inode_of fs 0) nam s = Inr (Some (Inode_of fs i), s') \<and> fs_inv fs s' \<and>
    i \<notin> dom (fs_abs fs s) \<and>
    fs_abs fs s' = (fs_abs fs s)(i \<mapsto> (File, []), 0 \<mapsto> (Directory, dir_bytes (es @ [(nam, i)]))) \<and>
    (\<forall>m. Inode_find (Inode_of fs 0) m s' = Inr (map_option (Inode_of fs) (((map_of es)(nam \<mapsto> i)) m), s')) \<and>
    Inode_ls (Inode_of fs 0) s' = Inr (map fst es @ [nam], s')"
proof -
  have a: "fs_abs fs s 0 = Some (Directory, dir_bytes es)" "dir_ok es" using assms(2) by (simp_all add: root_dir_def)
  from wp_Inode_create [OF assms(1) a assms(3-6) refl]
  obtain i s' where c: "Inode_create (Inode_of fs 0) nam s = Inr (Some (Inode_of fs i), s')" "fs_inv fs s'"
    "i \<notin> dom (fs_abs fs s)" "i < maximum (inode_bitmap fs)"
    "fs_abs fs s' = (fs_abs fs s)(i \<mapsto> (File, []), 0 \<mapsto> (Directory, dir_bytes (es @ [(nam, i)])))"
    by (auto simp: wp_iff)
  have "i < 2 ^ 32" using c(4) fs_invD(4) [OF assms(1)] by (simp add: fs_layout_def)
  note rd = root_dir_append [OF assms(2-4) c(3) this c(5)]
  have "map_of es nam = None" using assms(4) by (simp add: map_of_eq_None_iff)
  then have "map_of (es @ [(nam, i)]) = (map_of es)(nam \<mapsto> i)" by (auto simp: fun_eq_iff map_add_def split: option.split)
  then have "Inode_find (Inode_of fs 0) m s' = Inr (map_option (Inode_of fs) (((map_of es)(nam \<mapsto> i)) m), s')" for m
    using root_dir_find [OF c(2) rd, of m] by simp
  moreover have "Inode_ls (Inode_of fs 0) s' = Inr (map fst (es @ [(nam, i)]), s')"
    by (rule Inode_ls_eq [OF c(2)]) (use rd in \<open>simp_all add: root_dir_def\<close>)
  ultimately show ?thesis using c by (intro exI [of _ i] exI [of _ s']) simp
qed

lemma create_then_find_witness:
  "\<exists>i s'. Inode_create (Inode_of fresh_fs 0) [98] one_file = Inr (Some (Inode_of fresh_fs i), s') \<and>
    Inode_find (Inode_of fresh_fs 0) [98] s' = Inr (Some (Inode_of fresh_fs i), s') \<and>
    Inode_find (Inode_of fresh_fs 0) [97] s' = Inr (Some (Inode_of fresh_fs 1), s') \<and>
    Inode_find (Inode_of fresh_fs 0) [99] s' = Inr (None, s') \<and>
    Inode_ls (Inode_of fresh_fs 0) s' = Inr ([[97], [98]], s')"
proof -
  have rd: "root_dir fresh_fs one_file [([97], 1)]" by (simp add: root_dir_def one_file(3) name_ok_def)
  from create_then_find [OF one_file(2) rd, of "[98]"] one_file_room [of 32 64]
  obtain i s' where c: "Inode_create (Inode_of fresh_fs 0) [98] one_file = Inr (Some (Inode_of fresh_fs i), s')"
    and f: "\<And>m. Inode_find (Inode_of fresh_fs 0) m s' =
      Inr (map_option (Inode_of fresh_fs) (((map_of [([97], 1)])([98] \<mapsto> i)) m), s')"
    and l: "Inode_ls (Inode_of fresh_fs 0) s' = Inr ([[97], [98]], s')"
    by (auto simp: name_ok_def one_file(3) fresh_disk(5))
  show ?thesis using c l f [of "[98]"] f [of "[97]"] f [of "[99]"] by (intro exI [of _ i] exI [of _ s']) simp
qed

text \<open>
  C39: Creating a file under a name that the directory has returns \<open>None\<close> and leaves the
  device as it was.
\<close>

theorem create_existing_refused:
  assumes "fs_inv fs s" and "root_dir fs s es" and "nam \<in> fst ` set es"
  shows "Inode_create (Inode_of fs 0) nam s = Inr (None, s)"
  by (rule Inode_create_exists [OF assms(1) _ _ assms(3)]) (use assms(2) in \<open>simp_all add: root_dir_def\<close>)

lemma create_existing_refused_witness: "Inode_create (Inode_of fresh_fs 0) [97] one_file = Inr (None, one_file)"
  by (rule create_existing_refused [OF one_file(2), of "[([97], 1)]"]) (simp_all add: root_dir_def one_file(3) name_ok_def)

text \<open>
  C16: A device is opened as it was left: after formatting it and after every sequence of the
  creations, writes and clears of \<open>fs_reach\<close>,
  \<open>open\<close> accepts the super block, computes the areas that \<open>create\<close> computed and changes nothing.
\<close>

theorem open_after_any_operations:
  assumes "fs_reach fs s"
  shows "Efs_open s = Inr (fs, s)"
  using fs_reach_sound [OF assms] by (simp add: fs_sound_def Efs_open_eq)

lemma open_after_any_operations_witness: "Efs_open one_file = Inr (fresh_fs, one_file)"
  by (rule open_after_any_operations [OF fs_reach_one_file])

section \<open>Images\<close>

lemma image_consts: "mkfs_ok (16 * 2048) 1" "card {1 + 1025 * 1 + mkfs_bits (16 * 2048) 1 ..< 16 * 2048} = 31734"
  by (simp_all add: mkfs_ok_def mkfs_bits_def mkfs_data_def)

text \<open>
  C17: Packing. When there are fewer than 4096 programs and they fit on the device, none is empty, and
  their names are distinct, of at most 27 bytes and without a zero byte, \<open>easy_fs_pack\<close> produces an image that opens to a file system
  whose directory lists the programs in order, where every program is found under its name and
  reading it returns its contents.
\<close>

theorem packed_image_complete:
  assumes dev: "store_ok s" "held s = []" "nblocks s = 16 * 2048"
    and apps: "list_all app_ok apps" "distinct (map fst apps)" "length apps < 4096" "apps_blocks 0 apps \<le> 31734"
  shows "\<exists>fs s'. easy_fs_pack apps s = Inr ((), s') \<and> Efs_open s' = Inr (fs, s') \<and>
    Inode_ls (root_inode fs) s' = Inr (map fst apps, s') \<and>
    list_all (\<lambda>(nam, data). \<exists>ino. Inode_find (root_inode fs) nam s' = Inr (Some ino, s') \<and>
      Inode_read_at ino 0 (replicate (length data) 0) s' = Inr ((length data, data), s')) apps"
proof -
  let ?fs = "mkfs_fs (16 * 2048) 1"
  from wp_Efs_create [OF image_consts(1) dev]
  obtain s1 where c: "Efs_create (16 * 2048) 1 s = Inr (?fs, s1)" and inv: "fs_inv ?fs s1"
    and a: "fs_abs ?fs s1 = [0 \<mapsto> (Directory, [])]" and f: "card (free_blocks ?fs s1) = 31734"
    using image_consts(2) by (auto simp: wp_iff)
  have root: "root_inode ?fs = Inode_of ?fs 0" by (rule root_inode_eq [OF inv]) simp
  have "pack_pre ?fs s1 [] apps"
    using inv a f apps by (simp add: pack_pre_def dir_bytes_def maximum_eq max_consts)
  from wp_pack_apps [OF this] obtain s' where p: "pack_apps (Inode_of ?fs 0) apps s1 = Inr ((), s')" and post: "pack_post ?fs s1 [] apps s'"
    by (auto simp: wp_iff)
  from post obtain es where inv': "fs_inv ?fs s'" and es: "map fst es = map fst apps" "dir_ok es"
    "fs_abs ?fs s' 0 = Some (Directory, dir_bytes es)"
    "list_all2 (\<lambda>e app. fs_abs ?fs s' (snd e) = Some (File, snd app)) es apps"
    by (auto simp: pack_post_def)
  have len: "length es = length apps" using es(1) by (rule map_eq_imp_length_eq)
  have nth: "fs_abs ?fs s' (snd (es ! k)) = Some (File, snd (apps ! k))" "fst (es ! k) = fst (apps ! k)" if "k < length apps" for k
    using that es(4) list_all2_nthD2 [OF es(4)] arg_cong [where f = "\<lambda>xs. xs ! k", OF es(1)] len by simp_all
  have "snd e \<in> fs_inodes ?fs s'" if e: "e \<in> set es" for e
  proof -
    from e obtain k where "k < length apps" "e = es ! k" using len by (auto simp: in_set_conv_nth)
    then show ?thesis using nth(1) [of k] by (simp add: fs_abs_Some)
  qed
  then have ids: "snd ` set es \<subseteq> fs_inodes ?fs s'" by auto
  have "\<exists>ino. Inode_find (Inode_of ?fs 0) nam s' = Inr (Some ino, s') \<and>
      Inode_read_at ino 0 (replicate (length data) 0) s' = Inr ((length data, data), s')" if app: "(nam, data) \<in> set apps" for nam data
  proof -
    from app obtain k where k: "k < length apps" "apps ! k = (nam, data)" by (auto simp: in_set_conv_nth)
    have "map_of es (fst (es ! k)) = Some (snd (es ! k))"
      by (rule map_of_is_SomeI) (use apps(2) es(1) k len in auto)
    then have m: "map_of es nam = Some (snd (es ! k))" using nth(2) [OF k(1)] k by simp
    have a: "fs_abs ?fs s' (snd (es ! k)) = Some (File, data)" using nth(1) [OF k(1)] k by simp
    show ?thesis
      using Inode_find_eq [OF inv' es(3,2) ids, of nam] Inode_read_at_eq [OF inv' a, of 0 "replicate (length data) 0"]
      by (simp add: m read_bytes_def)
  qed
  then have "list_all (\<lambda>(nam, data). \<exists>ino. Inode_find (Inode_of ?fs 0) nam s' = Inr (Some ino, s') \<and>
      Inode_read_at ino 0 (replicate (length data) 0) s' = Inr ((length data, data), s')) apps"
    by (auto simp: list_all_iff)
  moreover have "Inode_ls (Inode_of ?fs 0) s' = Inr (map fst apps, s')" using Inode_ls_eq [OF inv' es(3,2)] es(1) by simp
  moreover have "easy_fs_pack apps s = Inr ((), s')" 
    unfolding easy_fs_pack_def bnd_Inr [where m = "Efs_create (16 * 2048) 1", OF c] root by (rule p)
  ultimately show ?thesis using Efs_open_eq [OF inv'] root by (intro exI [of _ ?fs] exI [of _ s']) simp
qed

lemma packed_image_complete_witness:
  "\<exists>fs s'. easy_fs_pack [([97], [1, 2, 3])] (zero_store 32768) = Inr ((), s') \<and> Efs_open s' = Inr (fs, s') \<and>
    Inode_ls (root_inode fs) s' = Inr ([[97]], s') \<and>
    (\<exists>ino. Inode_find (root_inode fs) [97] s' = Inr (Some ino, s') \<and>
      Inode_read_at ino 0 [0, 0, 0] s' = Inr ((3, [1, 2, 3]), s'))"
proof -
  have z: "store_ok (zero_store 32768)" "held (zero_store 32768) = []" "nblocks (zero_store 32768) = 16 * 2048"
    by (simp_all add: zero_store_def store_ok_def)
  have b: "apps_blocks 0 [([97], [1, 2, 3])] \<le> 31734"
    using total_blocks_small [of 32] total_blocks_small [of "Suc (Suc (Suc 0))"] by (simp add: apps_blocks_def)
  have a: "list_all app_ok [([97], [1, 2, 3])]" by (simp add: app_ok_def name_ok_def max_consts)
  from packed_image_complete [OF z a _ _ b] show ?thesis by (simp add: numeral_3_eq_3)
qed

end
