(* ===== verification/Os_Inode.thy ===== *)
theory Os_Inode
  imports User_Buffer Easy_Fs
begin

text \<open>
  Open files of the kernel (\<open>src/os/src/fs/inode.rs\<close>): an \<open>OSInode\<close> is an inode of easy-fs with an
  offset and two permissions. Reading and writing go through user buffers, slices of the physical
  pages of a user program, so the operations act on physical memory and on the file system.
\<close>

section \<open>Operations\<close>

record os_inode =
  os_readable :: bool
  os_writable :: bool
  os_offset :: nat
  os_inode :: inode

definition OSInode_new :: "bool \<Rightarrow> bool \<Rightarrow> inode \<Rightarrow> os_inode" where
  "OSInode_new rd wr ino = \<lparr>os_readable = rd, os_writable = wr, os_offset = 0, os_inode = ino\<rparr>"

text \<open>
  \<open>read_all\<close> reads into a buffer of 512 bytes, which it uses again in every round. Nothing in its
  loop bounds the number of rounds; \<open>None\<close> is a loop that runs forever.
\<close>

partial_function (option) read_all_loop ::
    "os_inode \<Rightarrow> byte list \<Rightarrow> byte list \<Rightarrow> store \<Rightarrow> (panic + (byte list \<times> os_inode) \<times> store) option" where
  "read_all_loop f buffer v s =
     (case Inode_read_at (os_inode f) (os_offset f) buffer s of
        Inl e \<Rightarrow> Some (Inl e)
      | Inr ((len, buffer), s) \<Rightarrow>
          if len = 0 then Some (Inr ((v, f), s))
          else read_all_loop (f\<lparr>os_offset := os_offset f + len\<rparr>) buffer (v @ take len buffer) s)"

text \<open>A call that may run forever, as an action.\<close>

definition returning :: "('s \<Rightarrow> (panic + 'a \<times> 's) option) \<Rightarrow> ('s, 'a) action" where
  "returning f s = (case f s of None \<Rightarrow> Inl RunsForever | Some r \<Rightarrow> r)"

definition OSInode_read_all :: "os_inode \<Rightarrow> (byte list \<times> os_inode) store_action" where
  "OSInode_read_all f = returning (read_all_loop f (replicate 512 0) [])"

subsection \<open>Opening\<close>

type_synonym open_flags = "32 word"

definition RDONLY :: open_flags where "RDONLY = 0"
definition WRONLY :: open_flags where "WRONLY = push_bit 0 1"
definition RDWR :: open_flags where "RDWR = push_bit 1 1"
definition CREATE :: open_flags where "CREATE = push_bit 9 1"
definition TRUNC :: open_flags where "TRUNC = push_bit 10 1"

text \<open>\<open>from_bits\<close> and \<open>contains\<close> of \<open>bitflags\<close>.\<close>

definition OpenFlags_from_bits :: "open_flags \<Rightarrow> open_flags option" where
  "OpenFlags_from_bits bits =
     (if bits AND NOT (RDONLY OR WRONLY OR RDWR OR CREATE OR TRUNC) = 0 then Some bits else None)"

definition contains :: "open_flags \<Rightarrow> open_flags \<Rightarrow> bool" where
  "contains fl other \<longleftrightarrow> fl AND other = other"

definition read_write :: "open_flags \<Rightarrow> bool \<times> bool" where
  "read_write fl =
     (if fl = 0 then (True, False)
      else if contains fl WRONLY then (False, True)
      else (True, True))"

definition open_file :: "inode \<Rightarrow> byte list \<Rightarrow> open_flags \<Rightarrow> os_inode option store_action" where
  "open_file ROOT_INODE nam fl =
     (let (readable, writable) = read_write fl
      in if contains fl CREATE then
           bnd (Inode_find ROOT_INODE nam) (\<lambda>r.
           case r of
             Some ino \<Rightarrow> thn (Inode_clear ino) (ret (Some (OSInode_new readable writable ino)))
           | None \<Rightarrow> bnd (Inode_create ROOT_INODE nam) (\<lambda>r. ret (map_option (OSInode_new readable writable) r)))
         else
           bnd (Inode_find ROOT_INODE nam) (\<lambda>r.
           case r of
             Some ino \<Rightarrow>
               thn (if contains fl TRUNC then Inode_clear ino else ret ())
                 (ret (Some (OSInode_new readable writable ino)))
           | None \<Rightarrow> ret None))"

text \<open>\<open>list_apps\<close> prints the names of the root directory.\<close>

definition list_apps :: "inode \<Rightarrow> byte list list store_action" where
  "list_apps ROOT_INODE = Inode_ls ROOT_INODE"

subsection \<open>Reading and writing\<close>

type_synonym 'a io_action = "(mm \<times> store, 'a) action"

definition on_store :: "'a store_action \<Rightarrow> 'a io_action" where
  "on_store = on snd (\<lambda>s ms. (fst ms, s))"

text \<open>Storing bytes into a slice of a physical page.\<close>

definition write_slice :: "slice_ref \<Rightarrow> byte list \<Rightarrow> mm \<Rightarrow> mm" where
  "write_slice sl bs m =
     set_bytes_array (sl_page sl) (splice_at (unat (sl_from sl)) bs (get_bytes_array m (sl_page sl))) m"

primrec OSInode_read_loop :: "slice_ref list \<Rightarrow> os_inode \<Rightarrow> nat \<Rightarrow> (nat \<times> os_inode) io_action" where
  "OSInode_read_loop [] f total_read_size = ret (total_read_size, f)"
| "OSInode_read_loop (sl # sls) f total_read_size =
     bnd (gets (\<lambda>(m, _). slice_bytes m sl)) (\<lambda>bytes.
     bnd (on_store (Inode_read_at (os_inode f) (os_offset f) bytes)) (\<lambda>(read_size, bytes).
     thn (upd (\<lambda>(m, s). (write_slice sl bytes m, s)))
     (if read_size = 0 then ret (total_read_size, f)
      else OSInode_read_loop sls (f\<lparr>os_offset := os_offset f + read_size\<rparr>) (total_read_size + read_size))))"

definition OSInode_read :: "os_inode \<Rightarrow> user_buffer \<Rightarrow> (nat \<times> os_inode) io_action" where
  "OSInode_read f buf = OSInode_read_loop (buffers buf) f 0"

primrec OSInode_write_loop :: "slice_ref list \<Rightarrow> os_inode \<Rightarrow> nat \<Rightarrow> (nat \<times> os_inode) io_action" where
  "OSInode_write_loop [] f total_write_size = ret (total_write_size, f)"
| "OSInode_write_loop (sl # sls) f total_write_size =
     bnd (gets (\<lambda>(m, _). slice_bytes m sl)) (\<lambda>bytes.
     bnd (on_store (Inode_write_at (os_inode f) (os_offset f) bytes)) (\<lambda>write_size.
     thn (assert_that (write_size = length bytes))
     (OSInode_write_loop sls (f\<lparr>os_offset := os_offset f + write_size\<rparr>) (total_write_size + write_size))))"

definition OSInode_write :: "os_inode \<Rightarrow> user_buffer \<Rightarrow> (nat \<times> os_inode) io_action" where
  "OSInode_write f buf = OSInode_write_loop (buffers buf) f 0"

section \<open>Reading a whole file\<close>

lemma take_read_bytes: "take (min n (length bs - k)) (splice_at 0 (read_bytes k n bs) buf) = read_bytes k n bs"
  by (auto simp: splice_at_def read_bytes_def min_def)

lemma length_read_splice [simp]: "n = length buf \<Longrightarrow> length (splice_at 0 (read_bytes k n bs) buf) = length buf"
  by (simp add: splice_at_def read_bytes_def)

lemma read_all_loop_eq:
  assumes inv: "fs_inv fs s" and a: "fs_abs fs s i = Some (t, bs)"
  shows "os_inode f = Inode_of fs i \<Longrightarrow> length buffer = 512 \<Longrightarrow>
    read_all_loop f buffer v s = Some (Inr ((v @ drop (os_offset f) bs, f\<lparr>os_offset := max (os_offset f) (length bs)\<rparr>), s))"
proof (induction "length bs - os_offset f" arbitrary: f buffer v rule: less_induct)
  case less
  let ?n = "min 512 (length bs - os_offset f)" and ?buf = "splice_at 0 (read_bytes (os_offset f) 512 bs) buffer"
  have r: "Inode_read_at (Inode_of fs i) (os_offset f) buffer s = Inr ((?n, ?buf), s)"
    using Inode_read_at_eq [OF inv a, of "os_offset f" buffer] less.prems by simp
  show ?case
  proof (cases "length bs \<le> os_offset f")
    case True
    then show ?thesis using less.prems by (subst read_all_loop.simps) (simp add: r max_absorb1)
  next
    case False
    let ?f = "f\<lparr>os_offset := os_offset f + ?n\<rparr>"
    have "read_all_loop ?f ?buf (v @ take ?n ?buf) s =
        Some (Inr (((v @ take ?n ?buf) @ drop (os_offset ?f) bs, ?f\<lparr>os_offset := max (os_offset ?f) (length bs)\<rparr>), s))"
      using False less.prems by (intro less.hyps) simp_all
    moreover have "take ?n ?buf @ drop (os_offset ?f) bs = drop (os_offset f) bs"
    proof -
      have "drop (os_offset ?f) bs = drop 512 (drop (os_offset f) bs)" using False by (simp add: min_def add.commute)
      then show ?thesis 
        by (simp only: take_read_bytes) (simp only: read_bytes_def append_take_drop_id)
    qed
    moreover have "max (os_offset ?f) (length bs) = max (os_offset f) (length bs)" using False by (auto simp: min_def max_def)
    ultimately show ?thesis using False by (subst read_all_loop.simps) (simp add: r less.prems(1))
  qed
qed

lemma OSInode_read_all_eq:
  assumes "fs_inv fs s" and "fs_abs fs s i = Some (t, bs)" and "os_inode f = Inode_of fs i"
  shows "OSInode_read_all f s = Inr ((drop (os_offset f) bs, f\<lparr>os_offset := max (os_offset f) (length bs)\<rparr>), s)"
  using read_all_loop_eq [OF assms, of "replicate 512 0" "[]"] by (simp add: OSInode_read_all_def returning_def)

section \<open>Opening a file\<close>

lemma open_file_found:
  assumes "Inode_find root nam s = Inr (Some ino, s)"
  shows "open_file root nam fl s =
    (if contains fl CREATE \<or> contains fl TRUNC
     then (case Inode_clear ino s of Inl e \<Rightarrow> Inl e | Inr (_, s) \<Rightarrow> Inr (Some (OSInode_new (fst (read_write fl)) (snd (read_write fl)) ino), s))
     else Inr (Some (OSInode_new (fst (read_write fl)) (snd (read_write fl)) ino), s))"
  using assms by (simp add: open_file_def split_beta bnd_def thn_def ret_def split: sum.split)

lemma open_file_missing:
  assumes "Inode_find root nam s = Inr (None, s)"
  shows "open_file root nam fl s =
    (if contains fl CREATE
     then (case Inode_create root nam s of Inl e \<Rightarrow> Inl e
       | Inr (r, s) \<Rightarrow> Inr (map_option (OSInode_new (fst (read_write fl)) (snd (read_write fl))) r, s))
     else Inr (None, s))"
  using assms by (simp add: open_file_def split_beta bnd_def ret_def split: sum.split)

section \<open>User buffers\<close>

definition slices_ok :: "slice_ref list \<Rightarrow> bool" where
  "slices_ok sls \<longleftrightarrow> list_all slice_fits sls \<and> distinct (map (page_index \<circ> sl_page) sls)"

lemma slices_ok_simps [simp]:
  "slices_ok []"
  "slices_ok (sl # sls) \<longleftrightarrow> slice_fits sl \<and> (\<forall>q \<in> set sls. page_index (sl_page q) \<noteq> page_index (sl_page sl)) \<and> slices_ok sls"
  by (simp_all add: slices_ok_def image_iff) (metis comp_apply)

definition buffer_bytes :: "mm \<Rightarrow> slice_ref list \<Rightarrow> byte list" where
  "buffer_bytes m sls = concat (map (slice_bytes m) sls)"

lemma buffer_bytes_simps [simp]:
  "buffer_bytes m [] = []" "buffer_bytes m (sl # sls) = slice_bytes m sl @ buffer_bytes m sls"
  by (simp_all add: buffer_bytes_def)

lemma length_slice_bytes:
  assumes "memory_ok m" and "slice_fits sl"
  shows "unat (sl_from sl) + length (slice_bytes m sl) = unat (sl_to sl)" "unat (sl_to sl) \<le> 4096" "slice_bytes m sl \<noteq> []"
    "unat (slice_len sl) = length (slice_bytes m sl)"
proof -
  have u: "unat (sl_from sl) < unat (sl_to sl)" "unat (sl_to sl) \<le> 4096"
    using assms(2) by (simp_all add: slice_fits_def word_less_nat_alt word_le_nat_alt)
  then have l: "unat (slice_len sl) = unat (sl_to sl) - unat (sl_from sl)"
    by (simp add: slice_len_def unat_sub_if' word_less_nat_alt)
  then have len: "length (slice_bytes m sl) = unat (sl_to sl) - unat (sl_from sl)"
    using assms(1) u by (simp add: slice_bytes_def memory_ok_def get_bytes_array_def segment_def)
  then show "unat (sl_from sl) + length (slice_bytes m sl) = unat (sl_to sl)" "slice_bytes m sl \<noteq> []"
    "unat (slice_len sl) = length (slice_bytes m sl)" using u l by auto
  show "unat (sl_to sl) \<le> 4096" by (rule u)
qed

lemma write_slice_ok:
  assumes "memory_ok m" and "slice_fits sl" and "length bs = length (slice_bytes m sl)"
  shows "memory_ok (write_slice sl bs m)" "slice_bytes (write_slice sl bs m) sl = bs"
    "page_index p \<noteq> page_index (sl_page sl) \<Longrightarrow> get_bytes_array (write_slice sl bs m) p = get_bytes_array m p"
proof -
  note l = length_slice_bytes [OF assms(1,2)]
  have p: "length (get_bytes_array m (sl_page sl)) = 4096" using assms(1) by (simp add: memory_ok_def get_bytes_array_def)
  then have fit: "unat (sl_from sl) + length bs \<le> length (get_bytes_array m (sl_page sl))" using l assms(3) by simp
  then show "memory_ok (write_slice sl bs m)"
    using assms(1) p by (simp add: write_slice_def memory_ok_def set_bytes_array_def)
  have "unat (slice_len sl) = length bs" using assms(3) l(4) by simp
  then show "slice_bytes (write_slice sl bs m) sl = bs"
    using fit by (simp add: slice_bytes_def write_slice_def get_bytes_array_def set_bytes_array_def)
  show "page_index p \<noteq> page_index (sl_page sl) \<Longrightarrow> get_bytes_array (write_slice sl bs m) p = get_bytes_array m p"
    by (simp add: write_slice_def get_bytes_array_def set_bytes_array_def)
qed

lemma buffer_bytes_cong:
  "\<forall>p \<in> sl_page ` set sls. get_bytes_array m' p = get_bytes_array m p \<Longrightarrow> buffer_bytes m' sls = buffer_bytes m sls"
  unfolding buffer_bytes_def by (intro arg_cong [where f = concat] map_cong) (auto simp: slice_bytes_def)

lemma buffer_bytes_write_slice:
  assumes "memory_ok m" and "slices_ok (sl # sls)" and "length bs = length (slice_bytes m sl)"
  shows "buffer_bytes (write_slice sl bs m) sls = buffer_bytes m sls"
proof (rule buffer_bytes_cong, rule ballI)
  fix p assume "p \<in> sl_page ` set sls"
  then have "page_index p \<noteq> page_index (sl_page sl)" using assms(2) by auto
  then show "get_bytes_array (write_slice sl bs m) p = get_bytes_array m p"
    using assms by (intro write_slice_ok(3)) simp_all
qed

subsection \<open>Writing from a buffer\<close>

lemma write_bytes_alt:
  "write_bytes k xs bs = take k bs @ replicate (k - length bs) 0 @ xs @ drop (k + length xs) bs"
proof (cases "k \<le> length bs")
  case True
  then show ?thesis by (simp add: write_bytes_def splice_at_def)
next
  case False
  then have "k + length xs - length bs = (k - length bs) + length xs" by simp
  then show ?thesis using False by (simp add: write_bytes_def splice_at_def replicate_add)
qed

lemma write_bytes_append:
  "write_bytes (k + length xs) ys (write_bytes k xs bs) = write_bytes k (xs @ ys) bs"
proof -
  let ?h = "take k bs @ replicate (k - length bs) 0 @ xs"
  have h: "length ?h = k + length xs" by (simp add: min_def)
  have "write_bytes k xs bs = ?h @ drop (k + length xs) bs" by (simp add: write_bytes_alt)
  moreover have "write_bytes (k + length xs) ys (?h @ drop (k + length xs) bs) = ?h @ ys @ drop (k + length xs + length ys) bs"
    unfolding write_bytes_alt [of "k + length xs"] using h by (simp add: add.commute)
  ultimately show ?thesis by (simp add: write_bytes_alt add.assoc)
qed

lemma wp_on_store: "wp (on_store a) Q = (\<lambda>(m, s). wp a (\<lambda>v s'. Q v (m, s')) s)"
  by (auto simp: fun_eq_iff on_store_def wp_on)

lemma wp_OSInode_write_loop:
  "fs_inv fs s \<Longrightarrow> fs_abs fs s i = Some (t, bs) \<Longrightarrow> os_inode f = Inode_of fs i \<Longrightarrow> memory_ok m \<Longrightarrow>
    list_all slice_fits sls \<Longrightarrow> room_for fs s (length bs) (os_offset f + length (buffer_bytes m sls)) \<Longrightarrow>
    wp (OSInode_write_loop sls f total_size) (\<lambda>(n, f') (m', s'). n = total_size + length (buffer_bytes m sls) \<and>
      f' = f\<lparr>os_offset := os_offset f + length (buffer_bytes m sls)\<rparr> \<and> m' = m \<and> fs_inv fs s' \<and>
      fs_abs fs s' = (if sls = [] then fs_abs fs s
        else (fs_abs fs s)(i \<mapsto> (t, write_bytes (os_offset f) (buffer_bytes m sls) bs)))) (m, s)"
proof (induction sls arbitrary: s bs f total_size)
  case Nil
  then show ?case by (simp add: wp_ret)
next
  case (Cons sl sls)
  let ?b = "slice_bytes m sl" and ?rest = "buffer_bytes m sls"
  have ne: "?b \<noteq> []" using length_slice_bytes(3) [of m sl] Cons.prems(4,5) by simp
  let ?f = "f\<lparr>os_offset := os_offset f + length ?b\<rparr>" and ?bs = "write_bytes (os_offset f) ?b bs"
  have max: "os_offset f + length ?b + length ?rest \<le> MAX_SIZE"
    "total_blocks (os_offset f + length ?b + length ?rest) - total_blocks (length bs) \<le> card (free_blocks fs s)"
    using Cons.prems(6) by (simp_all add: room_for_def add.assoc)
  have sz: "length bs \<le> MAX_SIZE"
    using Cons.prems(1,2) length_file_bytes_inv [OF Cons.prems(1), of i] fs_relD(4) [OF fs_invD(1) [OF Cons.prems(1)], of i]
    by (auto simp: fs_abs_Some file_ok_def inode_ok_def)
  have mono: "total_blocks (os_offset f + length ?b) \<le> total_blocks (os_offset f + length ?b + length ?rest)"
    using max(1) by (intro total_blocks_mono) simp_all
  have room1: "room_for fs s (length bs) (os_offset f + length ?b)"
    using max mono by (simp add: room_for_def)
  let ?need = "total_blocks (os_offset f + length ?b) - total_blocks (length bs)"
  have "wp (Inode_write_at (Inode_of fs i) (os_offset f) ?b) (\<lambda>n s1. n = length ?b \<and>
      wp (OSInode_write_loop sls ?f (total_size + n)) (\<lambda>(n, f') (m', s'). n = total_size + length (buffer_bytes m (sl # sls)) \<and>
      f' = f\<lparr>os_offset := os_offset f + length (buffer_bytes m (sl # sls))\<rparr> \<and> m' = m \<and> fs_inv fs s' \<and>
      fs_abs fs s' = (fs_abs fs s)(i \<mapsto> (t, write_bytes (os_offset f) (buffer_bytes m (sl # sls)) bs))) (m, s1)) s"
  proof (rule wp_conseq [OF wp_Inode_write_at [OF Cons.prems(1,2) ne room1 refl]], elim conjE, rule conjI)
    fix n s1
    assume n: "n = length ?b" and inv1: "fs_inv fs s1" and a1: "fs_abs fs s1 = (fs_abs fs s)(i \<mapsto> (t, ?bs))"
      and c1: "card (free_blocks fs s1) = card (free_blocks fs s) - ?need"
    show "n = length ?b" by (rule n)
    have "total_blocks (os_offset f + length ?b + length ?rest) - total_blocks (max (length bs) (os_offset f + length ?b)) \<le> card (free_blocks fs s1)"
    proof (cases "length bs \<le> os_offset f + length ?b")
      case True
      then have "total_blocks (length bs) \<le> total_blocks (os_offset f + length ?b)" using max(1) by (intro total_blocks_mono) simp_all
      then show ?thesis using max(2) mono c1 True by (simp add: max_absorb2)
    next
      case False
      then have "total_blocks (os_offset f + length ?b) \<le> total_blocks (length bs)" using sz by (intro total_blocks_mono) simp_all
      then show ?thesis using max(2) c1 False by (simp add: max_absorb1)
    qed
    then have room2: "room_for fs s1 (length ?bs) (os_offset ?f + length ?rest)" using max(1) by (simp add: room_for_def)
    have a2: "fs_abs fs s1 i = Some (t, ?bs)" by (simp add: a1)
    show "wp (OSInode_write_loop sls ?f (total_size + n)) (\<lambda>(n, f') (m', s'). n = total_size + length (buffer_bytes m (sl # sls)) \<and>
      f' = f\<lparr>os_offset := os_offset f + length (buffer_bytes m (sl # sls))\<rparr> \<and> m' = m \<and> fs_inv fs s' \<and>
      fs_abs fs s' = (fs_abs fs s)(i \<mapsto> (t, write_bytes (os_offset f) (buffer_bytes m (sl # sls)) bs))) (m, s1)"
      by (rule wp_conseq [OF Cons.IH [OF inv1 a2 _ _ _ room2]])
        (use Cons.prems(3-5) in \<open>auto simp: n a1 write_bytes_append split: if_splits\<close>)
  qed
  then show ?case
    using Cons.prems(3) by (simp add: wp_simps wp_on_store cong: conj_cong del: fun_upd_apply)
qed

subsection \<open>Reading into a buffer\<close>

lemma read_bytes_split:
  assumes "k = min n (length bs - off)"
  shows "read_bytes off (n + n') bs = read_bytes off n bs @ (if k = n then read_bytes (off + n) n' bs else [])"
proof (cases "k = n")
  case True
  then show ?thesis by (simp add: read_bytes_def take_add add.commute)
next
  case False
  then have "length (drop off bs) \<le> n" using assms by simp
  then show ?thesis using False by (simp add: read_bytes_def)
qed

lemma splice_append:
  "length xs = length us \<Longrightarrow> splice_at 0 (xs @ ys) (us @ vs) = xs @ splice_at 0 ys vs"
  "length xs \<le> length us \<Longrightarrow> splice_at 0 xs (us @ vs) = splice_at 0 xs us @ vs"
  by (simp_all add: splice_at_def)

definition same_pages :: "usize set \<Rightarrow> mm \<Rightarrow> mm \<Rightarrow> bool" where
  "same_pages P m m' \<longleftrightarrow> memory_ok m' \<and> frame_allocator m' = frame_allocator m \<and> (\<forall>q. q \<notin> P \<longrightarrow> memory m' q = memory m q)"

lemma same_pages_write_slice:
  assumes "memory_ok m" and "slice_fits sl" and "length bs = length (slice_bytes m sl)"
  shows "same_pages {page_index (sl_page sl)} m (write_slice sl bs m)"
  using write_slice_ok(1) [OF assms] by (simp add: same_pages_def write_slice_def set_bytes_array_def)

lemma same_pages_trans: "same_pages P m m1 \<Longrightarrow> same_pages Q m1 m2 \<Longrightarrow> same_pages (P \<union> Q) m m2"
  by (simp add: same_pages_def)

lemma wp_OSInode_read_loop:
  assumes inv: "fs_inv fs s" and a: "fs_abs fs s i = Some (t, bs)"
  shows "os_inode f = Inode_of fs i \<Longrightarrow> memory_ok m \<Longrightarrow> slices_ok sls \<Longrightarrow>
    k = min (length (buffer_bytes m sls)) (length bs - os_offset f) \<Longrightarrow>
    wp (OSInode_read_loop sls f total_size) (\<lambda>(n, f') (m', s'). n = total_size + k \<and>
      f' = f\<lparr>os_offset := os_offset f + k\<rparr> \<and> s' = s \<and> same_pages ((page_index \<circ> sl_page) ` set sls) m m' \<and>
      buffer_bytes m' sls =
        splice_at 0 (read_bytes (os_offset f) (length (buffer_bytes m sls)) bs) (buffer_bytes m sls)) (m, s)"
proof (induction sls arbitrary: m f total_size k)
  case Nil
  then show ?case by (simp add: wp_ret same_pages_def read_bytes_def)
next
  case (Cons sl sls)
  let ?b = "slice_bytes m sl" and ?L = "length (buffer_bytes m sls)"
  let ?n = "min (length ?b) (length bs - os_offset f)" and ?b' = "splice_at 0 (read_bytes (os_offset f) (length ?b) bs) ?b"
  let ?m = "write_slice sl ?b' m" and ?f = "f\<lparr>os_offset := os_offset f + ?n\<rparr>"
  have sl: "slice_fits sl" "slices_ok sls" "length ?b' = length ?b" using Cons.prems(3) by simp_all
  note w = write_slice_ok [OF Cons.prems(2) sl(1,3)] and sp = same_pages_write_slice [OF Cons.prems(2) sl(1,3)]
  have keep: "buffer_bytes ?m sls = buffer_bytes m sls" by (rule buffer_bytes_write_slice [OF Cons.prems(2,3) sl(3)])
  note r = Inode_read_at_eq [OF inv a, of "os_offset f" ?b]
  let ?Q = "\<lambda>(n, f') (m', s'). n = total_size + k \<and> f' = f\<lparr>os_offset := os_offset f + k\<rparr> \<and> s' = s \<and>
      same_pages ((page_index \<circ> sl_page) ` set (sl # sls)) m m' \<and> buffer_bytes m' (sl # sls) =
        splice_at 0 (read_bytes (os_offset f) (length (buffer_bytes m (sl # sls))) bs) (buffer_bytes m (sl # sls))"
  have "wp (if ?n = 0 then ret (total_size, f) else OSInode_read_loop sls ?f (total_size + ?n)) ?Q (?m, s)"
  proof (cases "?n = 0")
    case True
    then have "length bs \<le> os_offset f" using length_slice_bytes(3) [OF Cons.prems(2) sl(1)] by (auto simp: min_def split: if_splits)
    then have "k = 0" "read_bytes (os_offset f) n bs = []" for n using Cons.prems(4) by (simp_all add: read_bytes_def)
    then show ?thesis using True w sp keep by (auto simp: wp_ret same_pages_def)
  next
    case False
    let ?k = "min (length (buffer_bytes ?m sls)) (length bs - os_offset ?f)"
    have kk: "k = ?n + ?k" using Cons.prems(4) keep by (auto simp: min_def)
    have IH: "wp (OSInode_read_loop sls ?f (total_size + ?n)) (\<lambda>(n, f') (m', s'). n = (total_size + ?n) + ?k \<and>
      f' = ?f\<lparr>os_offset := os_offset ?f + ?k\<rparr> \<and> s' = s \<and> same_pages ((page_index \<circ> sl_page) ` set sls) ?m m' \<and>
      buffer_bytes m' sls = splice_at 0 (read_bytes (os_offset ?f) (length (buffer_bytes ?m sls)) bs) (buffer_bytes ?m sls)) (?m, s)"
      using Cons.prems(1) w(1) sl(2) by (intro Cons.IH) simp_all
    have eq: "splice_at 0 (read_bytes (os_offset f) (length ?b + ?L) bs) (?b @ buffer_bytes m sls) =
        ?b' @ splice_at 0 (read_bytes (os_offset ?f) ?L bs) (buffer_bytes m sls)"
    proof (cases "?n = length ?b")
      case True
      then have "length (read_bytes (os_offset f) (length ?b) bs) = length ?b" by (simp add: read_bytes_def)
      then show ?thesis using True by (simp add: read_bytes_split [OF refl] splice_append(1))
    next
      case False
      then have "length bs \<le> os_offset ?f" by auto
      then have "read_bytes (os_offset ?f) ?L bs = []" by (simp add: read_bytes_def)
      then show ?thesis using False by (simp add: read_bytes_split [OF refl] splice_append(2) read_bytes_def)
    qed
    have "wp (OSInode_read_loop sls ?f (total_size + ?n)) ?Q (?m, s)"
    proof (rule wp_conseq [OF IH], clarify)
      fix m' 
      assume sm: "same_pages ((page_index \<circ> sl_page) ` set sls) ?m m'"
        and bm: "buffer_bytes m' sls = splice_at 0 (read_bytes (os_offset ?f) (length (buffer_bytes ?m sls)) bs) (buffer_bytes ?m sls)"
      have "page_index (sl_page sl) \<notin> (page_index \<circ> sl_page) ` set sls" using Cons.prems(3) by force
      then have "memory m' (page_index (sl_page sl)) = memory ?m (page_index (sl_page sl))"
        using sm by (simp add: same_pages_def)
      then have "slice_bytes m' sl = ?b'" using w(2) by (simp add: slice_bytes_def get_bytes_array_def)
      then show "total_size + ?n + ?k = total_size + k \<and> ?f\<lparr>os_offset := os_offset ?f + ?k\<rparr> = f\<lparr>os_offset := os_offset f + k\<rparr> \<and> s = s \<and>
          same_pages ((page_index \<circ> sl_page) ` set (sl # sls)) m m' \<and> buffer_bytes m' (sl # sls) =
          splice_at 0 (read_bytes (os_offset f) (length (buffer_bytes m (sl # sls))) bs) (buffer_bytes m (sl # sls))"
        using same_pages_trans [OF sp sm] bm kk eq keep by simp
    qed
    then show ?thesis unfolding if_not_P [OF False] .
  qed
  then show ?case using Cons.prems(1) by (simp add: wp_simps wp_on_store wp_Inr [where m = "Inode_read_at _ _ _", OF r])
qed

end
