(* ===== verification/Memory_Set.thy ===== *)
theory Memory_Set
  imports User_Buffer
begin

text \<open>
  Address spaces (\<open>src/os/src/mm/memory_set.rs\<close>): a \<open>MapArea\<close> is a range of virtual pages
  with a way of mapping them and a permission; a \<open>MemorySet\<close> is a page table with its
  areas. A \<open>BTreeMap\<close> is its list of entries in the order of the keys. The frames an area
  or a page table owns are given back when it is dropped, which the model calls where the
  code drops them.
\<close>

section \<open>Areas\<close>

text \<open>\<open>BTreeMap::insert\<close> replaces the value of a key; \<open>remove\<close> takes a key out.\<close>

fun bt_insert :: "'k::linorder \<Rightarrow> 'v \<Rightarrow> ('k \<times> 'v) list \<Rightarrow> ('k \<times> 'v) list" where
  "bt_insert k v [] = [(k, v)]"
| "bt_insert k v ((k', v') # rest) =
     (if k < k' then (k, v) # (k', v') # rest
      else if k = k' then (k, v) # rest
      else (k', v') # bt_insert k v rest)"

definition bt_remove :: "'k \<Rightarrow> ('k \<times> 'v) list \<Rightarrow> ('k \<times> 'v) list" where
  "bt_remove k m = filter (\<lambda>(k', _). k' \<noteq> k) m"

datatype map_type = Identical | Framed

type_synonym map_permission = u8

definition MP_R :: map_permission where "MP_R = push_bit 1 1"
definition MP_W :: map_permission where "MP_W = push_bit 2 1"
definition MP_X :: map_permission where "MP_X = push_bit 3 1"
definition MP_U :: map_permission where "MP_U = push_bit 4 1"

record map_area =
  vpn_range :: vpn_range
  data_frames :: "(virt_page_num \<times> phys_page_num) list"
  map_type :: map_type
  map_perm :: map_permission

definition MapArea_new ::
    "virt_addr \<Rightarrow> virt_addr \<Rightarrow> map_type \<Rightarrow> map_permission \<Rightarrow> ('s, map_area) action" where
  "MapArea_new start_va end_va mt mp =
     (let start_vpn = VirtAddr_floor start_va; end_vpn = VirtAddr_ceil end_va
      in bnd (VPNRange_new start_vpn end_vpn) (\<lambda>range.
         ret \<lparr>vpn_range = range, data_frames = [], map_type = mt, map_perm = mp\<rparr>))"

definition MapArea_from_another :: "map_area \<Rightarrow> ('s, map_area) action" where
  "MapArea_from_another another =
     bnd (VPNRange_new (get_start (vpn_range another)) (get_end (vpn_range another))) (\<lambda>range.
       ret \<lparr>vpn_range = range, data_frames = [], map_type = map_type another,
            map_perm = map_perm another\<rparr>)"

text \<open>Dropping an \<open>Option<FrameTracker>\<close>.\<close>

definition drop_frame :: "phys_page_num option \<Rightarrow> unit mm_action" where
  "drop_frame f = (case f of None \<Rightarrow> ret () | Some p \<Rightarrow> frame_dealloc p)"

definition map_one ::
    "map_area \<Rightarrow> page_table \<Rightarrow> virt_page_num \<Rightarrow> (map_area \<times> page_table) mm_action" where
  "map_one area pt vpn =
     bnd (case map_type area of
            Identical \<Rightarrow> ret (PhysPageNum (vpn_0 vpn), area)
          | Framed \<Rightarrow>
              bnd frame_alloc (\<lambda>r. bnd (unwrap r) (\<lambda>frame.
              thn (drop_frame (map_of (data_frames area) vpn))
                (ret (frame, area\<lparr>data_frames := bt_insert vpn frame (data_frames area)\<rparr>)))))
     (\<lambda>(ppn, area).
     bnd (PageTable_map pt vpn ppn (map_perm area)) (\<lambda>pt.
     ret (area, pt)))"

definition unmap_one :: "map_area \<Rightarrow> page_table \<Rightarrow> virt_page_num \<Rightarrow> map_area mm_action" where
  "unmap_one area pt vpn =
     bnd (if map_type area = Framed then
            thn (drop_frame (map_of (data_frames area) vpn))
              (ret (area\<lparr>data_frames := bt_remove vpn (data_frames area)\<rparr>))
          else ret area) (\<lambda>area.
     thn (PageTable_unmap pt vpn) (ret area))"

definition range_vpns :: "vpn_range \<Rightarrow> virt_page_num list" where
  "range_vpns r = collect_iterator (SimpleRange_into_iter r)"

fun map_loop ::
    "virt_page_num list \<Rightarrow> map_area \<Rightarrow> page_table \<Rightarrow> (map_area \<times> page_table) mm_action" where
  "map_loop [] area pt = ret (area, pt)"
| "map_loop (vpn # vpns) area pt = bnd (map_one area pt vpn) (\<lambda>(area, pt). map_loop vpns area pt)"

definition MapArea_map :: "map_area \<Rightarrow> page_table \<Rightarrow> (map_area \<times> page_table) mm_action" where
  "MapArea_map area pt = map_loop (range_vpns (vpn_range area)) area pt"

fun unmap_loop :: "virt_page_num list \<Rightarrow> map_area \<Rightarrow> page_table \<Rightarrow> map_area mm_action" where
  "unmap_loop [] area pt = ret area"
| "unmap_loop (vpn # vpns) area pt = bnd (unmap_one area pt vpn) (\<lambda>area. unmap_loop vpns area pt)"

definition MapArea_unmap :: "map_area \<Rightarrow> page_table \<Rightarrow> map_area mm_action" where
  "MapArea_unmap area pt = unmap_loop (range_vpns (vpn_range area)) area pt"

text \<open>The data is copied page by page, from the start of the first page on.\<close>

function copy_data_loop :: "page_table \<Rightarrow> byte list \<Rightarrow> nat \<Rightarrow> virt_page_num \<Rightarrow> unit mm_action" where
  "copy_data_loop pt data start vpn =
     (let src = segment start (min (length data) (start + 4096) - start) data in
      bnd (gets (\<lambda>m. PageTable_translate m pt vpn)) (\<lambda>r. bnd (unwrap r) (\<lambda>pte.
      thn (upd (\<lambda>m. set_bytes_array (pte_ppn pte)
                  (splice_at 0 src (get_bytes_array m (pte_ppn pte))) m))
        (if start + 4096 \<ge> length data then ret ()
         else copy_data_loop pt data (start + 4096) (VirtPageNum_step vpn)))))"
  by pat_completeness auto
termination
  by (relation "measure (\<lambda>(pt, data, start, vpn). length data - start)") auto

declare copy_data_loop.simps [simp del]

definition copy_data :: "map_area \<Rightarrow> page_table \<Rightarrow> byte list \<Rightarrow> unit mm_action" where
  "copy_data area pt data =
     thn (assert_that (map_type area = Framed))
       (copy_data_loop pt data 0 (get_start (vpn_range area)))"

text \<open>Dropping an area drops its frames.\<close>

definition MapArea_drop :: "map_area \<Rightarrow> unit mm_action" where
  "MapArea_drop area = for_each (\<lambda>(_, f). frame_dealloc f) (data_frames area)"

section \<open>Address spaces\<close>

record memory_set =
  ms_page_table :: page_table
  areas :: "map_area list"

definition MemorySet_new_bare :: "memory_set mm_action" where
  "MemorySet_new_bare = bnd PageTable_new (\<lambda>pt. ret \<lparr>ms_page_table = pt, areas = []\<rparr>)"

definition MemorySet_token :: "memory_set \<Rightarrow> usize" where
  "MemorySet_token ms = PageTable_token (ms_page_table ms)"

definition MemorySet_push :: "memory_set \<Rightarrow> map_area \<Rightarrow> byte list option \<Rightarrow> memory_set mm_action" where
  "MemorySet_push ms area data =
     bnd (MapArea_map area (ms_page_table ms)) (\<lambda>(area, pt).
     thn (case data of None \<Rightarrow> ret () | Some data \<Rightarrow> copy_data area pt data)
       (ret (ms\<lparr>ms_page_table := pt, areas := areas ms @ [area]\<rparr>)))"

definition insert_framed_area ::
    "memory_set \<Rightarrow> virt_addr \<Rightarrow> virt_addr \<Rightarrow> map_permission \<Rightarrow> memory_set mm_action" where
  "insert_framed_area ms start_va end_va perm =
     bnd (MapArea_new start_va end_va Framed perm) (\<lambda>area. MemorySet_push ms area None)"

fun find_area :: "virt_page_num \<Rightarrow> map_area list \<Rightarrow> nat option" where
  "find_area vpn [] = None"
| "find_area vpn (a # as) =
     (if get_start (vpn_range a) = vpn then Some 0 else map_option Suc (find_area vpn as))"

definition remove_area_with_start_vpn :: "memory_set \<Rightarrow> virt_page_num \<Rightarrow> memory_set mm_action" where
  "remove_area_with_start_vpn ms start_vpn =
     (case find_area start_vpn (areas ms) of
        None \<Rightarrow> ret ms
      | Some idx \<Rightarrow>
          bnd (MapArea_unmap (areas ms ! idx) (ms_page_table ms)) (\<lambda>area.
          thn (MapArea_drop area)
            (ret (ms\<lparr>areas := take idx (areas ms) @ drop (Suc idx) (areas ms)\<rparr>))))"

text \<open>The linker symbol \<open>strampoline\<close> is an argument.\<close>

definition map_trampoline :: "usize \<Rightarrow> memory_set \<Rightarrow> memory_set mm_action" where
  "map_trampoline tramp ms =
     bnd (VirtPageNum_from_VirtAddr (VirtAddr_from_usize TRAMPOLINE)) (\<lambda>vpn.
     bnd (PhysPageNum_from_PhysAddr (PhysAddr_from_usize tramp)) (\<lambda>ppn.
     bnd (PageTable_map (ms_page_table ms) vpn ppn (PTE_R OR PTE_X)) (\<lambda>pt.
     ret (ms\<lparr>ms_page_table := pt\<rparr>))))"

definition MemorySet_translate :: "mm \<Rightarrow> memory_set \<Rightarrow> virt_page_num \<Rightarrow> page_table_entry option" where
  "MemorySet_translate m ms vpn = PageTable_translate m (ms_page_table ms) vpn"

definition recycle_data_pages :: "memory_set \<Rightarrow> memory_set mm_action" where
  "recycle_data_pages ms = thn (for_each MapArea_drop (areas ms)) (ret (ms\<lparr>areas := []\<rparr>))"

text \<open>Dropping an address space drops the page table, then the areas.\<close>

definition MemorySet_drop :: "memory_set \<Rightarrow> unit mm_action" where
  "MemorySet_drop ms =
     thn (for_each frame_dealloc (pt_frames (ms_page_table ms))) (for_each MapArea_drop (areas ms))"

subsection \<open>The kernel's address space\<close>

record linker_symbols =
  stext :: usize
  etext :: usize
  srodata :: usize
  erodata :: usize
  sdata :: usize
  edata :: usize
  sbss_with_stack :: usize
  ebss :: usize
  ekernel :: usize
  strampoline :: usize

definition MMIO :: "(usize \<times> usize) list" where
  "MMIO = [(0x00100000, 0x002000), (0x10001000, 0x001000)]"

definition push_identical ::
    "usize \<Rightarrow> usize \<Rightarrow> map_permission \<Rightarrow> memory_set \<Rightarrow> memory_set mm_action" where
  "push_identical start end' perm ms =
     bnd (MapArea_new (VirtAddr_from_usize start) (VirtAddr_from_usize end') Identical perm)
       (\<lambda>area. MemorySet_push ms area None)"

fun push_mmio :: "(usize \<times> usize) list \<Rightarrow> memory_set \<Rightarrow> memory_set mm_action" where
  "push_mmio [] ms = ret ms"
| "push_mmio ((a, n) # rest) ms = bnd (push_identical a (a + n) (MP_R OR MP_W) ms) (push_mmio rest)"

definition MemorySet_new_kernel :: "linker_symbols \<Rightarrow> memory_set mm_action" where
  "MemorySet_new_kernel ls =
     bnd MemorySet_new_bare (\<lambda>ms.
     bnd (map_trampoline (strampoline ls) ms) (\<lambda>ms.
     bnd (push_identical (stext ls) (etext ls) (MP_R OR MP_X) ms) (\<lambda>ms.
     bnd (push_identical (srodata ls) (erodata ls) MP_R ms) (\<lambda>ms.
     bnd (push_identical (sdata ls) (edata ls) (MP_R OR MP_W) ms) (\<lambda>ms.
     bnd (push_identical (sbss_with_stack ls) (ebss ls) (MP_R OR MP_W) ms) (\<lambda>ms.
     bnd (push_identical (ekernel ls) MEMORY_END (MP_R OR MP_W) ms) (\<lambda>ms.
     push_mmio MMIO ms)))))))"

subsection \<open>User programs\<close>

text \<open>
  What \<open>from_elf\<close> uses of the ELF parser \<open>xmas_elf\<close>: the parsed file is an argument.
\<close>

record program_header =
  ph_is_load :: bool
  ph_virtual_addr :: u64
  ph_mem_size :: u64
  ph_is_read :: bool
  ph_is_write :: bool
  ph_is_execute :: bool
  ph_offset :: u64
  ph_file_size :: u64

record elf_file =
  elf_magic :: "byte list"
  program_headers :: "program_header list"
  entry_point :: u64
  elf_input :: "byte list"

definition ph_map_perm :: "program_header \<Rightarrow> map_permission" where
  "ph_map_perm ph =
     (let map_perm = MP_U;
          map_perm = (if ph_is_read ph then map_perm OR MP_R else map_perm);
          map_perm = (if ph_is_write ph then map_perm OR MP_W else map_perm)
      in if ph_is_execute ph then map_perm OR MP_X else map_perm)"

definition slice_input :: "byte list \<Rightarrow> usize \<Rightarrow> usize \<Rightarrow> ('s, byte list) action" where
  "slice_input bs a b =
     (if a \<le> b \<and> unat b \<le> length bs then ret (segment (unat a) (unat b - unat a) bs)
      else fail IndexOutOfBounds)"

fun load_segments ::
    "byte list \<Rightarrow> program_header list \<Rightarrow> virt_page_num \<Rightarrow> memory_set \<Rightarrow>
     (virt_page_num \<times> memory_set) mm_action" where
  "load_segments input [] max_end_vpn ms = ret (max_end_vpn, ms)"
| "load_segments input (ph # phs) max_end_vpn ms =
     (if ph_is_load ph then
        (let start_va = VirtAddr_from_usize (ph_virtual_addr ph);
             end_va = VirtAddr_from_usize (ph_virtual_addr ph + ph_mem_size ph)
         in bnd (MapArea_new start_va end_va Framed (ph_map_perm ph)) (\<lambda>area.
            bnd (slice_input input (ph_offset ph) (ph_offset ph + ph_file_size ph)) (\<lambda>data.
            bnd (MemorySet_push ms area (Some data)) (\<lambda>ms.
            load_segments input phs (get_end (vpn_range area)) ms))))
      else load_segments input phs max_end_vpn ms)"

text \<open>
  The parser is a parameter. It gives the entry point and the program headers, or \<open>None\<close> where one of the
  \<open>unwrap\<close>s on its results panics; the fresh address space is then lost with the panic.
\<close>

definition MemorySet_from_elf ::
    "(byte list \<Rightarrow> elf_file option) \<Rightarrow> usize \<Rightarrow> byte list \<Rightarrow> (memory_set \<times> usize \<times> usize) mm_action" where
  "MemorySet_from_elf parse_elf tramp elf_data =
     bnd MemorySet_new_bare (\<lambda>ms.
     bnd (map_trampoline tramp ms) (\<lambda>ms.
     bnd (unwrap (parse_elf elf_data)) (\<lambda>elf.
     thn (assert_that (elf_magic elf = [0x7f, 0x45, 0x4c, 0x46]))
     (bnd (load_segments (elf_input elf) (program_headers elf) (VirtPageNum 0) ms) (\<lambda>(max_end_vpn, ms).
     let max_end_va = VirtAddr_from_VirtPageNum max_end_vpn;
         user_stack_bottom = usize_from_VirtAddr max_end_va + PAGE_SIZE;
         user_stack_top = user_stack_bottom + USER_STACK_SIZE
     in bnd (MapArea_new (VirtAddr_from_usize user_stack_bottom) (VirtAddr_from_usize user_stack_top)
               Framed (MP_R OR MP_W OR MP_U)) (\<lambda>area.
        bnd (MemorySet_push ms area None) (\<lambda>ms.
        bnd (MapArea_new (VirtAddr_from_usize TRAP_CONTEXT) (VirtAddr_from_usize TRAMPOLINE)
               Framed (MP_R OR MP_W)) (\<lambda>area.
        bnd (MemorySet_push ms area None) (\<lambda>ms.
        ret (ms, user_stack_top, entry_point elf))))))))))"

fun copy_pages :: "memory_set \<Rightarrow> memory_set \<Rightarrow> virt_page_num list \<Rightarrow> unit mm_action" where
  "copy_pages user_space ms [] = ret ()"
| "copy_pages user_space ms (vpn # vpns) =
     bnd (gets (\<lambda>m. MemorySet_translate m user_space vpn)) (\<lambda>r. bnd (unwrap r) (\<lambda>src.
     bnd (gets (\<lambda>m. MemorySet_translate m ms vpn)) (\<lambda>r. bnd (unwrap r) (\<lambda>dst.
     thn (upd (\<lambda>m. set_bytes_array (pte_ppn dst) (get_bytes_array m (pte_ppn src)) m))
       (copy_pages user_space ms vpns)))))"

fun copy_areas :: "memory_set \<Rightarrow> map_area list \<Rightarrow> memory_set \<Rightarrow> memory_set mm_action" where
  "copy_areas user_space [] ms = ret ms"
| "copy_areas user_space (area # rest) ms =
     bnd (MapArea_from_another area) (\<lambda>new_area.
     bnd (MemorySet_push ms new_area None) (\<lambda>ms.
     thn (copy_pages user_space ms (range_vpns (vpn_range area)))
       (copy_areas user_space rest ms)))"

definition MemorySet_from_existed_user :: "usize \<Rightarrow> memory_set \<Rightarrow> memory_set mm_action" where
  "MemorySet_from_existed_user tramp user_space =
     bnd MemorySet_new_bare (\<lambda>ms.
     bnd (map_trampoline tramp ms) (\<lambda>ms.
     copy_areas user_space (areas user_space) ms))"

section \<open>Page tables and the memory outside them\<close>

text \<open>A page table depends only on the pages of its own frames.\<close>

lemma walk_same_frames:
  assumes wf: "pt_wf l m pt" and same: "\<And>p. p \<in> set (pt_frames pt) \<Longrightarrow> get_bytes_array m' p = get_bytes_array m p"
    and "path_ok is"
  shows "walk m' (root_ppn pt) is = walk m (root_ppn pt) is"
proof (rule walk_cong)
  fix n q
  assume "walk m (root_ppn pt) (take n is) = Some q"
  then have "q \<in> set (pt_frames pt)" using wf path_ok_take [OF assms(3)] by (rule pt_wf_frame(1) [rotated 2])
  then show "get_pte m' q (is ! n) = get_pte m q (is ! n)" using same by (simp add: get_pte_def)
qed

lemma pt_wf_same_frames:
  assumes wf: "pt_wf l m pt" and same: "\<And>p. p \<in> set (pt_frames pt) \<Longrightarrow> get_bytes_array m' p = get_bytes_array m p"
    and ok: "memory_ok m'" and live: "set (pt_frames pt) \<subseteq> mm_live l m'"
  shows "pt_wf l m' pt" and "pt_abs m' pt = pt_abs m pt"
proof -
  note w = walk_same_frames [OF wf same]
  show "pt_wf l m' pt"
    using wf ok live unfolding pt_wf_def by (simp add: w del: split_paired_All)
  show "pt_abs m' pt = pt_abs m pt"
  proof
    fix v
    have "get_pte m' q k = get_pte m q k" if "walk m (root_ppn pt) (hi_path v) = Some q" for q k
      using same [OF pt_wf_frame(1) [OF wf path_ok_hi_path that]] by (simp add: get_pte_def)
    then show "pt_abs m' pt v = pt_abs m pt v"
      using w [OF _ path_ok_hi_path] by (auto simp: pt_abs_walk Let_def split: option.splits)
  qed
qed

lemma get_bytes_array_other:
  assumes "memory m' = (memory m)(page_index f := bs)" and "p \<noteq> f"
    and "unat (ppn_0 p) < 2 ^ 44" and "unat (ppn_0 f) < 2 ^ 44"
  shows "get_bytes_array m' p = get_bytes_array m p"
  using assms page_index_inj [of p f] by (simp add: get_bytes_array_def)

lemma live_bound: "mm_frames_inv l r m \<Longrightarrow> p \<in> mm_live l m \<Longrightarrow> unat (ppn_0 p) < 2 ^ 44"
  by (auto simp: mm_frames_inv_def fa_inv_def fa_live_def)

text \<open>Allocating a data frame leaves a page table as it is.\<close>

lemma pt_wf_frame_alloc:
  assumes inv: "mm_frames_inv l r m" and wf: "pt_wf l m pt" and f: "f \<in> mm_free m"
    and m': "mm_live l m' = insert f (mm_live l m)" "memory m' = (memory m)(page_index f := replicate 4096 0)"
  shows "pt_wf l m' pt" and "pt_abs m' pt = pt_abs m pt"
proof -
  have "get_bytes_array m' p = get_bytes_array m p" if "p \<in> set (pt_frames pt)" for p
  proof (rule get_bytes_array_other [OF m'(2)])
    show "unat (ppn_0 p) < 2 ^ 44" "p \<noteq> f"
      using wf that f mm_frames.disjoint [OF inv] by (auto simp: pt_wf_def)
    show "unat (ppn_0 f) < 2 ^ 44" using fa_free_bounds [OF inv f] .
  qed
  moreover have "memory_ok m'" using wf m'(2) by (auto simp: pt_wf_def memory_ok_def)
  moreover have "set (pt_frames pt) \<subseteq> mm_live l m'" using wf m'(1) by (auto simp: pt_wf_def)
  ultimately show "pt_wf l m' pt" "pt_abs m' pt = pt_abs m pt" using pt_wf_same_frames [OF wf] by blast+
qed

section \<open>Growing an address space\<close>

text \<open>
  \<open>space_grown l r m pt fs m' pt'\<close>: the page table has grown, and the frames \<open>fs\<close> have been
  taken from the allocator for data and hold zeros; nothing else has changed in memory.
\<close>

definition space_grown ::
    "nat \<Rightarrow> nat \<Rightarrow> mm \<Rightarrow> page_table \<Rightarrow> phys_page_num list \<Rightarrow> mm \<Rightarrow> page_table \<Rightarrow> bool" where
  "space_grown l r m pt fs m' pt' \<longleftrightarrow>
     mm_frames_inv l r m' \<and> pt_wf l m' pt' \<and> root_ppn pt' = root_ppn pt \<and>
     (\<exists>new. pt_frames pt' = pt_frames pt @ new \<and> distinct (new @ fs) \<and> set (new @ fs) \<subseteq> mm_free m \<and>
        mm_live l m' = mm_live l m \<union> set (new @ fs) \<and> mm_free m' = mm_free m - set (new @ fs)) \<and>
     (\<forall>q. q \<notin> page_index ` (set (pt_frames pt') \<union> set fs) \<longrightarrow> memory m' q = memory m q) \<and>
     (\<forall>f \<in> set fs. get_bytes_array m' f = replicate 4096 0)"

lemma space_grown_Nil: "space_grown l r m pt [] m' pt' \<longleftrightarrow> pt_grown l r m pt m' pt'"
  by (simp add: space_grown_def pt_grown_def)

lemma space_grown_new:
  assumes "space_grown l r m pt fs m' pt'"
  obtains new where "pt_frames pt' = pt_frames pt @ new" and "distinct (new @ fs)" and "set (new @ fs) \<subseteq> mm_free m"
    and "mm_live l m' = mm_live l m \<union> set (new @ fs)" and "mm_free m' = mm_free m - set (new @ fs)"
  using assms unfolding space_grown_def by blast

text \<open>A page of a live frame outside the page table is kept.\<close>

lemma space_grown_keeps:
  assumes grown: "space_grown l r m pt fs m' pt'" and inv: "mm_frames_inv l r m"
    and p: "p \<in> mm_live l m" "p \<notin> set (pt_frames pt)"
  shows "get_bytes_array m' p = get_bytes_array m p"
proof -
  obtain new where new: "pt_frames pt' = pt_frames pt @ new" "set (new @ fs) \<subseteq> mm_free m"
    using grown by (rule space_grown_new)
  have "mm_frames_inv l r m'" "pt_wf l m' pt'" "mm_live l m \<subseteq> mm_live l m'"
    using grown by (auto simp: space_grown_def)
  then have bound: "unat (ppn_0 q) < 2 ^ 44" if "q \<in> set (pt_frames pt') \<union> set fs" for q
    using that new(2) fa_free_bounds [OF inv] by (auto simp: pt_wf_def)
  have "p \<notin> set (pt_frames pt') \<union> set fs" using p new mm_frames.disjoint [OF inv] by auto
  then have "page_index p \<notin> page_index ` (set (pt_frames pt') \<union> set fs)"
    using bound live_bound [OF inv p(1)] page_index_inj by blast
  then show ?thesis using grown by (simp add: space_grown_def get_bytes_array_def)
qed

lemma space_grown_trans:
  assumes a: "space_grown l r m pt fs m1 pt1" and b: "space_grown l r m1 pt1 gs m2 pt2"
    and inv: "mm_frames_inv l r m" and wf: "pt_wf l m pt"
  shows "space_grown l r m pt (fs @ gs) m2 pt2"
proof -
  obtain n where n: "pt_frames pt1 = pt_frames pt @ n" "distinct (n @ fs)" "set (n @ fs) \<subseteq> mm_free m"
      "mm_live l m1 = mm_live l m \<union> set (n @ fs)" "mm_free m1 = mm_free m - set (n @ fs)"
    using a by (rule space_grown_new)
  obtain k where k: "pt_frames pt2 = pt_frames pt1 @ k" "distinct (k @ gs)" "set (k @ gs) \<subseteq> mm_free m1"
      "mm_live l m2 = mm_live l m1 \<union> set (k @ gs)" "mm_free m2 = mm_free m1 - set (k @ gs)"
    using b by (rule space_grown_new)
  have inv1: "mm_frames_inv l r m1" using a by (simp add: space_grown_def)
  have new: "pt_frames pt2 = pt_frames pt @ (n @ k)" "distinct ((n @ k) @ (fs @ gs))"
      "set ((n @ k) @ (fs @ gs)) \<subseteq> mm_free m" "mm_live l m2 = mm_live l m \<union> set ((n @ k) @ (fs @ gs))"
      "mm_free m2 = mm_free m - set ((n @ k) @ (fs @ gs))"
    using n k by auto
  have "get_bytes_array m2 f = replicate 4096 0" if "f \<in> set fs" for f
  proof -
    have "f \<notin> set (pt_frames pt)"
      using that n(3) wf mm_frames.disjoint [OF inv] by (auto simp: pt_wf_def)
    then have "f \<notin> set (pt_frames pt1)" "f \<in> mm_live l m1" using that n by auto
    then show ?thesis
      using space_grown_keeps [OF b inv1] a that by (simp add: space_grown_def)
  qed
  moreover have "memory m2 q = memory m q" if "q \<notin> page_index ` (set (pt_frames pt2) \<union> set (fs @ gs))" for q
  proof -
    have "q \<notin> page_index ` (set (pt_frames pt2) \<union> set gs)" "q \<notin> page_index ` (set (pt_frames pt1) \<union> set fs)"
      using that k(1) by auto
    then show ?thesis using a b by (simp add: space_grown_def)
  qed
  moreover have "get_bytes_array m2 f = replicate 4096 0" if "f \<in> set gs" for f
    using b that by (simp add: space_grown_def)
  moreover have "mm_frames_inv l r m2" "pt_wf l m2 pt2" "root_ppn pt2 = root_ppn pt"
    using a b by (simp_all add: space_grown_def)
  ultimately show ?thesis using new unfolding space_grown_def by (metis Un_iff set_append)
qed

lemma space_grown_free:
  assumes "space_grown l r m pt fs m' pt'"
  shows "card (mm_free m) = card (mm_free m') + (length (pt_frames pt') - length (pt_frames pt)) + length fs"
proof -
  obtain new where new: "pt_frames pt' = pt_frames pt @ new" "distinct (new @ fs)" "set (new @ fs) \<subseteq> mm_free m"
      "mm_free m' = mm_free m - set (new @ fs)"
    using assms by (rule space_grown_new)
  have "card (mm_free m') = card (mm_free m) - card (set (new @ fs))"
    unfolding new(4) using new(3) by (rule card_Diff_subset [rotated]) simp
  moreover have "card (set (new @ fs)) = length (new @ fs)" using new(2) by (rule distinct_card)
  moreover have "card (set (new @ fs)) \<le> card (mm_free m)" using new(3) by (intro card_mono) simp_all
  ultimately show ?thesis using new(1) by simp
qed

section \<open>Mapping an area\<close>

text \<open>
  \<open>targets_ok area vs ps\<close>: \<open>ps\<close> are frames the area may map its pages \<open>vs\<close> to;
  \<open>area_mapped\<close> is the area, and \<open>area_frames\<close> the data frames, after mapping them.
\<close>

definition targets_ok :: "map_area \<Rightarrow> virt_page_num list \<Rightarrow> phys_page_num list \<Rightarrow> bool" where
  "targets_ok area vs ps \<longleftrightarrow> length ps = length vs \<and>
     (map_type area = Identical \<longrightarrow> ps = map (\<lambda>v. PhysPageNum (vpn_0 v)) vs)"

definition area_frames :: "map_area \<Rightarrow> phys_page_num list \<Rightarrow> phys_page_num list" where
  "area_frames area ps = (if map_type area = Framed then ps else [])"

definition area_mapped :: "map_area \<Rightarrow> virt_page_num list \<Rightarrow> phys_page_num list \<Rightarrow> map_area" where
  "area_mapped area vs ps =
     (if map_type area = Framed then area\<lparr>data_frames := data_frames area @ zip vs ps\<rparr> else area)"

definition area_pte :: "map_area \<Rightarrow> phys_page_num \<Rightarrow> page_table_entry" where
  "area_pte area p = PageTableEntry_new p (map_perm area OR PTE_V)"

lemma bt_insert_last: "\<forall>k' \<in> fst ` set xs. k' < k \<Longrightarrow> bt_insert k v xs = xs @ [(k, v)]"
  by (induction xs) auto

lemma map_of_smaller_None: "\<forall>k' \<in> fst ` set xs. k' < (k :: 'k::linorder) \<Longrightarrow> map_of xs k = None"
  by (auto simp: map_of_eq_None_iff)

lemma space_grown_alloc:
  assumes inv: "mm_frames_inv l r m" and wf: "pt_wf l m pt" and f: "f \<in> mm_free m"
    and m1: "mm_frames_inv l r m1" "mm_live l m1 = insert f (mm_live l m)" "mm_free m1 = mm_free m - {f}"
      "memory m1 = (memory m)(page_index f := replicate 4096 0)"
  shows "space_grown l r m pt [f] m1 pt"
  using assms pt_wf_frame_alloc [OF inv wf f m1(2,4)] by (simp add: space_grown_def get_bytes_array_def)

lemma wp_map_one:
  assumes inv: "mm_frames_inv l r m" and wf: "pt_wf l m pt" and free: "3 \<le> card (mm_free m)"
    and none: "pt_abs m pt vpn = None" and keys: "\<forall>k \<in> fst ` set (data_frames area). k < vpn"
  shows "wp (map_one area pt vpn) (\<lambda>(area', pt') m'. \<exists>p. targets_ok area [vpn] [p] \<and>
    area' = area_mapped area [vpn] [p] \<and> space_grown l r m pt (area_frames area [p]) m' pt' \<and>
    length (pt_frames pt') \<le> length (pt_frames pt) + 2 \<and>
    pt_abs m' pt' = abs_update vpn (Some (area_pte area p)) (pt_abs m pt)) m"
proof (cases "map_type area")
  case Identical
  then have "targets_ok area [vpn] [PhysPageNum (vpn_0 vpn)]" "area_mapped area [vpn] [p] = area"
      "area_frames area [p] = []" for p
    by (simp_all add: targets_ok_def area_mapped_def area_frames_def)
  then show ?thesis
    using Identical inv wf free none
    by (simp add: map_one_def wp_simps space_grown_Nil area_pte_def,
        intro wp_conseq [OF wp_PageTable_map [of l r m pt vpn]]) auto
next
  case Framed
  have "wp (PageTable_map pt vpn f (map_perm area)) (\<lambda>pt' m'. \<exists>p.
      area\<lparr>data_frames := data_frames area @ [(vpn, f)]\<rparr> = area\<lparr>data_frames := data_frames area @ [(vpn, p)]\<rparr> \<and>
      space_grown l r m pt [p] m' pt' \<and> length (pt_frames pt') \<le> Suc (Suc (length (pt_frames pt))) \<and>
      pt_abs m' pt' = abs_update vpn (Some (area_pte area p)) (pt_abs m pt)) m1"
    if f: "f \<in> mm_free m" and m1: "mm_frames_inv l r m1" "mm_live l m1 = insert f (mm_live l m)"
      "mm_free m1 = mm_free m - {f}" "memory m1 = (memory m)(page_index f := replicate 4096 0)" for f m1
  proof -
    note wf1 = pt_wf_frame_alloc [OF inv wf f m1(2,4)]
    have "2 \<le> card (mm_free m1)" using free f m1(3) by simp
    moreover have "pt_abs m1 pt vpn = None" using wf1(2) none by simp
    ultimately show ?thesis
      using wf1 space_grown_trans [OF space_grown_alloc [OF inv wf f m1] _ inv wf, of "[]"]
      by (intro wp_conseq [OF wp_PageTable_map [OF m1(1) wf1(1)]]) (auto simp: area_pte_def space_grown_Nil)
  qed
  moreover have "mm_free m \<noteq> {}" using free by auto
  ultimately show ?thesis
    using Framed bt_insert_last [OF keys] map_of_smaller_None [OF keys]
    by (simp add: map_one_def wp_simps drop_frame_def targets_ok_def area_mapped_def area_frames_def,
        intro wp_conseq [OF wp_frame_alloc [OF inv]]) (simp_all, elim exE conjE, simp add: wp_simps)
qed

abbreviation vpn_ok :: "virt_page_num \<Rightarrow> bool" where
  "vpn_ok v \<equiv> unat (vpn_0 v) < 2 ^ 27"

definition abs_mapped ::
    "map_area \<Rightarrow> virt_page_num list \<Rightarrow> phys_page_num list \<Rightarrow> (virt_page_num \<Rightarrow> page_table_entry option) \<Rightarrow>
     virt_page_num \<Rightarrow> page_table_entry option" where
  "abs_mapped area vs ps f v =
     (case map_of (zip vs ps) v of None \<Rightarrow> f v | Some p \<Rightarrow> Some (area_pte area p))"

lemma abs_mapped_outside:
  assumes "length ps = length vs" and "v \<notin> set vs"
  shows "abs_mapped area vs ps f v = f v"
proof -
  have "map_of (zip vs ps) v = None" using assms by simp
  then show ?thesis by (simp add: abs_mapped_def)
qed

lemma abs_update_ok:
  "vpn_ok v \<Longrightarrow> vpn_ok vpn \<Longrightarrow> abs_update vpn e f v = (if v = vpn then e else f v)"
  by (simp add: abs_update_def indexes_inject)

lemma area_mapped_facts [simp]:
  "map_type (area_mapped area vs ps) = map_type area"
  "map_perm (area_mapped area vs ps) = map_perm area"
  "vpn_range (area_mapped area vs ps) = vpn_range area"
  "area_frames (area_mapped area vs ps) qs = area_frames area qs"
  "area_pte (area_mapped area vs ps) p = area_pte area p"
  "targets_ok (area_mapped area vs ps) ws qs = targets_ok area ws qs"
  by (simp_all add: area_mapped_def area_frames_def area_pte_def targets_ok_def)

lemma area_mapped_Cons:
  "area_mapped (area_mapped area [v] [p]) vs ps = area_mapped area (v # vs) (p # ps)"
  by (simp add: area_mapped_def)

lemma area_frames_simps [simp]:
  "area_frames area [] = []" "area_frames area (ps @ qs) = area_frames area ps @ area_frames area qs"
  by (simp_all add: area_frames_def)

lemma area_frames_Cons: "area_frames area [p] @ area_frames area ps = area_frames area (p # ps)"
  by (simp add: area_frames_def)

lemma length_area_frames: "length (area_frames area ps) \<le> length ps"
  by (simp add: area_frames_def)

definition map_post ::
    "nat \<Rightarrow> nat \<Rightarrow> mm \<Rightarrow> page_table \<Rightarrow> map_area \<Rightarrow> virt_page_num list \<Rightarrow> map_area \<times> page_table \<Rightarrow> mm \<Rightarrow> bool" where
  "map_post l r m pt area vs x m' \<longleftrightarrow> (\<exists>ps. targets_ok area vs ps \<and>
     fst x = area_mapped area vs ps \<and> space_grown l r m pt (area_frames area ps) m' (snd x) \<and>
     length (pt_frames (snd x)) \<le> length (pt_frames pt) + 2 * length vs \<and>
     (\<forall>v. vpn_ok v \<longrightarrow> pt_abs m' (snd x) v = abs_mapped area vs ps (pt_abs m pt) v))"

lemma wp_map_one_post:
  assumes "mm_frames_inv l r m" and "pt_wf l m pt" and "3 \<le> card (mm_free m)"
    and "pt_abs m pt vpn = None" and "\<forall>k \<in> fst ` set (data_frames area). k < vpn" and "vpn_ok vpn"
  shows "wp (map_one area pt vpn) (map_post l r m pt area [vpn]) m"
  by (rule wp_conseq [OF wp_map_one [OF assms(1-5)]])
    (use assms(6) in \<open>auto simp: map_post_def abs_mapped_def abs_update_ok\<close>)

lemma map_post_Cons:
  assumes a: "map_post l r m pt area [v] x m1" and b: "map_post l r m1 (snd x) (fst x) vs y m'"
    and inv: "mm_frames_inv l r m" "pt_wf l m pt" and v: "v \<notin> set vs"
  shows "map_post l r m pt area (v # vs) y m'"
proof -
  from a obtain p where p: "targets_ok area [v] [p]" "fst x = area_mapped area [v] [p]"
      "space_grown l r m pt (area_frames area [p]) m1 (snd x)"
      "length (pt_frames (snd x)) \<le> length (pt_frames pt) + 2"
      "\<forall>u. vpn_ok u \<longrightarrow> pt_abs m1 (snd x) u = abs_mapped area [v] [p] (pt_abs m pt) u"
    by (auto simp: map_post_def targets_ok_def length_Suc_conv)
  from b obtain ps where ps: "targets_ok area vs ps" "fst y = area_mapped area (v # vs) (p # ps)"
      "space_grown l r m1 (snd x) (area_frames area ps) m' (snd y)"
      "length (pt_frames (snd y)) \<le> length (pt_frames (snd x)) + 2 * length vs"
      "\<forall>u. vpn_ok u \<longrightarrow> pt_abs m' (snd y) u = abs_mapped (fst x) vs ps (pt_abs m1 (snd x)) u"
    by (auto simp: map_post_def p(2) area_mapped_Cons)
  have "map_of (zip vs ps) v = None" using ps(1) v by (simp add: targets_ok_def)
  then have "pt_abs m' (snd y) u = abs_mapped area (v # vs) (p # ps) (pt_abs m pt) u" if "vpn_ok u" for u
    using that ps(5) p(5) by (auto simp: abs_mapped_def p(2) split: option.splits if_splits)
  moreover have "space_grown l r m pt (area_frames area (p # ps)) m' (snd y)"
    using space_grown_trans [OF p(3) ps(3) inv] by (simp add: area_frames_Cons)
  moreover have "targets_ok area (v # vs) (p # ps)" using p(1) ps(1) by (simp add: targets_ok_def)
  ultimately show ?thesis using p(4) ps(2,4) by (auto simp: map_post_def intro!: exI [of _ "p # ps"])
qed

lemma map_post_free:
  assumes "map_post l r m pt area [v] x m1"
  shows "card (mm_free m) \<le> card (mm_free m1) + 3"
proof -
  from assms obtain p where "space_grown l r m pt (area_frames area [p]) m1 (snd x)"
      "length (pt_frames (snd x)) \<le> length (pt_frames pt) + 2"
    by (auto simp: map_post_def targets_ok_def length_Suc_conv)
  then show ?thesis using space_grown_free length_area_frames [of area "[p]"] by fastforce
qed

lemma wp_map_loop:
  assumes "mm_frames_inv l r m" and "pt_wf l m pt" and "3 * length vs \<le> card (mm_free m)"
    and "sorted_wrt (<) vs" and "\<forall>v \<in> set vs. vpn_ok v \<and> pt_abs m pt v = None"
    and "\<forall>k \<in> fst ` set (data_frames area). \<forall>v \<in> set vs. k < v"
  shows "wp (map_loop vs area pt) (map_post l r m pt area vs) m"
  using assms
proof (induction vs arbitrary: area pt m)
  case Nil
  have "space_grown l r m pt [] m pt" using Nil.prems(1,2) by (simp add: space_grown_Nil pt_grown_refl)
  then show ?case
    by (auto simp: wp_simps map_post_def targets_ok_def area_mapped_def abs_mapped_def intro!: exI [of _ "[]"])
next
  case (Cons v vs)
  have head: "wp (map_one area pt v) (map_post l r m pt area [v]) m"
    using Cons.prems by (intro wp_map_one_post) auto
  have tail: "wp (map_loop vs (fst x) (snd x)) (map_post l r m pt area (v # vs)) m1"
    if post: "map_post l r m pt area [v] x m1" for x m1
  proof -
    from post obtain p where p: "fst x = area_mapped area [v] [p]" "mm_frames_inv l r m1" "pt_wf l m1 (snd x)"
        "\<forall>u. vpn_ok u \<longrightarrow> pt_abs m1 (snd x) u = abs_mapped area [v] [p] (pt_abs m pt) u"
      by (auto simp: map_post_def targets_ok_def length_Suc_conv space_grown_def)
    have "wp (map_loop vs (fst x) (snd x)) (map_post l r m1 (snd x) (fst x) vs) m1"
    proof (rule Cons.IH [OF p(2,3)])
      show "3 * length vs \<le> card (mm_free m1)" using map_post_free [OF post] Cons.prems(3) by simp
      show "\<forall>u \<in> set vs. vpn_ok u \<and> pt_abs m1 (snd x) u = None"
        using Cons.prems(4,5) p(4) by (auto simp: abs_mapped_def)
      show "\<forall>k \<in> fst ` set (data_frames (fst x)). \<forall>u \<in> set vs. k < u"
        using Cons.prems(4,6) by (auto simp: p(1) area_mapped_def)
    qed (use Cons.prems(4) in simp)
    then show ?thesis
      by (rule wp_conseq) (use Cons.prems map_post_Cons [OF post] in auto)
  qed
  show ?case
    unfolding map_loop.simps wp_simps case_prod_beta using head by (rule wp_conseq) (rule tail)
qed

section \<open>Well-formed address spaces\<close>

definition range_ok :: "vpn_range \<Rightarrow> bool" where
  "range_ok rng \<longleftrightarrow> range_l rng \<le> range_r rng \<and> unat (vpn_0 (range_r rng)) \<le> 2 ^ 27"

lemma range_vpns_unat:
  assumes "range_l rng \<le> range_r rng"
  shows "map (\<lambda>v. unat (vpn_0 v)) (range_vpns rng) = [unat (vpn_0 (range_l rng))..<unat (vpn_0 (range_r rng))]"
  using assms by (simp add: range_vpns_def SimpleRange_into_iter_def SimpleRangeIterator_new_def collect_iterator_unat)

lemma length_range_vpns:
  assumes "range_l rng \<le> range_r rng"
  shows "length (range_vpns rng) = unat (vpn_0 (range_r rng)) - unat (vpn_0 (range_l rng))"
  using arg_cong [OF range_vpns_unat [OF assms], of length] by simp

lemma nth_range_vpns:
  assumes "range_l rng \<le> range_r rng" and "i < length (range_vpns rng)"
  shows "unat (vpn_0 (range_vpns rng ! i)) = unat (vpn_0 (range_l rng)) + i"
  using arg_cong [OF range_vpns_unat [OF assms(1)], of "\<lambda>xs. xs ! i"] assms length_range_vpns [OF assms(1)] by simp

lemma sorted_range_vpns: "range_l rng \<le> range_r rng \<Longrightarrow> sorted_wrt (<) (range_vpns rng)"
  by (auto simp: sorted_wrt_iff_nth_less nth_range_vpns less_virt_page_num_def word_less_nat_alt)

lemma distinct_range_vpns: "range_l rng \<le> range_r rng \<Longrightarrow> distinct (range_vpns rng)"
  using sorted_range_vpns strict_sorted_iff by blast

lemma in_range_vpns_ok: "range_ok rng \<Longrightarrow> v \<in> set (range_vpns rng) \<Longrightarrow> vpn_ok v"
  by (auto simp: range_ok_def in_set_conv_nth nth_range_vpns length_range_vpns)

text \<open>
  In a well-formed address space every page of every area is translated to the area's own
  frame for it (or to the page of the same number), the areas do not overlap, and all the
  frames are different and held.
\<close>

definition area_page :: "map_area \<Rightarrow> virt_page_num \<Rightarrow> phys_page_num option" where
  "area_page area v =
     (case map_type area of
        Framed \<Rightarrow> map_of (data_frames area) v
      | Identical \<Rightarrow> if v \<in> set (range_vpns (vpn_range area)) then Some (PhysPageNum (vpn_0 v)) else None)"

definition area_ok :: "mm \<Rightarrow> page_table \<Rightarrow> map_area \<Rightarrow> bool" where
  "area_ok m pt area \<longleftrightarrow> range_ok (vpn_range area) \<and>
     (if map_type area = Framed then map fst (data_frames area) = range_vpns (vpn_range area)
      else data_frames area = []) \<and>
     (\<forall>v p. area_page area v = Some p \<longrightarrow> pt_abs m pt v = Some (area_pte area p))"

definition area_data :: "map_area \<Rightarrow> phys_page_num list" where
  "area_data area = map snd (data_frames area)"

definition ms_data :: "memory_set \<Rightarrow> phys_page_num list" where
  "ms_data ms = concat (map area_data (areas ms))"

definition ms_frames :: "memory_set \<Rightarrow> phys_page_num list" where
  "ms_frames ms = pt_frames (ms_page_table ms) @ ms_data ms"

definition ms_vpns :: "memory_set \<Rightarrow> virt_page_num list" where
  "ms_vpns ms = concat (map (\<lambda>a. range_vpns (vpn_range a)) (areas ms))"

definition ms_wf :: "nat \<Rightarrow> mm \<Rightarrow> memory_set \<Rightarrow> bool" where
  "ms_wf l m ms \<longleftrightarrow> pt_wf l m (ms_page_table ms) \<and>
     (\<forall>a \<in> set (areas ms). area_ok m (ms_page_table ms) a) \<and>
     distinct (ms_frames ms) \<and> set (ms_data ms) \<subseteq> mm_live l m \<and> distinct (ms_vpns ms)"

lemma area_ok_mapped:
  assumes "area_ok m pt a" and "v \<in> set (range_vpns (vpn_range a))"
  obtains p where "area_page a v = Some p" and "pt_abs m pt v = Some (area_pte a p)"
proof (cases "map_type a")
  case Identical
  with assms that show ?thesis by (auto simp: area_ok_def area_page_def)
next
  case Framed
  with assms have "v \<in> fst ` set (data_frames a)" by (metis area_ok_def list.set_map)
  then obtain p where "map_of (data_frames a) v = Some p" by (metis map_of_eq_None_iff not_None_eq)
  with assms Framed that show ?thesis by (auto simp: area_ok_def area_page_def)
qed

lemma area_page_in_range:
  assumes "area_ok m pt a" and "area_page a v = Some p"
  shows "v \<in> set (range_vpns (vpn_range a))" and "vpn_ok v"
proof -
  show v: "v \<in> set (range_vpns (vpn_range a))"
  proof (cases "map_type a")
    case Identical
    with assms show ?thesis by (auto simp: area_page_def split: if_splits)
  next
    case Framed
    with assms have "v \<in> fst ` set (data_frames a)" by (force simp: area_page_def dest: map_of_SomeD)
    with Framed assms(1) show ?thesis by (metis area_ok_def list.set_map)
  qed
  then show "vpn_ok v" using in_range_vpns_ok assms(1) by (auto simp: area_ok_def)
qed

lemma area_ok_same:
  assumes "area_ok m pt a" and "\<And>v. v \<in> set (range_vpns (vpn_range a)) \<Longrightarrow> pt_abs m' pt' v = pt_abs m pt v"
  shows "area_ok m' pt' a"
  using assms area_page_in_range(1) [OF assms(1)] by (auto simp: area_ok_def)

text \<open>An area that was just mapped.\<close>

lemma area_page_mapped:
  assumes "data_frames area = []" and "targets_ok area (range_vpns (vpn_range area)) ps"
  shows "area_page (area_mapped area (range_vpns (vpn_range area)) ps) v =
    map_of (zip (range_vpns (vpn_range area)) ps) v"
proof (cases "map_type area")
  case Identical
  with assms(2) have "map_of (zip (range_vpns (vpn_range area)) ps) v =
      (if v \<in> set (range_vpns (vpn_range area)) then Some (PhysPageNum (vpn_0 v)) else None)"
    by (simp add: targets_ok_def map_of_zip_map)
  with Identical show ?thesis by (simp add: area_page_def area_mapped_def)
next
  case Framed
  with assms(1) show ?thesis by (simp add: area_page_def area_mapped_def)
qed

lemma area_ok_area_mapped:
  assumes "range_ok (vpn_range area)" and "data_frames area = []"
    and ps: "targets_ok area (range_vpns (vpn_range area)) ps"
    and abs: "\<forall>v. vpn_ok v \<longrightarrow> pt_abs m pt v = abs_mapped area (range_vpns (vpn_range area)) ps f v"
  shows "area_ok m pt (area_mapped area (range_vpns (vpn_range area)) ps)"
proof -
  let ?vs = "range_vpns (vpn_range area)"
  have "pt_abs m pt v = Some (area_pte area p)" if "map_of (zip ?vs ps) v = Some p" for v p
  proof -
    have "v \<in> set ?vs" using that by (metis in_set_zipE map_of_SomeD)
    then have "vpn_ok v" using assms(1) in_range_vpns_ok by blast
    with abs that show ?thesis by (simp add: abs_mapped_def)
  qed
  then show ?thesis
    using assms(1,2) ps area_page_mapped [OF assms(2) ps]
    by (simp add: area_ok_def) (simp add: area_mapped_def targets_ok_def)
qed

section \<open>Pushing an area\<close>

definition area_fresh :: "mm \<Rightarrow> memory_set \<Rightarrow> map_area \<Rightarrow> bool" where
  "area_fresh m ms area \<longleftrightarrow> range_ok (vpn_range area) \<and> data_frames area = [] \<and>
     (\<forall>v \<in> set (range_vpns (vpn_range area)). pt_abs m (ms_page_table ms) v = None)"

definition push_post ::
    "nat \<Rightarrow> nat \<Rightarrow> mm \<Rightarrow> memory_set \<Rightarrow> map_area \<Rightarrow> phys_page_num list \<Rightarrow> memory_set \<Rightarrow> mm \<Rightarrow> bool" where
  "push_post l r m ms area ps ms' m' \<longleftrightarrow>
     targets_ok area (range_vpns (vpn_range area)) ps \<and>
     areas ms' = areas ms @ [area_mapped area (range_vpns (vpn_range area)) ps] \<and>
     space_grown l r m (ms_page_table ms) (area_frames area ps) m' (ms_page_table ms') \<and>
     length (pt_frames (ms_page_table ms')) \<le>
       length (pt_frames (ms_page_table ms)) + 2 * length (range_vpns (vpn_range area)) \<and>
     (\<forall>v. vpn_ok v \<longrightarrow> pt_abs m' (ms_page_table ms') v =
        abs_mapped area (range_vpns (vpn_range area)) ps (pt_abs m (ms_page_table ms)) v)"

lemma area_data_mapped:
  assumes "data_frames area = []" and "targets_ok area (range_vpns (vpn_range area)) ps"
  shows "area_data (area_mapped area (range_vpns (vpn_range area)) ps) = area_frames area ps"
  using assms by (auto simp: area_data_def area_mapped_def area_frames_def targets_ok_def)

lemma push_post_frames:
  assumes post: "push_post l r m ms area ps ms' m'" and fresh: "area_fresh m ms area"
    and inv: "mm_frames_inv l r m" and wf: "ms_wf l m ms"
  shows "distinct (ms_frames ms')" and "set (ms_data ms') \<subseteq> mm_live l m'"
    and "ms_data ms' = ms_data ms @ area_frames area ps"
proof -
  show data: "ms_data ms' = ms_data ms @ area_frames area ps"
    using post fresh by (simp add: push_post_def area_fresh_def ms_data_def area_data_mapped)
  obtain new where new: "pt_frames (ms_page_table ms') = pt_frames (ms_page_table ms) @ new"
      "distinct (new @ area_frames area ps)" "set (new @ area_frames area ps) \<subseteq> mm_free m"
      "mm_live l m' = mm_live l m \<union> set (new @ area_frames area ps)"
    using post unfolding push_post_def by (auto elim: space_grown_new)
  have old: "distinct (pt_frames (ms_page_table ms) @ ms_data ms)"
      "set (pt_frames (ms_page_table ms) @ ms_data ms) \<subseteq> mm_live l m"
    using wf by (auto simp: ms_wf_def ms_frames_def pt_wf_def)
  have "mm_live l m \<inter> mm_free m = {}" using mm_frames.disjoint [OF inv] .
  with old new(2,3) show "distinct (ms_frames ms')"
    unfolding ms_frames_def data new(1) by auto
  show "set (ms_data ms') \<subseteq> mm_live l m'" using data new(4) old(2) by auto
qed

lemma push_post_old_pages:
  assumes post: "push_post l r m ms area ps ms' m'" and fresh: "area_fresh m ms area"
    and v: "vpn_ok v" "pt_abs m (ms_page_table ms) v \<noteq> None"
  shows "pt_abs m' (ms_page_table ms') v = pt_abs m (ms_page_table ms) v"
proof -
  have "v \<notin> set (range_vpns (vpn_range area))" using v fresh by (auto simp: area_fresh_def)
  then have "map_of (zip (range_vpns (vpn_range area)) ps) v = None"
    using post by (simp add: push_post_def targets_ok_def)
  then show ?thesis using post v(1) by (simp add: push_post_def abs_mapped_def)
qed

lemma ms_wf_page_mapped:
  assumes "ms_wf l m ms" and "v \<in> set (ms_vpns ms)"
  shows "pt_abs m (ms_page_table ms) v \<noteq> None" and "vpn_ok v"
proof -
  from assms obtain a where a: "a \<in> set (areas ms)" "v \<in> set (range_vpns (vpn_range a))"
      "area_ok m (ms_page_table ms) a"
    by (auto simp: ms_vpns_def ms_wf_def)
  from a(3,2) show "pt_abs m (ms_page_table ms) v \<noteq> None" by (rule area_ok_mapped) simp
  show "vpn_ok v" using a(2,3) in_range_vpns_ok by (auto simp: area_ok_def)
qed

lemma push_post_wf:
  assumes post: "push_post l r m ms area ps ms' m'" and fresh: "area_fresh m ms area"
    and inv: "mm_frames_inv l r m" and wf: "ms_wf l m ms"
  shows "ms_wf l m' ms'"
proof -
  let ?new = "area_mapped area (range_vpns (vpn_range area)) ps"
  have "area_ok m' (ms_page_table ms') a" if "a \<in> set (areas ms)" for a
  proof (rule area_ok_same)
    show "area_ok m (ms_page_table ms) a" using wf that by (simp add: ms_wf_def)
    fix v
    assume "v \<in> set (range_vpns (vpn_range a))"
    then have "v \<in> set (ms_vpns ms)" using that by (auto simp: ms_vpns_def)
    from ms_wf_page_mapped [OF wf this] show "pt_abs m' (ms_page_table ms') v = pt_abs m (ms_page_table ms) v"
      using push_post_old_pages [OF post fresh] by blast
  qed
  moreover have "area_ok m' (ms_page_table ms') ?new"
    using post fresh by (intro area_ok_area_mapped) (auto simp: push_post_def area_fresh_def)
  moreover have "set (range_vpns (vpn_range area)) \<inter> set (ms_vpns ms) = {}"
    using ms_wf_page_mapped(1) [OF wf] fresh unfolding area_fresh_def by blast
  then have "distinct (ms_vpns ms')"
    using post fresh wf distinct_range_vpns [of "vpn_range area"]
    by (auto simp: ms_vpns_def push_post_def ms_wf_def area_fresh_def range_ok_def)
  moreover have "pt_wf l m' (ms_page_table ms')" using post by (simp add: push_post_def space_grown_def)
  ultimately show ?thesis
    using push_post_frames [OF post fresh inv wf] post by (auto simp: ms_wf_def push_post_def)
qed

lemma wp_MemorySet_push:
  assumes inv: "mm_frames_inv l r m" and wf: "ms_wf l m ms" and fresh: "area_fresh m ms area"
    and "3 * length (range_vpns (vpn_range area)) \<le> card (mm_free m)"
  shows "wp (MemorySet_push ms area None) (\<lambda>ms' m'. \<exists>ps. push_post l r m ms area ps ms' m' \<and>
    mm_frames_inv l r m' \<and> ms_wf l m' ms') m"
proof -
  have "wp (map_loop (range_vpns (vpn_range area)) area (ms_page_table ms))
      (map_post l r m (ms_page_table ms) area (range_vpns (vpn_range area))) m"
    using assms in_range_vpns_ok sorted_range_vpns
    by (intro wp_map_loop) (auto simp: ms_wf_def area_fresh_def range_ok_def)
  then show ?thesis
    unfolding MemorySet_push_def MapArea_map_def wp_simps case_prod_beta
  proof (rule wp_conseq)
    fix x m'
    let ?ms = "ms\<lparr>ms_page_table := snd x, areas := areas ms @ [fst x]\<rparr>"
    assume "map_post l r m (ms_page_table ms) area (range_vpns (vpn_range area)) x m'"
    then obtain ps where post: "push_post l r m ms area ps ?ms m'"
      by (auto simp: map_post_def push_post_def)
    moreover have "mm_frames_inv l r m'" using post by (simp add: push_post_def space_grown_def)
    ultimately show "wp (case None of None \<Rightarrow> ret () | Some data \<Rightarrow> copy_data (fst x) (snd x) data)
        (\<lambda>_ m'. \<exists>ps. push_post l r m ms area ps ?ms m' \<and> mm_frames_inv l r m' \<and> ms_wf l m' ?ms) m'"
      using push_post_wf [OF post fresh inv wf] by (auto simp: wp_simps)
  qed
qed

section \<open>Writing to data frames\<close>

text \<open>
  \<open>only_pages fs m m'\<close>: the state differs at most in the contents of the pages \<open>fs\<close>.
\<close>

definition only_pages :: "phys_page_num set \<Rightarrow> mm \<Rightarrow> mm \<Rightarrow> bool" where
  "only_pages fs m m' \<longleftrightarrow> frame_allocator m' = frame_allocator m \<and> (memory_ok m \<longrightarrow> memory_ok m') \<and>
     (\<forall>q. q \<notin> page_index ` fs \<longrightarrow> memory m' q = memory m q)"

lemma only_pages_refl [simp]: "only_pages fs m m"
  by (simp add: only_pages_def)

lemma only_pages_trans: "only_pages fs m m1 \<Longrightarrow> only_pages fs m1 m2 \<Longrightarrow> only_pages fs m m2"
  by (auto simp: only_pages_def)

lemma only_pages_mono: "only_pages fs m m' \<Longrightarrow> fs \<subseteq> gs \<Longrightarrow> only_pages gs m m'"
  by (auto simp: only_pages_def)

lemma only_pages_set_bytes:
  "p \<in> fs \<Longrightarrow> length bs = 4096 \<Longrightarrow> only_pages fs m (set_bytes_array p bs m)"
  by (auto simp: only_pages_def set_bytes_array_def memory_ok_def)

lemma only_pages_other:
  assumes "only_pages fs m m'" and "p \<notin> fs" and "unat (ppn_0 p) < 2 ^ 44" and "\<forall>f \<in> fs. unat (ppn_0 f) < 2 ^ 44"
  shows "get_bytes_array m' p = get_bytes_array m p"
proof -
  have "page_index p \<notin> page_index ` fs" using assms page_index_inj by blast
  then show ?thesis using assms(1) by (simp add: only_pages_def get_bytes_array_def)
qed

lemma pt_wf_only_pages:
  assumes wf: "pt_wf l m pt" and only: "only_pages fs m m'" and "fs \<inter> set (pt_frames pt) = {}"
    and "\<forall>f \<in> fs. unat (ppn_0 f) < 2 ^ 44"
  shows "pt_wf l m' pt" and "pt_abs m' pt = pt_abs m pt"
proof -
  have "get_bytes_array m' p = get_bytes_array m p" if "p \<in> set (pt_frames pt)" for p
  proof (rule only_pages_other [OF only _ _ assms(4)])
    show "p \<notin> fs" using that assms(3) by blast
    show "unat (ppn_0 p) < 2 ^ 44" using that wf by (auto simp: pt_wf_def)
  qed
  moreover have "memory_ok m'" "set (pt_frames pt) \<subseteq> mm_live l m'"
    using wf only by (auto simp: pt_wf_def only_pages_def)
  ultimately show "pt_wf l m' pt" "pt_abs m' pt = pt_abs m pt" using pt_wf_same_frames [OF wf] by blast+
qed

lemma ms_wf_only_pages:
  assumes wf: "ms_wf l m ms" and only: "only_pages fs m m'" and sep: "fs \<inter> set (pt_frames (ms_page_table ms)) = {}"
    and bound: "\<forall>f \<in> fs. unat (ppn_0 f) < 2 ^ 44"
  shows "ms_wf l m' ms"
proof -
  have "pt_wf l m (ms_page_table ms)" using wf by (simp add: ms_wf_def)
  note pt = pt_wf_only_pages [OF this only sep bound]
  show ?thesis
    using wf pt(1) only area_ok_same [of m _ _ m' "ms_page_table ms"]
    by (auto simp: ms_wf_def only_pages_def pt(2))
qed

lemma pt_abs_translate: "pt_abs m pt v = Some e \<Longrightarrow> PageTable_translate m pt v = Some e"
  by (auto simp: pt_abs_def split: option.splits if_splits)

lemma user_byte_pt_abs:
  assumes "pt_abs m pt (VirtPageNum (word_of_nat (a div 4096))) = Some (area_pte area p)" and "unat (ppn_0 p) < 2 ^ 44"
  shows "user_byte m pt a = Some (get_bytes_array m p ! (a mod 4096))"
  using pt_abs_translate [OF assms(1)] by (simp add: user_byte_def area_pte_def pte_ppn_new [OF assms(2)])

subsection \<open>Loading data\<close>

definition padded_page :: "byte list \<Rightarrow> nat \<Rightarrow> byte list" where
  "padded_page data start = take 4096 (drop start data @ replicate 4096 0)"

lemma length_padded_page [simp]: "length (padded_page data start) = 4096"
  by (simp add: padded_page_def)

lemma nth_padded_page: "k < 4096 \<Longrightarrow> padded_page data start ! k = (drop start data @ replicate 4096 0) ! k"
  by (simp only: padded_page_def nth_take)

lemma padded_page_splice:
  assumes "start \<le> length data"
  shows "splice_at 0 (segment start (min (length data) (start + 4096) - start) data) (replicate 4096 0) =
    padded_page data start"
proof -
  have "segment start (min (length data) (start + 4096) - start) data = take 4096 (drop start data)"
    using assms by (auto simp: segment_def min_def)
  then show ?thesis by (simp add: splice_at_def padded_page_def min_def)
qed

lemma padded_page_beyond: "length data \<le> start \<Longrightarrow> padded_page data start = replicate 4096 0"
  by (simp add: padded_page_def)

lemma wp_copy_data_loop:
  assumes "\<And>i. i < length ps \<Longrightarrow> pt_abs m pt (VirtPageNum (vpn_0 vpn + word_of_nat i)) = Some (area_pte area (ps ! i))"
    and "distinct ps" and "\<forall>p \<in> set ps. unat (ppn_0 p) < 2 ^ 44" and "pt_wf l m pt"
    and "set ps \<inter> set (pt_frames pt) = {}" and "length data - start \<le> 4096 * length ps" and "ps \<noteq> []"
    and "start \<le> length data" and "\<forall>p \<in> set ps. get_bytes_array m p = replicate 4096 0"
  shows "wp (copy_data_loop pt data start vpn) (\<lambda>_ m'. only_pages (set ps) m m' \<and>
    (\<forall>i < length ps. get_bytes_array m' (ps ! i) = padded_page data (start + 4096 * i))) m"
  using assms
proof (induction pt data start vpn arbitrary: ps m rule: copy_data_loop.induct)
  case (1 pt data start vpn)
  from "1.prems"(7) obtain p qs where ps: "ps = p # qs" by (cases ps) auto
  let ?m1 = "set_bytes_array p (padded_page data start) m"
  have tr: "PageTable_translate m pt vpn = Some (area_pte area p)" "pte_ppn (area_pte area p) = p"
    using "1.prems"(1) [of 0] "1.prems"(3) ps by (auto simp: area_pte_def pte_ppn_new intro: pt_abs_translate)
  have step: "only_pages {p} m ?m1" by (rule only_pages_set_bytes) simp_all
  have at: "get_bytes_array ?m1 p = padded_page data start"
    by (simp add: get_bytes_array_def set_bytes_array_def)
  have others: "get_bytes_array ?m1 q = replicate 4096 0" if "q \<in> set qs" for q
    using only_pages_other [OF step, of q] that "1.prems"(2,3,9) ps by (cases "q = p") auto
  have page: "splice_at 0 (segment start (min (length data) (start + 4096) - start) data)
      (get_bytes_array m p) = padded_page data start"
    using "1.prems"(8,9) ps padded_page_splice by simp
  let ?Q = "\<lambda>_ m'. only_pages (set ps) m m' \<and>
    (\<forall>i < length ps. get_bytes_array m' (ps ! i) = padded_page data (start + 4096 * i))"
  show ?case
  proof (cases "length data \<le> start + 4096")
    case True
    then have "get_bytes_array ?m1 (ps ! i) = padded_page data (start + 4096 * i)" if "i < length ps" for i
      using that ps at others by (cases i) (simp_all add: padded_page_beyond)
    moreover have "only_pages (set ps) m ?m1" using step ps by (auto elim: only_pages_mono)
    ultimately show ?thesis
      using True tr page by (subst copy_data_loop.simps) (simp add: wp_simps Let_def)
  next
    case False
    have pt1: "pt_wf l ?m1 pt" "pt_abs ?m1 pt = pt_abs m pt"
      using pt_wf_only_pages [OF "1.prems"(4) step] "1.prems"(3,5) ps by auto
    have "wp (copy_data_loop pt data (start + 4096) (VirtPageNum_step vpn)) (\<lambda>_ m'. only_pages (set qs) ?m1 m' \<and>
        (\<forall>i < length qs. get_bytes_array m' (qs ! i) = padded_page data (start + 4096 + 4096 * i))) ?m1"
    proof (rule "1.IH" [OF refl])
      fix i
      assume "i < length qs"
      then show "pt_abs ?m1 pt (VirtPageNum (vpn_0 (VirtPageNum_step vpn) + word_of_nat i)) = Some (area_pte area (qs ! i))"
        using "1.prems"(1) [of "Suc i"] ps pt1(2) by (simp add: VirtPageNum_step_def add.assoc)
    qed (use "1.prems" False ps pt1 others in auto)
    then have "wp (copy_data_loop pt data (start + 4096) (VirtPageNum_step vpn)) ?Q ?m1"
    proof (rule wp_conseq)
      fix u m'
      assume m': "only_pages (set qs) ?m1 m' \<and>
        (\<forall>i < length qs. get_bytes_array m' (qs ! i) = padded_page data (start + 4096 + 4096 * i))"
      then have "get_bytes_array m' p = padded_page data start"
        using only_pages_other [of "set qs" ?m1 m' p] "1.prems"(2,3) ps at by simp
      with m' have "get_bytes_array m' (ps ! i) = padded_page data (start + 4096 * i)" if "i < length ps" for i
        using that ps by (cases i) (simp_all add: add.assoc)
      moreover have "only_pages (set ps) m m'"
        using only_pages_mono [OF step, of "set ps"] only_pages_mono [of "set qs" ?m1 m' "set ps"] m' ps
        by (auto intro: only_pages_trans)
      ultimately show "?Q u m'" by blast
    qed
    then show ?thesis
      using False tr page by (subst copy_data_loop.simps) (simp add: wp_simps Let_def)
  qed
qed

lemma push_post_framed:
  assumes post: "push_post l r m ms area ps ms' m1" and fresh: "area_fresh m ms area"
    and inv: "mm_frames_inv l r m" and wf: "ms_wf l m ms" and framed: "map_type area = Framed"
  shows "distinct ps" and "\<forall>p \<in> set ps. unat (ppn_0 p) < 2 ^ 44" and "set ps \<inter> set (pt_frames (ms_page_table ms')) = {}"
    and "\<forall>p \<in> set ps. get_bytes_array m1 p = replicate 4096 0" and "length ps = length (range_vpns (vpn_range area))"
    and "\<And>i. i < length ps \<Longrightarrow> pt_abs m1 (ms_page_table ms')
      (VirtPageNum (vpn_0 (get_start (vpn_range area)) + word_of_nat i)) = Some (area_pte area (ps ! i))"
proof -
  let ?vs = "range_vpns (vpn_range area)"
  have fr: "area_frames area ps = ps" using framed by (simp add: area_frames_def)
  note frames = push_post_frames [OF post fresh inv wf]
  show "distinct ps" "set ps \<inter> set (pt_frames (ms_page_table ms')) = {}"
    using frames(1) by (auto simp: ms_frames_def frames(3) fr)
  have inv1: "mm_frames_inv l r m1" using post by (simp add: push_post_def space_grown_def)
  show "\<forall>p \<in> set ps. unat (ppn_0 p) < 2 ^ 44"
    using frames(2) live_bound [OF inv1] by (auto simp: frames(3) fr)
  show "\<forall>p \<in> set ps. get_bytes_array m1 p = replicate 4096 0"
    using post by (simp add: push_post_def space_grown_def fr)
  show len: "length ps = length ?vs" using post by (simp add: push_post_def targets_ok_def)
  fix i
  assume i: "i < length ps"
  have rng: "range_l (vpn_range area) \<le> range_r (vpn_range area)" "range_ok (vpn_range area)"
    using fresh by (simp_all add: area_fresh_def range_ok_def)
  have nth: "VirtPageNum (vpn_0 (get_start (vpn_range area)) + word_of_nat i) = ?vs ! i"
  proof (rule virt_page_num.expand)
    have "unat (vpn_0 (?vs ! i)) = unat (vpn_0 (range_l (vpn_range area))) + i"
      using nth_range_vpns [OF rng(1)] i len by simp
    from arg_cong [OF this, of "word_of_nat :: nat \<Rightarrow> usize"] show "vpn_0 (VirtPageNum (vpn_0 (get_start (vpn_range area)) + word_of_nat i)) = vpn_0 (?vs ! i)"
      by (simp add: get_start_def)
  qed
  have "?vs ! i \<in> set ?vs" using i len by simp
  then have "vpn_ok (?vs ! i)" using in_range_vpns_ok rng(2) by blast
  moreover have "map_of (zip ?vs ps) (?vs ! i) = Some (ps ! i)"
    using distinct_range_vpns [OF rng(1)] i len by (simp add: map_of_zip_nth)
  ultimately show "pt_abs m1 (ms_page_table ms') (VirtPageNum (vpn_0 (get_start (vpn_range area)) + word_of_nat i)) =
      Some (area_pte area (ps ! i))"
    using post by (simp add: nth push_post_def abs_mapped_def)
qed

lemma wp_copy_data_pushed:
  assumes post: "push_post l r m ms area ps ms' m1" and fresh: "area_fresh m ms area"
    and inv: "mm_frames_inv l r m" and wf: "ms_wf l m ms" and framed: "map_type area = Framed"
    and len: "length data \<le> 4096 * length (range_vpns (vpn_range area))" "range_vpns (vpn_range area) \<noteq> []"
  shows "wp (copy_data (area_mapped area vs ps) (ms_page_table ms') data) (\<lambda>_ m'. only_pages (set ps) m1 m' \<and>
    mm_frames_inv l r m' \<and> ms_wf l m' ms' \<and>
    (\<forall>i < length ps. get_bytes_array m' (ps ! i) = padded_page data (4096 * i))) m1"
proof -
  note f = push_post_framed [OF post fresh inv wf framed]
  have wf1: "ms_wf l m1 ms'" using push_post_wf [OF post fresh inv wf] .
  have "wp (copy_data_loop (ms_page_table ms') data 0 (get_start (vpn_range area))) (\<lambda>_ m'. only_pages (set ps) m1 m' \<and>
      (\<forall>i < length ps. get_bytes_array m' (ps ! i) = padded_page data (0 + 4096 * i))) m1"
    using f wf1 len by (intro wp_copy_data_loop [where area = area and l = l]) (auto simp: ms_wf_def)
  moreover have "ms_wf l m' ms'" if "only_pages (set ps) m1 m'" for m'
    using ms_wf_only_pages [OF wf1 that f(3,2)] .
  moreover have "mm_frames_inv l r m'" if "only_pages (set ps) m1 m'" for m'
    using that post by (simp add: only_pages_def push_post_def space_grown_def mm_frames_inv_def)
  ultimately show ?thesis
    using framed by (simp add: copy_data_def wp_simps) (erule wp_conseq, simp)
qed

lemma wp_MemorySet_push_data:
  assumes inv: "mm_frames_inv l r m" and wf: "ms_wf l m ms" and fresh: "area_fresh m ms area"
    and "3 * length (range_vpns (vpn_range area)) \<le> card (mm_free m)" and framed: "map_type area = Framed"
    and len: "length data \<le> 4096 * length (range_vpns (vpn_range area))" "range_vpns (vpn_range area) \<noteq> []"
  shows "wp (MemorySet_push ms area (Some data)) (\<lambda>ms' m'. \<exists>ps m1. push_post l r m ms area ps ms' m1 \<and>
    only_pages (set ps) m1 m' \<and> mm_frames_inv l r m' \<and> ms_wf l m' ms' \<and>
    (\<forall>i < length ps. get_bytes_array m' (ps ! i) = padded_page data (4096 * i))) m"
proof -
  have "wp (map_loop (range_vpns (vpn_range area)) area (ms_page_table ms))
      (map_post l r m (ms_page_table ms) area (range_vpns (vpn_range area))) m"
    using assms in_range_vpns_ok sorted_range_vpns
    by (intro wp_map_loop) (auto simp: ms_wf_def area_fresh_def range_ok_def)
  then show ?thesis
    unfolding MemorySet_push_def MapArea_map_def wp_simps case_prod_beta option.case
  proof (rule wp_conseq)
    fix x m1
    let ?ms = "ms\<lparr>ms_page_table := snd x, areas := areas ms @ [fst x]\<rparr>"
    assume "map_post l r m (ms_page_table ms) area (range_vpns (vpn_range area)) x m1"
    then obtain ps where post: "push_post l r m ms area ps ?ms m1"
      and x: "fst x = area_mapped area (range_vpns (vpn_range area)) ps"
      by (auto simp: map_post_def push_post_def)
    have "wp (copy_data (fst x) (snd x) data) (\<lambda>_ m'. only_pages (set ps) m1 m' \<and>
        mm_frames_inv l r m' \<and> ms_wf l m' ?ms \<and>
        (\<forall>i < length ps. get_bytes_array m' (ps ! i) = padded_page data (4096 * i))) m1"
      using wp_copy_data_pushed [OF post fresh inv wf framed len, of "range_vpns (vpn_range area)"] x by simp
    then show "wp (copy_data (fst x) (snd x) data)
        (\<lambda>_ m'. \<exists>ps m1. push_post l r m ms area ps ?ms m1 \<and> only_pages (set ps) m1 m' \<and>
          mm_frames_inv l r m' \<and> ms_wf l m' ?ms \<and>
          (\<forall>i < length ps. get_bytes_array m' (ps ! i) = padded_page data (4096 * i))) m1"
      by (rule wp_conseq) (use post in blast)
  qed
qed

section \<open>A new address space\<close>

text \<open>
  \<open>space_created l r m ms m'\<close>: since \<open>m\<close> the address space \<open>ms\<close> has been made, entirely of
  frames that were free, and no other page has changed.
\<close>

definition space_created :: "nat \<Rightarrow> nat \<Rightarrow> mm \<Rightarrow> memory_set \<Rightarrow> mm \<Rightarrow> bool" where
  "space_created l r m ms m' \<longleftrightarrow> mm_frames_inv l r m' \<and> ms_wf l m' ms \<and> set (ms_frames ms) \<subseteq> mm_free m \<and>
     mm_live l m' = mm_live l m \<union> set (ms_frames ms) \<and> mm_free m' = mm_free m - set (ms_frames ms) \<and>
     (\<forall>q. q \<notin> page_index ` set (ms_frames ms) \<longrightarrow> memory m' q = memory m q)"

lemma space_created_keeps:
  assumes "mm_frames_inv l r m" and "space_created l r m ms m'" and "p \<in> mm_live l m"
  shows "get_bytes_array m' p = get_bytes_array m p"
proof -
  have "p \<notin> set (ms_frames ms)" "\<forall>f \<in> set (ms_frames ms). unat (ppn_0 f) < 2 ^ 44"
    using assms mm_frames.disjoint [OF assms(1)] fa_free_bounds [OF assms(1)] by (auto simp: space_created_def)
  then have "page_index p \<notin> page_index ` set (ms_frames ms)"
    using page_index_inj live_bound [OF assms(1,3)] by blast
  then show ?thesis using assms(2) by (simp add: space_created_def get_bytes_array_def)
qed

lemma ms_frames_live: "ms_wf l m ms \<Longrightarrow> set (ms_frames ms) \<subseteq> mm_live l m"
  by (auto simp: ms_wf_def ms_frames_def pt_wf_def)

lemma space_created_other:
  assumes inv: "mm_frames_inv l r m" and new: "space_created l r m ms m'" and wf: "ms_wf l m us"
  shows "ms_wf l m' us" and "pt_abs m' (ms_page_table us) = pt_abs m (ms_page_table us)"
proof -
  have "set (ms_frames us) \<subseteq> mm_live l m" using ms_frames_live [OF wf] .
  then have frames: "get_bytes_array m' p = get_bytes_array m p" if "p \<in> set (ms_frames us)" for p
    using space_created_keeps [OF inv new] that by blast
  have pt: "pt_wf l m (ms_page_table us)" using wf by (simp add: ms_wf_def)
  have ok: "memory_ok m'" using new by (simp add: space_created_def ms_wf_def pt_wf_def)
  have live: "mm_live l m \<subseteq> mm_live l m'" using new by (auto simp: space_created_def)
  have "get_bytes_array m' p = get_bytes_array m p" if "p \<in> set (pt_frames (ms_page_table us))" for p
    using frames that by (simp add: ms_frames_def)
  moreover have "set (pt_frames (ms_page_table us)) \<subseteq> mm_live l m'" using pt live by (auto simp: pt_wf_def)
  ultimately have pt': "pt_wf l m' (ms_page_table us)" "pt_abs m' (ms_page_table us) = pt_abs m (ms_page_table us)"
    using pt_wf_same_frames [OF pt _ ok] by blast+
  then show "pt_abs m' (ms_page_table us) = pt_abs m (ms_page_table us)" by simp
  show "ms_wf l m' us"
    using wf pt' live area_ok_same [of m _ _ m' "ms_page_table us"] by (auto simp: ms_wf_def)
qed

lemma space_created_push:
  assumes new: "space_created l r m ms m1" and post: "push_post l r m1 ms area ps ms' m2"
    and fresh: "area_fresh m1 ms area"
  shows "space_created l r m ms' m2"
proof -
  have inv: "mm_frames_inv l r m1" and wf: "ms_wf l m1 ms" using new by (simp_all add: space_created_def)
  note frames = push_post_frames [OF post fresh inv wf]
  obtain k where k: "pt_frames (ms_page_table ms') = pt_frames (ms_page_table ms) @ k"
      "set (k @ area_frames area ps) \<subseteq> mm_free m1"
      "mm_live l m2 = mm_live l m1 \<union> set (k @ area_frames area ps)"
      "mm_free m2 = mm_free m1 - set (k @ area_frames area ps)"
    using post unfolding push_post_def by (auto elim: space_grown_new)
  have set: "set (ms_frames ms') = set (ms_frames ms) \<union> set (k @ area_frames area ps)"
    by (auto simp: ms_frames_def frames(3) k(1))
  have "memory m2 q = memory m q" if "q \<notin> page_index ` set (ms_frames ms')" for q
  proof -
    have "q \<notin> page_index ` (set (pt_frames (ms_page_table ms')) \<union> set (area_frames area ps))"
        "q \<notin> page_index ` set (ms_frames ms)"
      using that set frames(3) by (auto simp: ms_frames_def)
    then show ?thesis using new post by (simp add: space_created_def push_post_def space_grown_def)
  qed
  moreover have "mm_frames_inv l r m2" using post by (simp add: push_post_def space_grown_def)
  moreover have "set (ms_frames ms') \<subseteq> mm_free m" "mm_live l m2 = mm_live l m \<union> set (ms_frames ms')"
      "mm_free m2 = mm_free m - set (ms_frames ms')"
    using new k(2-4) unfolding set by (auto simp: space_created_def)
  ultimately show ?thesis
    using push_post_wf [OF post fresh inv wf] unfolding space_created_def by blast
qed

lemma space_created_only_pages:
  assumes new: "space_created l r m ms m1" and only: "only_pages fs m1 m2" and sub: "fs \<subseteq> set (ms_data ms)"
  shows "space_created l r m ms m2"
proof -
  have inv: "mm_frames_inv l r m1" and wf: "ms_wf l m1 ms" using new by (simp_all add: space_created_def)
  have "\<forall>f \<in> fs. unat (ppn_0 f) < 2 ^ 44"
    using sub wf live_bound [OF inv] by (auto simp: ms_wf_def)
  moreover have "fs \<inter> set (pt_frames (ms_page_table ms)) = {}"
    using sub wf by (auto simp: ms_wf_def ms_frames_def)
  ultimately have "ms_wf l m2 ms" using ms_wf_only_pages [OF wf only] by blast
  moreover have "memory m2 q = memory m q" if "q \<notin> page_index ` set (ms_frames ms)" for q
  proof -
    have "q \<notin> page_index ` fs" using that sub by (auto simp: ms_frames_def)
    then show ?thesis using that only new by (simp add: only_pages_def space_created_def)
  qed
  ultimately show ?thesis
    using new only by (simp add: space_created_def only_pages_def mm_frames_inv_def)
qed

end
