(* ===== verification/Address_Space.thy ===== *)
theory Address_Space
  imports Memory_Set
begin

text \<open>
  The life of an address space (\<open>src/os/src/mm/memory_set.rs\<close>): it is made by
  \<open>from_existed_user\<close> (a copy, for \<open>fork\<close>) or area by area, loses areas by
  \<open>remove_area_with_start_vpn\<close> and \<open>recycle_data_pages\<close>, and is dropped. The properties
  of the component follow at the end.
\<close>

section \<open>The trampoline\<close>

definition TRAMPOLINE_VPN :: virt_page_num where
  "TRAMPOLINE_VPN = VirtPageNum 0x7ffffff"

lemma TRAMPOLINE_VPN_from:
  "VirtPageNum_from_VirtAddr (VirtAddr_from_usize TRAMPOLINE) = ret TRAMPOLINE_VPN"
proof -
  have "VirtAddr_from_usize TRAMPOLINE = VirtAddr 0x7ffffff000" by code_simp
  moreover have "VirtAddr_page_offset (VirtAddr 0x7ffffff000) = 0" by code_simp
  moreover have "VirtAddr_floor (VirtAddr 0x7ffffff000) = TRAMPOLINE_VPN" by code_simp
  ultimately show ?thesis by (simp add: VirtPageNum_from_VirtAddr_def fun_eq_iff action_defs)
qed

lemma unat_TRAMPOLINE_VPN [simp]: "unat (vpn_0 TRAMPOLINE_VPN) = 0x7ffffff"
  by (simp add: TRAMPOLINE_VPN_def)

definition page_aligned :: "usize \<Rightarrow> bool" where
  "page_aligned a \<longleftrightarrow> unat a mod 4096 = 0"

lemma PhysPageNum_from_aligned:
  assumes "page_aligned a"
  obtains p where "PhysPageNum_from_PhysAddr (PhysAddr_from_usize a) = ret p" and "unat (ppn_0 p) < 2 ^ 44"
proof -
  have "unat a mod 2 ^ 56 mod 4096 = 0"
    using assms by (simp add: page_aligned_def mod_mod_cancel)
  then have "PhysAddr_page_offset (PhysAddr_from_usize a) = 0"
    by (simp add: word_unat_eq_iff)
  moreover have "unat (ppn_0 (PhysAddr_floor (PhysAddr_from_usize a))) < 2 ^ 44"
    by (simp add: less_mult_imp_div_less)
  ultimately show ?thesis
    using that by (simp add: PhysPageNum_from_PhysAddr_def fun_eq_iff action_defs)
qed

definition tramp_only :: "mm \<Rightarrow> memory_set \<Rightarrow> bool" where
  "tramp_only m ms \<longleftrightarrow>
     (\<forall>v. vpn_ok v \<longrightarrow> v \<notin> set (ms_vpns ms) \<longrightarrow> v \<noteq> TRAMPOLINE_VPN \<longrightarrow> pt_abs m (ms_page_table ms) v = None) \<and>
     pt_abs m (ms_page_table ms) TRAMPOLINE_VPN \<noteq> None"

lemma wp_new_space:
  assumes inv: "mm_frames_inv l r m" and ok: "memory_ok m" and free: "3 \<le> card (mm_free m)" and "page_aligned tramp"
  shows "wp (bnd MemorySet_new_bare (map_trampoline tramp)) (\<lambda>ms m'. space_created l r m ms m' \<and>
    areas ms = [] \<and> length (ms_frames ms) \<le> 3 \<and> tramp_only m' ms) m"
proof -
  obtain p where p: "PhysPageNum_from_PhysAddr (PhysAddr_from_usize tramp) = (ret p :: phys_page_num mm_action)" "unat (ppn_0 p) < 2 ^ 44"
    using assms(4) by (rule PhysPageNum_from_aligned)
  let ?Q = "\<lambda>pt m'. space_created l r m \<lparr>ms_page_table = pt, areas = []\<rparr> m' \<and> length (pt_frames pt) \<le> 3 \<and>
    tramp_only m' \<lparr>ms_page_table = pt, areas = []\<rparr>"
  have "wp (PageTable_map \<lparr>root_ppn = f, pt_frames = [f]\<rparr> TRAMPOLINE_VPN p (PTE_R OR PTE_X)) ?Q m1"
    if m1: "mm_frames_inv l r m1" "pt_wf l m1 \<lparr>root_ppn = f, pt_frames = [f]\<rparr>"
      "pt_abs m1 \<lparr>root_ppn = f, pt_frames = [f]\<rparr> = Map.empty" "f \<in> mm_free m"
      "mm_live l m1 = insert f (mm_live l m)" "mm_free m1 = mm_free m - {f}"
      "memory m1 = (memory m)(page_index f := replicate 4096 0)" for f m1
  proof (rule wp_conseq [OF wp_PageTable_map [OF m1(1,2)]])
    show "2 \<le> card (mm_free m1)" using free m1(4,6) by simp
    show "pt_abs m1 \<lparr>root_ppn = f, pt_frames = [f]\<rparr> TRAMPOLINE_VPN = None" by (simp add: m1(3))
    fix pt m'
    assume a: "pt_grown l r m1 \<lparr>root_ppn = f, pt_frames = [f]\<rparr> m' pt \<and>
      length (pt_frames pt) \<le> length (pt_frames \<lparr>root_ppn = f, pt_frames = [f]\<rparr>) + 2 \<and>
      pt_abs m' pt = abs_update TRAMPOLINE_VPN (Some (PageTableEntry_new p ((PTE_R OR PTE_X) OR PTE_V)))
        (pt_abs m1 \<lparr>root_ppn = f, pt_frames = [f]\<rparr>)"
    then obtain new where new: "pt_frames pt = f # new" "distinct new" "set new \<subseteq> mm_free m1"
        "mm_live l m' = mm_live l m1 \<union> set new" "mm_free m' = mm_free m1 - set new"
      by (auto simp: pt_grown_def)
    have "ms_wf l m' \<lparr>ms_page_table = pt, areas = []\<rparr>"
      using a new(1-3) m1(6) by (auto simp: ms_wf_def ms_frames_def ms_data_def ms_vpns_def pt_grown_def)
    then have "space_created l r m \<lparr>ms_page_table = pt, areas = []\<rparr> m'"
      using a new m1(4-7) by (auto simp: space_created_def ms_frames_def ms_data_def pt_grown_def)
    moreover have "tramp_only m' \<lparr>ms_page_table = pt, areas = []\<rparr>"
      using a by (auto simp: tramp_only_def abs_update_ok m1(3) ms_vpns_def)
    ultimately show "?Q pt m'" using a by simp
  qed
  then show ?thesis
    using free
    by (auto simp: MemorySet_new_bare_def map_trampoline_def TRAMPOLINE_VPN_from p(1) wp_simps ms_frames_def ms_data_def
        intro!: wp_conseq [OF wp_PageTable_new [OF inv ok]])
qed

section \<open>Copying an address space\<close>

lemma wp_copy_pages:
  assumes "length ps = length vs" and "length qs = length vs"
    and "\<And>i. i < length vs \<Longrightarrow> pt_abs m (ms_page_table us) (vs ! i) = Some (area_pte a (ps ! i))"
    and "\<And>i. i < length vs \<Longrightarrow> pt_abs m (ms_page_table ms) (vs ! i) = Some (area_pte b (qs ! i))"
    and "distinct qs" and "set ps \<inter> set qs = {}" and "\<forall>p \<in> set ps \<union> set qs. unat (ppn_0 p) < 2 ^ 44"
    and "pt_wf l m (ms_page_table us)" and "pt_wf l m (ms_page_table ms)"
    and "set qs \<inter> (set (pt_frames (ms_page_table us)) \<union> set (pt_frames (ms_page_table ms))) = {}"
  shows "wp (copy_pages us ms vs) (\<lambda>_ m'. only_pages (set qs) m m' \<and>
    (\<forall>i < length vs. get_bytes_array m' (qs ! i) = get_bytes_array m (ps ! i))) m"
  using assms
proof (induction vs arbitrary: ps qs m)
  case Nil
  then show ?case by (simp add: wp_simps)
next
  case (Cons v vs)
  from Cons.prems(1,2) obtain p ps' q qs' where ps: "ps = p # ps'" "length ps' = length vs"
    and qs: "qs = q # qs'" "length qs' = length vs" by (auto simp: length_Suc_conv)
  have pq: "unat (ppn_0 p) < 2 ^ 44" "unat (ppn_0 q) < 2 ^ 44" using Cons.prems(7) ps qs by auto
  let ?m1 = "set_bytes_array q (get_bytes_array m p) m"
  have "memory_ok m" using Cons.prems(8) by (simp add: pt_wf_def)
  then have step: "only_pages {q} m ?m1"
    by (intro only_pages_set_bytes) (simp_all add: memory_ok_def get_bytes_array_def)
  note us1 = pt_wf_only_pages [OF Cons.prems(8) step] and ms1 = pt_wf_only_pages [OF Cons.prems(9) step]
  have same: "get_bytes_array ?m1 x = get_bytes_array m x" if "x \<noteq> q" "unat (ppn_0 x) < 2 ^ 44" for x
    using only_pages_other [OF step, of x] that pq(2) by simp
  have "wp (copy_pages us ms vs) (\<lambda>_ m'. only_pages (set qs') ?m1 m' \<and>
      (\<forall>i < length vs. get_bytes_array m' (qs' ! i) = get_bytes_array ?m1 (ps' ! i))) ?m1"
  proof (rule Cons.IH [OF ps(2) qs(2)])
    fix i
    assume "i < length vs"
    then show "pt_abs ?m1 (ms_page_table us) (vs ! i) = Some (area_pte a (ps' ! i))"
        "pt_abs ?m1 (ms_page_table ms) (vs ! i) = Some (area_pte b (qs' ! i))"
      using Cons.prems(3) [of "Suc i"] Cons.prems(4) [of "Suc i"] us1(2) ms1(2) Cons.prems(10) ps qs pq by auto
  qed (use Cons.prems ps qs us1(1) ms1(1) pq in auto)
  then have "wp (copy_pages us ms vs) (\<lambda>_ m'. only_pages (set qs) m m' \<and>
      (\<forall>i < length (v # vs). get_bytes_array m' (qs ! i) = get_bytes_array m (ps ! i))) ?m1"
  proof (rule wp_conseq)
    fix u m'
    assume m': "only_pages (set qs') ?m1 m' \<and>
      (\<forall>i < length vs. get_bytes_array m' (qs' ! i) = get_bytes_array ?m1 (ps' ! i))"
    have "get_bytes_array m' q = get_bytes_array ?m1 q"
      using m' Cons.prems(5,7) qs(1) pq(2) by (intro only_pages_other [of "set qs'"]) auto
    then have head: "get_bytes_array m' q = get_bytes_array m p"
      by (simp add: get_bytes_array_def set_bytes_array_def)
    have "get_bytes_array ?m1 (ps' ! i) = get_bytes_array m (ps' ! i)" if "i < length vs" for i
      using that Cons.prems(6,7) ps qs by (intro same) (auto dest: nth_mem)
    then have "get_bytes_array m' (qs ! i) = get_bytes_array m (ps ! i)" if "i < length (v # vs)" for i
      using that m' head ps qs by (cases i) auto
    moreover have "only_pages (set qs) m m'"
      using only_pages_mono [OF step, of "set qs"] only_pages_mono [of "set qs'" ?m1 m' "set qs"] m' qs
      by (auto intro: only_pages_trans)
    ultimately show "only_pages (set qs) m m' \<and>
        (\<forall>i < length (v # vs). get_bytes_array m' (qs ! i) = get_bytes_array m (ps ! i))" by blast
  qed
  moreover have "PageTable_translate m (ms_page_table us) v = Some (area_pte a p)"
      "PageTable_translate m (ms_page_table ms) v = Some (area_pte b q)"
    using Cons.prems(3,4) [of 0] ps qs by (auto intro: pt_abs_translate)
  moreover have "pte_ppn (area_pte a p) = p" "pte_ppn (area_pte b q) = q"
    using pte_ppn_new pq by (simp_all add: area_pte_def)
  ultimately show ?case by (simp add: wp_simps MemorySet_translate_def)
qed

lemma MapArea_from_another_ok:
  assumes "range_ok (vpn_range a)"
  shows "MapArea_from_another a = ret (a\<lparr>data_frames := []\<rparr>)"
  using assms
  by (simp add: MapArea_from_another_def VPNRange_new_def range_ok_def get_start_def get_end_def
      fun_eq_iff action_defs)

lemma area_data_nth:
  assumes "area_ok m pt a" and "map_type a = Framed"
  shows "length (area_data a) = length (range_vpns (vpn_range a))"
    and "i < length (area_data a) \<Longrightarrow> pt_abs m pt (range_vpns (vpn_range a) ! i) = Some (area_pte a (area_data a ! i))"
proof -
  let ?vs = "range_vpns (vpn_range a)"
  have fst: "map fst (data_frames a) = ?vs" using assms by (simp add: area_ok_def)
  show len: "length (area_data a) = length ?vs"
    using arg_cong [OF fst, of length] by (simp add: area_data_def)
  assume i: "i < length (area_data a)"
  have "distinct (map fst (data_frames a))"
    unfolding fst using assms by (intro distinct_range_vpns) (simp add: area_ok_def range_ok_def)
  moreover have "data_frames a ! i = (?vs ! i, area_data a ! i)"
    using i arg_cong [OF fst, of "\<lambda>xs. xs ! i"] by (simp add: area_data_def prod_eq_iff)
  ultimately have "map_of (data_frames a) (?vs ! i) = Some (area_data a ! i)"
    using i by (metis area_data_def length_map map_of_is_SomeI nth_mem)
  then show "pt_abs m pt (?vs ! i) = Some (area_pte a (area_data a ! i))"
    using assms by (simp add: area_ok_def area_page_def)
qed

definition area_copy :: "mm \<Rightarrow> mm \<Rightarrow> map_area \<Rightarrow> map_area \<Rightarrow> bool" where
  "area_copy m0 m a b \<longleftrightarrow> vpn_range b = vpn_range a \<and> map_type b = map_type a \<and> map_perm b = map_perm a \<and>
     length (area_data b) = length (area_data a) \<and>
     (\<forall>i < length (area_data a). get_bytes_array m (area_data b ! i) = get_bytes_array m0 (area_data a ! i))"

definition user_areas :: "memory_set \<Rightarrow> bool" where
  "user_areas ms \<longleftrightarrow> (\<forall>a \<in> set (areas ms). map_type a = Framed \<and> unat (vpn_0 (range_r (vpn_range a))) < 2 ^ 27)"

definition copy_inv ::
    "nat \<Rightarrow> nat \<Rightarrow> mm \<Rightarrow> map_area list \<Rightarrow> memory_set \<Rightarrow> mm \<Rightarrow> bool" where
  "copy_inv l r m0 as ms m \<longleftrightarrow> space_created l r m0 ms m \<and> list_all2 (area_copy m0 m) as (areas ms) \<and>
     tramp_only m ms \<and> length (ms_frames ms) \<le> 3 + 3 * length (ms_vpns ms)"

lemma copy_inv_vpns: "copy_inv l r m0 as ms m \<Longrightarrow> ms_vpns ms = concat (map (\<lambda>a. range_vpns (vpn_range a)) as)"
proof -
  assume "copy_inv l r m0 as ms m"
  then have "list_all2 (area_copy m0 m) as (areas ms)" by (simp add: copy_inv_def)
  then have "map (\<lambda>a. range_vpns (vpn_range a)) (areas ms) = map (\<lambda>a. range_vpns (vpn_range a)) as"
    by (induction rule: list_all2_induct) (simp_all add: area_copy_def)
  then show ?thesis by (simp add: ms_vpns_def)
qed

lemma copy_area_fresh:
  assumes inv: "copy_inv l r m0 as ms m" and us: "areas us = as @ a # rest" "ms_wf l m0 us" "user_areas us"
  shows "area_fresh m ms (a\<lparr>data_frames := []\<rparr>)"
proof -
  have ok: "range_ok (vpn_range a)" using us by (auto simp: ms_wf_def area_ok_def)
  have "distinct (ms_vpns us)" using us by (simp add: ms_wf_def)
  then have "set (range_vpns (vpn_range a)) \<inter> set (ms_vpns ms) = {}"
    using us(1) copy_inv_vpns [OF inv] by (auto simp: ms_vpns_def)
  moreover have "v \<noteq> TRAMPOLINE_VPN" if "v \<in> set (range_vpns (vpn_range a))" for v
  proof -
    have "unat (vpn_0 (range_r (vpn_range a))) < 2 ^ 27" using us by (auto simp: user_areas_def)
    then have "unat (vpn_0 v) < 2 ^ 27 - 1"
      using that ok by (auto simp: in_set_conv_nth range_ok_def nth_range_vpns length_range_vpns)
    then show ?thesis by auto
  qed
  ultimately show ?thesis
    using inv in_range_vpns_ok [OF ok] ok by (auto simp: area_fresh_def copy_inv_def tramp_only_def)
qed

lemma copy_inv_free:
  assumes inv: "copy_inv l r m0 as ms m" and us: "areas us = as @ a # rest"
    and free: "3 + 3 * length (ms_vpns us) \<le> card (mm_free m0)"
  shows "3 * length (range_vpns (vpn_range a)) \<le> card (mm_free m)"
proof -
  have sub: "set (ms_frames ms) \<subseteq> mm_free m0" "mm_free m = mm_free m0 - set (ms_frames ms)"
    using inv by (auto simp: copy_inv_def space_created_def)
  have "card (mm_free m) = card (mm_free m0) - card (set (ms_frames ms))"
    unfolding sub(2) using sub(1) by (intro card_Diff_subset) auto
  moreover have "card (set (ms_frames ms)) \<le> 3 + 3 * length (ms_vpns ms)"
    using inv card_length [of "ms_frames ms"] by (auto simp: copy_inv_def)
  moreover have "length (ms_vpns us) \<ge> length (ms_vpns ms) + length (range_vpns (vpn_range a))"
    using copy_inv_vpns [OF inv] us by (simp add: ms_vpns_def)
  ultimately show ?thesis using free by linarith
qed

lemma tramp_only_push:
  assumes "tramp_only m ms" and post: "push_post l r m ms area ps ms' m1" and fresh: "area_fresh m ms area"
  shows "tramp_only m1 ms'"
proof -
  have vpns: "ms_vpns ms' = ms_vpns ms @ range_vpns (vpn_range area)"
    using post by (simp add: push_post_def ms_vpns_def)
  have "pt_abs m1 (ms_page_table ms') v = pt_abs m (ms_page_table ms) v"
    if "vpn_ok v" "v \<notin> set (range_vpns (vpn_range area))" for v
  proof -
    have "map_of (zip (range_vpns (vpn_range area)) ps) v = None"
      using that(2) post by (simp add: push_post_def targets_ok_def)
    then show ?thesis using post that(1) by (simp add: push_post_def abs_mapped_def)
  qed
  moreover have "TRAMPOLINE_VPN \<notin> set (range_vpns (vpn_range area))"
    using assms(1) fresh by (auto simp: tramp_only_def area_fresh_def)
  ultimately show ?thesis using assms(1) by (auto simp: tramp_only_def vpns)
qed

lemma area_copy_later:
  assumes "area_copy m0 m a b" and "\<And>f. f \<in> set (area_data b) \<Longrightarrow> get_bytes_array m' f = get_bytes_array m f"
  shows "area_copy m0 m' a b"
  using assms by (simp add: area_copy_def)

lemma copied_frames_kept:
  assumes new: "space_created l r m0 ms m" and post: "push_post l r m ms area ps ms' m1"
    and fresh: "area_fresh m ms area" and only: "only_pages (set (area_frames area ps)) m1 m'"
    and f: "f \<in> set (ms_data ms)"
  shows "get_bytes_array m' f = get_bytes_array m f"
proof -
  have inv: "mm_frames_inv l r m" and wf: "ms_wf l m ms" using new by (simp_all add: space_created_def)
  note frames = push_post_frames [OF post fresh inv wf]
  have inv1: "mm_frames_inv l r m1" using post by (simp add: push_post_def space_grown_def)
  have f1: "f \<in> mm_live l m" "f \<notin> set (pt_frames (ms_page_table ms))" "f \<notin> set (area_frames area ps)"
    using f wf frames(1) by (auto simp: ms_wf_def ms_frames_def frames(3))
  have "get_bytes_array m' f = get_bytes_array m1 f"
    using frames(2) live_bound [OF inv1] f1(3) live_bound [OF inv f1(1)]
    by (intro only_pages_other [OF only]) (auto simp: frames(3))
  also have "\<dots> = get_bytes_array m f"
    using post f1 by (intro space_grown_keeps [OF _ inv]) (auto simp: push_post_def)
  finally show ?thesis .
qed

lemma wp_copy_one:
  assumes inv0: "mm_frames_inv l r m0" and inv: "copy_inv l r m0 as ms m"
    and us: "areas us = as @ a # rest" "ms_wf l m0 us" "user_areas us"
    and post: "push_post l r m ms (a\<lparr>data_frames := []\<rparr>) ps ms' m1"
  shows "wp (copy_pages us ms' (range_vpns (vpn_range a))) (\<lambda>_. copy_inv l r m0 (as @ [a]) ms') m1"
proof -
  let ?a = "a\<lparr>data_frames := []\<rparr>" and ?vs = "range_vpns (vpn_range a)"
  let ?b = "area_mapped ?a ?vs ps"
  have fresh: "area_fresh m ms ?a" using copy_area_fresh [OF inv us] .
  have created: "space_created l r m0 ms m" using inv by (simp add: copy_inv_def)
  then have invm: "mm_frames_inv l r m" and wfm: "ms_wf l m ms" by (simp_all add: space_created_def)
  have framed: "map_type a = Framed" using us by (auto simp: user_areas_def)
  have fr: "area_frames ?a ps = ps" using framed by (simp add: area_frames_def)
  have created1: "space_created l r m0 ms' m1" using space_created_push [OF created post fresh] .
  note us1 = space_created_other [OF inv0 created1 us(2)]
  have a1: "area_ok m1 (ms_page_table us) a" using us1(1) us(1) by (simp add: ms_wf_def)
  have wf1: "ms_wf l m1 ms'" and inv1: "mm_frames_inv l r m1" using created1 by (simp_all add: space_created_def)
  have b1: "area_ok m1 (ms_page_table ms') ?b" using wf1 post by (simp add: ms_wf_def push_post_def)
  note frames = push_post_frames [OF post fresh invm wfm, unfolded fr]
  have datab: "area_data ?b = ps"
    using area_data_mapped [of ?a ps] post framed by (simp add: push_post_def area_frames_def)
  have src: "set (area_data a) \<subseteq> mm_live l m0" using us by (auto simp: ms_wf_def ms_data_def)
  have sub: "set ps \<subseteq> set (ms_data ms')" using frames(3) by simp
  have free: "set ps \<subseteq> mm_free m0" using created1 sub by (auto simp: space_created_def ms_frames_def)
  have sep: "set ps \<inter> mm_live l m0 = {}" using free mm_frames.disjoint [OF inv0] by blast
  have usfr: "set (pt_frames (ms_page_table us)) \<subseteq> mm_live l m0" using us(2) by (auto simp: ms_wf_def pt_wf_def)
  have dist: "distinct ps" "set ps \<inter> set (pt_frames (ms_page_table ms')) = {}"
    using frames(1) by (auto simp: ms_frames_def frames(3))
  have lens: "length (area_data a) = length ?vs" "length ps = length ?vs"
    using area_data_nth(1) [OF a1 framed] area_data_nth(1) [OF b1] framed datab by simp_all
  have "wp (copy_pages us ms' ?vs) (\<lambda>_ m'. only_pages (set ps) m1 m' \<and>
      (\<forall>i < length ?vs. get_bytes_array m' (ps ! i) = get_bytes_array m1 (area_data a ! i))) m1"
  proof (rule wp_copy_pages [OF lens])
    fix i
    assume i: "i < length ?vs"
    show "pt_abs m1 (ms_page_table us) (?vs ! i) = Some (area_pte a (area_data a ! i))"
      using area_data_nth(2) [OF a1 framed] i lens by simp
    show "pt_abs m1 (ms_page_table ms') (?vs ! i) = Some (area_pte ?b (ps ! i))"
      using area_data_nth(2) [OF b1, of i] i lens framed datab by simp
  next
    show "\<forall>p \<in> set (area_data a) \<union> set ps. unat (ppn_0 p) < 2 ^ 44"
      using src free live_bound [OF inv0] fa_free_bounds [OF inv0] by blast
  qed (use dist src sep usfr us1(1) wf1 in \<open>auto simp: ms_wf_def\<close>)
  then show ?thesis
  proof (rule wp_conseq)
    fix u m'
    assume m': "only_pages (set ps) m1 m' \<and>
      (\<forall>i < length ?vs. get_bytes_array m' (ps ! i) = get_bytes_array m1 (area_data a ! i))"
    then have only: "only_pages (set (area_frames ?a ps)) m1 m'" by (simp add: fr)
    have "area_copy m0 m' a ?b"
      using m' lens datab space_created_keeps [OF inv0 created1] src by (auto simp: area_copy_def subset_iff)
    moreover have "list_all2 (area_copy m0 m') as (areas ms)"
    proof (rule list_all2_mono)
      show "list_all2 (\<lambda>x y. y \<in> set (areas ms) \<and> area_copy m0 m x y) as (areas ms)"
        using inv by (auto simp: copy_inv_def list_all2_conv_all_nth)
    qed (use copied_frames_kept [OF created post fresh only] in \<open>auto simp: ms_data_def intro: area_copy_later\<close>)
    ultimately have "list_all2 (area_copy m0 m') (as @ [a]) (areas ms')"
      using post by (simp add: push_post_def list_all2_appendI)
    moreover have "space_created l r m0 ms' m'"
      using space_created_only_pages [OF created1 _ sub] m' by blast
    moreover have "pt_abs m' (ms_page_table ms') = pt_abs m1 (ms_page_table ms')"
      using m' dist(2) free fa_free_bounds [OF inv0] wf1
      by (intro pt_wf_only_pages(2)) (auto simp: ms_wf_def)
    then have "tramp_only m' ms'"
      using tramp_only_push [OF _ post fresh] inv by (simp add: copy_inv_def tramp_only_def)
    moreover have "length (ms_frames ms') \<le> 3 + 3 * length (ms_vpns ms')"
      using inv post lens by (simp add: copy_inv_def ms_frames_def frames(3) push_post_def ms_vpns_def)
    ultimately show "copy_inv l r m0 (as @ [a]) ms' m'" by (simp add: copy_inv_def)
  qed
qed

lemma wp_copy_areas:
  assumes inv0: "mm_frames_inv l r m0" and "copy_inv l r m0 as ms m"
    and "areas us = as @ rest" and us: "ms_wf l m0 us" "user_areas us"
    and free: "3 + 3 * length (ms_vpns us) \<le> card (mm_free m0)"
  shows "wp (copy_areas us rest ms) (copy_inv l r m0 (areas us)) m"
  using assms(2,3)
proof (induction rest arbitrary: as ms m)
  case Nil
  then show ?case by (simp add: wp_simps)
next
  case (Cons a rest)
  have ok: "range_ok (vpn_range a)" using Cons.prems(2) us by (auto simp: ms_wf_def area_ok_def)
  have cr: "space_created l r m0 ms m" using Cons.prems(1) by (simp add: copy_inv_def)
  have push: "wp (MemorySet_push ms (a\<lparr>data_frames := []\<rparr>) None) (\<lambda>ms' m'. \<exists>ps.
      push_post l r m ms (a\<lparr>data_frames := []\<rparr>) ps ms' m' \<and> mm_frames_inv l r m' \<and> ms_wf l m' ms') m"
    using cr copy_area_fresh [OF Cons.prems us] copy_inv_free [OF Cons.prems free]
    by (intro wp_MemorySet_push) (auto simp: space_created_def)
  show ?case
    unfolding copy_areas.simps MapArea_from_another_ok [OF ok] wp_simps
  proof (rule wp_conseq [OF push], elim exE conjE)
    fix ms' m1 ps
    assume "push_post l r m ms (a\<lparr>data_frames := []\<rparr>) ps ms' m1"
    from wp_copy_one [OF inv0 Cons.prems us this]
    show "wp (copy_pages us ms' (range_vpns (vpn_range a))) (\<lambda>_. wp (copy_areas us rest ms') (copy_inv l r m0 (areas us))) m1"
      by (rule wp_conseq) (use Cons.IH Cons.prems(2) in auto)
  qed
qed

lemma wp_from_existed_user:
  assumes inv: "mm_frames_inv l r m" and us: "ms_wf l m us" "user_areas us" and "page_aligned tramp"
    and free: "3 + 3 * length (ms_vpns us) \<le> card (mm_free m)"
  shows "wp (MemorySet_from_existed_user tramp us) (copy_inv l r m (areas us)) m"
proof -
  have ok: "memory_ok m" using us(1) by (simp add: ms_wf_def pt_wf_def)
  have "wp (bnd MemorySet_new_bare (map_trampoline tramp)) (\<lambda>ms. wp (copy_areas us (areas us) ms)
      (copy_inv l r m (areas us))) m"
  proof (rule wp_conseq [OF wp_new_space [OF inv ok _ assms(4)]])
    fix ms m1
    assume "space_created l r m ms m1 \<and> areas ms = [] \<and> length (ms_frames ms) \<le> 3 \<and> tramp_only m1 ms"
    then have "copy_inv l r m [] ms m1" by (simp add: copy_inv_def)
    then show "wp (copy_areas us (areas us) ms) (copy_inv l r m (areas us)) m1"
      using wp_copy_areas [OF inv _ _ us free, of "[]" ms m1 "areas us"] by simp
  qed (use free in simp)
  then show ?thesis by (simp add: MemorySet_from_existed_user_def wp_simps)
qed

lemma ms_vpns_index:
  assumes "v \<in> set (ms_vpns ms)"
  obtains j i where "j < length (areas ms)" and "i < length (range_vpns (vpn_range (areas ms ! j)))"
    and "v = range_vpns (vpn_range (areas ms ! j)) ! i"
  using assms by (auto simp: ms_vpns_def in_set_conv_nth)

lemma ms_wf_data_live:
  assumes "ms_wf l m ms" and "j < length (areas ms)" and "i < length (area_data (areas ms ! j))"
  shows "area_data (areas ms ! j) ! i \<in> mm_live l m"
proof -
  have "areas ms ! j \<in> set (areas ms)" using assms(2) by simp
  moreover have "area_data (areas ms ! j) ! i \<in> set (area_data (areas ms ! j))" using assms(3) by simp
  ultimately have "area_data (areas ms ! j) ! i \<in> set (ms_data ms)" unfolding ms_data_def set_concat by auto
  then show ?thesis using assms(1) by (auto simp: ms_wf_def)
qed

lemma copy_inv_bytes:
  assumes inv: "mm_frames_inv l r m" and us: "ms_wf l m us" "user_areas us" and copy: "copy_inv l r m (areas us) ms m'"
    and v: "VirtPageNum (word_of_nat (a div 4096)) \<in> set (ms_vpns us)"
  shows "user_byte m' (ms_page_table ms) a = user_byte m (ms_page_table us) a"
proof -
  let ?v = "VirtPageNum (word_of_nat (a div 4096))"
  from v obtain j i where j: "j < length (areas us)" and i: "i < length (range_vpns (vpn_range (areas us ! j)))"
      and vi: "?v = range_vpns (vpn_range (areas us ! j)) ! i"
    by (rule ms_vpns_index)
  let ?a = "areas us ! j" and ?b = "areas ms ! j"
  have ab: "area_copy m m' ?a ?b" "j < length (areas ms)"
    using copy j by (auto simp: copy_inv_def list_all2_conv_all_nth)
  have framed: "map_type ?a = Framed" "map_type ?b = Framed"
    using us(2) j ab(1) by (auto simp: user_areas_def area_copy_def)
  have created: "mm_frames_inv l r m'" "ms_wf l m' ms" using copy by (simp_all add: copy_inv_def space_created_def)
  have ok: "area_ok m (ms_page_table us) ?a" "area_ok m' (ms_page_table ms) ?b"
    using us(1) created(2) j ab(2) by (auto simp: ms_wf_def)
  have len: "i < length (area_data ?a)" "i < length (area_data ?b)"
    using area_data_nth(1) [OF ok(1) framed(1)] i ab(1) by (simp_all add: area_copy_def)
  have "area_data ?a ! i \<in> mm_live l m" "area_data ?b ! i \<in> mm_live l m'"
    using ms_wf_data_live us(1) created(2) len j ab(2) by blast+
  then have bound: "unat (ppn_0 (area_data ?a ! i)) < 2 ^ 44" "unat (ppn_0 (area_data ?b ! i)) < 2 ^ 44"
    using live_bound inv created(1) by blast+
  have "user_byte m (ms_page_table us) a = Some (get_bytes_array m (area_data ?a ! i) ! (a mod 4096))"
    using area_data_nth(2) [OF ok(1) framed(1) len(1)] bound(1) vi by (intro user_byte_pt_abs) auto
  moreover have "user_byte m' (ms_page_table ms) a = Some (get_bytes_array m' (area_data ?b ! i) ! (a mod 4096))"
    using area_data_nth(2) [OF ok(2) framed(2) len(2)] bound(2) vi ab(1)
    by (intro user_byte_pt_abs) (auto simp: area_copy_def)
  ultimately show ?thesis using ab(1) len(1) by (simp add: area_copy_def)
qed

section \<open>Giving frames back\<close>

lemma for_each_append: "for_each f (xs @ ys) = thn (for_each f xs) (for_each f ys)"
  by (induction xs) (auto simp: fun_eq_iff action_defs split: sum.splits)

lemma for_each_map: "for_each f (map g xs) = for_each (\<lambda>x. f (g x)) xs"
  by (induction xs) simp_all

lemma MapArea_drop_frames: "MapArea_drop area = for_each frame_dealloc (area_data area)"
  by (simp add: MapArea_drop_def area_data_def for_each_map case_prod_unfold)

lemma drop_areas_frames: "for_each MapArea_drop as = for_each frame_dealloc (concat (map area_data as))"
  by (induction as) (simp_all add: for_each_append MapArea_drop_frames)

lemma MemorySet_drop_frames: "MemorySet_drop ms = for_each frame_dealloc (ms_frames ms)"
  by (simp add: MemorySet_drop_def ms_frames_def ms_data_def for_each_append drop_areas_frames)

lemma wp_dealloc_frames:
  assumes "mm_frames_inv l r m" and "distinct fs" and "set fs \<subseteq> mm_live l m"
  shows "wp (for_each frame_dealloc fs) (\<lambda>_ m'. mm_frames_inv l r m' \<and> mm_live l m' = mm_live l m - set fs \<and>
    mm_free m' = mm_free m \<union> set fs \<and> memory m' = memory m) m"
  using assms
proof (induction fs arbitrary: m)
  case Nil
  then show ?case by (simp add: wp_simps)
next
  case (Cons f fs)
  have "f \<in> mm_live l m" using Cons.prems by simp
  from wp_frame_dealloc [OF Cons.prems(1) this] show ?case
    unfolding for_each.simps wp_simps
  proof (rule wp_conseq)
    fix u m1
    assume m1: "mm_frames_inv l r m1 \<and> mm_live l m1 = mm_live l m - {f} \<and>
      mm_free m1 = insert f (mm_free m) \<and> memory m1 = memory m"
    then have "wp (for_each frame_dealloc fs) (\<lambda>_ m'. mm_frames_inv l r m' \<and> mm_live l m' = mm_live l m1 - set fs \<and>
        mm_free m' = mm_free m1 \<union> set fs \<and> memory m' = memory m1) m1"
      using Cons.prems by (intro Cons.IH) auto
    then show "wp (for_each frame_dealloc fs) (\<lambda>_ m'. mm_frames_inv l r m' \<and>
        mm_live l m' = mm_live l m - set (f # fs) \<and> mm_free m' = mm_free m \<union> set (f # fs) \<and> memory m' = memory m) m1"
      by (rule wp_conseq) (use m1 in auto)
  qed
qed

lemma wp_MemorySet_drop:
  assumes "mm_frames_inv l r m" and "ms_wf l m ms"
  shows "wp (MemorySet_drop ms) (\<lambda>_ m'. mm_frames_inv l r m' \<and> mm_live l m' = mm_live l m - set (ms_frames ms) \<and>
    mm_free m' = mm_free m \<union> set (ms_frames ms) \<and> memory m' = memory m) m"
  unfolding MemorySet_drop_frames
  using assms ms_frames_live [OF assms(2)] by (intro wp_dealloc_frames) (auto simp: ms_wf_def)

lemma wp_recycle_data_pages:
  assumes "mm_frames_inv l r m" and "ms_wf l m ms"
  shows "wp (recycle_data_pages ms) (\<lambda>ms' m'. ms' = ms\<lparr>areas := []\<rparr> \<and> mm_frames_inv l r m' \<and>
    mm_live l m' = mm_live l m - set (ms_data ms) \<and> mm_free m' = mm_free m \<union> set (ms_data ms) \<and>
    ms_wf l m' ms') m"
proof -
  have dist: "distinct (ms_data ms)" "set (ms_data ms) \<subseteq> mm_live l m"
      "set (ms_data ms) \<inter> set (pt_frames (ms_page_table ms)) = {}"
    using assms(2) by (auto simp: ms_wf_def ms_frames_def)
  have "ms_wf l m' (ms\<lparr>areas := []\<rparr>)"
    if "memory m' = memory m" "mm_live l m' = mm_live l m - set (ms_data ms)" for m'
  proof -
    have pt: "pt_wf l m (ms_page_table ms)" using assms(2) by (simp add: ms_wf_def)
    have "pt_wf l m' (ms_page_table ms)"
    proof (rule pt_wf_same_frames(1) [OF pt])
      show "memory_ok m'" using pt that(1) by (simp add: pt_wf_def memory_ok_def)
      have "set (pt_frames (ms_page_table ms)) \<subseteq> mm_live l m" using pt by (simp add: pt_wf_def)
      then show "set (pt_frames (ms_page_table ms)) \<subseteq> mm_live l m'" using that(2) dist(3) by blast
    qed (simp add: get_bytes_array_def that(1))
    then show ?thesis using assms(2) by (simp add: ms_wf_def ms_data_def ms_vpns_def ms_frames_def)
  qed
  moreover have "recycle_data_pages ms = thn (for_each frame_dealloc (ms_data ms)) (ret (ms\<lparr>areas := []\<rparr>))"
    by (simp add: recycle_data_pages_def drop_areas_frames ms_data_def)
  ultimately show ?thesis
    by (simp add: wp_simps, intro wp_conseq [OF wp_dealloc_frames [OF assms(1) dist(1,2)]]) simp
qed

section \<open>Removing an area\<close>

lemma wp_unmap_one:
  assumes inv: "mm_frames_inv l r m" and wf: "pt_wf l m pt" and framed: "map_type area = Framed"
    and data: "data_frames area = (v, p) # ds" "v \<notin> fst ` set ds"
    and p: "p \<in> mm_live l m" "p \<notin> set (pt_frames pt)" and mapped: "pt_abs m pt v = Some e"
  shows "wp (unmap_one area pt v) (\<lambda>area' m'. area' = area\<lparr>data_frames := ds\<rparr> \<and> mm_frames_inv l r m' \<and>
    pt_wf l m' pt \<and> pt_abs m' pt = abs_update v None (pt_abs m pt) \<and> mm_live l m' = mm_live l m - {p} \<and>
    mm_free m' = insert p (mm_free m) \<and> (\<forall>q. q \<notin> page_index ` set (pt_frames pt) \<longrightarrow> memory m' q = memory m q)) m"
proof -
  have "wp (PageTable_unmap pt v) (\<lambda>_ m'. mm_frames_inv l r m' \<and> pt_wf l m' pt \<and>
      pt_abs m' pt = abs_update v None (pt_abs m pt) \<and> mm_live l m' = mm_live l m - {p} \<and>
      mm_free m' = insert p (mm_free m) \<and> (\<forall>q. q \<notin> page_index ` set (pt_frames pt) \<longrightarrow> memory m' q = memory m q)) m1"
    if m1: "mm_frames_inv l r m1" "mm_live l m1 = mm_live l m - {p}" "mm_free m1 = insert p (mm_free m)"
      "memory m1 = memory m" for m1
  proof -
    have same: "get_bytes_array m1 x = get_bytes_array m x" for x by (simp add: get_bytes_array_def m1(4))
    have "memory_ok m1" "set (pt_frames pt) \<subseteq> mm_live l m1"
      using wf m1 p by (auto simp: pt_wf_def memory_ok_def)
    note pt1 = pt_wf_same_frames [OF wf same this]
    show ?thesis
      using mapped pt1(2) m1
      by (intro wp_conseq [OF wp_PageTable_unmap [OF m1(1) pt1(1)]]) (auto simp: pt_grown_def)
  qed
  moreover have "bt_remove v ((v, p) # ds) = ds"
    using data(2) by (force simp: bt_remove_def filter_id_conv)
  ultimately show ?thesis
    using framed data(1)
    by (simp add: unmap_one_def drop_frame_def wp_simps)
      (intro wp_conseq [OF wp_frame_dealloc [OF inv p(1)]], simp add: wp_simps)
qed

lemma wp_unmap_loop:
  assumes "mm_frames_inv l r m" and "pt_wf l m pt" and "map_type area = Framed"
    and "data_frames area = zip vs ps" and "length ps = length vs" and "distinct vs" and "distinct ps"
    and "set ps \<subseteq> mm_live l m" and "set ps \<inter> set (pt_frames pt) = {}"
    and "\<forall>v \<in> set vs. vpn_ok v \<and> pt_abs m pt v \<noteq> None"
  shows "wp (unmap_loop vs area pt) (\<lambda>area' m'. area' = area\<lparr>data_frames := []\<rparr> \<and> mm_frames_inv l r m' \<and>
    pt_wf l m' pt \<and> (\<forall>v. vpn_ok v \<longrightarrow> pt_abs m' pt v = (if v \<in> set vs then None else pt_abs m pt v)) \<and>
    mm_live l m' = mm_live l m - set ps \<and> mm_free m' = mm_free m \<union> set ps \<and>
    (\<forall>q. q \<notin> page_index ` set (pt_frames pt) \<longrightarrow> memory m' q = memory m q)) m"
  using assms
proof (induction vs arbitrary: ps area m)
  case Nil
  then show ?case by (simp add: wp_simps)
next
  case (Cons v vs)
  from Cons.prems(5) obtain p qs where ps: "ps = p # qs" "length qs = length vs" by (auto simp: length_Suc_conv)
  obtain e where e: "pt_abs m pt v = Some e" using Cons.prems(10) by auto
  have "wp (unmap_one area pt v) (\<lambda>area' m'. area' = area\<lparr>data_frames := zip vs qs\<rparr> \<and> mm_frames_inv l r m' \<and>
      pt_wf l m' pt \<and> pt_abs m' pt = abs_update v None (pt_abs m pt) \<and> mm_live l m' = mm_live l m - {p} \<and>
      mm_free m' = insert p (mm_free m) \<and> (\<forall>q. q \<notin> page_index ` set (pt_frames pt) \<longrightarrow> memory m' q = memory m q)) m"
  proof (rule wp_unmap_one [OF Cons.prems(1-3) _ _ _ _ e])
    show "data_frames area = (v, p) # zip vs qs" using Cons.prems(4) ps by simp
    have "fst ` set (zip vs qs) \<subseteq> set vs" by (auto dest: set_zip_leftD)
    then show "v \<notin> fst ` set (zip vs qs)" using Cons.prems(6) by auto
    show "p \<in> mm_live l m" "p \<notin> set (pt_frames pt)" using Cons.prems(8,9) ps by auto
  qed
  then show ?case
    unfolding unmap_loop.simps wp_simps
  proof (rule wp_conseq)
    fix area1 m1
    assume m1: "area1 = area\<lparr>data_frames := zip vs qs\<rparr> \<and> mm_frames_inv l r m1 \<and> pt_wf l m1 pt \<and>
      pt_abs m1 pt = abs_update v None (pt_abs m pt) \<and> mm_live l m1 = mm_live l m - {p} \<and>
      mm_free m1 = insert p (mm_free m) \<and> (\<forall>q. q \<notin> page_index ` set (pt_frames pt) \<longrightarrow> memory m1 q = memory m q)"
    then have abs1: "pt_abs m1 pt u = (if u = v then None else pt_abs m pt u)" if "vpn_ok u" for u
      using that Cons.prems(10) by (simp add: abs_update_ok)
    have "wp (unmap_loop vs area1 pt) (\<lambda>area' m'. area' = area1\<lparr>data_frames := []\<rparr> \<and> mm_frames_inv l r m' \<and>
        pt_wf l m' pt \<and> (\<forall>v. vpn_ok v \<longrightarrow> pt_abs m' pt v = (if v \<in> set vs then None else pt_abs m1 pt v)) \<and>
        mm_live l m' = mm_live l m1 - set qs \<and> mm_free m' = mm_free m1 \<union> set qs \<and>
        (\<forall>q. q \<notin> page_index ` set (pt_frames pt) \<longrightarrow> memory m' q = memory m1 q)) m1"
    proof (rule Cons.IH)
      show "\<forall>u \<in> set vs. vpn_ok u \<and> pt_abs m1 pt u \<noteq> None"
        using Cons.prems(6,10) abs1 by (metis distinct.simps(2) list.set_intros(2))
      show "set qs \<subseteq> mm_live l m1" using Cons.prems(7,8) m1 ps(1) by auto
      show "set qs \<inter> set (pt_frames pt) = {}" using Cons.prems(9) ps(1) by auto
    qed (use Cons.prems(3,6,7) m1 ps in simp_all)
    then show "wp (unmap_loop vs area1 pt) (\<lambda>area' m'. area' = area\<lparr>data_frames := []\<rparr> \<and> mm_frames_inv l r m' \<and>
        pt_wf l m' pt \<and> (\<forall>u. vpn_ok u \<longrightarrow> pt_abs m' pt u = (if u \<in> set (v # vs) then None else pt_abs m pt u)) \<and>
        mm_live l m' = mm_live l m - set ps \<and> mm_free m' = mm_free m \<union> set ps \<and>
        (\<forall>q. q \<notin> page_index ` set (pt_frames pt) \<longrightarrow> memory m' q = memory m q)) m1"
    proof (rule wp_conseq, elim conjE, intro conjI)
      fix area' m'
      assume "\<forall>u. vpn_ok u \<longrightarrow> pt_abs m' pt u = (if u \<in> set vs then None else pt_abs m1 pt u)"
      then show "\<forall>u. vpn_ok u \<longrightarrow> pt_abs m' pt u = (if u \<in> set (v # vs) then None else pt_abs m pt u)"
        using abs1 by simp
    qed (use m1 ps(1) in auto)
  qed
qed

lemma find_area_Some: "find_area v as = Some i \<Longrightarrow> i < length as \<and> get_start (vpn_range (as ! i)) = v"
  by (induction as arbitrary: i) (auto split: if_splits)

lemma find_area_last:
  "\<forall>b \<in> set as. get_start (vpn_range b) \<noteq> v \<Longrightarrow> get_start (vpn_range a) = v \<Longrightarrow>
   find_area v (as @ [a]) = Some (length as)"
  by (induction as) auto

definition without_area :: "memory_set \<Rightarrow> nat \<Rightarrow> memory_set" where
  "without_area ms i = ms\<lparr>areas := take i (areas ms) @ drop (Suc i) (areas ms)\<rparr>"

lemma areas_split: "i < length (areas ms) \<Longrightarrow> areas ms = take i (areas ms) @ areas ms ! i # drop (Suc i) (areas ms)"
  by (rule id_take_nth_drop)

lemma without_area_facts:
  assumes "i < length (areas ms)"
  shows "set (ms_data (without_area ms i)) \<union> set (area_data (areas ms ! i)) = set (ms_data ms)"
    and "distinct (ms_frames ms) \<Longrightarrow> distinct (ms_frames (without_area ms i)) \<and>
      set (ms_data (without_area ms i)) \<inter> set (area_data (areas ms ! i)) = {} \<and>
      distinct (area_data (areas ms ! i)) \<and> set (area_data (areas ms ! i)) \<inter> set (pt_frames (ms_page_table ms)) = {}"
    and "distinct (ms_vpns ms) \<Longrightarrow> distinct (ms_vpns (without_area ms i)) \<and>
      set (ms_vpns (without_area ms i)) \<inter> set (range_vpns (vpn_range (areas ms ! i))) = {}"
    and "set (areas (without_area ms i)) \<subseteq> set (areas ms)"
proof -
  note split = areas_split [OF assms]
  have data: "ms_data ms = concat (map area_data (take i (areas ms))) @ area_data (areas ms ! i) @
      concat (map area_data (drop (Suc i) (areas ms)))"
    unfolding ms_data_def by (subst split) simp
  have vpns: "ms_vpns ms = concat (map (\<lambda>a. range_vpns (vpn_range a)) (take i (areas ms))) @
      range_vpns (vpn_range (areas ms ! i)) @ concat (map (\<lambda>a. range_vpns (vpn_range a)) (drop (Suc i) (areas ms)))"
    unfolding ms_vpns_def by (subst split) simp
  show "set (ms_data (without_area ms i)) \<union> set (area_data (areas ms ! i)) = set (ms_data ms)"
    unfolding data by (auto simp: ms_data_def without_area_def)
  show "distinct (ms_frames (without_area ms i)) \<and> set (ms_data (without_area ms i)) \<inter> set (area_data (areas ms ! i)) = {} \<and>
      distinct (area_data (areas ms ! i)) \<and> set (area_data (areas ms ! i)) \<inter> set (pt_frames (ms_page_table ms)) = {}"
    if "distinct (ms_frames ms)"
    using that unfolding ms_frames_def data by (auto simp: ms_data_def without_area_def ms_frames_def)
  show "distinct (ms_vpns (without_area ms i)) \<and> set (ms_vpns (without_area ms i)) \<inter> set (range_vpns (vpn_range (areas ms ! i))) = {}"
    if "distinct (ms_vpns ms)"
    using that unfolding vpns by (auto simp: ms_vpns_def without_area_def)
  show "set (areas (without_area ms i)) \<subseteq> set (areas ms)"
    by (auto simp: without_area_def dest: in_set_takeD in_set_dropD)
qed

lemma area_ok_zip:
  assumes "area_ok m pt a" and "map_type a = Framed"
  shows "data_frames a = zip (range_vpns (vpn_range a)) (area_data a)"
  using assms by (simp add: area_ok_def area_data_def) (metis zip_map_fst_snd)

lemma wp_remove_area:
  assumes inv: "mm_frames_inv l r m" and wf: "ms_wf l m ms" and find: "find_area v (areas ms) = Some i"
    and framed: "map_type (areas ms ! i) = Framed"
  shows "wp (remove_area_with_start_vpn ms v) (\<lambda>ms' m'. ms' = without_area ms i \<and> mm_frames_inv l r m' \<and>
    ms_wf l m' ms' \<and> mm_live l m' = mm_live l m - set (area_data (areas ms ! i)) \<and>
    mm_free m' = mm_free m \<union> set (area_data (areas ms ! i)) \<and>
    (\<forall>v. vpn_ok v \<longrightarrow> pt_abs m' (ms_page_table ms) v =
       (if v \<in> set (range_vpns (vpn_range (areas ms ! i))) then None else pt_abs m (ms_page_table ms) v)) \<and>
    (\<forall>q. q \<notin> page_index ` set (pt_frames (ms_page_table ms)) \<longrightarrow> memory m' q = memory m q)) m"
proof -
  let ?a = "areas ms ! i" and ?pt = "ms_page_table ms"
  let ?vs = "range_vpns (vpn_range ?a)"
  have i: "i < length (areas ms)" using find_area_Some [OF find] by simp
  note facts = without_area_facts [OF i]
  have ok: "area_ok m ?pt ?a" using wf i by (simp add: ms_wf_def)
  have dist: "distinct (ms_frames ms)" "distinct (ms_vpns ms)" "set (ms_data ms) \<subseteq> mm_live l m"
    using wf by (simp_all add: ms_wf_def)
  have "distinct (area_data ?a)" "set (area_data ?a) \<inter> set (pt_frames ?pt) = {}"
    using facts(2) [OF dist(1)] by simp_all
  then have "wp (unmap_loop ?vs ?a ?pt) (\<lambda>area' m'. area' = ?a\<lparr>data_frames := []\<rparr> \<and> mm_frames_inv l r m' \<and>
      pt_wf l m' ?pt \<and> (\<forall>v. vpn_ok v \<longrightarrow> pt_abs m' ?pt v = (if v \<in> set ?vs then None else pt_abs m ?pt v)) \<and>
      mm_live l m' = mm_live l m - set (area_data ?a) \<and> mm_free m' = mm_free m \<union> set (area_data ?a) \<and>
      (\<forall>q. q \<notin> page_index ` set (pt_frames ?pt) \<longrightarrow> memory m' q = memory m q)) m"
  proof (intro wp_unmap_loop)
    show "\<forall>v \<in> set ?vs. vpn_ok v \<and> pt_abs m ?pt v \<noteq> None"
      using ok in_range_vpns_ok by (auto simp: area_ok_def elim: area_ok_mapped [OF ok])
    show "distinct ?vs" using ok by (auto simp: area_ok_def range_ok_def intro: distinct_range_vpns)
    show "set (area_data ?a) \<subseteq> mm_live l m" using facts(1) dist(3) by blast
  qed (use inv wf framed area_ok_zip [OF ok framed] area_data_nth(1) [OF ok framed] in \<open>simp_all add: ms_wf_def\<close>)
  moreover have "ms_wf l m' (without_area ms i)"
    if m': "pt_wf l m' ?pt" "\<forall>v. vpn_ok v \<longrightarrow> pt_abs m' ?pt v = (if v \<in> set ?vs then None else pt_abs m ?pt v)"
      "mm_live l m' = mm_live l m - set (area_data ?a)" for m'
  proof -
    have "area_ok m' ?pt b" if b: "b \<in> set (areas (without_area ms i))" for b
    proof (rule area_ok_same)
      show b_ok: "area_ok m ?pt b" using wf b facts(4) by (auto simp: ms_wf_def)
      fix v
      assume v: "v \<in> set (range_vpns (vpn_range b))"
      then have "v \<in> set (ms_vpns (without_area ms i))" using b by (auto simp: ms_vpns_def)
      then have "v \<notin> set ?vs" using facts(3) [OF dist(2)] by blast
      then show "pt_abs m' ?pt v = pt_abs m ?pt v"
        using m'(2) v in_range_vpns_ok b_ok by (auto simp: area_ok_def)
    qed
    moreover have "set (ms_data (without_area ms i)) \<subseteq> mm_live l m'"
      using facts(1) facts(2) [OF dist(1)] dist(3) m'(3) by blast
    moreover have "ms_page_table (without_area ms i) = ?pt" by (simp add: without_area_def)
    ultimately show ?thesis
      using m'(1) facts(2) [OF dist(1)] facts(3) [OF dist(2)] by (simp add: ms_wf_def)
  qed
  ultimately show ?thesis
    unfolding remove_area_with_start_vpn_def find option.case MapArea_unmap_def wp_simps
    by (elim wp_conseq) (simp add: MapArea_drop_def wp_simps without_area_def)
qed

section \<open>Areas by address\<close>

lemma in_range_vpns_iff:
  assumes "range_l rng \<le> range_r rng"
  shows "v \<in> set (range_vpns rng) \<longleftrightarrow> range_l rng \<le> v \<and> v < range_r rng"
proof
  assume "v \<in> set (range_vpns rng)"
  then obtain i where "i < length (range_vpns rng)" "v = range_vpns rng ! i" by (auto simp: in_set_conv_nth)
  then have "unat (vpn_0 v) = unat (vpn_0 (range_l rng)) + i" "i < unat (vpn_0 (range_r rng)) - unat (vpn_0 (range_l rng))"
    using nth_range_vpns [OF assms] length_range_vpns [OF assms] by auto
  then show "range_l rng \<le> v \<and> v < range_r rng"
    by (simp add: less_eq_virt_page_num_def less_virt_page_num_def word_le_nat_alt word_less_nat_alt)
next
  assume v: "range_l rng \<le> v \<and> v < range_r rng"
  let ?i = "unat (vpn_0 v) - unat (vpn_0 (range_l rng))"
  have i: "?i < length (range_vpns rng)"
    using v length_range_vpns [OF assms] diff_less_mono
    by (simp add: less_eq_virt_page_num_def less_virt_page_num_def word_le_nat_alt word_less_nat_alt)
  then have "unat (vpn_0 (range_vpns rng ! ?i)) = unat (vpn_0 v)"
    using nth_range_vpns [OF assms i] v by (simp add: less_eq_virt_page_num_def word_le_nat_alt)
  then have "range_vpns rng ! ?i = v" by (intro virt_page_num.expand) (simp add: word_unat_eq_iff)
  then show "v \<in> set (range_vpns rng)" using i nth_mem by metis
qed

definition new_area :: "virt_addr \<Rightarrow> virt_addr \<Rightarrow> map_type \<Rightarrow> map_permission \<Rightarrow> map_area" where
  "new_area s e mt mp = \<lparr>vpn_range = \<lparr>range_l = VirtAddr_floor s, range_r = VirtAddr_ceil e\<rparr>,
     data_frames = [], map_type = mt, map_perm = mp\<rparr>"

lemma MapArea_new_ok:
  assumes "unat (va_0 s) \<le> unat (va_0 e)" and "unat (va_0 e) < 2 ^ 39"
  shows "MapArea_new s e mt mp = ret (new_area s e mt mp)" and "range_ok (vpn_range (new_area s e mt mp))"
proof -
  have ceil: "unat (vpn_0 (VirtAddr_ceil e)) = (unat (va_0 e) + 4095) div 4096"
    using assms(2) by (intro unat_ceil) simp
  have "unat (va_0 s) div 4096 \<le> (unat (va_0 e) + 4095) div 4096"
    using assms(1) by (intro div_le_mono) simp
  then have le: "VirtAddr_floor s \<le> VirtAddr_ceil e"
    by (simp add: less_eq_virt_page_num_def word_le_nat_alt ceil)
  then show "MapArea_new s e mt mp = ret (new_area s e mt mp)"
    by (simp add: MapArea_new_def new_area_def VPNRange_new_def Let_def fun_eq_iff action_defs)
  have "(unat (va_0 e) + 4095) div 4096 \<le> 2 ^ 27" using assms(2) by simp
  then show "range_ok (vpn_range (new_area s e mt mp))"
    using le by (simp add: new_area_def range_ok_def ceil)
qed

definition area_pages :: "virt_addr \<Rightarrow> virt_addr \<Rightarrow> nat" where
  "area_pages s e = unat (vpn_0 (VirtAddr_ceil e)) - unat (vpn_0 (VirtAddr_floor s))"

lemma in_new_area_iff:
  assumes "unat (va_0 s) \<le> unat (va_0 e)" and "unat (va_0 e) < 2 ^ 39"
  shows "v \<in> set (range_vpns (vpn_range (new_area s e mt mp))) \<longleftrightarrow> VirtAddr_floor s \<le> v \<and> v < VirtAddr_ceil e"
    and "length (range_vpns (vpn_range (new_area s e mt mp))) = area_pages s e"
  using MapArea_new_ok(2) [OF assms, of mt mp] in_range_vpns_iff [of "vpn_range (new_area s e mt mp)"]
    length_range_vpns [of "vpn_range (new_area s e mt mp)"]
  by (auto simp: range_ok_def new_area_def area_pages_def)

lemma wp_insert_framed_area:
  assumes inv: "mm_frames_inv l r m" and wf: "ms_wf l m ms"
    and se: "unat (va_0 s) \<le> unat (va_0 e)" "unat (va_0 e) < 2 ^ 39"
    and none: "\<And>v. VirtAddr_floor s \<le> v \<Longrightarrow> v < VirtAddr_ceil e \<Longrightarrow> pt_abs m (ms_page_table ms) v = None"
    and free: "3 * area_pages s e \<le> card (mm_free m)"
  shows "area_fresh m ms (new_area s e Framed perm)" (is ?fresh)
    and "wp (insert_framed_area ms s e perm) (\<lambda>ms' m'. \<exists>ps. push_post l r m ms (new_area s e Framed perm) ps ms' m' \<and>
      mm_frames_inv l r m' \<and> ms_wf l m' ms') m"
proof -
  show fresh: ?fresh
    unfolding area_fresh_def using MapArea_new_ok(2) [OF se] in_new_area_iff(1) [OF se] none
    by (auto simp: new_area_def)
  show "wp (insert_framed_area ms s e perm) (\<lambda>ms' m'. \<exists>ps. push_post l r m ms (new_area s e Framed perm) ps ms' m' \<and>
      mm_frames_inv l r m' \<and> ms_wf l m' ms') m"
    unfolding insert_framed_area_def MapArea_new_ok(1) [OF se] wp_simps
    using free in_new_area_iff(2) [OF se] by (intro wp_MemorySet_push [OF inv wf fresh]) simp
qed

section \<open>Properties\<close>

text \<open>The small machine of the witnesses has 17 free frames; a first address space in it.\<close>

lemma tiny_free: "17 \<le> card (mm_free tiny_mm)"
proof -
  have "inj_on (\<lambda>n. PhysPageNum (word_of_nat n)) {3..<20 :: nat}"
    by (rule inj_onI) (auto simp: word_unat_eq_iff unat_of_nat)
  then have "card ((\<lambda>n. PhysPageNum (word_of_nat n)) ` {3..<20 :: nat}) = 17" by (simp add: card_image)
  moreover have "(\<lambda>n. PhysPageNum (word_of_nat n)) ` {3..<20 :: nat} \<subseteq> mm_free tiny_mm"
    by (auto simp: tiny_mm_def fa_free_def unat_of_nat)
  ultimately show ?thesis by (metis card_mono fa_live_finite)
qed

lemma created_free:
  assumes "space_created l r m ms m'"
  shows "card (mm_free m) \<le> card (mm_free m') + length (ms_frames ms)"
proof -
  have "mm_free m \<subseteq> mm_free m' \<union> set (ms_frames ms)" using assms by (auto simp: space_created_def)
  then have "card (mm_free m) \<le> card (mm_free m' \<union> set (ms_frames ms))" by (intro card_mono) simp_all
  also have "\<dots> \<le> card (mm_free m') + card (set (ms_frames ms))" by (rule card_Un_le)
  finally show ?thesis using card_length [of "ms_frames ms"] by linarith
qed

lemma tiny_space:
  obtains ms m where "bnd MemorySet_new_bare (map_trampoline 0x80200000) tiny_mm = Inr (ms, m)"
    and "space_created 2 20 tiny_mm ms m" and "areas ms = []" and "tramp_only m ms"
    and "14 \<le> card (mm_free m)" and "length (ms_frames ms) \<le> 3"
proof -
  have "memory_ok tiny_mm" using tiny_ok(2) by (simp add: pt_wf_def)
  moreover have "page_aligned 0x80200000" by (simp add: page_aligned_def)
  moreover have "3 \<le> card (mm_free tiny_mm)" using tiny_free by simp
  ultimately have "wp (bnd MemorySet_new_bare (map_trampoline 0x80200000)) (\<lambda>ms m'. space_created 2 20 tiny_mm ms m' \<and>
      areas ms = [] \<and> length (ms_frames ms) \<le> 3 \<and> tramp_only m' ms) tiny_mm"
    using wp_new_space [OF tiny_ok(1)] by blast
  then obtain ms m where run: "bnd MemorySet_new_bare (map_trampoline 0x80200000) tiny_mm = Inr (ms, m)"
      "space_created 2 20 tiny_mm ms m" "areas ms = []" "length (ms_frames ms) \<le> 3" "tramp_only m ms"
    by (auto simp: wp_iff)
  moreover have "14 \<le> card (mm_free m)" using created_free [OF run(2)] run(4) tiny_free by simp
  ultimately show ?thesis using that by blast
qed

lemma tiny_range:
  "unat (va_0 (VirtAddr 0x10000)) \<le> unat (va_0 (VirtAddr 0x10800))" "unat (va_0 (VirtAddr 0x10800)) < 2 ^ 39"
  "VirtAddr_floor (VirtAddr 0x10000) = VirtPageNum 0x10" "VirtAddr_ceil (VirtAddr 0x10800) = VirtPageNum 0x11"
  "area_pages (VirtAddr 0x10000) (VirtAddr 0x10800) = 1"
  by (simp_all add: area_pages_def VirtAddr_floor_def VirtAddr_ceil_def PAGE_SIZE_def)

lemma tiny_range_iff: "VirtPageNum 0x10 \<le> v \<and> v < VirtPageNum 0x11 \<longleftrightarrow> v = VirtPageNum 0x10"
proof
  assume "VirtPageNum 0x10 \<le> v \<and> v < VirtPageNum 0x11"
  then have "unat (vpn_0 v) = 0x10"
    by (simp add: less_eq_virt_page_num_def less_virt_page_num_def word_le_nat_alt word_less_nat_alt)
  then show "v = VirtPageNum 0x10" by (intro virt_page_num.expand) (simp add: word_unat_eq_iff)
qed (simp add: less_eq_virt_page_num_def less_virt_page_num_def)

lemma tiny_unmapped:
  assumes "tramp_only m ms" and "areas ms = []" and "VirtAddr_floor (VirtAddr 0x10000) \<le> v"
    and "v < VirtAddr_ceil (VirtAddr 0x10800)"
  shows "pt_abs m (ms_page_table ms) v = None"
proof -
  have "v = VirtPageNum 0x10" using assms(3,4) tiny_range_iff [of v] unfolding tiny_range(3,4) by blast
  then have "vpn_ok v" "v \<noteq> TRAMPOLINE_VPN" by (simp_all add: TRAMPOLINE_VPN_def)
  then show ?thesis using assms(1,2) by (simp add: tramp_only_def ms_vpns_def)
qed

text \<open>
  C29: Inserting a framed area whose pages are unmapped, with frames enough, succeeds. Every
  page from the floor of the start to the ceiling of the end is then mapped, with the
  permission given, to a frame that was free and is filled with zeros; every other
  translation is as before; and the address space is well formed: its areas do not overlap
  and no frame is used twice.
\<close>

theorem insert_framed_area_maps:
  assumes "mm_frames_inv l r m" and "ms_wf l m ms"
    and "unat (va_0 s) \<le> unat (va_0 e)" and "unat (va_0 e) < 2 ^ 39"
    and "\<And>v. VirtAddr_floor s \<le> v \<Longrightarrow> v < VirtAddr_ceil e \<Longrightarrow> pt_abs m (ms_page_table ms) v = None"
    and "3 * area_pages s e \<le> card (mm_free m)"
  shows "wp (insert_framed_area ms s e perm) (\<lambda>ms' m'. mm_frames_inv l r m' \<and> ms_wf l m' ms' \<and>
      (\<forall>v. VirtAddr_floor s \<le> v \<and> v < VirtAddr_ceil e \<longrightarrow> (\<exists>p \<in> mm_free m.
         pt_abs m' (ms_page_table ms') v = Some (PageTableEntry_new p (perm OR PTE_V)) \<and>
         get_bytes_array m' p = replicate 4096 0)) \<and>
      (\<forall>v. unat (vpn_0 v) < 2 ^ 27 \<and> \<not> (VirtAddr_floor s \<le> v \<and> v < VirtAddr_ceil e) \<longrightarrow>
         pt_abs m' (ms_page_table ms') v = pt_abs m (ms_page_table ms) v)) m"
proof (rule wp_conseq)
  show "wp (insert_framed_area ms s e perm) (\<lambda>ms' m'. \<exists>ps. push_post l r m ms (new_area s e Framed perm) ps ms' m' \<and>
      mm_frames_inv l r m' \<and> ms_wf l m' ms') m"
    using assms by (rule wp_insert_framed_area(2))
  fix ms' m'
  assume "\<exists>ps. push_post l r m ms (new_area s e Framed perm) ps ms' m' \<and> mm_frames_inv l r m' \<and> ms_wf l m' ms'"
  then obtain ps where post: "push_post l r m ms (new_area s e Framed perm) ps ms' m'"
    and m': "mm_frames_inv l r m'" "ms_wf l m' ms'" by blast
  let ?a = "new_area s e Framed perm"
  let ?vs = "range_vpns (vpn_range ?a)"
  note iff = in_new_area_iff(1) [OF assms(3,4), of _ Framed perm]
  have ok: "vpn_ok v" if "v \<in> set ?vs" for v
    using in_range_vpns_ok [OF MapArea_new_ok(2) [OF assms(3,4)] that] .
  have len: "length ps = length ?vs" using post by (simp add: push_post_def targets_ok_def)
  have ps: "set ps \<subseteq> mm_free m" "\<forall>p \<in> set ps. get_bytes_array m' p = replicate 4096 0"
    using post by (auto simp: push_post_def space_grown_def area_frames_def new_area_def)
  have abs: "pt_abs m' (ms_page_table ms') v = abs_mapped ?a ?vs ps (pt_abs m (ms_page_table ms)) v" if "vpn_ok v" for v
    using post that by (simp add: push_post_def)
  have "\<exists>p \<in> mm_free m. pt_abs m' (ms_page_table ms') v = Some (PageTableEntry_new p (perm OR PTE_V)) \<and>
      get_bytes_array m' p = replicate 4096 0" if v: "v \<in> set ?vs" for v
  proof -
    obtain p where p: "map_of (zip ?vs ps) v = Some p" using v len by (metis map_of_zip_is_Some)
    then have "p \<in> set ps" by (metis in_set_zipE map_of_SomeD)
    then show ?thesis using abs [OF ok [OF v]] p ps by (auto simp: abs_mapped_def area_pte_def new_area_def)
  qed
  moreover have "pt_abs m' (ms_page_table ms') v = pt_abs m (ms_page_table ms) v" if "vpn_ok v" "v \<notin> set ?vs" for v
    using abs [OF that(1)] abs_mapped_outside [OF len that(2)] by simp
  ultimately show "mm_frames_inv l r m' \<and> ms_wf l m' ms' \<and>
      (\<forall>v. VirtAddr_floor s \<le> v \<and> v < VirtAddr_ceil e \<longrightarrow> (\<exists>p \<in> mm_free m.
         pt_abs m' (ms_page_table ms') v = Some (PageTableEntry_new p (perm OR PTE_V)) \<and>
         get_bytes_array m' p = replicate 4096 0)) \<and>
      (\<forall>v. unat (vpn_0 v) < 2 ^ 27 \<and> \<not> (VirtAddr_floor s \<le> v \<and> v < VirtAddr_ceil e) \<longrightarrow>
         pt_abs m' (ms_page_table ms') v = pt_abs m (ms_page_table ms) v)"
    using m' unfolding iff by blast
qed

theorem insert_framed_area_maps_witness:
  "wp (bnd (bnd MemorySet_new_bare (map_trampoline 0x80200000))
        (\<lambda>ms. insert_framed_area ms (VirtAddr 0x10000) (VirtAddr 0x10800) (MP_R OR MP_U)))
     (\<lambda>ms' m'. ms_wf 2 m' ms' \<and> (\<exists>p. pt_abs m' (ms_page_table ms') (VirtPageNum 0x10) =
        Some (PageTableEntry_new p (MP_R OR MP_U OR PTE_V)))) tiny_mm"
proof (rule tiny_space)
  fix ms m
  assume run: "bnd MemorySet_new_bare (map_trampoline 0x80200000) tiny_mm = Inr (ms, m)"
    and created: "space_created 2 20 tiny_mm ms m" and ms: "tramp_only m ms" "areas ms = []" and free: "14 \<le> card (mm_free m)"
  have m: "mm_frames_inv 2 20 m" "ms_wf 2 m ms" using created by (simp_all add: space_created_def)
  have "3 * area_pages (VirtAddr 0x10000) (VirtAddr 0x10800) \<le> card (mm_free m)" using free by (simp add: tiny_range)
  from insert_framed_area_maps [OF m tiny_range(1,2) tiny_unmapped [OF ms] this, of "MP_R OR MP_U"]
  have "wp (insert_framed_area ms (VirtAddr 0x10000) (VirtAddr 0x10800) (MP_R OR MP_U))
      (\<lambda>ms' m'. ms_wf 2 m' ms' \<and> (\<exists>p. pt_abs m' (ms_page_table ms') (VirtPageNum 0x10) =
        Some (PageTableEntry_new p (MP_R OR MP_U OR PTE_V)))) m"
    by (rule wp_conseq) (use tiny_range_iff in \<open>auto simp: tiny_range(3,4) or.assoc\<close>)
  then show ?thesis using run by (simp only: wp_bnd [of "bnd _ _"] wp_Inr)
qed

text \<open>
  C30: Inserting a framed area (as for the kernel stack of a new process) and removing it by
  its start page gives all its data frames back: the translations, the areas and the data
  frames are those from before, and only frames of page tables remain taken.
\<close>

theorem insert_remove_restores:
  assumes "mm_frames_inv l r m" and "ms_wf l m ms"
    and "unat (va_0 s) \<le> unat (va_0 e)" and "unat (va_0 e) < 2 ^ 39"
    and "\<And>v. VirtAddr_floor s \<le> v \<Longrightarrow> v < VirtAddr_ceil e \<Longrightarrow> pt_abs m (ms_page_table ms) v = None"
    and "3 * area_pages s e \<le> card (mm_free m)"
    and "\<forall>a \<in> set (areas ms). get_start (vpn_range a) \<noteq> VirtAddr_floor s"
  shows "wp (bnd (insert_framed_area ms s e perm) (\<lambda>ms. remove_area_with_start_vpn ms (VirtAddr_floor s)))
    (\<lambda>ms' m'. ms_wf l m' ms' \<and> areas ms' = areas ms \<and>
      (\<forall>v. unat (vpn_0 v) < 2 ^ 27 \<longrightarrow> pt_abs m' (ms_page_table ms') v = pt_abs m (ms_page_table ms) v) \<and>
      (\<exists>tables. pt_frames (ms_page_table ms') = pt_frames (ms_page_table ms) @ tables \<and>
         mm_live l m' = mm_live l m \<union> set tables \<and> mm_free m' = mm_free m - set tables)) m"
  unfolding wp_bnd
proof (rule wp_conseq)
  let ?a = "new_area s e Framed perm"
  let ?vs = "range_vpns (vpn_range ?a)"
  have fresh: "area_fresh m ms ?a" using assms(1-6) by (rule wp_insert_framed_area(1))
  show "wp (insert_framed_area ms s e perm) (\<lambda>ms' m'. \<exists>ps. push_post l r m ms ?a ps ms' m' \<and>
      mm_frames_inv l r m' \<and> ms_wf l m' ms') m"
    using assms(1-6) by (rule wp_insert_framed_area(2))
  fix ms1 m1
  assume "\<exists>ps. push_post l r m ms ?a ps ms1 m1 \<and> mm_frames_inv l r m1 \<and> ms_wf l m1 ms1"
  then obtain ps where post: "push_post l r m ms ?a ps ms1 m1" and m1: "mm_frames_inv l r m1" "ms_wf l m1 ms1" by blast
  have areas1: "areas ms1 = areas ms @ [area_mapped ?a ?vs ps]" using post by (simp add: push_post_def)
  have "find_area (VirtAddr_floor s) (areas ms1) = Some (length (areas ms))"
    unfolding areas1 using assms(7) by (intro find_area_last) (simp_all add: new_area_def get_start_def)
  note remove = wp_remove_area [OF m1 this]
  have last: "areas ms1 ! length (areas ms) = area_mapped ?a ?vs ps" by (simp add: areas1)
  have data: "area_data (area_mapped ?a ?vs ps) = ps"
    using area_data_mapped [of ?a ps] post by (simp add: push_post_def area_frames_def new_area_def)
  obtain new where new: "pt_frames (ms_page_table ms1) = pt_frames (ms_page_table ms) @ new" "distinct (new @ ps)"
      "set (new @ ps) \<subseteq> mm_free m" "mm_live l m1 = mm_live l m \<union> set (new @ ps)" "mm_free m1 = mm_free m - set (new @ ps)"
    using post unfolding push_post_def by (auto elim: space_grown_new simp: area_frames_def new_area_def)
  have sep: "set ps \<inter> mm_live l m = {}" "set ps \<inter> set new = {}" using new mm_frames.disjoint [OF assms(1)] by auto
  have none: "pt_abs m (ms_page_table ms) v = None" if "v \<in> set ?vs" for v using fresh that by (simp add: area_fresh_def)
  have same: "pt_abs m1 (ms_page_table ms1) v = pt_abs m (ms_page_table ms) v" if "vpn_ok v" "v \<notin> set ?vs" for v
    using post that abs_mapped_outside [of ps ?vs v] by (simp add: push_post_def targets_ok_def)
  show "wp (remove_area_with_start_vpn ms1 (VirtAddr_floor s)) (\<lambda>ms' m'. ms_wf l m' ms' \<and> areas ms' = areas ms \<and>
      (\<forall>v. vpn_ok v \<longrightarrow> pt_abs m' (ms_page_table ms') v = pt_abs m (ms_page_table ms) v) \<and>
      (\<exists>tables. pt_frames (ms_page_table ms') = pt_frames (ms_page_table ms) @ tables \<and>
         mm_live l m' = mm_live l m \<union> set tables \<and> mm_free m' = mm_free m - set tables)) m1"
  proof (rule wp_conseq [OF remove], goal_cases)
    case 1
    show ?case by (simp add: last) (simp add: new_area_def)
  next
    case (2 ms' m')
    have pg: "ms_page_table ms' = ms_page_table ms1" "areas ms' = areas ms"
      using conjunct1 [OF 2] by (simp_all add: without_area_def areas1)
    have h: "\<forall>v. vpn_ok v \<longrightarrow> pt_abs m' (ms_page_table ms1) v =
        (if v \<in> set ?vs then None else pt_abs m1 (ms_page_table ms1) v)"
        "mm_live l m' = mm_live l m1 - set ps" "mm_free m' = mm_free m1 \<union> set ps"
      using 2 by (simp_all add: last data)
    have "ms_wf l m' ms'" using 2 by blast
    have "pt_abs m' (ms_page_table ms') v = pt_abs m (ms_page_table ms) v" if "vpn_ok v" for v
      using h(1) that none same pg(1) by simp
    moreover have "mm_live l m' = mm_live l m \<union> set new" "mm_free m' = mm_free m - set new"
      using h(2,3) new(3-5) sep by auto
    ultimately show ?case using \<open>ms_wf l m' ms'\<close> pg new(1) by auto
  qed
qed

theorem insert_remove_restores_witness:
  "wp (bnd (bnd MemorySet_new_bare (map_trampoline 0x80200000))
        (\<lambda>ms. bnd (insert_framed_area ms (VirtAddr 0x10000) (VirtAddr 0x10800) (MP_R OR MP_W))
          (\<lambda>ms. remove_area_with_start_vpn ms (VirtPageNum 0x10))))
     (\<lambda>ms' m'. ms_wf 2 m' ms' \<and> areas ms' = []) tiny_mm"
proof (rule tiny_space)
  fix ms m
  assume run: "bnd MemorySet_new_bare (map_trampoline 0x80200000) tiny_mm = Inr (ms, m)"
    and created: "space_created 2 20 tiny_mm ms m" and ms: "tramp_only m ms" "areas ms = []" and free: "14 \<le> card (mm_free m)"
  have m: "mm_frames_inv 2 20 m" "ms_wf 2 m ms" using created by (simp_all add: space_created_def)
  have pages: "3 * area_pages (VirtAddr 0x10000) (VirtAddr 0x10800) \<le> card (mm_free m)" using free by (simp add: tiny_range)
  have "\<forall>a \<in> set (areas ms). get_start (vpn_range a) \<noteq> VirtAddr_floor (VirtAddr 0x10000)" by (simp add: ms(2))
  from insert_remove_restores [OF m tiny_range(1,2) tiny_unmapped [OF ms] pages this, of "MP_R OR MP_W"]
  have "wp (bnd (insert_framed_area ms (VirtAddr 0x10000) (VirtAddr 0x10800) (MP_R OR MP_W))
      (\<lambda>ms. remove_area_with_start_vpn ms (VirtPageNum 0x10))) (\<lambda>ms' m'. ms_wf 2 m' ms' \<and> areas ms' = []) m"
    unfolding tiny_range(3) by (rule wp_conseq) (use ms(2) in auto)
  then show ?thesis using run by (simp only: wp_bnd [of "bnd _ _"] wp_Inr)
qed

text \<open>
  C31: Pushing a framed area together with data (a segment of an ELF file) that fits into it
  gives a memory image whose bytes, as the user program reads them from the start of the
  area on, are the data followed by zeros up to the end of the last page.
\<close>

theorem push_loads_data:
  assumes "mm_frames_inv l r m" and "ms_wf l m ms" and "area_fresh m ms area" and "map_type area = Framed"
    and "3 * length (range_vpns (vpn_range area)) \<le> card (mm_free m)"
    and "length data \<le> 4096 * length (range_vpns (vpn_range area))" and "range_vpns (vpn_range area) \<noteq> []"
  shows "wp (MemorySet_push ms area (Some data)) (\<lambda>ms' m'. ms_wf l m' ms' \<and>
    (\<forall>k < 4096 * length (range_vpns (vpn_range area)).
       user_byte m' (ms_page_table ms') (unat (vpn_0 (range_l (vpn_range area))) * 4096 + k) =
         Some (if k < length data then data ! k else 0))) m"
proof (rule wp_conseq [OF wp_MemorySet_push_data [OF assms(1,2,3,5,4,6,7)]], elim exE conjE)
  fix ms' m' ps m1
  let ?vs = "range_vpns (vpn_range area)" and ?s = "unat (vpn_0 (range_l (vpn_range area)))"
  assume post: "push_post l r m ms area ps ms' m1" and only: "only_pages (set ps) m1 m'"
    and m': "ms_wf l m' ms'" "mm_frames_inv l r m'"
    and pages: "\<forall>i < length ps. get_bytes_array m' (ps ! i) = padded_page data (4096 * i)"
  note f = push_post_framed [OF post assms(3,1,2,4)]
  have abs: "pt_abs m' (ms_page_table ms') = pt_abs m1 (ms_page_table ms')"
    using push_post_wf [OF post assms(3,1,2)] only f(2,3) by (intro pt_wf_only_pages(2)) (auto simp: ms_wf_def)
  have "user_byte m' (ms_page_table ms') (?s * 4096 + k) = Some (if k < length data then data ! k else 0)"
    if k: "k < 4096 * length ?vs" for k
  proof -
    have i: "k div 4096 < length ps" using k f(5) by (simp add: less_mult_imp_div_less mult.commute)
    have "(?s * 4096 + k) div 4096 = ?s + k div 4096" "(?s * 4096 + k) mod 4096 = k mod 4096" by simp_all
    moreover have "VirtPageNum (word_of_nat (?s + k div 4096)) = VirtPageNum (vpn_0 (get_start (vpn_range area)) + word_of_nat (k div 4096))"
      by (simp add: get_start_def)
    ultimately have "user_byte m' (ms_page_table ms') (?s * 4096 + k) = Some (get_bytes_array m' (ps ! (k div 4096)) ! (k mod 4096))"
      using f(2,6) i by (subst user_byte_pt_abs [where area = area and p = "ps ! (k div 4096)"]) (simp_all add: abs)
    also have "get_bytes_array m' (ps ! (k div 4096)) ! (k mod 4096) = (drop (4096 * (k div 4096)) data @ replicate 4096 0) ! (k mod 4096)"
      using pages i by (simp add: nth_padded_page)
    also have "\<dots> = (if k < length data then data ! k else 0)"
    proof (cases "k < length data")
      case True
      then have "k mod 4096 < length data - 4096 * (k div 4096)"
        using mult_div_mod_eq [of 4096 k] by linarith
      then show ?thesis using True mult_div_mod_eq [of 4096 k] by (simp add: nth_append)
    next
      case False
      then have "\<not> k mod 4096 < length data - 4096 * (k div 4096)"
        using mult_div_mod_eq [of 4096 k] by linarith
      moreover have "k mod 4096 - (length data - 4096 * (k div 4096)) < 4096" by (meson less_imp_diff_less mod_less_divisor zero_less_numeral)
      ultimately show ?thesis using False by (simp add: nth_append)
    qed
    finally show ?thesis .
  qed
  then show "ms_wf l m' ms' \<and> (\<forall>k < 4096 * length ?vs. user_byte m' (ms_page_table ms') (?s * 4096 + k) =
      Some (if k < length data then data ! k else 0))"
    using m' by blast
qed

theorem push_loads_data_witness:
  "wp (bnd (bnd MemorySet_new_bare (map_trampoline 0x80200000))
        (\<lambda>ms. MemorySet_push ms (new_area (VirtAddr 0x10000) (VirtAddr 0x10800) Framed (MP_R OR MP_U)) (Some [1, 2, 3])))
     (\<lambda>ms' m'. user_byte m' (ms_page_table ms') 0x10002 = Some 3 \<and> user_byte m' (ms_page_table ms') 0x10003 = Some 0) tiny_mm"
proof (rule tiny_space)
  fix ms m
  let ?a = "new_area (VirtAddr 0x10000) (VirtAddr 0x10800) Framed (MP_R OR MP_U)"
  assume run: "bnd MemorySet_new_bare (map_trampoline 0x80200000) tiny_mm = Inr (ms, m)"
    and created: "space_created 2 20 tiny_mm ms m" and ms: "tramp_only m ms" "areas ms = []" and free: "14 \<le> card (mm_free m)"
  have m: "mm_frames_inv 2 20 m" "ms_wf 2 m ms" using created by (simp_all add: space_created_def)
  have pages: "3 * area_pages (VirtAddr 0x10000) (VirtAddr 0x10800) \<le> card (mm_free m)" using free by (simp add: tiny_range)
  have len: "length (range_vpns (vpn_range ?a)) = 1" using in_new_area_iff(2) [OF tiny_range(1,2)] by (simp add: tiny_range(5))
  have fresh: "area_fresh m ms ?a"
    using wp_insert_framed_area(1) [OF m tiny_range(1,2) tiny_unmapped [OF ms] pages] .
  have start: "unat (vpn_0 (range_l (vpn_range ?a))) = 0x10" by (simp add: new_area_def tiny_range(3))
  have "wp (MemorySet_push ms ?a (Some [1, 2, 3])) (\<lambda>ms' m'. ms_wf 2 m' ms' \<and>
    (\<forall>k < 4096 * length (range_vpns (vpn_range ?a)).
       user_byte m' (ms_page_table ms') (unat (vpn_0 (range_l (vpn_range ?a))) * 4096 + k) =
         Some (if k < length [1, 2, 3 :: byte] then [1, 2, 3] ! k else 0))) m"
    using m fresh free len by (intro push_loads_data) (auto simp: new_area_def)
  then have "wp (MemorySet_push ms ?a (Some [1, 2, 3])) (\<lambda>ms' m'. user_byte m' (ms_page_table ms') 0x10002 = Some 3 \<and>
      user_byte m' (ms_page_table ms') 0x10003 = Some 0) m"
  proof (rule wp_conseq)
    fix ms' m'
    assume "ms_wf 2 m' ms' \<and> (\<forall>k < 4096 * length (range_vpns (vpn_range ?a)).
       user_byte m' (ms_page_table ms') (unat (vpn_0 (range_l (vpn_range ?a))) * 4096 + k) =
         Some (if k < length [1, 2, 3 :: byte] then [1, 2, 3] ! k else 0))"
    then have h: "k < 4096 \<Longrightarrow> user_byte m' (ms_page_table ms') (0x10000 + k) =
         Some (if k < length [1, 2, 3 :: byte] then [1, 2, 3] ! k else 0)" for k
      unfolding len start by auto
    show "user_byte m' (ms_page_table ms') 0x10002 = Some 3 \<and> user_byte m' (ms_page_table ms') 0x10003 = Some 0"
      using h [of 2] h [of 3] by simp
  qed
  then show ?thesis using run by (simp only: wp_bnd [of "bnd _ _"] wp_Inr)
qed

text \<open>
  C7: \<open>from_existed_user\<close>, the copy of an address space that \<open>fork\<close> makes, succeeds when
  there are frames enough. The copy has the same areas with the same permissions; every byte
  of every area reads the same in the copy as in the original; the two use no frame in
  common; and the original, like every other frame in use, is left as it was.
\<close>

theorem fork_copies_address_space:
  assumes "mm_frames_inv l r m" and "ms_wf l m us" and "user_areas us" and "page_aligned tramp"
    and "3 + 3 * length (ms_vpns us) \<le> card (mm_free m)"
  shows "wp (MemorySet_from_existed_user tramp us) (\<lambda>ms m'. mm_frames_inv l r m' \<and> ms_wf l m' ms \<and> ms_wf l m' us \<and>
      map vpn_range (areas ms) = map vpn_range (areas us) \<and> map map_perm (areas ms) = map map_perm (areas us) \<and>
      (\<forall>a. VirtPageNum (word_of_nat (a div 4096)) \<in> set (ms_vpns us) \<longrightarrow>
         user_byte m' (ms_page_table ms) a = user_byte m (ms_page_table us) a) \<and>
      set (ms_frames ms) \<inter> set (ms_frames us) = {} \<and>
      (\<forall>p \<in> mm_live l m. get_bytes_array m' p = get_bytes_array m p)) m"
proof (rule wp_conseq [OF wp_from_existed_user [OF assms]])
  fix ms m'
  assume copy: "copy_inv l r m (areas us) ms m'"
  then have created: "space_created l r m ms m'" and all: "list_all2 (area_copy m m') (areas us) (areas ms)"
    by (simp_all add: copy_inv_def)
  have "map vpn_range (areas ms) = map vpn_range (areas us)" "map map_perm (areas ms) = map map_perm (areas us)"
    using all by (induction rule: list_all2_induct) (simp_all add: area_copy_def)
  moreover have "set (ms_frames ms) \<inter> set (ms_frames us) = {}"
    using created ms_frames_live [OF assms(2)] mm_frames.disjoint [OF assms(1)] by (auto simp: space_created_def)
  ultimately show "mm_frames_inv l r m' \<and> ms_wf l m' ms \<and> ms_wf l m' us \<and>
      map vpn_range (areas ms) = map vpn_range (areas us) \<and> map map_perm (areas ms) = map map_perm (areas us) \<and>
      (\<forall>a. VirtPageNum (word_of_nat (a div 4096)) \<in> set (ms_vpns us) \<longrightarrow>
         user_byte m' (ms_page_table ms) a = user_byte m (ms_page_table us) a) \<and>
      set (ms_frames ms) \<inter> set (ms_frames us) = {} \<and>
      (\<forall>p \<in> mm_live l m. get_bytes_array m' p = get_bytes_array m p)"
    using created copy_inv_bytes [OF assms(1-3) copy] space_created_other(1) [OF assms(1) created assms(2)]
      space_created_keeps [OF assms(1) created]
    by (simp add: space_created_def)
qed

text \<open>An address space with one page of program data, for the witnesses.\<close>

lemma tiny_user_space:
  obtains ms m where "bnd (bnd MemorySet_new_bare (map_trampoline 0x80200000))
      (\<lambda>ms. MemorySet_push ms (new_area (VirtAddr 0x10000) (VirtAddr 0x10800) Framed (MP_R OR MP_U)) (Some [1, 2, 3]))
      tiny_mm = Inr (ms, m)"
    and "mm_frames_inv 2 20 m" and "ms_wf 2 m ms" and "user_areas ms" and "6 \<le> card (mm_free m)"
    and "ms_vpns ms = [VirtPageNum 0x10]" and "user_byte m (ms_page_table ms) 0x10002 = Some 3"
proof (rule tiny_space)
  fix ms0 m0
  let ?a = "new_area (VirtAddr 0x10000) (VirtAddr 0x10800) Framed (MP_R OR MP_U)"
  let ?vs = "range_vpns (vpn_range ?a)"
  assume run: "bnd MemorySet_new_bare (map_trampoline 0x80200000) tiny_mm = Inr (ms0, m0)"
    and created: "space_created 2 20 tiny_mm ms0 m0" and ms: "tramp_only m0 ms0" "areas ms0 = []" and free: "14 \<le> card (mm_free m0)"
  have m: "mm_frames_inv 2 20 m0" "ms_wf 2 m0 ms0" using created by (simp_all add: space_created_def)
  have pages: "3 * area_pages (VirtAddr 0x10000) (VirtAddr 0x10800) \<le> card (mm_free m0)" using free by (simp add: tiny_range)
  have len: "length ?vs = 1" using in_new_area_iff(2) [OF tiny_range(1,2)] by (simp add: tiny_range(5))
  have vs: "?vs = [VirtPageNum 0x10]"
  proof -
    have "\<forall>v \<in> set ?vs. v = VirtPageNum 0x10"
      using in_new_area_iff(1) [OF tiny_range(1,2)] tiny_range_iff unfolding tiny_range(3,4) by blast
    then show ?thesis using len by (cases ?vs) auto
  qed
  have fresh: "area_fresh m0 ms0 ?a"
    using wp_insert_framed_area(1) [OF m tiny_range(1,2) tiny_unmapped [OF ms] pages] .
  have "wp (MemorySet_push ms0 ?a (Some [1, 2, 3])) (\<lambda>ms' m'. \<exists>ps m1. push_post 2 20 m0 ms0 ?a ps ms' m1 \<and>
    only_pages (set ps) m1 m' \<and> mm_frames_inv 2 20 m' \<and> ms_wf 2 m' ms' \<and>
    (\<forall>i < length ps. get_bytes_array m' (ps ! i) = padded_page [1, 2, 3] (4096 * i))) m0"
    using m fresh free len by (intro wp_MemorySet_push_data) (auto simp: new_area_def)
  then obtain ms1 m2 ps m1 where push: "MemorySet_push ms0 ?a (Some [1, 2, 3]) m0 = Inr (ms1, m2)"
      "push_post 2 20 m0 ms0 ?a ps ms1 m1" "only_pages (set ps) m1 m2" "mm_frames_inv 2 20 m2" "ms_wf 2 m2 ms1"
      "\<forall>i < length ps. get_bytes_array m2 (ps ! i) = padded_page [1, 2, 3] (4096 * i)"
    by (auto simp: wp_iff)
  have areas: "areas ms1 = [area_mapped ?a ?vs ps]" using push(2) ms(2) by (simp add: push_post_def)
  have lenps: "length ps = 1" using push(2) len by (simp add: push_post_def targets_ok_def)
  have g: "space_grown 2 20 m0 (ms_page_table ms0) (area_frames ?a ps) m1 (ms_page_table ms1)"
      "length (pt_frames (ms_page_table ms1)) \<le> length (pt_frames (ms_page_table ms0)) + 2 * length ?vs"
    using push(2) by (simp_all add: push_post_def)
  have "card (mm_free m0) \<le> card (mm_free m1) + 3"
    using space_grown_free [OF g(1)] g(2) len lenps length_area_frames [of ?a ps] by linarith
  then have card: "6 \<le> card (mm_free m2)" using free push(3) by (simp add: only_pages_def)
  have "user_areas ms1" by (simp add: user_areas_def areas) (simp add: new_area_def tiny_range(4))
  moreover have "ms_vpns ms1 = [VirtPageNum 0x10]" by (simp add: ms_vpns_def areas vs)
  moreover have "user_byte m2 (ms_page_table ms1) 0x10002 = Some 3"
  proof -
    note f = push_post_framed [OF push(2) fresh m, unfolded new_area_def, simplified, folded new_area_def]
    have "pt_abs m2 (ms_page_table ms1) = pt_abs m1 (ms_page_table ms1)"
      using push_post_wf [OF push(2) fresh m] push(3) f(2,3) by (intro pt_wf_only_pages(2)) (auto simp: ms_wf_def)
    moreover have "pt_abs m1 (ms_page_table ms1) (VirtPageNum 0x10) = Some (area_pte ?a (ps ! 0))"
      using f(6) [of 0] lenps by (simp add: get_start_def tiny_range(3))
    ultimately have "user_byte m2 (ms_page_table ms1) 0x10002 = Some (get_bytes_array m2 (ps ! 0) ! 2)"
      using f(2) lenps by (subst user_byte_pt_abs [where area = ?a and p = "ps ! 0"]) auto
    then show ?thesis using push(6) lenps by (simp add: nth_padded_page)
  qed
  moreover have "bnd (bnd MemorySet_new_bare (map_trampoline 0x80200000))
      (\<lambda>ms. MemorySet_push ms ?a (Some [1, 2, 3])) tiny_mm = Inr (ms1, m2)"
    by (subst bnd_def) (simp add: run push(1))
  ultimately show ?thesis using that push(4,5) card by blast
qed

theorem fork_copies_address_space_witness:
  "\<exists>us m ms m'. MemorySet_from_existed_user 0x80200000 us m = Inr (ms, m') \<and>
     user_byte m (ms_page_table us) 0x10002 = Some 3 \<and> user_byte m' (ms_page_table ms) 0x10002 = Some 3"
proof (rule tiny_user_space)
  fix us m
  assume us: "mm_frames_inv 2 20 m" "ms_wf 2 m us" "user_areas us" "6 \<le> card (mm_free m)"
    "ms_vpns us = [VirtPageNum 0x10]" "user_byte m (ms_page_table us) 0x10002 = Some 3"
  have al: "page_aligned 0x80200000" by (simp add: page_aligned_def)
  have "3 + 3 * length (ms_vpns us) \<le> card (mm_free m)" using us(4,5) by simp
  from fork_copies_address_space [OF us(1-3) al this]
  obtain ms m' where run: "MemorySet_from_existed_user 0x80200000 us m = Inr (ms, m')"
    and bytes: "\<forall>a. VirtPageNum (word_of_nat (a div 4096)) \<in> set (ms_vpns us) \<longrightarrow>
         user_byte m' (ms_page_table ms) a = user_byte m (ms_page_table us) a"
    unfolding wp_iff by (elim exE conjE) (rule that)
  from bytes have "user_byte m' (ms_page_table ms) 0x10002 = user_byte m (ms_page_table us) 0x10002"
    by (rule allE [of _ "0x10002"]) (simp add: us(5))
  with run us(6) show ?thesis by auto
qed

text \<open>
  C28: A copy of an address space of user areas that is made, whose data pages are recycled and that is
  dropped, as for a process that is forked, exits and is waited for, leaves the frame
  allocator with the frames it had: nothing leaks and nothing is given back twice. Three frames for
  every page of the original, and three more, are enough for it to succeed.
\<close>

theorem fork_then_drop_leaks_nothing:
  assumes "mm_frames_inv l r m" and "ms_wf l m us" and "user_areas us" and "page_aligned tramp"
    and "3 + 3 * length (ms_vpns us) \<le> card (mm_free m)"
  shows "wp (bnd (MemorySet_from_existed_user tramp us) (\<lambda>ms. bnd (recycle_data_pages ms) MemorySet_drop))
    (\<lambda>_ m'. mm_frames_inv l r m' \<and> mm_live l m' = mm_live l m \<and> mm_free m' = mm_free m) m"
  unfolding wp_bnd
proof (rule wp_conseq [OF wp_from_existed_user [OF assms]])
  fix ms m1
  assume "copy_inv l r m (areas us) ms m1"
  then have created: "space_created l r m ms m1" by (simp add: copy_inv_def)
  then have m1: "mm_frames_inv l r m1" "ms_wf l m1 ms" by (simp_all add: space_created_def)
  show "wp (recycle_data_pages ms) (\<lambda>ms. wp (MemorySet_drop ms)
      (\<lambda>_ m'. mm_frames_inv l r m' \<and> mm_live l m' = mm_live l m \<and> mm_free m' = mm_free m)) m1"
  proof (rule wp_conseq [OF wp_recycle_data_pages [OF m1]], elim conjE)
    fix ms' m2
    assume ms': "ms' = ms\<lparr>areas := []\<rparr>" and m2: "mm_frames_inv l r m2" "ms_wf l m2 ms'"
      "mm_live l m2 = mm_live l m1 - set (ms_data ms)" "mm_free m2 = mm_free m1 \<union> set (ms_data ms)"
    have fs: "set (ms_frames ms') = set (pt_frames (ms_page_table ms))"
        "set (ms_frames ms) = set (pt_frames (ms_page_table ms)) \<union> set (ms_data ms)"
      by (auto simp: ms' ms_frames_def ms_data_def)
    have "mm_live l m1 = mm_live l m \<union> set (ms_frames ms)" "mm_free m1 = mm_free m - set (ms_frames ms)"
        "set (ms_frames ms) \<subseteq> mm_free m" "mm_live l m \<inter> mm_free m = {}"
      using created mm_frames.disjoint [OF assms(1)] by (auto simp: space_created_def)
    then have "mm_live l m2 - set (ms_frames ms') = mm_live l m" "mm_free m2 \<union> set (ms_frames ms') = mm_free m"
      unfolding fs m2(3,4) by auto
    then show "wp (MemorySet_drop ms') (\<lambda>_ m'. mm_frames_inv l r m' \<and> mm_live l m' = mm_live l m \<and> mm_free m' = mm_free m) m2"
      by (intro wp_conseq [OF wp_MemorySet_drop [OF m2(1,2)]]) auto
  qed
qed

theorem fork_then_drop_leaks_nothing_witness:
  "\<exists>us m m'. bnd (MemorySet_from_existed_user 0x80200000 us) (\<lambda>ms. bnd (recycle_data_pages ms) MemorySet_drop) m = Inr ((), m') \<and>
     ms_vpns us = [VirtPageNum 0x10] \<and> mm_free m' = mm_free m"
proof (rule tiny_user_space)
  fix us m
  assume us: "mm_frames_inv 2 20 m" "ms_wf 2 m us" "user_areas us" "6 \<le> card (mm_free m)" "ms_vpns us = [VirtPageNum 0x10]"
  have al: "page_aligned 0x80200000" by (simp add: page_aligned_def)
  have "3 + 3 * length (ms_vpns us) \<le> card (mm_free m)" using us(4,5) by simp
  from fork_then_drop_leaks_nothing [OF us(1-3) al this] show ?thesis
    unfolding wp_iff using us(5) by auto
qed

end
