(* ===== verification/Pid.thy ===== *)
theory Pid
  imports Address Allocator
begin

text \<open>
  Process identifiers and the placement of the kernel stacks (\<open>src/os/src/task/pid.rs\<close>).
  The pid allocator recycles the pids of reaped processes; a process's kernel stack lies
  below the trampoline at a place computed from its pid.
\<close>

section \<open>The pid allocator\<close>

record pid_allocator =
  pid_current :: usize
  pid_recycled :: "usize list"

datatype pid_handle = PidHandle (pid_0: usize)

definition PidAllocator_new :: pid_allocator where
  "PidAllocator_new = \<lparr>pid_current = 0, pid_recycled = []\<rparr>"

definition PidAllocator_alloc :: "(pid_allocator, pid_handle) action" where
  "PidAllocator_alloc pa =
     (if pid_recycled pa \<noteq> [] then
        Inr (PidHandle (last (pid_recycled pa)), pa\<lparr>pid_recycled := butlast (pid_recycled pa)\<rparr>)
      else
        (let pa = pa\<lparr>pid_current := pid_current pa + 1\<rparr>
         in Inr (PidHandle (pid_current pa - 1), pa)))"

definition PidAllocator_dealloc :: "usize \<Rightarrow> (pid_allocator, unit) action" where
  "PidAllocator_dealloc pid =
     bnd (gets pid_current) (\<lambda>current.
     thn (assert_that (pid < current))
     (bnd (gets pid_recycled) (\<lambda>recycled.
     thn (assert_that (pid \<notin> set recycled))
     (upd (\<lambda>pa. pa\<lparr>pid_recycled := pid_recycled pa @ [pid]\<rparr>)))))"

text \<open>Dropping a \<open>PidHandle\<close> gives its pid back.\<close>

definition PidHandle_drop :: "pid_handle \<Rightarrow> (pid_allocator, unit) action" where
  "PidHandle_drop h = PidAllocator_dealloc (pid_0 h)"

section \<open>Kernel stacks\<close>

text \<open>(bottom, top) of the kernel stack of a process in the kernel address space.\<close>

definition kernel_stack_position :: "usize \<Rightarrow> usize \<times> usize" where
  "kernel_stack_position app_id =
     (let top = TRAMPOLINE - app_id * (KERNEL_STACK_SIZE + PAGE_SIZE);
          bottom = top - KERNEL_STACK_SIZE
      in (bottom, top))"

section \<open>The invariant and the contract\<close>

text \<open>
  The counter is a 64-bit word. The contract holds as long as it has not reached the last
  one: from there on an allocation would wrap it to zero.
\<close>

definition pid_inv :: "pid_allocator \<Rightarrow> bool" where
  "pid_inv pa \<longleftrightarrow> distinct (pid_recycled pa) \<and> (\<forall>p \<in> set (pid_recycled pa). p < pid_current pa)"

definition pid_live :: "pid_allocator \<Rightarrow> pid_handle set" where
  "pid_live pa = {h. pid_0 h < pid_current pa \<and> pid_0 h \<notin> set (pid_recycled pa)}"

definition pid_free :: "pid_allocator \<Rightarrow> pid_handle set" where
  "pid_free pa = {h. pid_0 h \<in> set (pid_recycled pa) \<or> pid_current pa \<le> pid_0 h \<and> pid_0 h < - 1}"

definition pid_alloc_opt :: "(pid_allocator, pid_handle option) action" where
  "pid_alloc_opt = bnd PidAllocator_alloc (\<lambda>h. ret (Some h))"

lemma eq_PidHandle_iff: "h = PidHandle v \<longleftrightarrow> pid_0 h = v"
  by (cases h) simp

lemma unat_plus_1:
  assumes "(c :: usize) < - 1"
  shows "unat (c + 1) = Suc (unat c)"
proof -
  from assms have "c + 1 \<noteq> 0" by (auto simp: add_eq_0_iff2)
  then have "unat c = unat (c + 1) - 1" "unat (c + 1) \<noteq> 0"
    using unat_minus_one [of "c + 1"] by (simp_all add: unat_0_iff)
  then show ?thesis by simp
qed

lemma counter_order:
  assumes "(c :: usize) < - 1"
  shows "x < c + 1 \<longleftrightarrow> x \<le> c" "c + 1 \<le> x \<longleftrightarrow> c < x"
  using unat_plus_1 [OF assms] by (auto simp: word_less_nat_alt word_le_nat_alt)

interpretation pids: checked_allocator pid_alloc_opt PidHandle_drop pid_inv pid_live pid_free
proof unfold_locales
  fix s
  assume "pid_inv s"
  then show "pid_live s \<inter> pid_free s = {}"
    by (auto simp: pid_inv_def pid_live_def pid_free_def)
next
  fix s
  assume inv: "pid_inv s" and free: "pid_free s \<noteq> {}"
  show "wp pid_alloc_opt (\<lambda>r s'. \<exists>i. r = Some i \<and> i \<in> pid_free s \<and> pid_inv s' \<and>
      pid_live s' = insert i (pid_live s) \<and> pid_free s' = pid_free s - {i}) s"
  proof (cases "pid_recycled s = []")
    case True
    with free have "pid_current s < - 1" by (auto simp: pid_free_def)
    note less = counter_order [OF this]
    show ?thesis
      using True inv \<open>pid_current s < - 1\<close>
      by (auto simp: pid_alloc_opt_def wp_def PidAllocator_alloc_def action_defs pid_inv_def
          pid_live_def pid_free_def eq_PidHandle_iff less)
  next
    case False
    then obtain ps p where ps: "pid_recycled s = ps @ [p]" using rev_exhaust by blast
    with inv show ?thesis
      by (auto simp: pid_alloc_opt_def wp_def PidAllocator_alloc_def action_defs pid_inv_def
          pid_live_def pid_free_def eq_PidHandle_iff)
  qed
next
  fix s i
  assume "pid_inv s" and "i \<in> pid_live s"
  then show "wp (PidHandle_drop i) (\<lambda>_ s'. pid_inv s' \<and> pid_live s' = pid_live s - {i} \<and>
      pid_free s' = insert i (pid_free s)) s"
    by (cases i) (auto simp: PidHandle_drop_def PidAllocator_dealloc_def wp_simps pid_inv_def
        pid_live_def pid_free_def dest: pid_handle.expand)
next
  fix s i
  assume "pid_inv s" and "i \<notin> pid_live s"
  then show "\<exists>e. PidHandle_drop i s = Inl e"
    by (auto simp: PidHandle_drop_def PidAllocator_dealloc_def action_defs pid_inv_def pid_live_def)
qed

lemma card_pid_free_new: "finite (pid_free PidAllocator_new)"
  "card (pid_free PidAllocator_new) = 2 ^ 64 - 1"
proof -
  have m1: "unat (- 1 :: usize) = 2 ^ 64 - 1"
    by (simp add: unsigned_minus_1_eq_mask mask_eq_exp_minus_1)
  have "pid_free PidAllocator_new = (\<lambda>n. PidHandle (word_of_nat n)) ` {..<2 ^ 64 - 1}"
  proof (intro set_eqI iffI)
    fix h
    assume "h \<in> pid_free PidAllocator_new"
    then have "unat (pid_0 h) < 2 ^ 64 - 1" and "h = PidHandle (word_of_nat (unat (pid_0 h)))"
      by (simp_all add: pid_free_def PidAllocator_new_def word_less_nat_alt m1)
    then show "h \<in> (\<lambda>n. PidHandle (word_of_nat n)) ` {..<2 ^ 64 - 1}" by blast
  next
    fix h
    assume "h \<in> (\<lambda>n. PidHandle (word_of_nat n)) ` {..<2 ^ 64 - 1}"
    then show "h \<in> pid_free PidAllocator_new"
      by (auto simp: pid_free_def PidAllocator_new_def word_less_nat_alt m1 unat_of_nat)
  qed
  moreover have "inj_on (\<lambda>n. PidHandle (word_of_nat n)) {..<2 ^ 64 - 1}"
    by (rule inj_onI) (simp add: word_of_nat_eq_iff take_bit_eq_mod)
  ultimately show "finite (pid_free PidAllocator_new)" "card (pid_free PidAllocator_new) = 2 ^ 64 - 1"
    by (simp_all add: card_image)
qed

lemma TRAMPOLINE_eq: "TRAMPOLINE = 0xfffffffffffff000"
  by (simp add: TRAMPOLINE_def PAGE_SIZE_def)

lemma kernel_stack_unat:
  assumes "unat c < 2 ^ 24"
  shows "unat (fst (kernel_stack_position c)) = 2 ^ 64 - 12288 - unat c * 12288"
    and "unat (snd (kernel_stack_position c)) = 2 ^ 64 - 4096 - unat c * 12288"
proof -
  have c: "unat (c * 12288) = unat c * 12288"
    using assms by (simp add: unat_word_ariths)
  have top: "snd (kernel_stack_position c) = 0xfffffffffffff000 - c * 12288"
    by (simp add: kernel_stack_position_def KERNEL_STACK_SIZE_def PAGE_SIZE_def TRAMPOLINE_eq)
  with c assms show t: "unat (snd (kernel_stack_position c)) = 2 ^ 64 - 4096 - unat c * 12288"
    by (simp add: unat_sub_if')
  have "fst (kernel_stack_position c) = snd (kernel_stack_position c) - 8192"
    by (simp add: kernel_stack_position_def KERNEL_STACK_SIZE_def Let_def)
  with t assms show "unat (fst (kernel_stack_position c)) = 2 ^ 64 - 12288 - unat c * 12288"
    by (simp add: unat_sub_if')
qed

section \<open>Properties\<close>

text \<open>
  From boot on, whatever processes are created and reaped (fewer than \<open>2 ^ 64 - 1\<close>
  creations), the pid allocator never panics and the pids in use are pairwise different.
\<close>

theorem pids_unique:
  assumes "length ops < 2 ^ 64 - 1"
  shows "wp (run_client pid_alloc_opt PidHandle_drop ops [])
    (\<lambda>hs pa. distinct (map pid_0 hs) \<and> (\<forall>h \<in> set hs. pid_0 h < pid_current pa)) PidAllocator_new"
proof (rule wp_conseq)
  have "length (filter (\<lambda>op. op = Alloc) ops) \<le> length ops" by simp
  with assms have "length (filter (\<lambda>op. op = Alloc) ops) \<le> card (pid_free PidAllocator_new)"
    unfolding card_pid_free_new by linarith
  then show "wp (run_client pid_alloc_opt PidHandle_drop ops [])
      (\<lambda>hs pa. distinct hs \<and> set hs \<subseteq> pid_live pa \<and> pid_inv pa) PidAllocator_new"
    by (intro pids.client_exclusive_enough card_pid_free_new(1))
      (simp_all add: pid_inv_def PidAllocator_new_def)
next
  fix hs pa
  assume "distinct hs \<and> set hs \<subseteq> pid_live pa \<and> pid_inv pa"
  then show "distinct (map pid_0 hs) \<and> (\<forall>h \<in> set hs. pid_0 h < pid_current pa)"
    by (auto simp: distinct_map pid_live_def intro!: inj_onI dest: pid_handle.expand)
qed

theorem pids_unique_witness:
  "wp (run_client pid_alloc_opt PidHandle_drop [Alloc, Alloc, Dealloc (PidHandle 0), Alloc] [])
    (\<lambda>hs pa. distinct (map pid_0 hs) \<and> list_all (\<lambda>h. pid_0 h < pid_current pa) hs) PidAllocator_new"
  unfolding list_all_iff by (rule pids_unique) simp

text \<open>
  A pid can be given back exactly when it is in use: giving it back twice, or giving
  back a pid that was never handed out, panics.
\<close>

theorem pid_dealloc_exactly_live:
  assumes "pid_inv pa"
  shows "((\<exists>pa'. PidHandle_drop h pa = Inr ((), pa')) \<longleftrightarrow> h \<in> pid_live pa) \<and>
    (PidHandle_drop h pa = Inr (u, pa') \<longrightarrow> (\<exists>e. PidHandle_drop h pa' = Inl e))"
  using pids.dealloc_iff_live [OF assms] pids.double_dealloc [OF assms] by blast

theorem pid_dealloc_exactly_live_witness:
  "\<exists>pa'. PidHandle_drop (PidHandle 1) \<lparr>pid_current = 3, pid_recycled = [2]\<rparr> = Inr ((), pa') \<and>
     (\<exists>e. PidHandle_drop (PidHandle 1) pa' = Inl e)"
proof -
  let ?pa = "\<lparr>pid_current = 3, pid_recycled = [2]\<rparr>"
  have "pid_inv ?pa" by (simp add: pid_inv_def)
  moreover have "PidHandle 1 \<in> pid_live ?pa" by (simp add: pid_live_def)
  ultimately show ?thesis using pid_dealloc_exactly_live [of ?pa "PidHandle 1"] by blast
qed

text \<open>
  C37: The kernel stacks of different processes do not overlap, and an unmapped page lies
  between them; all of them lie below the trampoline and in the upper canonical half of the
  address space, on page boundaries. This holds for the first \<open>2 ^ 24\<close> pids.
\<close>

theorem kernel_stacks_disjoint:
  assumes "unat a < unat b" and "unat b < 2 ^ 24"
    and "kernel_stack_position a = (bottom_a, top_a)" and "kernel_stack_position b = (bottom_b, top_b)"
  shows "unat top_b + unat PAGE_SIZE \<le> unat bottom_a \<and> unat top_a \<le> unat TRAMPOLINE \<and>
    unat top_a = unat bottom_a + unat KERNEL_STACK_SIZE \<and>
    2 ^ 64 - 2 ^ 38 \<le> unat bottom_b \<and> unat bottom_b mod 4096 = 0"
proof -
  from assms(1,2) have "unat a < 2 ^ 24" by simp
  from kernel_stack_unat [OF this] kernel_stack_unat [OF assms(2)] assms(3,4)
  have pos: "unat top_a = 2 ^ 64 - 4096 - unat a * 12288" "unat bottom_a = 2 ^ 64 - 12288 - unat a * 12288"
    "unat top_b = 2 ^ 64 - 4096 - unat b * 12288" "unat bottom_b = 2 ^ 64 - 12288 - unat b * 12288"
    by simp_all
  have "unat bottom_b = 4096 * (2 ^ 52 - 3 - unat b * 3)"
    using pos(4) by (simp add: diff_mult_distrib2)
  then have "unat bottom_b mod 4096 = 0" by simp
  moreover have "unat TRAMPOLINE = 2 ^ 64 - 4096" by (simp add: TRAMPOLINE_eq)
  ultimately show ?thesis
    using pos assms(1,2) by (simp add: KERNEL_STACK_SIZE_def) linarith
qed

theorem kernel_stacks_disjoint_witness:
  "unat (snd (kernel_stack_position 2)) + unat PAGE_SIZE \<le> unat (fst (kernel_stack_position 1)) \<and>
   unat (snd (kernel_stack_position 1)) \<le> unat TRAMPOLINE"
proof -
  have "unat (1 :: usize) < unat (2 :: usize)" and "unat (2 :: usize) < 2 ^ 24" by simp_all
  from kernel_stacks_disjoint [OF this, of "fst (kernel_stack_position 1)" "snd (kernel_stack_position 1)"
      "fst (kernel_stack_position 2)" "snd (kernel_stack_position 2)"]
  show ?thesis by simp
qed

end
