(* ===== verification/Kernel.thy ===== *)
theory Kernel
  imports Os_Inode Address_Space Pid
begin

text \<open>
  The state of the kernel and its task control blocks: trap contexts
  (\<open>src/os/src/trap/context.rs\<close>), task contexts (\<open>src/os/src/task/context.rs\<close>), kernel stacks
  (\<open>src/os/src/task/pid.rs\<close>) and tasks (\<open>src/os/src/task/task.rs\<close>). Reference counted objects live in
  heaps: an \<open>Arc<TaskControlBlock>\<close> is an index of \<open>tcbs\<close>, an \<open>Arc<OSInode>\<close> one of
  \<open>os_files\<close>.
\<close>

section \<open>What the kernel runs on\<close>

text \<open>
  The ELF parser \<open>xmas_elf\<close>, addresses that the linker chooses, the status register with the
  previous privilege set to user, and the answers of the firmware: the result of the n-th
  call of \<open>console_getchar\<close> and the value of the n-th read of the time register.
\<close>

record platform =
  parse_elf :: "byte list \<Rightarrow> elf_file option"
  linker :: linker_symbols
  trap_handler_addr :: usize
  trap_from_kernel_addr :: usize
  user_sstatus :: usize
  getchar_results :: "nat \<Rightarrow> usize"
  time_values :: "nat \<Rightarrow> usize"

section \<open>Trap contexts\<close>

record trap_context =
  tc_x :: "usize list"
  tc_sstatus :: usize
  tc_sepc :: usize
  tc_kernel_satp :: usize
  tc_kernel_sp :: usize
  tc_trap_handler :: usize

definition set_sp :: "usize \<Rightarrow> trap_context \<Rightarrow> trap_context" where
  "set_sp sp cx = cx\<lparr>tc_x := (tc_x cx)[2 := sp]\<rparr>"

definition app_init_context :: "usize \<Rightarrow> usize \<Rightarrow> usize \<Rightarrow> usize \<Rightarrow> usize \<Rightarrow> usize \<Rightarrow> trap_context" where
  "app_init_context sstatus entry sp kernel_satp kernel_sp trap_handler =
     set_sp sp \<lparr>tc_x = replicate 32 0, tc_sstatus = sstatus, tc_sepc = entry, tc_kernel_satp = kernel_satp,
       tc_kernel_sp = kernel_sp, tc_trap_handler = trap_handler\<rparr>"

text \<open>
  A trap context in memory, at the start of the page it has to itself: 37 words of 8 bytes, the
  registers first. \<open>get_trap_cx\<close> gives a reference to it, through which single words are read
  and written.
\<close>

definition TC_SEPC :: nat where "TC_SEPC = 33"
definition TC_KERNEL_SATP :: nat where "TC_KERNEL_SATP = 34"
definition TC_KERNEL_SP :: nat where "TC_KERNEL_SP = 35"

definition tc_words :: "trap_context \<Rightarrow> usize list" where
  "tc_words cx = tc_x cx @ [tc_sstatus cx, tc_sepc cx, tc_kernel_satp cx, tc_kernel_sp cx, tc_trap_handler cx]"

definition put_trap_cx :: "phys_page_num \<Rightarrow> trap_context \<Rightarrow> mm \<Rightarrow> mm" where
  "put_trap_cx ppn cx m =
     set_bytes_array ppn (splice_at 0 (enc_array 8 (map unat (tc_words cx))) (get_bytes_array m ppn)) m"

definition tc_get :: "mm \<Rightarrow> phys_page_num \<Rightarrow> nat \<Rightarrow> usize" where
  "tc_get m ppn i = word_of_nat (get_le 8 (get_bytes_array m ppn) i)"

definition tc_set :: "phys_page_num \<Rightarrow> nat \<Rightarrow> usize \<Rightarrow> mm \<Rightarrow> mm" where
  "tc_set ppn i v m = set_bytes_array ppn (set_le 8 (get_bytes_array m ppn) i (unat v)) m"

section \<open>Task contexts\<close>

text \<open>
  \<open>__switch\<close> saves the registers of the kernel code that gives up the processor, and that code
  goes on when the task is switched to again. A saved context is therefore modelled as what
  remains to be done: \<open>TimerReturn\<close> returns from the timer interrupt, \<open>SyscallReturn v\<close> returns
  \<open>v\<close> from a system call, and \<open>StdinRetry\<close> tries again to read a character, for the task whose
  \<open>Arc\<close> is a local variable of \<open>sys_read\<close>, into a buffer.
\<close>

datatype continuation = TimerReturn | SyscallReturn usize | StdinRetry nat user_buffer

datatype task_context = ZeroContext | TrapReturnContext usize | SwitchedOut continuation

definition zero_init :: task_context where
  "zero_init = ZeroContext"

definition goto_trap_return :: "usize \<Rightarrow> task_context" where
  "goto_trap_return kstack_ptr = TrapReturnContext kstack_ptr"

section \<open>Tasks\<close>

datatype task_status = Ready | Running | Zombie

text \<open>The objects behind \<open>Arc<dyn File>\<close>.\<close>

datatype file_object = Stdin | Stdout | InodeFile nat

record tcb =
  tcb_pid :: pid_handle
  kernel_stack :: usize
  trap_cx_ppn :: phys_page_num
  base_size :: usize
  task_cx :: task_context
  task_status :: task_status
  memory_set :: memory_set
  parent :: "nat option"
  children :: "nat list"
  exit_code :: "32 word"
  fd_table :: "file_object option list"

definition is_zombie :: "tcb \<Rightarrow> bool" where
  "is_zombie t \<longleftrightarrow> task_status t = Zombie"

definition get_user_token :: "tcb \<Rightarrow> usize" where
  "get_user_token t = MemorySet_token (memory_set t)"

definition getpid :: "tcb \<Rightarrow> usize" where
  "getpid t = pid_0 (tcb_pid t)"

primrec find_none :: "'a option list \<Rightarrow> nat option" where
  "find_none [] = None"
| "find_none (x # xs) = (if x = None then Some 0 else map_option Suc (find_none xs))"

definition alloc_fd :: "tcb \<Rightarrow> nat \<times> tcb" where
  "alloc_fd t =
     (case find_none (fd_table t) of
        Some fd \<Rightarrow> (fd, t)
      | None \<Rightarrow>
          (let t = t\<lparr>fd_table := fd_table t @ [None]\<rparr>
           in (length (fd_table t) - 1, t)))"

section \<open>The state of the kernel\<close>

record kernel =
  k_mm :: mm
  kernel_space :: memory_set
  pids :: pid_allocator
  disk :: store
  root_ino :: inode
  tcbs :: "nat \<Rightarrow> tcb option"
  next_tcb :: nat
  os_files :: "nat \<Rightarrow> os_inode option"
  next_file :: nat
  ready_queue :: "nat list"
  current :: "nat option"
  initproc :: nat
  console_out :: "byte list"
  getchar_calls :: nat
  time_reads :: nat
  timer :: usize
  stvec :: usize
  satp :: usize
  tp :: usize

type_synonym 'a kernel_action = "(kernel, 'a) action"

definition on_mm :: "'a mm_action \<Rightarrow> 'a kernel_action" where
  "on_mm = on k_mm (\<lambda>m k. k\<lparr>k_mm := m\<rparr>)"

definition on_disk :: "'a store_action \<Rightarrow> 'a kernel_action" where
  "on_disk = on disk (\<lambda>s k. k\<lparr>disk := s\<rparr>)"

definition on_io :: "'a io_action \<Rightarrow> 'a kernel_action" where
  "on_io = on (\<lambda>k. (k_mm k, disk k)) (\<lambda>(m, s) k. k\<lparr>k_mm := m, disk := s\<rparr>)"

definition on_pids :: "(pid_allocator, 'a) action \<Rightarrow> 'a kernel_action" where
  "on_pids = on pids (\<lambda>p k. k\<lparr>pids := p\<rparr>)"

text \<open>The kernel's address space is changed together with physical memory.\<close>

definition on_kernel_space :: "(memory_set \<Rightarrow> memory_set mm_action) \<Rightarrow> unit kernel_action" where
  "on_kernel_space f =
     bnd (gets kernel_space) (\<lambda>ms. bnd (on_mm (f ms)) (\<lambda>ms. upd (\<lambda>k. k\<lparr>kernel_space := ms\<rparr>)))"

definition get_tcb :: "nat \<Rightarrow> tcb kernel_action" where
  "get_tcb r = bnd (gets (\<lambda>k. tcbs k r)) unwrap"

definition upd_tcb :: "nat \<Rightarrow> (tcb \<Rightarrow> tcb) \<Rightarrow> unit kernel_action" where
  "upd_tcb r f = upd (\<lambda>k. k\<lparr>tcbs := (tcbs k)(r := map_option f (tcbs k r))\<rparr>)"

section \<open>Kernel stacks\<close>

definition get_top :: "usize \<Rightarrow> usize" where
  "get_top pid = snd (kernel_stack_position pid)"

definition KernelStack_new :: "pid_handle \<Rightarrow> usize kernel_action" where
  "KernelStack_new pid_handle =
     (let pid = pid_0 pid_handle;
          (kernel_stack_bottom, kernel_stack_top) = kernel_stack_position pid
      in thn (on_kernel_space (\<lambda>ms. insert_framed_area ms (VirtAddr_from_usize kernel_stack_bottom)
                (VirtAddr_from_usize kernel_stack_top) (MP_R OR MP_W)))
           (ret pid))"

definition KernelStack_drop :: "usize \<Rightarrow> unit kernel_action" where
  "KernelStack_drop pid =
     (let (kernel_stack_bottom, _) = kernel_stack_position pid
      in bnd (VirtPageNum_from_VirtAddr (VirtAddr_from_usize kernel_stack_bottom)) (\<lambda>vpn.
         on_kernel_space (\<lambda>ms. remove_area_with_start_vpn ms vpn)))"

text \<open>
  A store through the kernel's page table, byte by byte. An address that is not mapped makes the
  kernel fault, and \<open>trap_from_kernel\<close> panics.
\<close>

primrec store_kernel :: "usize \<Rightarrow> byte list \<Rightarrow> unit kernel_action" where
  "store_kernel va [] = ret ()"
| "store_kernel va (b # bs) =
     bnd (gets (\<lambda>k. MemorySet_translate (k_mm k) (kernel_space k) (VirtAddr_floor (VirtAddr_from_usize va)))) (\<lambda>r.
     case r of
       None \<Rightarrow> fail ExplicitPanic
     | Some pte \<Rightarrow>
         if is_valid pte \<and> writable pte
         then thn (on_mm (upd (write_u8 (usize_from_PhysAddr (PhysAddr_from_PhysPageNum (pte_ppn pte)) +
                                         VirtAddr_page_offset (VirtAddr_from_usize va)) b)))
                (store_kernel (va + 1) bs)
         else fail ExplicitPanic)"

text \<open>A value of any sized type is given by its bytes.\<close>

definition push_on_top :: "usize \<Rightarrow> byte list \<Rightarrow> usize kernel_action" where
  "push_on_top pid value =
     (let kernel_stack_top = get_top pid;
          ptr_mut = kernel_stack_top - word_of_nat (length value)
      in thn (store_kernel ptr_mut value) (ret ptr_mut))"

section \<open>Operations on tasks\<close>

definition pid_alloc :: "pid_handle kernel_action" where
  "pid_alloc = on_pids PidAllocator_alloc"

text \<open>The page of the trap context in an address space.\<close>

definition trap_cx_page :: "memory_set \<Rightarrow> phys_page_num kernel_action" where
  "trap_cx_page ms =
     bnd (VirtPageNum_from_VirtAddr (VirtAddr_from_usize TRAP_CONTEXT)) (\<lambda>vpn.
     bnd (gets (\<lambda>k. MemorySet_translate (k_mm k) ms vpn)) (\<lambda>r.
     bnd (unwrap r) (\<lambda>pte. ret (pte_ppn pte))))"

definition TaskControlBlock_new :: "platform \<Rightarrow> byte list \<Rightarrow> tcb kernel_action" where
  "TaskControlBlock_new pf elf_data =
     bnd (on_mm (MemorySet_from_elf (parse_elf pf) (strampoline (linker pf)) elf_data)) (\<lambda>(memory_set, user_sp, entry_point).
     bnd (trap_cx_page memory_set) (\<lambda>trap_cx_ppn.
     bnd pid_alloc (\<lambda>pid_handle.
     bnd (KernelStack_new pid_handle) (\<lambda>kernel_stack.
     let kernel_stack_top = get_top kernel_stack;
         task_control_block =
           \<lparr>tcb_pid = pid_handle, kernel_stack = kernel_stack, trap_cx_ppn = trap_cx_ppn, base_size = user_sp,
            task_cx = goto_trap_return kernel_stack_top, task_status = Ready, memory_set = memory_set,
            parent = None, children = [], exit_code = 0, fd_table = [Some Stdin, Some Stdout, Some Stdout]\<rparr>
     in bnd (gets (\<lambda>k. MemorySet_token (kernel_space k))) (\<lambda>kernel_satp.
        thn (on_mm (upd (put_trap_cx trap_cx_ppn
               (app_init_context (user_sstatus pf) entry_point user_sp kernel_satp kernel_stack_top (trap_handler_addr pf)))))
          (ret task_control_block))))))"

text \<open>Replacing the address space drops the old one.\<close>

definition exec :: "platform \<Rightarrow> nat \<Rightarrow> byte list \<Rightarrow> unit kernel_action" where
  "exec pf self elf_data =
     bnd (on_mm (MemorySet_from_elf (parse_elf pf) (strampoline (linker pf)) elf_data)) (\<lambda>(memory_set, user_sp, entry_point).
     bnd (trap_cx_page memory_set) (\<lambda>trap_cx_ppn.
     bnd (get_tcb self) (\<lambda>t.
     thn (on_mm (MemorySet_drop (tcb.memory_set t)))
     (thn (upd_tcb self (\<lambda>t. t\<lparr>memory_set := memory_set, trap_cx_ppn := trap_cx_ppn\<rparr>))
     (bnd (gets (\<lambda>k. MemorySet_token (kernel_space k))) (\<lambda>kernel_satp.
      on_mm (upd (put_trap_cx trap_cx_ppn
        (app_init_context (user_sstatus pf) entry_point user_sp kernel_satp (get_top (kernel_stack t)) (trap_handler_addr pf))))))))))"

text \<open>A new \<open>Arc\<close>.\<close>

definition Arc_new_tcb :: "tcb \<Rightarrow> nat kernel_action" where
  "Arc_new_tcb t =
     bnd (gets next_tcb) (\<lambda>r. thn (upd (\<lambda>k. k\<lparr>tcbs := (tcbs k)(r \<mapsto> t), next_tcb := Suc r\<rparr>)) (ret r))"

definition fork :: "platform \<Rightarrow> nat \<Rightarrow> nat kernel_action" where
  "fork pf self =
     bnd (get_tcb self) (\<lambda>parent_inner.
     bnd (on_mm (MemorySet_from_existed_user (strampoline (linker pf)) (memory_set parent_inner))) (\<lambda>memory_set.
     bnd (trap_cx_page memory_set) (\<lambda>trap_cx_ppn.
     bnd pid_alloc (\<lambda>pid_handle.
     bnd (KernelStack_new pid_handle) (\<lambda>kernel_stack.
     let kernel_stack_top = get_top kernel_stack;
         new_fd_table = map (\<lambda>fd. case fd of Some file \<Rightarrow> Some file | None \<Rightarrow> None) (fd_table parent_inner)
     in bnd (Arc_new_tcb
            \<lparr>tcb_pid = pid_handle, kernel_stack = kernel_stack, trap_cx_ppn = trap_cx_ppn,
             base_size = base_size parent_inner, task_cx = goto_trap_return kernel_stack_top, task_status = Ready,
             memory_set = memory_set, parent = Some self, children = [], exit_code = 0, fd_table = new_fd_table\<rparr>)
          (\<lambda>task_control_block.
        thn (upd_tcb self (\<lambda>t. t\<lparr>children := children t @ [task_control_block]\<rparr>))
        (thn (on_mm (upd (tc_set trap_cx_ppn TC_KERNEL_SP kernel_stack_top)))
        (ret task_control_block))))))))"

text \<open>
  Dropping the last \<open>Arc\<close> of a task drops its fields in their order: the pid, the kernel stack, and
  the address space. (A task is only dropped as a zombie, and \<open>exit_current_and_run_next\<close> has
  cleared its children.)
\<close>

definition drop_tcb :: "nat \<Rightarrow> unit kernel_action" where
  "drop_tcb r =
     bnd (get_tcb r) (\<lambda>t.
     thn (on_pids (PidHandle_drop (tcb_pid t)))
     (thn (KernelStack_drop (kernel_stack t))
     (thn (on_mm (MemorySet_drop (memory_set t)))
     (upd (\<lambda>k. k\<lparr>tcbs := (tcbs k)(r := None)\<rparr>)))))"

end
