(* ===== verification/Syscall.thy ===== *)
theory Syscall
  imports Kernel
begin

text \<open>
  The running kernel: the ready queue (\<open>src/os/src/task/manager.rs\<close>), the processor
  (\<open>src/os/src/task/processor.rs\<close>), giving up the processor and exiting (\<open>src/os/src/task/mod.rs\<close>), the
  system calls (\<open>src/os/src/syscall\<close>), the standard streams (\<open>src/os/src/fs/stdio.rs\<close>), the timer
  (\<open>src/os/src/timer.rs\<close>), traps (\<open>src/os/src/trap\<close>) and the start of the kernel
  (\<open>src/os/src/main.rs\<close>).

  A handler either returns a value or has switched to the idle control flow; in the latter case
  what it still has to do is the \<open>task_cx\<close> of the task. Messages that the kernel itself prints
  are not modelled: \<open>console_out\<close> holds what tasks write.
\<close>

datatype 'a outcome = Returns 'a | Switched

section \<open>The ready queue\<close>

definition add_task :: "nat \<Rightarrow> unit kernel_action" where
  "add_task r = upd (\<lambda>k. k\<lparr>ready_queue := ready_queue k @ [r]\<rparr>)"

definition fetch_task :: "nat option kernel_action" where
  "fetch_task =
     bnd (gets ready_queue) (\<lambda>q.
     case q of
       [] \<Rightarrow> ret None
     | r # q \<Rightarrow> thn (upd (\<lambda>k. k\<lparr>ready_queue := q\<rparr>)) (ret (Some r)))"

section \<open>The processor\<close>

definition take_current_task :: "nat option kernel_action" where
  "take_current_task = bnd (gets current) (\<lambda>c. thn (upd (\<lambda>k. k\<lparr>current := None\<rparr>)) (ret c))"

definition current_task :: "nat option kernel_action" where
  "current_task = gets current"

definition current_tcb :: "(nat \<times> tcb) kernel_action" where
  "current_tcb = bnd current_task (\<lambda>c. bnd (unwrap c) (\<lambda>r. bnd (get_tcb r) (\<lambda>t. ret (r, t))))"

definition current_user_token :: "usize kernel_action" where
  "current_user_token = bnd current_tcb (\<lambda>(_, t). ret (get_user_token t))"

definition current_trap_cx :: "phys_page_num kernel_action" where
  "current_trap_cx = bnd current_tcb (\<lambda>(_, t). ret (trap_cx_ppn t))"

section \<open>Giving up the processor\<close>

text \<open>
  \<open>schedule\<close> saves in \<open>task_cx\<close> where the caller goes on and switches to the idle control flow. (A task
  that exits passes a context that nobody reads.)
\<close>

definition schedule :: "nat \<Rightarrow> continuation \<Rightarrow> unit kernel_action" where
  "schedule task cont = upd_tcb task (\<lambda>t. t\<lparr>task_cx := SwitchedOut cont\<rparr>)"

definition suspend_current_and_run_next :: "continuation \<Rightarrow> unit kernel_action" where
  "suspend_current_and_run_next cont =
     bnd take_current_task (\<lambda>c.
     bnd (unwrap c) (\<lambda>task.
     bnd (get_tcb task) (\<lambda>_.
     thn (upd_tcb task (\<lambda>t. t\<lparr>task_status := Ready\<rparr>))
     (thn (add_task task)
     (schedule task cont)))))"

definition IDLE_PID :: usize where "IDLE_PID = 0"

text \<open>
  While a task's cell is borrowed a second borrow of it panics: \<open>cells\<close> lists the tasks whose cells
  are borrowed.
\<close>

definition borrow :: "nat list \<Rightarrow> nat \<Rightarrow> unit kernel_action" where
  "borrow cells r = (if r \<in> set cells then fail AlreadyBorrowed else ret ())"

definition reparent :: "nat \<Rightarrow> nat \<Rightarrow> nat \<Rightarrow> unit kernel_action" where
  "reparent task INITPROC child =
     thn (borrow [task, INITPROC] child)
     (bnd (get_tcb child) (\<lambda>_.
     thn (upd_tcb child (\<lambda>t. t\<lparr>parent := Some INITPROC\<rparr>))
     (upd_tcb INITPROC (\<lambda>t. t\<lparr>children := children t @ [child]\<rparr>))))"

definition exit_current_and_run_next :: "32 word \<Rightarrow> unit kernel_action" where
  "exit_current_and_run_next code =
     bnd take_current_task (\<lambda>c.
     bnd (unwrap c) (\<lambda>task.
     bnd (get_tcb task) (\<lambda>inner.
     if getpid inner = IDLE_PID then fail (QemuExit (code = 0)) else
     thn (upd_tcb task (\<lambda>t. t\<lparr>task_status := Zombie, exit_code := code\<rparr>))
     (bnd (gets initproc) (\<lambda>INITPROC.
     thn (borrow [task] INITPROC)
     (thn (for_each (reparent task INITPROC) (children inner))
     (thn (upd_tcb task (\<lambda>t. t\<lparr>children := []\<rparr>))
     (bnd (on_mm (recycle_data_pages (memory_set inner))) (\<lambda>ms.
     upd_tcb task (\<lambda>t. t\<lparr>memory_set := ms\<rparr>))))))))))"

section \<open>The timer\<close>

definition CLOCK_FREQ :: usize where "CLOCK_FREQ = 12500000"
definition TICKS_PER_SEC :: usize where "TICKS_PER_SEC = 100"
definition MSEC_PER_SEC :: usize where "MSEC_PER_SEC = 1000"

definition get_time :: "platform \<Rightarrow> usize kernel_action" where
  "get_time pf = bnd (gets time_reads) (\<lambda>n. thn (upd (\<lambda>k. k\<lparr>time_reads := Suc n\<rparr>)) (ret (time_values pf n)))"

definition get_time_ms :: "platform \<Rightarrow> usize kernel_action" where
  "get_time_ms pf = bnd (get_time pf) (\<lambda>t. ret (t div (CLOCK_FREQ div MSEC_PER_SEC)))"

definition set_next_trigger :: "platform \<Rightarrow> unit kernel_action" where
  "set_next_trigger pf =
     bnd (get_time pf) (\<lambda>t. upd (\<lambda>k. k\<lparr>timer := t + CLOCK_FREQ div TICKS_PER_SEC\<rparr>))"

section \<open>The standard streams\<close>

definition console_getchar :: "platform \<Rightarrow> usize kernel_action" where
  "console_getchar pf =
     bnd (gets getchar_calls) (\<lambda>n. thn (upd (\<lambda>k. k\<lparr>getchar_calls := Suc n\<rparr>)) (ret (getchar_results pf n)))"

text \<open>The loop of \<open>Stdin::read\<close>, from one \<open>console_getchar\<close> to the end or to the next switch.\<close>

definition Stdin_read_loop :: "platform \<Rightarrow> nat \<Rightarrow> user_buffer \<Rightarrow> usize outcome kernel_action" where
  "Stdin_read_loop pf task user_buf =
     bnd (console_getchar pf) (\<lambda>c.
     if c = 0 then thn (suspend_current_and_run_next (StdinRetry task user_buf)) (ret Switched)
     else
       bnd (index (buffers user_buf) 0) (\<lambda>sl.
       thn (on_mm (upd (write_slice sl [ucast c]))) (ret (Returns 1))))"

definition Stdin_read :: "platform \<Rightarrow> nat \<Rightarrow> user_buffer \<Rightarrow> usize outcome kernel_action" where
  "Stdin_read pf task user_buf =
     thn (assert_that (UserBuffer_len user_buf = 1)) (Stdin_read_loop pf task user_buf)"

definition print_slice :: "slice_ref \<Rightarrow> unit kernel_action" where
  "print_slice sl =
     bnd (gets (\<lambda>k. slice_bytes (k_mm k) sl)) (\<lambda>bs.
     bnd (unwrap (from_utf8 bs)) (\<lambda>bs. upd (\<lambda>k. k\<lparr>console_out := console_out k @ bs\<rparr>)))"

definition Stdout_write :: "user_buffer \<Rightarrow> usize kernel_action" where
  "Stdout_write user_buf = thn (for_each print_slice (buffers user_buf)) (ret (UserBuffer_len user_buf))"

section \<open>Files\<close>

definition get_file :: "nat \<Rightarrow> os_inode kernel_action" where
  "get_file f = bnd (gets (\<lambda>k. os_files k f)) unwrap"

definition put_file :: "nat \<Rightarrow> os_inode \<Rightarrow> unit kernel_action" where
  "put_file f o' = upd (\<lambda>k. k\<lparr>os_files := (os_files k)(f \<mapsto> o')\<rparr>)"

definition Arc_new_file :: "os_inode \<Rightarrow> nat kernel_action" where
  "Arc_new_file o' =
     bnd (gets next_file) (\<lambda>f. thn (upd (\<lambda>k. k\<lparr>os_files := (os_files k)(f \<mapsto> o'), next_file := Suc f\<rparr>)) (ret f))"

text \<open>The trait \<open>File\<close>: a call is dispatched on the object.\<close>

definition file_readable :: "file_object \<Rightarrow> bool kernel_action" where
  "file_readable fo =
     (case fo of Stdin \<Rightarrow> ret True | Stdout \<Rightarrow> ret False | InodeFile f \<Rightarrow> bnd (get_file f) (\<lambda>o'. ret (os_readable o')))"

definition file_writable :: "file_object \<Rightarrow> bool kernel_action" where
  "file_writable fo =
     (case fo of Stdin \<Rightarrow> ret False | Stdout \<Rightarrow> ret True | InodeFile f \<Rightarrow> bnd (get_file f) (\<lambda>o'. ret (os_writable o')))"

definition file_read :: "platform \<Rightarrow> nat \<Rightarrow> file_object \<Rightarrow> user_buffer \<Rightarrow> usize outcome kernel_action" where
  "file_read pf task fo buf =
     (case fo of
        Stdin \<Rightarrow> Stdin_read pf task buf
      | Stdout \<Rightarrow> fail ExplicitPanic
      | InodeFile f \<Rightarrow>
          bnd (get_file f) (\<lambda>o'.
          bnd (on_io (OSInode_read o' buf)) (\<lambda>(n, o').
          thn (put_file f o') (ret (Returns (word_of_nat n))))))"

definition file_write :: "file_object \<Rightarrow> user_buffer \<Rightarrow> usize outcome kernel_action" where
  "file_write fo buf =
     (case fo of
        Stdin \<Rightarrow> fail ExplicitPanic
      | Stdout \<Rightarrow> bnd (Stdout_write buf) (\<lambda>n. ret (Returns n))
      | InodeFile f \<Rightarrow>
          bnd (get_file f) (\<lambda>o'.
          bnd (on_io (OSInode_write o' buf)) (\<lambda>(n, o').
          thn (put_file f o') (ret (Returns (word_of_nat n))))))"

text \<open>Access to user memory: a loop that never ends, a panic, or the result.\<close>

definition user_access :: "(mm \<Rightarrow> (panic + 'a) option) \<Rightarrow> 'a kernel_action" where
  "user_access f k =
     (case f (k_mm k) of
        None \<Rightarrow> Inl RunsForever
      | Some (Inl e) \<Rightarrow> Inl e
      | Some (Inr a) \<Rightarrow> Inr (a, k))"

text \<open>
  \<open>translated_str\<close> pushes each byte as the character with that code; the bytes of the resulting
  string are its UTF-8 encoding.
\<close>

definition char_utf8 :: "char \<Rightarrow> byte list" where
  "char_utf8 c =
     (let n = of_char c :: nat
      in if n < 128 then [word_of_nat n] else [word_of_nat (192 + n div 64), word_of_nat (128 + n mod 64)])"

definition str_bytes :: "string \<Rightarrow> byte list" where
  "str_bytes s = concat (map char_utf8 s)"

definition user_path :: "usize \<Rightarrow> usize \<Rightarrow> byte list kernel_action" where
  "user_path token ptr = bnd (user_access (\<lambda>m. translated_str m token ptr)) (\<lambda>s. ret (str_bytes s))"

section \<open>System calls on files\<close>

definition sys_write :: "usize \<Rightarrow> usize \<Rightarrow> usize \<Rightarrow> usize outcome kernel_action" where
  "sys_write fd buf len =
     bnd current_user_token (\<lambda>token.
     bnd current_tcb (\<lambda>(task, inner).
     if unat fd \<ge> length (fd_table inner) then ret (Returns (- 1))
     else
       (case fd_table inner ! unat fd of
          Some file' \<Rightarrow>
            bnd (file_writable file') (\<lambda>w.
            if \<not> w then ret (Returns (- 1))
            else
              bnd (user_access (\<lambda>m. translated_byte_buffer m token buf len)) (\<lambda>v. file_write file' (UserBuffer_new v)))
        | None \<Rightarrow> ret (Returns (- 1)))))"

definition sys_read :: "platform \<Rightarrow> usize \<Rightarrow> usize \<Rightarrow> usize \<Rightarrow> usize outcome kernel_action" where
  "sys_read pf fd buf len =
     bnd current_user_token (\<lambda>token.
     bnd current_tcb (\<lambda>(task, inner).
     if unat fd \<ge> length (fd_table inner) then ret (Returns (- 1))
     else
       (case fd_table inner ! unat fd of
          Some file' \<Rightarrow>
            bnd (file_readable file') (\<lambda>r.
            if \<not> r then ret (Returns (- 1))
            else
              bnd (user_access (\<lambda>m. translated_byte_buffer m token buf len)) (\<lambda>v. file_read pf task file' (UserBuffer_new v)))
        | None \<Rightarrow> ret (Returns (- 1)))))"

definition sys_open :: "usize \<Rightarrow> open_flags \<Rightarrow> usize outcome kernel_action" where
  "sys_open path_ptr fl =
     bnd current_task (\<lambda>c.
     bnd (unwrap c) (\<lambda>task.
     bnd current_user_token (\<lambda>token.
     bnd (user_path token path_ptr) (\<lambda>nam.
     bnd (unwrap (OpenFlags_from_bits fl)) (\<lambda>fl.
     bnd (gets root_ino) (\<lambda>ROOT_INODE.
     bnd (on_disk (open_file ROOT_INODE nam fl)) (\<lambda>r.
     case r of
       Some ino \<Rightarrow>
         bnd (get_tcb task) (\<lambda>inner.
         let (fd, inner') = alloc_fd inner
         in bnd (Arc_new_file ino) (\<lambda>f.
            thn (upd_tcb task (\<lambda>t. t\<lparr>fd_table := (fd_table inner')[fd := Some (InodeFile f)]\<rparr>))
              (ret (Returns (word_of_nat fd)))))
     | None \<Rightarrow> ret (Returns (- 1)))))))))"

definition sys_close :: "usize \<Rightarrow> usize outcome kernel_action" where
  "sys_close fd =
     bnd current_tcb (\<lambda>(task, inner).
     if unat fd \<ge> length (fd_table inner) then ret (Returns (- 1))
     else if fd_table inner ! unat fd = None then ret (Returns (- 1))
     else thn (upd_tcb task (\<lambda>t. t\<lparr>fd_table := (fd_table t)[unat fd := None]\<rparr>)) (ret (Returns 0)))"

section \<open>System calls on processes\<close>

definition sys_exit :: "32 word \<Rightarrow> usize outcome kernel_action" where
  "sys_exit code = thn (exit_current_and_run_next code) (ret Switched)"

definition sys_yield :: "usize outcome kernel_action" where
  "sys_yield = thn (suspend_current_and_run_next (SyscallReturn 0)) (ret Switched)"

definition sys_get_time :: "platform \<Rightarrow> usize outcome kernel_action" where
  "sys_get_time pf = bnd (get_time_ms pf) (\<lambda>t. ret (Returns t))"

definition sys_getpid :: "usize outcome kernel_action" where
  "sys_getpid = bnd current_tcb (\<lambda>(_, t). ret (Returns (getpid t)))"

definition sys_fork :: "platform \<Rightarrow> usize outcome kernel_action" where
  "sys_fork pf =
     bnd current_task (\<lambda>c.
     bnd (unwrap c) (\<lambda>current_task.
     bnd (fork pf current_task) (\<lambda>new_task.
     bnd (get_tcb new_task) (\<lambda>t.
     thn (on_mm (upd (tc_set (trap_cx_ppn t) 10 0)))
     (thn (add_task new_task) (ret (Returns (getpid t))))))))"

definition sys_exec :: "platform \<Rightarrow> usize \<Rightarrow> usize outcome kernel_action" where
  "sys_exec pf path_ptr =
     bnd current_user_token (\<lambda>token.
     bnd (user_path token path_ptr) (\<lambda>nam.
     bnd (gets root_ino) (\<lambda>ROOT_INODE.
     bnd (on_disk (open_file ROOT_INODE nam RDONLY)) (\<lambda>r.
     case r of
       Some app_inode \<Rightarrow>
         bnd (on_disk (OSInode_read_all app_inode)) (\<lambda>(all_data, _).
         bnd current_task (\<lambda>c.
         bnd (unwrap c) (\<lambda>task.
         thn (exec pf task all_data) (ret (Returns 0)))))
     | None \<Rightarrow> ret (Returns (- 1))))))"

text \<open>
  The references to a task that are counted: the lists of children, the ready queue, the
  processor, \<open>INITPROC\<close>, and the local variable \<open>task\<close> of a \<open>sys_read\<close> that waits for a
  character. A running or dead task's saved context is stale and holds nothing.
\<close>

definition context_arcs :: "tcb \<Rightarrow> nat list" where
  "context_arcs t =
     (if task_status t = Ready then
        (case task_cx t of SwitchedOut (StdinRetry r _) \<Rightarrow> [r] | _ \<Rightarrow> [])
      else [])"

definition arcs :: "kernel \<Rightarrow> nat list" where
  "arcs k =
     concat (map (\<lambda>r. case tcbs k r of None \<Rightarrow> [] | Some t \<Rightarrow> children t @ context_arcs t) [0..<next_tcb k]) @
     ready_queue k @ (case current k of None \<Rightarrow> [] | Some r \<Rightarrow> [r]) @ [initproc k]"

definition strong_count :: "nat list \<Rightarrow> nat \<Rightarrow> kernel \<Rightarrow> nat" where
  "strong_count locals r k = count_list (locals @ arcs k) r"

definition pid_matches :: "usize \<Rightarrow> tcb \<Rightarrow> bool" where
  "pid_matches pid t \<longleftrightarrow> pid = - 1 \<or> pid = getpid t"

primrec any_child :: "usize \<Rightarrow> nat list \<Rightarrow> bool kernel_action" where
  "any_child pid [] = ret False"
| "any_child pid (p # ps) =
     bnd (get_tcb p) (\<lambda>t. if pid_matches pid t then ret True else any_child pid ps)"

primrec find_zombie :: "nat \<Rightarrow> usize \<Rightarrow> nat list \<Rightarrow> nat option kernel_action" where
  "find_zombie task pid [] = ret None"
| "find_zombie task pid (p # ps) =
     thn (borrow [task] p)
     (bnd (get_tcb p) (\<lambda>t.
     if is_zombie t \<and> pid_matches pid t then ret (Some 0)
     else bnd (find_zombie task pid ps) (\<lambda>r. ret (map_option Suc r))))"

text \<open>Taking the child at an index of the list of children away.\<close>

definition reap_child :: "nat \<Rightarrow> tcb \<Rightarrow> nat \<Rightarrow> usize \<Rightarrow> usize outcome kernel_action" where
  "reap_child task task_inner idx exit_code_ptr =
     (let child = children task_inner ! idx
      in thn (upd_tcb task (\<lambda>t. t\<lparr>children := take idx (children t) @ drop (Suc idx) (children t)\<rparr>))
         (bnd (gets (strong_count [task, child] child)) (\<lambda>n.
         thn (assert_that (n = 1))
         (bnd (get_tcb child) (\<lambda>c.
         bnd (gets (\<lambda>k. translated_refmut (k_mm k) (get_user_token task_inner) exit_code_ptr)) (\<lambda>r.
         case r of
           Inl e \<Rightarrow> fail e
         | Inr pa \<Rightarrow>
             thn (on_mm (upd (write_phys (pa_0 pa) (le_enc 4 (unat (exit_code c))))))
             (thn (drop_tcb child) (ret (Returns (getpid c))))))))))"

definition sys_waitpid :: "usize \<Rightarrow> usize \<Rightarrow> usize outcome kernel_action" where
  "sys_waitpid pid exit_code_ptr =
     bnd current_tcb (\<lambda>(task, inner).
     bnd (any_child pid (children inner)) (\<lambda>found.
     if \<not> found then ret (Returns (- 1))
     else
       bnd (find_zombie task pid (children inner)) (\<lambda>pair.
       case pair of
         Some idx \<Rightarrow> reap_child task inner idx exit_code_ptr
       | None \<Rightarrow> ret (Returns (- 2)))))"

section \<open>System call dispatch\<close>

definition SYSCALL_OPEN :: usize where "SYSCALL_OPEN = 56"
definition SYSCALL_CLOSE :: usize where "SYSCALL_CLOSE = 57"
definition SYSCALL_READ :: usize where "SYSCALL_READ = 63"
definition SYSCALL_WRITE :: usize where "SYSCALL_WRITE = 64"
definition SYSCALL_EXIT :: usize where "SYSCALL_EXIT = 93"
definition SYSCALL_YIELD :: usize where "SYSCALL_YIELD = 124"
definition SYSCALL_GET_TIME :: usize where "SYSCALL_GET_TIME = 169"
definition SYSCALL_GETPID :: usize where "SYSCALL_GETPID = 172"
definition SYSCALL_FORK :: usize where "SYSCALL_FORK = 220"
definition SYSCALL_EXEC :: usize where "SYSCALL_EXEC = 221"
definition SYSCALL_WAITPID :: usize where "SYSCALL_WAITPID = 260"

definition syscall :: "platform \<Rightarrow> usize \<Rightarrow> usize \<times> usize \<times> usize \<Rightarrow> usize outcome kernel_action" where
  "syscall pf syscall_id args =
     (case args of (a0, a1, a2) \<Rightarrow>
        if syscall_id = SYSCALL_OPEN then sys_open a0 (ucast a1)
        else if syscall_id = SYSCALL_CLOSE then sys_close a0
        else if syscall_id = SYSCALL_READ then sys_read pf a0 a1 a2
        else if syscall_id = SYSCALL_WRITE then sys_write a0 a1 a2
        else if syscall_id = SYSCALL_EXIT then sys_exit (ucast a0)
        else if syscall_id = SYSCALL_YIELD then sys_yield
        else if syscall_id = SYSCALL_GET_TIME then sys_get_time pf
        else if syscall_id = SYSCALL_GETPID then sys_getpid
        else if syscall_id = SYSCALL_FORK then sys_fork pf
        else if syscall_id = SYSCALL_EXEC then sys_exec pf a0
        else if syscall_id = SYSCALL_WAITPID then sys_waitpid a0 a1
        else fail ExplicitPanic)"

section \<open>Traps\<close>

text \<open>The registers of a program: \<open>x0\<close> to \<open>x31\<close>, the status register and the program counter.\<close>

record user_regs =
  u_x :: "usize list"
  u_sstatus :: usize
  u_sepc :: usize

datatype cpu = Idle | User user_regs

text \<open>
  The trap context through the page table that \<open>satp\<close> selects. If it is not mapped there, the
  processor faults inside the trampoline again and again.
\<close>

definition trap_cx_frame :: "phys_page_num kernel_action" where
  "trap_cx_frame =
     bnd (gets (\<lambda>k. PageTable_translate (k_mm k) (PageTable_from_token (satp k))
                  (VirtAddr_floor (VirtAddr_from_usize TRAP_CONTEXT)))) (\<lambda>r.
     case r of
       None \<Rightarrow> fail RunsForever
     | Some pte \<Rightarrow> if is_valid pte then ret (pte_ppn pte) else fail RunsForever)"

text \<open>The general purpose registers that are saved first.\<close>

definition saved_gp :: "nat list" where
  "saved_gp = [1, 3] @ [5..<32]"

definition save_gp :: "phys_page_num \<Rightarrow> usize list \<Rightarrow> nat \<Rightarrow> unit kernel_action" where
  "save_gp ppn x n = on_mm (upd (tc_set ppn n (x ! n)))"

text \<open>
  \<open>__alltraps\<close>: saves the registers (the stack pointer last, \<open>tp\<close> not at all), switches to
  the kernel's address space, and jumps to the address it returns. The kernel stack is not part of the
  state: that \<open>sp\<close> gets word 35 of the trap context is left out, and so is \<open>sscratch\<close>, which
  \<open>__restore\<close> always sets to \<open>TRAP_CONTEXT\<close>.
\<close>

definition alltraps :: "user_regs \<Rightarrow> usize kernel_action" where
  "alltraps rs =
     thn (upd (\<lambda>k. k\<lparr>tp := u_x rs ! 4\<rparr>))
     (bnd trap_cx_frame (\<lambda>ppn.
     thn (for_each (save_gp ppn (u_x rs)) saved_gp)
     (thn (on_mm (upd (tc_set ppn 32 (u_sstatus rs))))
     (thn (on_mm (upd (tc_set ppn 33 (u_sepc rs))))
     (thn (save_gp ppn (u_x rs) 2)
     (bnd (gets (\<lambda>k. tc_get (k_mm k) ppn 34)) (\<lambda>t0.
     bnd (gets (\<lambda>k. tc_get (k_mm k) ppn 36)) (\<lambda>t1.
     thn (upd (\<lambda>k. k\<lparr>satp := t0\<rparr>)) (ret t1)))))))))"

definition load_gp :: "kernel \<Rightarrow> phys_page_num \<Rightarrow> nat \<Rightarrow> usize" where
  "load_gp k ppn n = (if n = 0 then 0 else if n = 4 then tp k else tc_get (k_mm k) ppn n)"

definition restore :: "usize \<Rightarrow> user_regs kernel_action" where
  "restore user_satp =
     thn (upd (\<lambda>k. k\<lparr>satp := user_satp\<rparr>))
     (bnd trap_cx_frame (\<lambda>ppn.
      gets (\<lambda>k. \<lparr>u_x = map (load_gp k ppn) [0..<32], u_sstatus = tc_get (k_mm k) ppn 32,
                 u_sepc = tc_get (k_mm k) ppn 33\<rparr>)))"

definition set_kernel_trap_entry :: "platform \<Rightarrow> unit kernel_action" where
  "set_kernel_trap_entry pf = upd (\<lambda>k. k\<lparr>stvec := trap_from_kernel_addr pf\<rparr>)"

definition set_user_trap_entry :: "unit kernel_action" where
  "set_user_trap_entry = upd (\<lambda>k. k\<lparr>stvec := TRAMPOLINE\<rparr>)"

definition trap_return :: "cpu kernel_action" where
  "trap_return =
     thn set_user_trap_entry
     (bnd current_user_token (\<lambda>user_satp. bnd (restore user_satp) (\<lambda>rs. ret (User rs))))"

datatype trap =
    UserEnvCall | StoreFault | StorePageFault | InstructionFault | InstructionPageFault
  | LoadFault | LoadPageFault | IllegalInstruction | SupervisorTimer | OtherTrap

text \<open>What follows a system call in \<open>trap_handler\<close>; \<open>current_trap_cx\<close> is called again.\<close>

definition syscall_return :: "usize outcome \<Rightarrow> cpu kernel_action" where
  "syscall_return out =
     (case out of
        Switched \<Rightarrow> ret Idle
      | Returns result \<Rightarrow>
          bnd current_trap_cx (\<lambda>cx. thn (on_mm (upd (tc_set cx 10 result))) trap_return))"

definition trap_handler :: "platform \<Rightarrow> trap \<Rightarrow> cpu kernel_action" where
  "trap_handler pf scause =
     thn (set_kernel_trap_entry pf)
     (case scause of
        UserEnvCall \<Rightarrow>
          bnd current_trap_cx (\<lambda>cx.
          thn (on_mm (upd (\<lambda>m. tc_set cx TC_SEPC (tc_get m cx TC_SEPC + 4) m)))
          (bnd (gets (\<lambda>k. tc_get (k_mm k) cx)) (\<lambda>x.
          bnd (syscall pf (x 17) (x 10, x 11, x 12)) syscall_return)))
      | StoreFault \<Rightarrow> thn (exit_current_and_run_next (- 2)) (ret Idle)
      | StorePageFault \<Rightarrow> thn (exit_current_and_run_next (- 2)) (ret Idle)
      | InstructionFault \<Rightarrow> thn (exit_current_and_run_next (- 2)) (ret Idle)
      | InstructionPageFault \<Rightarrow> thn (exit_current_and_run_next (- 2)) (ret Idle)
      | LoadFault \<Rightarrow> thn (exit_current_and_run_next (- 2)) (ret Idle)
      | LoadPageFault \<Rightarrow> thn (exit_current_and_run_next (- 2)) (ret Idle)
      | IllegalInstruction \<Rightarrow> thn (exit_current_and_run_next (- 3)) (ret Idle)
      | SupervisorTimer \<Rightarrow> thn (set_next_trigger pf) (thn (suspend_current_and_run_next TimerReturn) (ret Idle))
      | OtherTrap \<Rightarrow> fail ExplicitPanic)"

text \<open>
  A trap of the running program: the processor goes on where \<open>stvec\<close> says, which is \<open>__alltraps\<close> when it
  is the trampoline, and \<open>__alltraps\<close> jumps to the address in the trap context. A program can have that
  word overwritten by a system call that stores through its pointer; the jump then leaves the kernel.
\<close>

definition user_trap :: "platform \<Rightarrow> trap \<Rightarrow> user_regs \<Rightarrow> cpu kernel_action" where
  "user_trap pf scause rs =
     bnd (gets stvec) (\<lambda>entry.
     if entry = TRAMPOLINE
     then bnd (alltraps rs) (\<lambda>t1.
          if t1 = trap_handler_addr pf then trap_handler pf scause else fail WildJump)
     else fail WildJump)"

section \<open>The idle control flow\<close>

text \<open>Switching to a task goes on where it gave up the processor. The zero context has no code.\<close>

definition resume :: "platform \<Rightarrow> task_context \<Rightarrow> cpu kernel_action" where
  "resume pf cx =
     (case cx of
        ZeroContext \<Rightarrow> fail ExplicitPanic
      | TrapReturnContext _ \<Rightarrow> trap_return
      | SwitchedOut TimerReturn \<Rightarrow> trap_return
      | SwitchedOut (SyscallReturn v) \<Rightarrow> syscall_return (Returns v)
      | SwitchedOut (StdinRetry task buf) \<Rightarrow> bnd (Stdin_read_loop pf task buf) syscall_return)"

text \<open>One round of the loop of \<open>run_tasks\<close>, up to the next return to user mode or to the loop.\<close>

definition run_tasks :: "platform \<Rightarrow> cpu kernel_action" where
  "run_tasks pf =
     bnd fetch_task (\<lambda>r.
     case r of
       None \<Rightarrow> ret Idle
     | Some task \<Rightarrow>
         bnd (get_tcb task) (\<lambda>t.
         thn (upd_tcb task (\<lambda>t. t\<lparr>task_status := Running\<rparr>))
         (thn (upd (\<lambda>k. k\<lparr>current := Some task\<rparr>)) (resume pf (task_cx t)))))"

section \<open>Starting the kernel\<close>

definition mm_init :: "platform \<Rightarrow> unit kernel_action" where
  "mm_init pf =
     thn (on_mm (init_frame_allocator (ekernel (linker pf))))
     (bnd (on_mm (MemorySet_new_kernel (linker pf))) (\<lambda>ms.
     thn (upd (\<lambda>k. k\<lparr>kernel_space := ms\<rparr>))
     (upd (\<lambda>k. k\<lparr>satp := MemorySet_token ms\<rparr>))))"

definition remap_test :: "platform \<Rightarrow> unit kernel_action" where
  "remap_test pf =
     (let ls = linker pf;
          mid_text = VirtAddr_from_usize ((stext ls + etext ls) div 2);
          mid_rodata = VirtAddr_from_usize ((srodata ls + erodata ls) div 2);
          mid_data = VirtAddr_from_usize ((sdata ls + edata ls) div 2);
          translate = (\<lambda>va. bnd (gets (\<lambda>k. MemorySet_translate (k_mm k) (kernel_space k) (VirtAddr_floor va))) unwrap)
      in bnd (translate mid_text) (\<lambda>pte. thn (assert_that (\<not> writable pte))
         (bnd (translate mid_rodata) (\<lambda>pte. thn (assert_that (\<not> writable pte))
         (bnd (translate mid_data) (\<lambda>pte. assert_that (\<not> executable pte)))))))"

text \<open>The root directory is opened when the file system is first used.\<close>

definition init_root :: "unit kernel_action" where
  "init_root =
     bnd (on_disk Efs_open) (\<lambda>efs. upd (\<lambda>k. k\<lparr>root_ino := root_inode efs\<rparr>))"

definition add_initproc :: "platform \<Rightarrow> unit kernel_action" where
  "add_initproc pf =
     bnd (gets root_ino) (\<lambda>ROOT_INODE.
     bnd (on_disk (open_file ROOT_INODE (str_bytes ''initproc'') RDONLY)) (\<lambda>r.
     bnd (unwrap r) (\<lambda>ino.
     bnd (on_disk (OSInode_read_all ino)) (\<lambda>(v, _).
     bnd (TaskControlBlock_new pf v) (\<lambda>t.
     bnd (Arc_new_tcb t) (\<lambda>r.
     thn (upd (\<lambda>k. k\<lparr>initproc := r\<rparr>)) (add_task r)))))))"

definition rust_main :: "platform \<Rightarrow> cpu kernel_action" where
  "rust_main pf =
     thn (mm_init pf)
     (thn (remap_test pf)
     (thn (set_kernel_trap_entry pf)
     (thn (set_next_trigger pf)
     (thn init_root
     (bnd (gets root_ino) (\<lambda>ROOT_INODE.
     bnd (on_disk (list_apps ROOT_INODE)) (\<lambda>_.
     thn (add_initproc pf) (ret Idle))))))))"

end
