(* ===== verification/Task_Model.thy ===== *)
theory Task_Model
  imports Pid Kernel
begin

text \<open>
  The abstract task manager that the kernel implements: tasks with a status, a parent and
  children, a queue, the task on the processor and the pid allocator, and five events. The invariant
  \<open>tasks_inv\<close> is kept by every event. It says that the queue holds exactly the ready tasks, that
  tasks form a tree under the initial process, and that live tasks own different pids.
\<close>

section \<open>The state and its events\<close>

record task =
  t_pid :: pid_handle
  t_status :: task_status
  t_parent :: "nat option"
  t_children :: "nat list"
  t_cx :: task_context

record tasks_state =
  tasks :: "nat \<Rightarrow> task option"
  fresh :: nat
  queue :: "nat list"
  running :: "nat option"
  init :: nat
  pid_pool :: pid_allocator

datatype event = Dispatch nat | Suspend nat | Exit nat | Fork nat nat | Reap nat nat

definition new_task :: "pid_handle \<Rightarrow> nat option \<Rightarrow> usize \<Rightarrow> task" where
  "new_task h p kstack =
     \<lparr>t_pid = h, t_status = Ready, t_parent = p, t_children = [], t_cx = TrapReturnContext kstack\<rparr>"

text \<open>The children of a task that exits become the last children of the initial process.\<close>

definition exit_tasks :: "nat \<Rightarrow> task \<Rightarrow> nat \<Rightarrow> (nat \<Rightarrow> task option) \<Rightarrow> nat \<Rightarrow> task option" where
  "exit_tasks r t i ts c =
     (if c = r then Some (t\<lparr>t_status := Zombie, t_children := []\<rparr>)
      else if c \<in> set (t_children t) then map_option (\<lambda>u. u\<lparr>t_parent := Some i\<rparr>) (ts c)
      else if c = i then map_option (\<lambda>u. u\<lparr>t_children := t_children u @ t_children t\<rparr>) (ts c)
      else ts c)"

definition own_cx :: "nat \<Rightarrow> task_context \<Rightarrow> bool" where
  "own_cx r cx \<longleftrightarrow> cx \<noteq> ZeroContext \<and> (\<forall>r' b. cx = SwitchedOut (StdinRetry r' b) \<longrightarrow> r' = r)"

inductive task_step :: "tasks_state \<Rightarrow> event \<Rightarrow> tasks_state \<Rightarrow> bool" where
  do_dispatch: "queue \<sigma> = r # q \<Longrightarrow> running \<sigma> = None \<Longrightarrow> tasks \<sigma> r = Some t \<Longrightarrow>
    task_step \<sigma> (Dispatch r)
      (\<sigma>\<lparr>tasks := (tasks \<sigma>)(r \<mapsto> t\<lparr>t_status := Running\<rparr>), queue := q, running := Some r\<rparr>)"
| do_suspend: "running \<sigma> = Some r \<Longrightarrow> tasks \<sigma> r = Some t \<Longrightarrow> own_cx r cx \<Longrightarrow>
    task_step \<sigma> (Suspend r)
      (\<sigma>\<lparr>tasks := (tasks \<sigma>)(r \<mapsto> t\<lparr>t_status := Ready, t_cx := cx\<rparr>), queue := queue \<sigma> @ [r], running := None\<rparr>)"
| do_exit: "running \<sigma> = Some r \<Longrightarrow> tasks \<sigma> r = Some t \<Longrightarrow> pid_0 (t_pid t) \<noteq> 0 \<Longrightarrow>
    r \<noteq> init \<sigma> \<Longrightarrow> init \<sigma> \<notin> set (t_children t) \<Longrightarrow> r \<notin> set (t_children t) \<Longrightarrow>
    task_step \<sigma> (Exit r) (\<sigma>\<lparr>tasks := exit_tasks r t (init \<sigma>) (tasks \<sigma>), running := None\<rparr>)"
| do_fork: "running \<sigma> = Some p \<Longrightarrow> tasks \<sigma> p = Some t \<Longrightarrow> c = fresh \<sigma> \<Longrightarrow>
    PidAllocator_alloc (pid_pool \<sigma>) = Inr (h, pool) \<Longrightarrow>
    task_step \<sigma> (Fork p c)
      (\<sigma>\<lparr>tasks := (tasks \<sigma>)(c \<mapsto> new_task h (Some p) kstack, p \<mapsto> t\<lparr>t_children := t_children t @ [c]\<rparr>),
         fresh := Suc c, queue := queue \<sigma> @ [c], pid_pool := pool\<rparr>)"
| do_reap: "running \<sigma> = Some p \<Longrightarrow> tasks \<sigma> p = Some t \<Longrightarrow> t_children t = xs @ c # ys \<Longrightarrow> c \<noteq> p \<Longrightarrow>
    tasks \<sigma> c = Some u \<Longrightarrow> t_status u = Zombie \<Longrightarrow>
    PidHandle_drop (t_pid u) (pid_pool \<sigma>) = Inr ((), pool) \<Longrightarrow>
    task_step \<sigma> (Reap p c)
      (\<sigma>\<lparr>tasks := (tasks \<sigma>)(p \<mapsto> t\<lparr>t_children := xs @ ys\<rparr>, c := None), pid_pool := pool\<rparr>)"

inductive_simps task_step_simps:
  "task_step \<sigma> (Dispatch r) \<sigma>'" "task_step \<sigma> (Suspend r) \<sigma>'" "task_step \<sigma> (Exit r) \<sigma>'"
  "task_step \<sigma> (Fork p c) \<sigma>'" "task_step \<sigma> (Reap p c) \<sigma>'"

inductive task_steps :: "tasks_state \<Rightarrow> event list \<Rightarrow> tasks_state \<Rightarrow> bool" where
  no_step: "task_steps \<sigma> [] \<sigma>"
| more_steps: "task_step \<sigma> e \<sigma>' \<Longrightarrow> task_steps \<sigma>' es \<sigma>'' \<Longrightarrow> task_steps \<sigma> (e # es) \<sigma>''"

lemma task_steps_one: "task_step \<sigma> e \<sigma>' \<Longrightarrow> task_steps \<sigma> [e] \<sigma>'"
  by (blast intro: task_steps.intros)

lemma task_steps_append: "task_steps \<sigma> es \<sigma>' \<Longrightarrow> task_steps \<sigma>' es' \<sigma>'' \<Longrightarrow> task_steps \<sigma> (es @ es') \<sigma>''"
  by (induction rule: task_steps.induct) (auto intro: task_steps.intros)

section \<open>The invariant\<close>

definition queue_inv :: "tasks_state \<Rightarrow> bool" where
  "queue_inv \<sigma> \<longleftrightarrow> distinct (queue \<sigma>) \<and>
     (\<forall>r. r \<in> set (queue \<sigma>) \<longleftrightarrow> (\<exists>t. tasks \<sigma> r = Some t \<and> t_status t = Ready)) \<and>
     (\<forall>r. running \<sigma> = Some r \<longleftrightarrow> (\<exists>t. tasks \<sigma> r = Some t \<and> t_status t = Running)) \<and>
     (\<forall>r t. tasks \<sigma> r = Some t \<longrightarrow> r < fresh \<sigma>) \<and>
     (\<forall>r t. tasks \<sigma> r = Some t \<longrightarrow> t_status t = Ready \<longrightarrow> own_cx r (t_cx t))"

definition family_inv :: "tasks_state \<Rightarrow> bool" where
  "family_inv \<sigma> \<longleftrightarrow>
     (\<exists>t. tasks \<sigma> (init \<sigma>) = Some t \<and> t_status t \<noteq> Zombie \<and> pid_0 (t_pid t) = 0 \<and> t_parent t = None) \<and>
     (\<forall>p t c. tasks \<sigma> p = Some t \<longrightarrow> c \<in> set (t_children t) \<longrightarrow>
        p < c \<and> (\<exists>u. tasks \<sigma> c = Some u \<and> t_parent u = Some p)) \<and>
     (\<forall>p t. tasks \<sigma> p = Some t \<longrightarrow> distinct (t_children t) \<and> (t_status t = Zombie \<longrightarrow> t_children t = [])) \<and>
     (\<forall>r t. tasks \<sigma> r = Some t \<longrightarrow> r \<noteq> init \<sigma> \<longrightarrow>
        (\<exists>p u. t_parent t = Some p \<and> tasks \<sigma> p = Some u \<and> r \<in> set (t_children u))) \<and>
     (\<forall>r t. tasks \<sigma> r = Some t \<longrightarrow> init \<sigma> \<le> r)"

text \<open>The pid counter never passes the number of tasks created so far.\<close>

definition task_pids :: "tasks_state \<Rightarrow> nat \<Rightarrow> pid_handle option" where
  "task_pids \<sigma> r = map_option t_pid (tasks \<sigma> r)"

definition pids_inv :: "tasks_state \<Rightarrow> bool" where
  "pids_inv \<sigma> \<longleftrightarrow> (fresh \<sigma> < 2 ^ 64 - 1 \<longrightarrow>
     pid_inv (pid_pool \<sigma>) \<and> unat (pid_current (pid_pool \<sigma>)) \<le> fresh \<sigma> \<and>
     pid_live (pid_pool \<sigma>) = ran (task_pids \<sigma>) \<and> inj_on (task_pids \<sigma>) (dom (task_pids \<sigma>)))"

definition tasks_inv :: "tasks_state \<Rightarrow> bool" where
  "tasks_inv \<sigma> \<longleftrightarrow> queue_inv \<sigma> \<and> family_inv \<sigma> \<and> pids_inv \<sigma>"

text \<open>The five events, one at a time.\<close>

lemma running_status:
  assumes "queue_inv \<sigma>" and "running \<sigma> = Some r" and "tasks \<sigma> r = Some t"
  shows "t_status t = Running"
proof -
  from assms(1,2) obtain u where "tasks \<sigma> r = Some u" "t_status u = Running"
    unfolding queue_inv_def by blast
  with assms(3) show ?thesis by simp
qed

lemma queued_ready:
  assumes "queue_inv \<sigma>" and "r \<in> set (queue \<sigma>)"
  shows "\<exists>t. tasks \<sigma> r = Some t \<and> t_status t = Ready \<and> own_cx r (t_cx t)"
  using assms unfolding queue_inv_def by blast

lemma ready_cx: "queue_inv \<sigma> \<Longrightarrow> tasks \<sigma> r = Some t \<Longrightarrow> t_status t = Ready \<Longrightarrow> own_cx r (t_cx t)"
  unfolding queue_inv_def by blast

lemma queue_inv_dispatch:
  assumes "queue_inv \<sigma>" and "queue \<sigma> = r # q" and "running \<sigma> = None" and "tasks \<sigma> r = Some t"
  shows "queue_inv (\<sigma>\<lparr>tasks := (tasks \<sigma>)(r \<mapsto> t\<lparr>t_status := Running\<rparr>), queue := q, running := Some r\<rparr>)"
  using assms unfolding queue_inv_def by auto

lemma queue_inv_suspend:
  assumes "queue_inv \<sigma>" and "running \<sigma> = Some r" and "tasks \<sigma> r = Some t" and "own_cx r cx"
  shows "queue_inv (\<sigma>\<lparr>tasks := (tasks \<sigma>)(r \<mapsto> t\<lparr>t_status := Ready, t_cx := cx\<rparr>), queue := queue \<sigma> @ [r], running := None\<rparr>)"
  using assms running_status [OF assms(1-3)] unfolding queue_inv_def by auto

lemma queue_inv_exit:
  assumes "queue_inv \<sigma>" and "running \<sigma> = Some r" and "tasks \<sigma> r = Some t"
  shows "queue_inv (\<sigma>\<lparr>tasks := exit_tasks r t (init \<sigma>) (tasks \<sigma>), running := None\<rparr>)"
  using assms running_status [OF assms] unfolding queue_inv_def by (auto simp: exit_tasks_def)

lemma queue_inv_fork:
  assumes "queue_inv \<sigma>" and "running \<sigma> = Some p" and "tasks \<sigma> p = Some t"
  shows "queue_inv (\<sigma>\<lparr>tasks := (tasks \<sigma>)(fresh \<sigma> \<mapsto> new_task h (Some p) kstack, p \<mapsto> t\<lparr>t_children := t_children t @ [fresh \<sigma>]\<rparr>),
         fresh := Suc (fresh \<sigma>), queue := queue \<sigma> @ [fresh \<sigma>], pid_pool := pool\<rparr>)"
proof -
  have "tasks \<sigma> (fresh \<sigma>) = None" using assms(1) unfolding queue_inv_def by (metis less_irrefl not_None_eq)
  then show ?thesis
    using assms running_status [OF assms] unfolding queue_inv_def
    by (auto simp: new_task_def own_cx_def less_Suc_eq)
qed

lemma queue_inv_reap:
  assumes "queue_inv \<sigma>" and "running \<sigma> = Some p" and "tasks \<sigma> p = Some t" and "c \<noteq> p"
    and "tasks \<sigma> c = Some u" and "t_status u = Zombie"
  shows "queue_inv (\<sigma>\<lparr>tasks := (tasks \<sigma>)(p \<mapsto> t\<lparr>t_children := xs\<rparr>, c := None), pid_pool := pool\<rparr>)"
  using assms running_status [OF assms(1-3)] unfolding queue_inv_def by auto

lemma queue_inv_step:
  assumes "task_step \<sigma> e \<sigma>'" and "queue_inv \<sigma>"
  shows "queue_inv \<sigma>'"
  using assms
  by cases (auto intro: queue_inv_dispatch queue_inv_suspend queue_inv_exit queue_inv_fork queue_inv_reap)

lemma family_invD:
  assumes "family_inv \<sigma>"
  shows "\<exists>t. tasks \<sigma> (init \<sigma>) = Some t \<and> t_status t \<noteq> Zombie \<and> pid_0 (t_pid t) = 0 \<and> t_parent t = None"
    and "\<And>p t c. tasks \<sigma> p = Some t \<Longrightarrow> c \<in> set (t_children t) \<Longrightarrow> p < c \<and> (\<exists>u. tasks \<sigma> c = Some u \<and> t_parent u = Some p)"
    and "\<And>p t. tasks \<sigma> p = Some t \<Longrightarrow> distinct (t_children t)"
    and "\<And>p t. tasks \<sigma> p = Some t \<Longrightarrow> t_status t = Zombie \<Longrightarrow> t_children t = []"
    and "\<And>r t. tasks \<sigma> r = Some t \<Longrightarrow> r \<noteq> init \<sigma> \<Longrightarrow>
      \<exists>p u. t_parent t = Some p \<and> tasks \<sigma> p = Some u \<and> r \<in> set (t_children u)"
    and "\<And>r t. tasks \<sigma> r = Some t \<Longrightarrow> init \<sigma> \<le> r"
  using assms unfolding family_inv_def by blast+

lemma family_inv_same:
  assumes "family_inv \<sigma>" and "tasks \<sigma> r = Some t"
    and "t_pid t' = t_pid t" and "t_parent t' = t_parent t" and "t_children t' = t_children t" and "t_status t' \<noteq> Zombie"
    and "tasks \<sigma>' = (tasks \<sigma>)(r \<mapsto> t')" and "init \<sigma>' = init \<sigma>"
  shows "family_inv \<sigma>'"
  unfolding family_inv_def assms(7,8)
proof (intro conjI allI impI)
  show "\<exists>t. ((tasks \<sigma>)(r \<mapsto> t')) (init \<sigma>) = Some t \<and> t_status t \<noteq> Zombie \<and> pid_0 (t_pid t) = 0 \<and> t_parent t = None"
    using family_invD(1) [OF assms(1)] assms(2-6) by auto
next
  fix p u c
  assume "((tasks \<sigma>)(r \<mapsto> t')) p = Some u" and "c \<in> set (t_children u)"
  then have "p < c" "\<exists>u. tasks \<sigma> c = Some u \<and> t_parent u = Some p"
    using family_invD(2) [OF assms(1)] assms(2,5) by (auto split: if_splits)
  then show "p < c" "\<exists>u. ((tasks \<sigma>)(r \<mapsto> t')) c = Some u \<and> t_parent u = Some p"
    using assms(2,4) by auto
next
  fix x u
  assume u: "((tasks \<sigma>)(r \<mapsto> t')) x = Some u"
  then obtain u0 where u0: "tasks \<sigma> x = Some u0" "t_children u = t_children u0" "t_parent u = t_parent u0"
      "t_status u = Zombie \<longrightarrow> t_status u0 = Zombie"
    using assms(2,4-6) by (auto split: if_splits)
  show "distinct (t_children u)" using family_invD(3) [OF assms(1)] u0 by simp
  show "t_children u = []" if "t_status u = Zombie" using family_invD(4) [OF assms(1)] u0 that by simp
  show "init \<sigma> \<le> x" using family_invD(6) [OF assms(1)] u0(1) .
  assume "x \<noteq> init \<sigma>"
  then obtain p v where "t_parent u = Some p" "tasks \<sigma> p = Some v" "x \<in> set (t_children v)"
    using family_invD(5) [OF assms(1) u0(1)] u0(3) by auto
  then show "\<exists>p v. t_parent u = Some p \<and> ((tasks \<sigma>)(r \<mapsto> t')) p = Some v \<and> x \<in> set (t_children v)"
    using assms(2,5) by (cases "p = r") auto
qed

lemma family_inv_exit:
  assumes inv: "family_inv \<sigma>" and r: "tasks \<sigma> r = Some t" "r \<noteq> init \<sigma>"
    and ts: "tasks \<sigma>' = exit_tasks r t (init \<sigma>) (tasks \<sigma>)" "init \<sigma>' = init \<sigma>"
  shows "family_inv \<sigma>'"
proof -
  let ?cs = "set (t_children t)"
  note fam = family_invD [OF inv]
  obtain t0 where t0: "tasks \<sigma> (init \<sigma>) = Some t0" "t_status t0 \<noteq> Zombie" "pid_0 (t_pid t0) = 0" "t_parent t0 = None"
    using fam(1) by blast
  have cs: "init \<sigma> < c \<and> r < c \<and> (\<exists>u. tasks \<sigma> c = Some u \<and> t_parent u = Some r)" if "c \<in> ?cs" for c
    using fam(2) [OF r(1) that] fam(6) [OF r(1)] by auto
  then have out: "r \<notin> ?cs" "init \<sigma> \<notin> ?cs" by blast+
  have new_init: "tasks \<sigma>' (init \<sigma>) = Some (t0\<lparr>t_children := t_children t0 @ t_children t\<rparr>)"
    using r out t0 by (simp add: ts exit_tasks_def)
  have apart: "c \<notin> ?cs" if "tasks \<sigma> p = Some u" "c \<in> set (t_children u)" "p \<noteq> r" for p u c
    using fam(2) [OF that(1,2)] cs [of c] that(3) by auto
  show ?thesis
    unfolding family_inv_def
  proof (intro conjI allI impI)
    show "\<exists>t. tasks \<sigma>' (init \<sigma>') = Some t \<and> t_status t \<noteq> Zombie \<and> pid_0 (t_pid t) = 0 \<and> t_parent t = None"
      using new_init t0 by (simp add: ts)
  next
    fix p u c
    assume u: "tasks \<sigma>' p = Some u" and c: "c \<in> set (t_children u)"
    have "p < c \<and> (\<exists>v. tasks \<sigma>' c = Some v \<and> t_parent v = Some p)"
    proof (cases "c \<in> ?cs")
      case True
      then have "p = init \<sigma>"
        using u c apart by (auto simp: ts exit_tasks_def split: if_splits)
      with True cs [OF True] out show ?thesis by (auto simp: ts exit_tasks_def)
    next
      case False
      obtain u0 where "tasks \<sigma> p = Some u0" "c \<in> set (t_children u0)"
        using u c False by (auto simp: ts exit_tasks_def split: if_splits)
      from fam(2) [OF this] False t0 r show ?thesis by (auto simp: ts exit_tasks_def)
    qed
    then show "p < c" "\<exists>v. tasks \<sigma>' c = Some v \<and> t_parent v = Some p" by blast+
  next
    fix x u
    assume u: "tasks \<sigma>' x = Some u"
    have "distinct (t_children t0 @ t_children t)"
      using fam(3) [OF t0(1)] fam(3) [OF r(1)] apart [OF t0(1)] r(2) by auto
    then show "distinct (t_children u)"
      using u t0 fam(3) by (auto simp: ts exit_tasks_def split: if_splits)
    show "t_children u = []" if "t_status u = Zombie"
      using u that t0 fam(4) by (auto simp: ts exit_tasks_def split: if_splits)
    show "init \<sigma>' \<le> x"
      using u r fam(6) by (auto simp: ts exit_tasks_def split: if_splits)
    assume x: "x \<noteq> init \<sigma>'"
    show "\<exists>p v. t_parent u = Some p \<and> tasks \<sigma>' p = Some v \<and> x \<in> set (t_children v)"
    proof (cases "x \<in> ?cs")
      case True
      with u out have "t_parent u = Some (init \<sigma>)"
        by (auto simp: ts exit_tasks_def split: if_splits)
      with True new_init show ?thesis by auto
    next
      case False
      with u x r obtain u0 where "tasks \<sigma> x = Some u0" "t_parent u = t_parent u0"
        by (auto simp: ts exit_tasks_def split: if_splits)
      with fam(5) [of x] x obtain p v where v: "t_parent u = Some p" "tasks \<sigma> p = Some v" "x \<in> set (t_children v)"
        by (auto simp: ts)
      with False r have "p \<noteq> r" by auto
      with v show ?thesis by (auto simp: ts exit_tasks_def)
    qed
  qed
qed

lemma family_inv_fork:
  assumes inv: "family_inv \<sigma>" and p: "tasks \<sigma> p = Some t" "t_status t \<noteq> Zombie"
    and n: "tasks \<sigma> n = None" "p < n"
    and ts: "tasks \<sigma>' = (tasks \<sigma>)(n \<mapsto> new_task h (Some p) kstack, p \<mapsto> t\<lparr>t_children := t_children t @ [n]\<rparr>)"
      "init \<sigma>' = init \<sigma>"
  shows "family_inv \<sigma>'"
proof -
  note fam = family_invD [OF inv]
  have old: "n \<notin> set (t_children u)" if "tasks \<sigma> q = Some u" for q u
  proof
    assume "n \<in> set (t_children u)"
    from fam(2) [OF that this] n(1) show False by simp
  qed
  show ?thesis
    unfolding family_inv_def
  proof (intro conjI allI impI)
    show "\<exists>t. tasks \<sigma>' (init \<sigma>') = Some t \<and> t_status t \<noteq> Zombie \<and> pid_0 (t_pid t) = 0 \<and> t_parent t = None"
      using fam(1) p n by (auto simp: ts)
  next
    fix q u c
    assume u: "tasks \<sigma>' q = Some u" and c: "c \<in> set (t_children u)"
    consider "c = n" "q = p" | u0 where "tasks \<sigma> q = Some u0" "c \<in> set (t_children u0)"
      using u c p by (auto simp: ts new_task_def split: if_splits)
    then have "q < c \<and> (\<exists>v. tasks \<sigma>' c = Some v \<and> t_parent v = Some q)"
    proof cases
      case 1
      with n show ?thesis by (simp add: ts new_task_def)
    next
      case (2 u0)
      from fam(2) [OF this] n p show ?thesis by (auto simp: ts)
    qed
    then show "q < c" "\<exists>v. tasks \<sigma>' c = Some v \<and> t_parent v = Some q" by blast+
  next
    fix x u
    assume u: "tasks \<sigma>' x = Some u"
    show "distinct (t_children u)"
      using u fam(3) p old by (auto simp: ts new_task_def split: if_splits)
    show "t_children u = []" if "t_status u = Zombie"
      using u that p fam(4) by (auto simp: ts new_task_def split: if_splits)
    show "init \<sigma>' \<le> x"
      using u n(2) fam(6) [OF p(1)] fam(6) [of x] by (auto simp: ts split: if_splits)
    assume x: "x \<noteq> init \<sigma>'"
    show "\<exists>q v. t_parent u = Some q \<and> tasks \<sigma>' q = Some v \<and> x \<in> set (t_children v)"
    proof (cases "x = n")
      case True
      with u n show ?thesis by (auto simp: ts new_task_def)
    next
      case False
      with u p obtain u0 where "tasks \<sigma> x = Some u0" "t_parent u = t_parent u0"
        by (auto simp: ts split: if_splits)
      with fam(5) [of x] x obtain q v where "t_parent u = Some q" "tasks \<sigma> q = Some v" "x \<in> set (t_children v)"
        by (auto simp: ts)
      with p n show ?thesis by (auto simp: ts)
    qed
  qed
qed

lemma family_inv_reap:
  assumes inv: "family_inv \<sigma>" and p: "tasks \<sigma> p = Some t" "t_children t = xs @ c # ys" "c \<noteq> p"
    and c: "tasks \<sigma> c = Some z" "t_status z = Zombie"
    and ts: "tasks \<sigma>' = (tasks \<sigma>)(p \<mapsto> t\<lparr>t_children := xs @ ys\<rparr>, c := None)" "init \<sigma>' = init \<sigma>"
  shows "family_inv \<sigma>'"
proof -
  note fam = family_invD [OF inv]
  have d: "c \<notin> set (xs @ ys)" "distinct (xs @ ys)" using fam(3) [OF p(1)] p(2) by auto
  have only: "q = p" if "tasks \<sigma> q = Some u" "c \<in> set (t_children u)" for q u
    using fam(2) [OF that] fam(2) [OF p(1), of c] p(2) by auto
  have kids: "\<exists>u0. tasks \<sigma> q = Some u0 \<and> x \<in> set (t_children u0) \<and> x \<noteq> c"
    if "tasks \<sigma>' q = Some u" "x \<in> set (t_children u)" for q u x
  proof (cases "q = p")
    case True
    with that p d show ?thesis by (auto simp: ts split: if_splits)
  next
    case False
    with that have "tasks \<sigma> q = Some u" by (simp add: ts split: if_splits)
    moreover from only [OF this] False that(2) have "x \<noteq> c" by blast
    ultimately show ?thesis using that(2) by blast
  qed
  have up: "\<exists>u0. tasks \<sigma> x = Some u0 \<and> t_parent u = t_parent u0 \<and> t_status u = t_status u0 \<and> x \<noteq> c"
    if "tasks \<sigma>' x = Some u" for x u
    using that p by (auto simp: ts split: if_splits)
  show ?thesis
    unfolding family_inv_def
  proof (intro conjI allI impI)
    show "\<exists>t. tasks \<sigma>' (init \<sigma>') = Some t \<and> t_status t \<noteq> Zombie \<and> pid_0 (t_pid t) = 0 \<and> t_parent t = None"
      using fam(1) p c by (auto simp: ts)
  next
    fix q u x
    assume "tasks \<sigma>' q = Some u" and "x \<in> set (t_children u)"
    then obtain u0 where "tasks \<sigma> q = Some u0" "x \<in> set (t_children u0)" "x \<noteq> c" using kids by blast
    with fam(2) [OF this(1,2)] p have "q < x \<and> (\<exists>v. tasks \<sigma>' x = Some v \<and> t_parent v = Some q)"
      by (auto simp: ts)
    then show "q < x" "\<exists>v. tasks \<sigma>' x = Some v \<and> t_parent v = Some q" by blast+
  next
    fix x u
    assume u: "tasks \<sigma>' x = Some u"
    then obtain u0 where u0: "tasks \<sigma> x = Some u0" "t_parent u = t_parent u0" "t_status u = t_status u0" "x \<noteq> c"
      using up by blast
    show "distinct (t_children u)" using u d fam(3) by (auto simp: ts split: if_splits)
    show "t_children u = []" if "t_status u = Zombie"
      using u that p u0 fam(4) [of x] by (auto simp: ts split: if_splits)
    show "init \<sigma>' \<le> x" using u0 fam(6) by (simp add: ts)
    assume "x \<noteq> init \<sigma>'"
    then obtain q v where v: "t_parent u = Some q" "tasks \<sigma> q = Some v" "x \<in> set (t_children v)"
      using fam(5) [OF u0(1)] u0(2) by (auto simp: ts)
    moreover from v(2,3) fam(4) [OF c(1,2)] c(1) have "q \<noteq> c" by auto
    ultimately show "\<exists>q v. t_parent u = Some q \<and> tasks \<sigma>' q = Some v \<and> x \<in> set (t_children v)"
      using u0(4) p by (cases "q = p") (auto simp: ts)
  qed
qed

lemma family_inv_step:
  assumes "task_step \<sigma> e \<sigma>'" and "queue_inv \<sigma>" and "family_inv \<sigma>"
  shows "family_inv \<sigma>'"
  using assms(1)
proof cases
  case (do_dispatch r q t)
  then show ?thesis
    by (intro family_inv_same [OF assms(3), where r = r and t = t and t' = "t\<lparr>t_status := Running\<rparr>"]) simp_all
next
  case (do_suspend r t cx)
  then show ?thesis
    by (intro family_inv_same [OF assms(3), where r = r and t = t and t' = "t\<lparr>t_status := Ready, t_cx := cx\<rparr>"]) simp_all
next
  case (do_exit r t)
  then show ?thesis by (intro family_inv_exit [OF assms(3), where r = r and t = t]) simp_all
next
  case (do_fork p t c h pool kstack)
  have "tasks \<sigma> c = None" using assms(2) do_fork(5) unfolding queue_inv_def by (metis less_irrefl not_None_eq)
  moreover have "p < c" using assms(2) do_fork(4,5) unfolding queue_inv_def by blast
  moreover have "t_status t \<noteq> Zombie" using running_status [OF assms(2) do_fork(3,4)] by simp
  ultimately show ?thesis using do_fork by (intro family_inv_fork [OF assms(3), where p = p and t = t and n = c and h = h and kstack = kstack]) simp_all
next
  case (do_reap p t xs c ys u pool)
  then show ?thesis by (intro family_inv_reap [OF assms(3), where p = p and t = t and c = c and z = u and xs = xs and ys = ys]) simp_all
qed

lemma pids_inv_same:
  assumes "pids_inv \<sigma>" and "\<And>r. task_pids \<sigma>' r = task_pids \<sigma> r" and "fresh \<sigma>' = fresh \<sigma>" and "pid_pool \<sigma>' = pid_pool \<sigma>"
  shows "pids_inv \<sigma>'"
proof -
  have "task_pids \<sigma>' = task_pids \<sigma>" using assms(2) by (rule ext)
  with assms show ?thesis by (simp add: pids_inv_def)
qed

lemma PidAllocator_alloc_fresh:
  assumes "pid_inv pa" and "unat (pid_current pa) < 2 ^ 64 - 1" and "PidAllocator_alloc pa = Inr (h, pa')"
  shows "h \<notin> pid_live pa" "pid_inv pa'" "pid_live pa' = insert h (pid_live pa)"
    "unat (pid_current pa') \<le> Suc (unat (pid_current pa))"
proof -
  have m1: "unat (- 1 :: usize) = 2 ^ 64 - 1"
    by (simp add: unsigned_minus_1_eq_mask mask_eq_exp_minus_1)
  then have less: "pid_current pa < - 1" using assms(2) by (simp add: word_less_nat_alt)
  then have "PidHandle (pid_current pa) \<in> pid_free pa" by (simp add: pid_free_def)
  then have "pid_free pa \<noteq> {}" by blast
  from pids.alloc_Some [OF assms(1) this] assms(3)
  have "h \<in> pid_free pa" and inv: "pid_inv pa'" "pid_live pa' = insert h (pid_live pa)"
    by (simp_all add: wp_def pid_alloc_opt_def bnd_def ret_def)
  with pids.disjoint [OF assms(1)] show "h \<notin> pid_live pa" "pid_inv pa'" "pid_live pa' = insert h (pid_live pa)"
    by blast+
  show "unat (pid_current pa') \<le> Suc (unat (pid_current pa))"
    using assms(3) unat_plus_1 [OF less] by (auto simp: PidAllocator_alloc_def Let_def split: if_splits)
qed

lemma pids_inv_fork:
  assumes "pids_inv \<sigma>" and "tasks \<sigma> c = None" and "PidAllocator_alloc (pid_pool \<sigma>) = Inr (h, pid_pool \<sigma>')"
    and "task_pids \<sigma>' = (task_pids \<sigma>)(c \<mapsto> h)" and "fresh \<sigma>' = Suc (fresh \<sigma>)"
  shows "pids_inv \<sigma>'"
  unfolding pids_inv_def
proof
  assume "fresh \<sigma>' < 2 ^ 64 - 1"
  with assms(5) have less: "fresh \<sigma> < 2 ^ 64 - 1" by simp
  with assms(1) have inv: "pid_inv (pid_pool \<sigma>)" "unat (pid_current (pid_pool \<sigma>)) \<le> fresh \<sigma>"
      "pid_live (pid_pool \<sigma>) = ran (task_pids \<sigma>)" "inj_on (task_pids \<sigma>) (dom (task_pids \<sigma>))"
    by (simp_all add: pids_inv_def)
  from inv(2) less have "unat (pid_current (pid_pool \<sigma>)) < 2 ^ 64 - 1" by linarith
  note new = PidAllocator_alloc_fresh [OF inv(1) this assms(3)]
  have c: "task_pids \<sigma> c = None" using assms(2) by (simp add: task_pids_def)
  have "task_pids \<sigma> r \<noteq> Some h" for r using new(1) inv(3) by (auto simp: ran_def)
  with inv(4) c have "inj_on (task_pids \<sigma>') (dom (task_pids \<sigma>'))"
    by (auto simp: assms(4) inj_on_def)
  with new inv c assms(5) show "pid_inv (pid_pool \<sigma>') \<and> unat (pid_current (pid_pool \<sigma>')) \<le> fresh \<sigma>' \<and>
     pid_live (pid_pool \<sigma>') = ran (task_pids \<sigma>') \<and> inj_on (task_pids \<sigma>') (dom (task_pids \<sigma>'))"
    by (simp add: assms(4) ran_map_upd)
qed

lemma pids_inv_reap:
  assumes "pids_inv \<sigma>" and "tasks \<sigma> c = Some u" and "PidHandle_drop (t_pid u) (pid_pool \<sigma>) = Inr ((), pid_pool \<sigma>')"
    and "task_pids \<sigma>' = (task_pids \<sigma>)(c := None)" and "fresh \<sigma>' = fresh \<sigma>"
  shows "pids_inv \<sigma>'"
  unfolding pids_inv_def
proof
  assume "fresh \<sigma>' < 2 ^ 64 - 1"
  with assms(1,5) have inv: "pid_inv (pid_pool \<sigma>)" "unat (pid_current (pid_pool \<sigma>)) \<le> fresh \<sigma>"
      "pid_live (pid_pool \<sigma>) = ran (task_pids \<sigma>)" "inj_on (task_pids \<sigma>) (dom (task_pids \<sigma>))"
    by (simp_all add: pids_inv_def)
  have c: "task_pids \<sigma> c = Some (t_pid u)" using assms(2) by (simp add: task_pids_def)
  then have "t_pid u \<in> pid_live (pid_pool \<sigma>)" using inv(3) by (auto simp: ran_def)
  from pids.dealloc_live [OF inv(1) this] assms(3)
  have drop: "pid_inv (pid_pool \<sigma>')" "pid_live (pid_pool \<sigma>') = pid_live (pid_pool \<sigma>) - {t_pid u}"
    by (simp_all add: wp_def)
  have "pid_current (pid_pool \<sigma>') = pid_current (pid_pool \<sigma>)"
    using assms(3) [symmetric]
    by (auto simp: PidHandle_drop_def PidAllocator_dealloc_def action_defs split: if_splits)
  moreover have "ran (task_pids \<sigma>') = ran (task_pids \<sigma>) - {t_pid u}"
  proof -
    have other: "task_pids \<sigma> a \<noteq> Some (t_pid u)" if "a \<noteq> c" for a
      using inj_onD [OF inv(4), of a c] c that by auto
    have "h \<in> ran (task_pids \<sigma>') \<longleftrightarrow> h \<in> ran (task_pids \<sigma>) - {t_pid u}" for h
    proof -
      have "(\<exists>a. a \<noteq> c \<and> task_pids \<sigma> a = Some h) \<longleftrightarrow> (\<exists>a. task_pids \<sigma> a = Some h) \<and> h \<noteq> t_pid u"
        using other c by (metis option.inject)
      then show ?thesis by (auto simp: assms(4) ran_def)
    qed
    then show ?thesis by blast
  qed
  moreover have "inj_on (task_pids \<sigma>') (dom (task_pids \<sigma>'))"
    using inv(4) by (auto simp: assms(4) inj_on_def)
  ultimately show "pid_inv (pid_pool \<sigma>') \<and> unat (pid_current (pid_pool \<sigma>')) \<le> fresh \<sigma>' \<and>
     pid_live (pid_pool \<sigma>') = ran (task_pids \<sigma>') \<and> inj_on (task_pids \<sigma>') (dom (task_pids \<sigma>'))"
    using drop inv(2,3) assms(5) by simp
qed

lemma pids_inv_step:
  assumes "task_step \<sigma> e \<sigma>'" and "queue_inv \<sigma>" and "pids_inv \<sigma>"
  shows "pids_inv \<sigma>'"
  using assms(1)
proof cases
  case (do_dispatch r q t)
  then show ?thesis by (intro pids_inv_same [OF assms(3)]) (auto simp: task_pids_def)
next
  case (do_suspend r t cx)
  then show ?thesis by (intro pids_inv_same [OF assms(3)]) (auto simp: task_pids_def)
next
  case (do_exit r t)
  then show ?thesis
    by (intro pids_inv_same [OF assms(3)]) (auto simp: task_pids_def exit_tasks_def option.map_comp comp_def)
next
  case (do_fork p t c h pool kstack)
  have "tasks \<sigma> c = None" using assms(2) do_fork(5) unfolding queue_inv_def by (metis less_irrefl not_None_eq)
  moreover from this do_fork(4) have "c \<noteq> p" by auto
  ultimately show ?thesis
    using do_fork by (intro pids_inv_fork [OF assms(3), where c = c and h = h]) (auto simp: task_pids_def new_task_def)
next
  case (do_reap p t xs c ys u pool)
  then show ?thesis
    by (intro pids_inv_reap [OF assms(3), where c = c and u = u]) (auto simp: task_pids_def)
qed

theorem tasks_inv_step: "task_step \<sigma> e \<sigma>' \<Longrightarrow> tasks_inv \<sigma> \<Longrightarrow> tasks_inv \<sigma>'"
  using queue_inv_step family_inv_step pids_inv_step unfolding tasks_inv_def by blast

theorem tasks_inv_steps: "task_steps \<sigma> es \<sigma>' \<Longrightarrow> tasks_inv \<sigma> \<Longrightarrow> tasks_inv \<sigma>'"
  by (induction rule: task_steps.induct) (simp_all add: tasks_inv_step)

section \<open>First in, first out\<close>

primrec enqueued :: "event \<Rightarrow> nat list" where
  "enqueued (Dispatch r) = []"
| "enqueued (Suspend r) = [r]"
| "enqueued (Exit r) = []"
| "enqueued (Fork p c) = [c]"
| "enqueued (Reap p c) = []"

primrec dispatched :: "event \<Rightarrow> nat list" where
  "dispatched (Dispatch r) = [r]"
| "dispatched (Suspend r) = []"
| "dispatched (Exit r) = []"
| "dispatched (Fork p c) = []"
| "dispatched (Reap p c) = []"

lemma queue_step: "task_step \<sigma> e \<sigma>' \<Longrightarrow> queue \<sigma> @ enqueued e = dispatched e @ queue \<sigma>'"
  by (cases rule: task_step.cases) auto

lemma queue_steps:
  "task_steps \<sigma> es \<sigma>' \<Longrightarrow>
    queue \<sigma> @ concat (map enqueued es) = concat (map dispatched es) @ queue \<sigma>'"
proof (induction rule: task_steps.induct)
  case (more_steps \<sigma> e \<sigma>' es \<sigma>'')
  have "queue \<sigma> @ enqueued e @ concat (map enqueued es) = dispatched e @ queue \<sigma>' @ concat (map enqueued es)"
    using queue_step [OF more_steps.hyps(1)] by (metis append_assoc)
  with more_steps.IH show ?case by simp
qed simp

lemma dispatch_order:
  assumes "task_steps \<sigma> es \<sigma>'" and "i < length (queue \<sigma>)" and "i < length (concat (map dispatched es))"
  shows "concat (map dispatched es) ! i = queue \<sigma> ! i"
  using arg_cong [OF queue_steps [OF assms(1)], of "\<lambda>xs. xs ! i"] assms(2,3) by (simp add: nth_append)

end
