(* ===== verification/Scheduler.thy ===== *)
theory Scheduler
  imports Syscall Task_Model
begin

text \<open>
  The kernel implements the abstract task manager of \<open>Task_Model\<close>. \<open>tasks_of\<close> forgets everything
  but the tasks, the queue, the processor and the pids; each system call and each trap either leaves
  that view alone or makes the events of the task manager.
\<close>

section \<open>Partial correctness\<close>

text \<open>\<open>wlp m Q s\<close>: if \<open>m\<close> returns, then \<open>Q\<close> holds.\<close>

definition wlp :: "('s, 'a) action \<Rightarrow> ('a \<Rightarrow> 's \<Rightarrow> bool) \<Rightarrow> 's \<Rightarrow> bool" where
  "wlp m Q s \<longleftrightarrow> (\<forall>a s'. m s = Inr (a, s') \<longrightarrow> Q a s')"

named_theorems wlp_simps \<open>weakest liberal preconditions\<close>

lemma wlp_ret [wlp_simps]: "wlp (ret a) Q = Q a"
  by (auto simp: fun_eq_iff wlp_def ret_def)

lemma wlp_fail [wlp_simps]: "wlp (fail e) Q = (\<lambda>s. True)"
  by (simp add: fun_eq_iff wlp_def fail_def)

lemma wlp_bnd [wlp_simps]: "wlp (bnd m k) Q = wlp m (\<lambda>a. wlp (k a) Q)"
  by (auto simp: fun_eq_iff wlp_def bnd_def split: sum.splits)

lemma wlp_thn [wlp_simps]: "wlp (thn m k) Q = wlp m (\<lambda>_. wlp k Q)"
  by (simp add: thn_def wlp_bnd)

lemma wlp_gets [wlp_simps]: "wlp (gets f) Q = (\<lambda>s. Q (f s) s)"
  by (auto simp: fun_eq_iff wlp_def gets_def)

lemma wlp_upd [wlp_simps]: "wlp (upd f) Q = (\<lambda>s. Q () (f s))"
  by (auto simp: fun_eq_iff wlp_def upd_def)

lemma wlp_assert [wlp_simps]: "wlp (assert_that b) Q = (\<lambda>s. b \<longrightarrow> Q () s)"
  by (auto simp: fun_eq_iff wlp_def assert_that_def ret_def fail_def)

lemma wlp_unwrap [wlp_simps]: "wlp (unwrap x) Q = (\<lambda>s. \<forall>a. x = Some a \<longrightarrow> Q a s)"
  by (cases x) (auto simp: fun_eq_iff wlp_def unwrap_def ret_def fail_def)

lemma wlp_index [wlp_simps]: "wlp (index xs i) Q = (\<lambda>s. i < length xs \<longrightarrow> Q (xs ! i) s)"
  by (auto simp: fun_eq_iff wlp_def index_def ret_def fail_def)

lemma wlp_if [wlp_simps]: "wlp (if b then m else n) Q = (if b then wlp m Q else wlp n Q)"
  by simp

lemma wlp_on [wlp_simps]: "wlp (on get put m) Q = (\<lambda>t. wlp m (\<lambda>a s. Q a (put s t)) (get t))"
  by (auto simp: fun_eq_iff wlp_def on_def split: sum.splits)

lemma wlpD: "wlp m Q s \<Longrightarrow> m s = Inr (a, s') \<Longrightarrow> Q a s'"
  by (simp add: wlp_def)

lemma wlp_conseq: "wlp m P s \<Longrightarrow> (\<And>a s'. P a s' \<Longrightarrow> Q a s') \<Longrightarrow> wlp m Q s"
  by (simp add: wlp_def)

lemma wlpI: "(\<And>a s'. m s = Inr (a, s') \<Longrightarrow> Q a s') \<Longrightarrow> wlp m Q s"
  by (simp add: wlp_def)

section \<open>The view of the task manager\<close>

definition task_of :: "tcb \<Rightarrow> task" where
  "task_of t =
     \<lparr>t_pid = tcb_pid t, t_status = task_status t, t_parent = parent t, t_children = children t, t_cx = task_cx t\<rparr>"

definition tasks_of :: "kernel \<Rightarrow> tasks_state" where
  "tasks_of k =
     \<lparr>tasks = (\<lambda>r. map_option task_of (tcbs k r)), fresh = next_tcb k, queue = ready_queue k, running = current k,
      init = initproc k, pid_pool = pids k\<rparr>"

lemma task_of_sel [simp]:
  "t_pid (task_of t) = tcb_pid t" "t_status (task_of t) = task_status t" "t_parent (task_of t) = parent t"
  "t_children (task_of t) = children t" "t_cx (task_of t) = task_cx t"
  by (simp_all add: task_of_def)

lemma tasks_of_sel [simp]:
  "tasks (tasks_of k) = (\<lambda>r. map_option task_of (tcbs k r))" "fresh (tasks_of k) = next_tcb k"
  "queue (tasks_of k) = ready_queue k" "running (tasks_of k) = current k" "init (tasks_of k) = initproc k"
  "pid_pool (tasks_of k) = pids k"
  by (simp_all add: tasks_of_def)

lemma tasks_of_eq_iff:
  "tasks_of k = tasks_of k' \<longleftrightarrow> (\<forall>r. map_option task_of (tcbs k r) = map_option task_of (tcbs k' r)) \<and>
     next_tcb k = next_tcb k' \<and> ready_queue k = ready_queue k' \<and> current k = current k' \<and>
     initproc k = initproc k' \<and> pids k = pids k'"
  by (auto simp: tasks_of_def fun_eq_iff)

lemma tasks_of_mm [simp]: "tasks_of (k\<lparr>k_mm := m\<rparr>) = tasks_of k"
  by (simp add: tasks_of_def)

section \<open>Silent actions\<close>

definition silent :: "'a kernel_action \<Rightarrow> bool" where
  "silent m \<longleftrightarrow> (\<forall>k. wlp m (\<lambda>_ k'. tasks_of k' = tasks_of k) k)"

named_theorems silent_intros \<open>actions that the task manager does not see\<close>

lemma silentD: "silent m \<Longrightarrow> m k = Inr (a, k') \<Longrightarrow> tasks_of k' = tasks_of k"
  by (simp add: silent_def wlp_def)

lemma wlp_silent: "silent m \<Longrightarrow> (\<And>a k'. tasks_of k' = tasks_of k \<Longrightarrow> Q a k') \<Longrightarrow> wlp m Q k"
  by (auto simp: silent_def wlp_def)

lemma silent_ret [silent_intros]: "silent (ret a)" and silent_fail [silent_intros]: "silent (fail e)"
  and silent_gets [silent_intros]: "silent (gets f)" and silent_assert [silent_intros]: "silent (assert_that b)"
  and silent_unwrap [silent_intros]: "silent (unwrap x)" and silent_index [silent_intros]: "silent (index xs i)"
  by (simp_all add: silent_def wlp_simps)

lemma silent_bnd [silent_intros]: "silent m \<Longrightarrow> (\<And>a. silent (f a)) \<Longrightarrow> silent (bnd m f)"
  by (auto simp: silent_def wlp_def bnd_def split: sum.splits)

lemma silent_thn [silent_intros]: "silent m \<Longrightarrow> silent n \<Longrightarrow> silent (thn m n)"
  by (simp add: thn_def silent_bnd)

lemma silent_upd: "(\<And>k. tasks_of (f k) = tasks_of k) \<Longrightarrow> silent (upd f)"
  by (simp add: silent_def wlp_simps)

lemma silent_if [silent_intros]: "silent m \<Longrightarrow> silent n \<Longrightarrow> silent (if b then m else n)"
  by simp

lemma silent_case_option [silent_intros]: "silent m \<Longrightarrow> (\<And>a. silent (f a)) \<Longrightarrow> silent (case x of None \<Rightarrow> m | Some a \<Rightarrow> f a)"
  by (cases x) simp_all

lemma silent_case_sum [silent_intros]: "(\<And>a. silent (f a)) \<Longrightarrow> (\<And>a. silent (g a)) \<Longrightarrow> silent (case x of Inl a \<Rightarrow> f a | Inr a \<Rightarrow> g a)"
  by (cases x) simp_all

lemma silent_case_prod [silent_intros]: "(\<And>a b. silent (f a b)) \<Longrightarrow> silent (case x of (a, b) \<Rightarrow> f a b)"
  by (cases x) simp

lemma silent_for_each [silent_intros]: "(\<And>x. silent (f x)) \<Longrightarrow> silent (for_each f xs)"
  by (induction xs) (auto intro: silent_intros)

lemma silent_on:
  "(\<And>s k. tasks_of (put s k) = tasks_of k) \<Longrightarrow> silent (on get put m)"
  by (auto simp: silent_def wlp_def on_def split: sum.splits)

lemma silent_on_mm [silent_intros]: "silent (on_mm m)"
  unfolding on_mm_def by (rule silent_on) (simp add: tasks_of_def)

lemma silent_on_disk [silent_intros]: "silent (on_disk m)"
  unfolding on_disk_def by (rule silent_on) (simp add: tasks_of_def)

lemma silent_on_io [silent_intros]: "silent (on_io m)"
  unfolding on_io_def by (rule silent_on) (simp add: tasks_of_def split: prod.split)

lemma silent_user_access [silent_intros]: "silent (user_access f)"
  by (auto simp: silent_def wlp_def user_access_def split: option.splits sum.splits)

lemma silent_get_tcb [silent_intros]: "silent (get_tcb r)"
  unfolding get_tcb_def by (intro silent_intros)

lemma silent_upd_tcb: "(\<And>t. task_of (f t) = task_of t) \<Longrightarrow> silent (upd_tcb r f)"
  unfolding upd_tcb_def by (rule silent_upd) (simp add: tasks_of_def fun_eq_iff option.map_comp comp_def)

lemma silent_on_kernel_space [silent_intros]: "silent (on_kernel_space f)"
  unfolding on_kernel_space_def by (intro silent_intros silent_upd) (simp add: tasks_of_def)

lemma silent_KernelStack [silent_intros]: "silent (KernelStack_new h)" "silent (KernelStack_drop p)"
  unfolding KernelStack_new_def KernelStack_drop_def VirtPageNum_from_VirtAddr_def Let_def
  by (intro silent_intros)+

lemma silent_trap_cx_page [silent_intros]: "silent (trap_cx_page ms)"
  unfolding trap_cx_page_def VirtPageNum_from_VirtAddr_def by (intro silent_intros)

lemma silent_current [silent_intros]: "silent current_task" "silent current_tcb" "silent current_user_token"
  "silent current_trap_cx"
  unfolding current_task_def current_tcb_def current_user_token_def current_trap_cx_def
  by (intro silent_intros)+

lemma silent_exec [silent_intros]: "silent (exec pf r bs)"
  unfolding exec_def by (intro silent_intros silent_upd_tcb) (simp add: task_of_def)

lemma silent_files [silent_intros]: "silent (get_file f)" "silent (put_file f x)" "silent (Arc_new_file x)"
  unfolding get_file_def put_file_def Arc_new_file_def
  by (intro silent_intros silent_upd; simp add: tasks_of_def)+

lemma silent_file_modes [silent_intros]: "silent (file_readable fo)" "silent (file_writable fo)"
  by (cases fo; simp add: file_readable_def file_writable_def; intro silent_intros)+

lemma silent_Stdout_write [silent_intros]: "silent (Stdout_write buf)"
  unfolding Stdout_write_def print_slice_def by (intro silent_intros silent_upd) (simp add: tasks_of_def)

lemma silent_file_write [silent_intros]: "silent (file_write fo buf)"
  by (cases fo; simp add: file_write_def; intro silent_intros)

lemma silent_time [silent_intros]: "silent (get_time pf)" "silent (console_getchar pf)"
  unfolding get_time_def console_getchar_def by (intro silent_intros silent_upd; simp add: tasks_of_def)+

lemma silent_set_next_trigger [silent_intros]: "silent (set_next_trigger pf)"
  unfolding set_next_trigger_def by (intro silent_intros silent_upd) (simp add: tasks_of_def)

lemma silent_syscalls [silent_intros]: "silent (sys_write fd buf len)" "silent (sys_close fd)" "silent (sys_exec pf ptr)"
  "silent (sys_get_time pf)" "silent sys_getpid"
  unfolding sys_write_def sys_close_def sys_exec_def sys_get_time_def sys_getpid_def user_path_def get_time_ms_def
  by (intro silent_intros silent_upd_tcb; simp add: task_of_def)+

lemma silent_sys_open [silent_intros]: "silent (sys_open ptr fl)"
  unfolding sys_open_def user_path_def alloc_fd_def Let_def
  by (intro silent_intros silent_upd_tcb) (simp add: task_of_def)

lemma silent_trap_return [silent_intros]: "silent trap_return"
  unfolding trap_return_def set_user_trap_entry_def restore_def trap_cx_frame_def
  by (intro silent_intros silent_upd; simp add: tasks_of_def)

section \<open>The events of the kernel\<close>

lemma upd_tcb_Some: "tcbs k r = Some t \<Longrightarrow> upd_tcb r f k = Inr ((), k\<lparr>tcbs := (tcbs k)(r \<mapsto> f t)\<rparr>)"
  by (simp add: upd_tcb_def upd_def)

lemma wlp_get_tcb [wlp_simps]: "wlp (get_tcb r) Q = (\<lambda>k. \<forall>t. tcbs k r = Some t \<longrightarrow> Q t k)"
  by (simp add: get_tcb_def wlp_simps fun_eq_iff)

lemma wlp_upd_tcb [wlp_simps]:
  "wlp (upd_tcb r f) Q = (\<lambda>k. Q () (k\<lparr>tcbs := (tcbs k)(r := map_option f (tcbs k r))\<rparr>))"
  by (simp add: upd_tcb_def wlp_simps)

lemma wlp_borrow [wlp_simps]: "wlp (borrow cells r) Q = (\<lambda>k. r \<notin> set cells \<longrightarrow> Q () k)"
  by (simp add: borrow_def wlp_simps fun_eq_iff)

lemma tasks_of_upd_same:
  "(\<And>t. task_of (f t) = task_of t) \<Longrightarrow> tasks_of (k\<lparr>tcbs := (tcbs k)(r := map_option f (tcbs k r))\<rparr>) = tasks_of k"
  by (simp add: tasks_of_def fun_eq_iff option.map_comp comp_def)

lemma wlp_suspend:
  assumes "current k = Some r" and "own_cx r (SwitchedOut c)"
  shows "wlp (suspend_current_and_run_next c) (\<lambda>_ k'. task_step (tasks_of k) (Suspend r) (tasks_of k')) k"
proof -
  have "task_step (tasks_of k) (Suspend r) (tasks_of k')"
    if "tcbs k r = Some t" and k': "k' = k\<lparr>current := None, ready_queue := ready_queue k @ [r],
      tcbs := (tcbs k)(r \<mapsto> t\<lparr>task_status := Ready, task_cx := SwitchedOut c\<rparr>)\<rparr>" for t k'
    using that assms
    by (auto simp: task_step_simps tasks_of_def task_of_def fun_eq_iff intro!: exI [of _ "SwitchedOut c"])
  then show ?thesis
    using assms(1)
    by (simp add: suspend_current_and_run_next_def schedule_def take_current_task_def add_task_def wlp_simps)
qed

text \<open>Handing the children over to the initial process.\<close>

definition reparented :: "nat \<Rightarrow> nat list \<Rightarrow> (nat \<Rightarrow> tcb option) \<Rightarrow> nat \<Rightarrow> tcb option" where
  "reparented i cs ts r =
     (if r \<in> set cs then map_option (\<lambda>t. t\<lparr>parent := Some i\<rparr>) (ts r)
      else if r = i then map_option (\<lambda>t. t\<lparr>children := children t @ cs\<rparr>) (ts r)
      else ts r)"

lemma reparented_Nil: "reparented i [] ts = ts"
  by (auto simp: reparented_def fun_eq_iff option.map_ident)

lemma reparented_Cons: "i \<notin> set (c # cs) \<Longrightarrow> reparented i cs (reparented i [c] ts) = reparented i (c # cs) ts"
  by (auto simp: reparented_def fun_eq_iff option.map_comp comp_def)

lemma wlp_reparent:
  "wlp (reparent task i c) Q k \<longleftrightarrow>
    (c \<notin> {task, i} \<longrightarrow> tcbs k c \<noteq> None \<longrightarrow> Q () (k\<lparr>tcbs := reparented i [c] (tcbs k)\<rparr>))"
proof -
  have "(tcbs k)(c := map_option (\<lambda>t. t\<lparr>parent := Some i\<rparr>) (tcbs k c),
      i := map_option (\<lambda>t. t\<lparr>children := children t @ [c]\<rparr>) (tcbs k i)) = reparented i [c] (tcbs k)" if "c \<noteq> i"
    using that by (auto simp: reparented_def fun_eq_iff)
  then show ?thesis by (auto simp: reparent_def wlp_simps)
qed

lemma wlp_reparent_all:
  assumes "set cs \<inter> {task, i} = {} \<Longrightarrow> Q () (k\<lparr>tcbs := reparented i cs (tcbs k)\<rparr>)"
  shows "wlp (for_each (reparent task i) cs) Q k"
  using assms
proof (induction cs arbitrary: k)
  case Nil
  then show ?case by (simp add: wlp_simps reparented_Nil)
next
  case (Cons c cs)
  have "wlp (for_each (reparent task i) cs) Q (k\<lparr>tcbs := reparented i [c] (tcbs k)\<rparr>)" if "c \<notin> {task, i}"
  proof (rule Cons.IH)
    assume "set cs \<inter> {task, i} = {}"
    with that have "set (c # cs) \<inter> {task, i} = {}" by auto
    moreover from this have "i \<notin> set (c # cs)" by blast
    ultimately show "Q () (k\<lparr>tcbs := reparented i [c] (tcbs k), tcbs := reparented i cs (tcbs (k\<lparr>tcbs := reparented i [c] (tcbs k)\<rparr>))\<rparr>)"
      using Cons.prems by (simp add: reparented_Cons)
  qed
  then show ?case by (simp add: wlp_simps wlp_reparent)
qed

lemma reparented_other [simp]: "r \<notin> set cs \<Longrightarrow> r \<noteq> i \<Longrightarrow> reparented i cs ts r = ts r"
  by (simp add: reparented_def)

lemma exit_step:
  assumes "current k = Some r" and t: "tcbs k r = Some t"
    and g: "getpid t \<noteq> 0" "initproc k \<noteq> r" "r \<notin> set (children t)" "initproc k \<notin> set (children t)"
  shows "task_step (tasks_of k) (Exit r)
    (tasks_of (k\<lparr>current := None, tcbs := (reparented (initproc k) (children t)
          ((tcbs k)(r \<mapsto> t\<lparr>task_status := Zombie, exit_code := code\<rparr>)))
        (r \<mapsto> t\<lparr>task_status := Zombie, exit_code := code, children := []\<rparr>)\<rparr>))" (is "task_step _ _ (tasks_of ?k)")
  unfolding task_step_simps
proof (intro exI conjI)
  show "tasks (tasks_of k) r = Some (task_of t)" using t by simp
  show "pid_0 (t_pid (task_of t)) \<noteq> 0" "init (tasks_of k) \<notin> set (t_children (task_of t))" "r \<notin> set (t_children (task_of t))"
    using g by (auto simp: getpid_def)
  show "running (tasks_of k) = Some r" "r \<noteq> init (tasks_of k)" using assms by auto
  have "map_option task_of (tcbs ?k x) =
    exit_tasks r (task_of t) (initproc k) (\<lambda>r. map_option task_of (tcbs k r)) x" for x
    using g by (auto simp: exit_tasks_def reparented_def option.map_comp comp_def task_of_def)
  then show "tasks_of ?k =
    tasks_of k\<lparr>tasks := exit_tasks r (task_of t) (init (tasks_of k)) (tasks (tasks_of k)), running := None\<rparr>"
    by (simp add: tasks_of_def fun_eq_iff)
qed

lemma wlp_exit:
  assumes "current k = Some r"
  shows "wlp (exit_current_and_run_next code) (\<lambda>_ k'. task_step (tasks_of k) (Exit r) (tasks_of k')) k"
proof -
  have same: "tasks_of (k\<lparr>tcbs := (tcbs k)(r := map_option (memory_set_update f) (tcbs k r))\<rparr>) = tasks_of k" for f k
    by (rule tasks_of_upd_same) (simp add: task_of_def)
  show ?thesis
    unfolding exit_current_and_run_next_def take_current_task_def wlp_simps
    using assms
    by (auto simp: wlp_simps IDLE_PID_def same intro!: wlp_reparent_all wlp_silent [OF silent_on_mm] exit_step)
qed

text \<open>What the writes of a fork do to the view.\<close>

lemma tasks_of_add:
  "tasks_of (k\<lparr>tcbs := (tcbs k)(r \<mapsto> t), next_tcb := n\<rparr>) =
    tasks_of k\<lparr>tasks := (tasks (tasks_of k))(r \<mapsto> task_of t), fresh := n\<rparr>"
  by (simp add: tasks_of_def fun_eq_iff)

lemma tasks_of_children:
  "tasks_of (k\<lparr>tcbs := (tcbs k)(r := map_option (\<lambda>t. t\<lparr>children := f (children t)\<rparr>) (tcbs k r))\<rparr>) =
    tasks_of k\<lparr>tasks := (tasks (tasks_of k))(r := map_option (\<lambda>t. t\<lparr>t_children := f (t_children t)\<rparr>) (tasks (tasks_of k) r))\<rparr>"
  by (simp add: tasks_of_def task_of_def fun_eq_iff option.map_comp comp_def)

lemma tasks_of_queue: "tasks_of (k\<lparr>ready_queue := q\<rparr>) = tasks_of k\<lparr>queue := q\<rparr>"
  and tasks_of_pids: "tasks_of (k\<lparr>pids := p\<rparr>) = tasks_of k\<lparr>pid_pool := p\<rparr>"
  by (simp_all add: tasks_of_def)

lemma wlp_pid_alloc:
  "(\<And>h pool. PidAllocator_alloc (pids k) = Inr (h, pool) \<Longrightarrow> Q h (k\<lparr>pids := pool\<rparr>)) \<Longrightarrow> wlp pid_alloc Q k"
  unfolding pid_alloc_def on_pids_def wlp_simps by (rule wlpI)

lemma tasks_ofD:
  assumes "tasks_of k = \<sigma>"
  shows "map_option task_of (tcbs k r) = tasks \<sigma> r" "next_tcb k = fresh \<sigma>" "ready_queue k = queue \<sigma>"
    "current k = running \<sigma>" "initproc k = init \<sigma>" "pids k = pid_pool \<sigma>"
  using assms by auto

lemma fork_step:
  assumes "current k = Some p" and "tcbs k p = Some t" and "p \<noteq> next_tcb k"
    and pool: "PidAllocator_alloc (pids k) = Inr (h, pool)"
    and k1: "tasks_of k1 = tasks_of k\<lparr>pid_pool := pool\<rparr>"
    and x: "task_of x = new_task h (Some p) kstack_top"
    and k2: "tasks_of k2 = tasks_of (k1\<lparr>next_tcb := Suc (next_tcb k1), tcbs := (tcbs k1)(next_tcb k1 \<mapsto> x,
      p := map_option (\<lambda>t. t\<lparr>children := children t @ [next_tcb k1]\<rparr>) (((tcbs k1)(next_tcb k1 \<mapsto> x)) p))\<rparr>)"
  shows "task_step (tasks_of k) (Fork p (next_tcb k)) (tasks_of (k2\<lparr>ready_queue := ready_queue k2 @ [next_tcb k1]\<rparr>))"
proof -
  note d = tasks_ofD [OF k1]
  obtain t1 where t1: "tcbs k1 p = Some t1" "task_of t1 = task_of t"
    using d(1) [of p] assms(2) by auto
  have "children t1 = children t" using arg_cong [OF t1(2), of t_children] by simp
  with t1 have kid: "task_of (t1\<lparr>children := children t1 @ [c]\<rparr>) = task_of t\<lparr>t_children := t_children (task_of t) @ [c]\<rparr>" for c
    by (simp add: task_of_def)
  have eq: "tasks_of k2 = tasks_of k\<lparr>tasks := (tasks (tasks_of k))(next_tcb k \<mapsto> new_task h (Some p) kstack_top,
      p \<mapsto> task_of t\<lparr>t_children := t_children (task_of t) @ [next_tcb k]\<rparr>), fresh := Suc (next_tcb k), pid_pool := pool\<rparr>"
    unfolding k2 using d x assms(3) t1(1) kid
    by (simp add: tasks_of_def fun_eq_iff)
  then have "tasks_of (k2\<lparr>ready_queue := ready_queue k2 @ [next_tcb k1]\<rparr>) =
    tasks_of k\<lparr>tasks := (tasks (tasks_of k))(next_tcb k \<mapsto> new_task h (Some p) kstack_top,
      p \<mapsto> task_of t\<lparr>t_children := t_children (task_of t) @ [next_tcb k]\<rparr>), fresh := Suc (next_tcb k),
      queue := queue (tasks_of k) @ [next_tcb k], pid_pool := pool\<rparr>"
    using tasks_ofD(3) [OF eq] d(2) by (simp add: tasks_of_queue)
  then show ?thesis
    unfolding task_step_simps using assms(1,2) pool
    by (intro exI conjI) simp_all
qed

lemma wlp_sys_fork:
  assumes "current k = Some p" and "\<And>r t. tcbs k r = Some t \<Longrightarrow> r < next_tcb k"
  shows "wlp (sys_fork pf) (\<lambda>out k'. (\<exists>v. out = Returns v) \<and> task_step (tasks_of k) (Fork p (next_tcb k)) (tasks_of k')) k"
  unfolding sys_fork_def fork_def current_task_def Arc_new_tcb_def add_task_def Let_def wlp_simps
  using assms
proof (auto simp: wlp_simps simp del: fun_upd_apply intro!: wlp_silent [OF silent_on_mm]
    wlp_silent [OF silent_trap_cx_page] wlp_silent [OF silent_KernelStack(1)] wlp_pid_alloc, goal_cases)
  case (1 t ms k0 ppn k1 h pool kstack k2 k3 t' k4)
  have "p \<noteq> next_tcb k" using 1(2) [OF 1(3)] by simp
  moreover have "PidAllocator_alloc (pids k) = Inr (h, pool)" using 1(6) tasks_ofD(6) [OF 1(5)] by simp
  moreover have "tasks_of k2 = tasks_of k\<lparr>pid_pool := pool\<rparr>" using 1(5,7) by (simp add: tasks_of_pids)
  ultimately show ?case
    by (rule fork_step [OF 1(1,3) _ _ _ _ 1(10), where kstack_top = "get_top kstack"])
      (simp add: task_of_def new_task_def goto_trap_return_def)
qed

lemma wlp_any_child: "wlp (any_child pid cs) (\<lambda>_ k'. k' = k) k"
  by (induction cs) (simp_all add: wlp_simps)

lemma wlp_find_zombie:
  "wlp (find_zombie task pid cs) (\<lambda>r k'. k' = k \<and> (\<forall>i. r = Some i \<longrightarrow> i < length cs \<and> cs ! i \<noteq> task \<and>
    (\<exists>c. tcbs k (cs ! i) = Some c \<and> is_zombie c \<and> pid_matches pid c))) k"
proof (induction cs)
  case (Cons p ps)
  then show ?case by (auto simp: wlp_simps elim!: wlp_conseq)
qed (simp add: wlp_simps)

lemma wlp_drop_tcb:
  assumes "\<And>t pool k'. tcbs k r = Some t \<Longrightarrow> PidHandle_drop (tcb_pid t) (pids k) = Inr ((), pool) \<Longrightarrow>
    tasks_of k' = tasks_of k\<lparr>tasks := (tasks (tasks_of k))(r := None), pid_pool := pool\<rparr> \<Longrightarrow> Q () k'"
  shows "wlp (drop_tcb r) Q k"
proof -
  have step: "Q () (k''\<lparr>tcbs := (tcbs k'')(r := None)\<rparr>)"
    if "tcbs k r = Some t" and "PidHandle_drop (tcb_pid t) (pids k) = Inr (u, pool)"
      and k'': "tasks_of k'' = tasks_of (k\<lparr>pids := pool\<rparr>)" for t u pool k''
  proof (rule assms)
    show "tcbs k r = Some t" by fact
    show "PidHandle_drop (tcb_pid t) (pids k) = Inr ((), pool)" using that(2) by simp
    show "tasks_of (k''\<lparr>tcbs := (tcbs k'')(r := None)\<rparr>) =
        tasks_of k\<lparr>tasks := (tasks (tasks_of k))(r := None), pid_pool := pool\<rparr>"
      using tasks_ofD [OF k''] by (simp add: tasks_of_def fun_eq_iff)
  qed
  show ?thesis
    unfolding drop_tcb_def on_pids_def wlp_simps
    by (intro allI impI wlpI [where m = "PidHandle_drop _"] wlp_silent [OF silent_on_mm] wlp_silent [OF silent_KernelStack(2)])
      (rule step; simp)
qed

lemma reap_step:
  assumes "current k = Some p" and t: "tcbs k p = Some t" and i: "i < length (children t)" "children t ! i \<noteq> p"
    and u: "tcbs k (children t ! i) = Some u" "is_zombie u"
    and k1: "tasks_of k1 = tasks_of (k\<lparr>tcbs := (tcbs k)(p \<mapsto> t\<lparr>children := take i (children t) @ drop (Suc i) (children t)\<rparr>)\<rparr>)"
    and u1: "tcbs k1 (children t ! i) = Some u1" and pool: "PidHandle_drop (tcb_pid u1) (pids k1) = Inr ((), pool)"
    and k': "tasks_of k' = tasks_of k1\<lparr>tasks := (tasks (tasks_of k1))(children t ! i := None), pid_pool := pool\<rparr>"
  shows "task_step (tasks_of k) (Reap p (children t ! i)) (tasks_of k')"
proof -
  note d = tasks_ofD [OF k1]
  have "task_of u1 = task_of u" using d(1) [of "children t ! i"] u(1) u1 i(2) by simp
  then have pid: "tcb_pid u1 = tcb_pid u" using task_of_sel(1) by metis
  have "tasks_of k' = tasks_of k\<lparr>tasks := (tasks (tasks_of k))
      (p \<mapsto> task_of t\<lparr>t_children := take i (children t) @ drop (Suc i) (children t)\<rparr>, children t ! i := None), pid_pool := pool\<rparr>"
    unfolding k' k1 by (simp add: tasks_of_def task_of_def fun_eq_iff)
  moreover have "t_children (task_of t) = take i (children t) @ children t ! i # drop (Suc i) (children t)"
    using i(1) by (simp add: id_take_nth_drop [symmetric])
  moreover have "PidHandle_drop (t_pid (task_of u)) (pid_pool (tasks_of k)) = Inr ((), pool)"
    using pool pid d(6) by simp
  ultimately show ?thesis
    unfolding task_step_simps using assms(1) t i(2) u by (intro exI conjI) (assumption | simp add: is_zombie_def)+
qed

lemma wlp_current_tcb [wlp_simps]:
  "wlp current_tcb Q = (\<lambda>k. \<forall>r t. current k = Some r \<longrightarrow> tcbs k r = Some t \<longrightarrow> Q (r, t) k)"
  by (auto simp: current_tcb_def current_task_def wlp_simps fun_eq_iff)

lemma wlp_reap_child:
  assumes "current k = Some p" and "tcbs k p = Some t" and "i < length (children t)" "children t ! i \<noteq> p"
    and "tcbs k (children t ! i) = Some u" "is_zombie u"
  shows "wlp (reap_child p t i ptr) (\<lambda>out k'. (\<exists>v. out = Returns v) \<and> task_step (tasks_of k) (Reap p (children t ! i)) (tasks_of k')) k"
proof -
  have "wlp (drop_tcb (children t ! i)) (\<lambda>_ k'. task_step (tasks_of k) (Reap p (children t ! i)) (tasks_of k')) k1"
    if "tasks_of k1 = tasks_of (k\<lparr>tcbs := (tcbs k)(p \<mapsto> t\<lparr>children := take i (children t) @ drop (Suc i) (children t)\<rparr>)\<rparr>)" for k1
    using reap_step [OF assms that] by (intro wlp_drop_tcb)
  with assms show ?thesis
    by (auto simp: reap_child_def wlp_simps Let_def split: sum.split intro!: wlp_silent [OF silent_on_mm])
qed

lemma wlp_sys_waitpid:
  assumes "current k = Some p"
  shows "wlp (sys_waitpid pid ptr) (\<lambda>out k'. (\<exists>v. out = Returns v) \<and>
    (tasks_of k' = tasks_of k \<or> (\<exists>c. task_step (tasks_of k) (Reap p c) (tasks_of k')))) k" (is "wlp _ ?Q k")
proof -
  have "wlp (find_zombie p pid (children t)) (\<lambda>r. wlp (case r of None \<Rightarrow> ret (Returns (- 2)) | Some i \<Rightarrow> reap_child p t i ptr) ?Q) k"
    if t: "tcbs k p = Some t" for t
  proof (rule wlp_conseq [OF wlp_find_zombie])
    fix r k'
    assume r: "k' = k \<and> (\<forall>i. r = Some i \<longrightarrow> i < length (children t) \<and> children t ! i \<noteq> p \<and>
      (\<exists>c. tcbs k (children t ! i) = Some c \<and> is_zombie c \<and> pid_matches pid c))"
    show "wlp (case r of None \<Rightarrow> ret (Returns (- 2)) | Some i \<Rightarrow> reap_child p t i ptr) ?Q k'"
    proof (cases r)
      case None
      with r show ?thesis by (simp add: wlp_simps)
    next
      case (Some i)
      with r obtain c where c: "i < length (children t)" "children t ! i \<noteq> p" "tcbs k (children t ! i) = Some c" "is_zombie c"
        by blast
      have "wlp (reap_child p t i ptr) ?Q k"
        by (rule wlp_conseq [OF wlp_reap_child [OF assms t c]]) blast
      with r Some show ?thesis by simp
    qed
  qed
  then have "wlp (any_child pid (children t)) (\<lambda>found. wlp (if \<not> found then ret (Returns (- 1)) else
      bnd (find_zombie p pid (children t)) (\<lambda>r. case r of None \<Rightarrow> ret (Returns (- 2)) | Some i \<Rightarrow> reap_child p t i ptr)) ?Q) k"
    if "tcbs k p = Some t" for t
    using that by (intro wlp_conseq [OF wlp_any_child]) (simp add: wlp_simps)
  then show ?thesis
    unfolding sys_waitpid_def wlp_bnd [of current_tcb] wlp_current_tcb using assms by (simp add: wlp_bnd)
qed

section \<open>System calls\<close>

text \<open>System calls that come back with a value without giving up the processor.\<close>

definition returns :: "'a outcome kernel_action \<Rightarrow> bool" where
  "returns m \<longleftrightarrow> (\<forall>k. wlp m (\<lambda>out _. out \<noteq> Switched) k)"

lemma returns_ret: "returns (ret (Returns v))" and returns_fail: "returns (fail e)"
  by (simp_all add: returns_def wlp_simps)

lemma returns_bnd: "(\<And>a. returns (f a)) \<Longrightarrow> returns (bnd m f)"
  by (auto simp: returns_def wlp_def bnd_def split: sum.splits)

lemma returns_thn: "returns n \<Longrightarrow> returns (thn m n)"
  by (simp add: thn_def returns_bnd)

lemma returns_if: "returns m \<Longrightarrow> returns n \<Longrightarrow> returns (if b then m else n)"
  by simp

lemma returns_case_option: "returns m \<Longrightarrow> (\<And>a. returns (f a)) \<Longrightarrow> returns (case x of None \<Rightarrow> m | Some a \<Rightarrow> f a)"
  by (cases x) simp_all

lemma returns_case_prod: "(\<And>a b. returns (f a b)) \<Longrightarrow> returns (case x of (a, b) \<Rightarrow> f a b)"
  by (cases x) simp

lemmas returns_intros = returns_ret returns_fail returns_bnd returns_thn returns_if returns_case_option returns_case_prod

lemma returns_file_write: "returns (file_write fo buf)"
  by (cases fo; simp add: file_write_def; intro returns_intros)

lemma returns_syscalls: "returns (sys_write fd buf len)" "returns (sys_close fd)" "returns (sys_exec pf ptr)"
  "returns (sys_get_time pf)" "returns sys_getpid" "returns (sys_open ptr fl)"
  unfolding sys_write_def sys_close_def sys_exec_def sys_get_time_def sys_getpid_def sys_open_def Let_def
  by (intro returns_intros returns_file_write)+

definition moved :: "tasks_state \<Rightarrow> bool \<Rightarrow> tasks_state \<Rightarrow> bool" where
  "moved \<sigma> switched \<sigma>' \<longleftrightarrow> (\<exists>es. task_steps \<sigma> es \<sigma>' \<and> concat (map dispatched es) = []) \<and>
     (switched \<longleftrightarrow> running \<sigma>' = None)"

lemma moved_same: "running \<sigma> \<noteq> None \<Longrightarrow> moved \<sigma> False \<sigma>"
  unfolding moved_def using no_step [of \<sigma>] by force

lemma moved_step: "task_step \<sigma> e \<sigma>' \<Longrightarrow> dispatched e = [] \<Longrightarrow> (switched \<longleftrightarrow> running \<sigma>' = None) \<Longrightarrow> moved \<sigma> switched \<sigma>'"
  unfolding moved_def by (intro conjI exI [of _ "[e]"]) (auto intro: task_steps_one)

lemma moved_events:
  shows moved_suspend: "task_step \<sigma> (Suspend r) \<sigma>' \<Longrightarrow> moved \<sigma> True \<sigma>'"
    and moved_exit: "task_step \<sigma> (Exit r) \<sigma>' \<Longrightarrow> moved \<sigma> True \<sigma>'"
    and moved_fork: "task_step \<sigma> (Fork r c) \<sigma>' \<Longrightarrow> moved \<sigma> False \<sigma>'"
    and moved_reap: "task_step \<sigma> (Reap r c) \<sigma>' \<Longrightarrow> moved \<sigma> False \<sigma>'"
  by (rule moved_step, assumption, simp, clarsimp simp: task_step_simps)+

lemma wlp_moved_silent:
  assumes "silent m" and "returns m" and "current k \<noteq> None"
  shows "wlp m (\<lambda>out k'. moved (tasks_of k) (out = Switched) (tasks_of k')) k"
  using assms moved_same [of "tasks_of k"] by (auto simp: silent_def returns_def wlp_def)

lemma wlp_Stdin_read_loop:
  assumes "current k = Some r"
  shows "wlp (Stdin_read_loop pf r buf) (\<lambda>out k'. moved (tasks_of k) (out = Switched) (tasks_of k')) k"
proof -
  have r: "own_cx r (SwitchedOut (StdinRetry r buf))" by (simp add: own_cx_def)
  have susp: "wlp (suspend_current_and_run_next (StdinRetry r buf)) (\<lambda>_ k'. moved (tasks_of k) True (tasks_of k')) k0"
    if k0: "tasks_of k0 = tasks_of k" for k0
  proof -
    have c: "current k0 = Some r" using tasks_ofD(4) [OF k0] assms by simp
    show ?thesis
      by (rule wlp_conseq [OF wlp_suspend [OF c r]]) (simp add: k0 moved_events)
  qed
  have "wlp (on_mm m) (\<lambda>_ k'. moved (tasks_of k) False (tasks_of k')) k0" if "tasks_of k0 = tasks_of k" for m :: "unit mm_action" and k0
    by (rule wlp_silent [OF silent_on_mm]) (use assms moved_same [of "tasks_of k"] that in simp)
  with susp show ?thesis
    unfolding Stdin_read_loop_def wlp_bnd
    by (intro wlp_silent [OF silent_time(2)]) (simp add: wlp_simps)
qed

lemma wlp_sys_read:
  assumes "current k = Some r"
  shows "wlp (sys_read pf fd buf len) (\<lambda>out k'. moved (tasks_of k) (out = Switched) (tasks_of k')) k" (is "wlp _ ?Q k")
proof -
  have Q: "?Q (Returns v) k0" if "tasks_of k0 = tasks_of k" for v k0
    using assms moved_same [of "tasks_of k"] that by simp
  have "wlp (file_read pf r fo ub) ?Q k0" if k0: "tasks_of k0 = tasks_of k" for k0 fo ub
  proof (cases fo)
    case Stdin
    have "current k0 = Some r" using tasks_ofD(4) [OF k0] assms by simp
    from wlp_Stdin_read_loop [OF this] show ?thesis
      by (simp add: file_read_def Stdin Stdin_read_def wlp_simps k0)
  next
    case Stdout
    then show ?thesis by (simp add: file_read_def wlp_simps)
  next
    case (InodeFile f)
    have "silent (bnd (get_file f) (\<lambda>o'. bnd (on_io (OSInode_read o' ub)) (\<lambda>(n, o'). thn (put_file f o') (ret (Returns (word_of_nat n))))))"
      by (intro silent_intros)
    moreover have "returns (bnd (get_file f) (\<lambda>o'. bnd (on_io (OSInode_read o' ub)) (\<lambda>(n, o'). thn (put_file f o') (ret (Returns (word_of_nat n))))))"
      by (intro returns_intros)
    moreover have "current k0 \<noteq> None" using tasks_ofD(4) [OF k0] assms by simp
    ultimately show ?thesis
      using wlp_moved_silent [where k = k0] k0 by (simp add: file_read_def InodeFile)
  qed
  moreover have "current k0 = Some r" if "tasks_of k0 = tasks_of k" for k0
    using tasks_ofD(4) [OF that] assms by simp
  ultimately show ?thesis
    using Q unfolding sys_read_def wlp_bnd
    by (intro wlp_silent [OF silent_current(3)])
      (auto simp: wlp_simps split: option.split
        intro!: wlp_silent [OF silent_file_modes(1)] wlp_silent [OF silent_user_access])
qed

lemma tasks_inv_fresh: "tasks_inv (tasks_of k) \<Longrightarrow> tcbs k r = Some t \<Longrightarrow> r < next_tcb k"
  by (auto simp: tasks_inv_def queue_inv_def)

lemma wlp_syscall:
  assumes "current k = Some r" and "tasks_inv (tasks_of k)"
  shows "wlp (syscall pf num args) (\<lambda>out k'. moved (tasks_of k) (out = Switched) (tasks_of k')) k"
proof -
  have cur: "current k \<noteq> None" using assms(1) by simp
  note quiet = wlp_moved_silent [OF _ _ cur]
  have "wlp (sys_exit code) (\<lambda>out k'. moved (tasks_of k) (out = Switched) (tasks_of k')) k" for code
    unfolding sys_exit_def wlp_thn
    by (rule wlp_conseq [OF wlp_exit [OF assms(1)]]) (simp add: wlp_ret moved_exit)
  moreover have "wlp sys_yield (\<lambda>out k'. moved (tasks_of k) (out = Switched) (tasks_of k')) k"
    unfolding sys_yield_def wlp_thn
    by (rule wlp_conseq [OF wlp_suspend [OF assms(1)]]) (simp_all add: wlp_ret moved_suspend own_cx_def)
  moreover have "wlp (sys_fork pf) (\<lambda>out k'. moved (tasks_of k) (out = Switched) (tasks_of k')) k"
    by (rule wlp_conseq [OF wlp_sys_fork [OF assms(1) tasks_inv_fresh [OF assms(2)]]]) (auto dest: moved_fork)
  moreover have "wlp (sys_waitpid pid ptr) (\<lambda>out k'. moved (tasks_of k) (out = Switched) (tasks_of k')) k" for pid ptr
    by (rule wlp_conseq [OF wlp_sys_waitpid [OF assms(1)]]) (use cur in \<open>auto dest: moved_reap simp: moved_same\<close>)
  ultimately show ?thesis
    by (cases args) (simp add: syscall_def wlp_fail wlp_sys_read [OF assms(1)] quiet silent_syscalls silent_sys_open
        returns_syscalls)
qed

section \<open>Traps and the idle control flow\<close>

lemma silent_alltraps [silent_intros]: "silent (alltraps rs)"
  unfolding alltraps_def trap_cx_frame_def save_gp_def
  by (intro silent_intros silent_upd; simp add: tasks_of_def)

lemma silent_set_kernel_trap_entry [silent_intros]: "silent (set_kernel_trap_entry pf)"
  unfolding set_kernel_trap_entry_def by (rule silent_upd) (simp add: tasks_of_def)

lemma wlp_trap_return: "wlp trap_return (\<lambda>cpu k'. cpu \<noteq> Idle \<and> tasks_of k' = tasks_of k) k"
proof -
  have "wlp trap_return (\<lambda>cpu _. cpu \<noteq> Idle) k"
    unfolding trap_return_def wlp_simps by (auto simp: wlp_def)
  with silent_trap_return show ?thesis by (auto simp: silent_def wlp_def)
qed

lemma wlp_syscall_return:
  "wlp (syscall_return out) (\<lambda>cpu k'. (cpu = Idle \<longleftrightarrow> out = Switched) \<and> tasks_of k' = tasks_of k) k"
proof (cases out)
  case (Returns v)
  have "wlp trap_return (\<lambda>cpu k'. (cpu = Idle \<longleftrightarrow> out = Switched) \<and> tasks_of k' = tasks_of k) k0"
    if "tasks_of k0 = tasks_of k" for k0
    by (rule wlp_conseq [OF wlp_trap_return]) (simp add: that Returns)
  then show ?thesis
    unfolding syscall_return_def Returns outcome.case wlp_bnd wlp_thn
    by (intro wlp_silent [OF silent_current(4)] wlp_silent [OF silent_on_mm]) (simp add: Returns)
qed (simp add: syscall_return_def wlp_ret)

lemma wlp_trap_handler:
  assumes "current k = Some r" and "tasks_inv (tasks_of k)"
  shows "wlp (trap_handler pf scause) (\<lambda>cpu k'. moved (tasks_of k) (cpu = Idle) (tasks_of k')) k" (is "wlp _ ?Q k")
proof -
  have cur: "current k0 = Some r" if "tasks_of k0 = tasks_of k" for k0
    using tasks_ofD(4) [OF that] assms(1) by simp
  have call: "wlp (syscall pf num args) (\<lambda>out. wlp (syscall_return out) ?Q) k0" if k0: "tasks_of k0 = tasks_of k" for num args k0
  proof (rule wlp_conseq)
    show "wlp (syscall pf num args) (\<lambda>out k'. moved (tasks_of k) (out = Switched) (tasks_of k')) k0"
      using wlp_syscall [OF cur [OF k0], of pf num args] assms(2) k0 by simp
    show "wlp (syscall_return out) ?Q k'" if "moved (tasks_of k) (out = Switched) (tasks_of k')" for out k'
      by (rule wlp_conseq [OF wlp_syscall_return]) (use that in simp)
  qed
  have stop: "wlp (exit_current_and_run_next code) (\<lambda>_. wlp (ret Idle) ?Q) k0" if k0: "tasks_of k0 = tasks_of k" for code k0
    by (rule wlp_conseq [OF wlp_exit [OF cur [OF k0]]]) (simp add: k0 wlp_ret moved_exit)
  have tick: "wlp (suspend_current_and_run_next TimerReturn) (\<lambda>_. wlp (ret Idle) ?Q) k0" if k0: "tasks_of k0 = tasks_of k" for k0
    by (rule wlp_conseq [OF wlp_suspend [OF cur [OF k0]]]) (simp_all add: k0 wlp_ret moved_suspend own_cx_def)
  show ?thesis
    unfolding trap_handler_def wlp_thn
  proof (rule wlp_silent [OF silent_set_kernel_trap_entry])
    fix u k0
    assume k0: "tasks_of k0 = tasks_of k"
    show "wlp (case scause of
        UserEnvCall \<Rightarrow>
          bnd current_trap_cx (\<lambda>cx.
          thn (on_mm (upd (\<lambda>m. tc_set cx TC_SEPC (tc_get m cx TC_SEPC + 4) m)))
          (bnd (gets (\<lambda>k. tc_get (k_mm k) cx)) (\<lambda>x.
          bnd (syscall pf (x 17) (x 10, x 11, x 12)) syscall_return)))
      | StoreFault \<Rightarrow> thn (exit_current_and_run_next (- 2)) (ret Idle)
      | StorePageFault \<Rightarrow> thn (exit_current_and_run_next (- 2)) (ret Idle)
      | InstructionFault \<Rightarrow> thn (exit_current_and_run_next (- 2)) (ret Idle)
      | InstructionPageFault \<Rightarrow> thn (exit_current_and_run_next (- 2)) (ret Idle)
      | LoadFault \<Rightarrow> thn (exit_current_and_run_next (- 2)) (ret Idle)
      | LoadPageFault \<Rightarrow> thn (exit_current_and_run_next (- 2)) (ret Idle)
      | IllegalInstruction \<Rightarrow> thn (exit_current_and_run_next (- 3)) (ret Idle)
      | SupervisorTimer \<Rightarrow> thn (set_next_trigger pf) (thn (suspend_current_and_run_next TimerReturn) (ret Idle))
      | OtherTrap \<Rightarrow> fail ExplicitPanic) ?Q k0"
    proof (cases scause)
      case UserEnvCall
      show ?thesis
        unfolding UserEnvCall trap.case wlp_bnd wlp_thn wlp_gets
        by (intro wlp_silent [OF silent_current(4)] wlp_silent [OF silent_on_mm] call) (simp add: k0)
    next
      case SupervisorTimer
      show ?thesis
        unfolding SupervisorTimer trap.case wlp_thn
        by (intro wlp_silent [OF silent_set_next_trigger] tick) (simp add: k0)
    next
      case OtherTrap
      then show ?thesis by (simp add: wlp_fail)
    qed (simp_all only: trap.case wlp_thn stop [OF k0])
  qed
qed

text \<open>What a switch to a task does after the task has been dispatched.\<close>

lemma wlp_resume:
  assumes "current k = Some r" and "own_cx r cx"
  shows "wlp (resume pf cx) (\<lambda>cpu k'. moved (tasks_of k) (cpu = Idle) (tasks_of k')) k" (is "wlp _ ?Q k")
proof -
  have same: "moved (tasks_of k) False (tasks_of k)" using assms(1) by (simp add: moved_same)
  have "wlp trap_return ?Q k"
    by (rule wlp_conseq [OF wlp_trap_return]) (use same in simp)
  moreover have "wlp (syscall_return (Returns v)) ?Q k" for v
    by (rule wlp_conseq [OF wlp_syscall_return]) (use same in simp)
  moreover have "wlp (Stdin_read_loop pf r b) (\<lambda>out. wlp (syscall_return out) ?Q) k" for b
  proof (rule wlp_conseq [OF wlp_Stdin_read_loop [OF assms(1)]])
    show "wlp (syscall_return out) ?Q k'" if "moved (tasks_of k) (out = Switched) (tasks_of k')" for out k'
      by (rule wlp_conseq [OF wlp_syscall_return]) (use that in simp)
  qed
  ultimately show ?thesis
    using assms(2) by (auto simp: resume_def own_cx_def wlp_bnd split: task_context.split continuation.split)
qed

lemma dispatch_step:
  assumes "ready_queue k = r # q" and "current k = None" and "tcbs k r = Some t"
  shows "task_step (tasks_of k) (Dispatch r)
    (tasks_of (k\<lparr>ready_queue := q, tcbs := (tcbs k)(r \<mapsto> t\<lparr>task_status := Running\<rparr>), current := Some r\<rparr>))"
  using assms by (auto simp: task_step_simps tasks_of_def task_of_def fun_eq_iff)

lemma wlp_run_tasks:
  assumes "current k = None" and "tasks_inv (tasks_of k)"
  shows "wlp (run_tasks pf) (\<lambda>cpu k'. (\<exists>es. task_steps (tasks_of k) es (tasks_of k') \<and>
      concat (map dispatched es) = take 1 (ready_queue k)) \<and> (cpu = Idle \<longleftrightarrow> current k' = None)) k"
proof (cases "ready_queue k")
  case Nil
  have "(\<exists>es. task_steps (tasks_of k) es (tasks_of k) \<and> concat (map dispatched es) = [])"
    by (intro exI [of _ "[]"]) (simp add: no_step)
  with Nil assms(1) show ?thesis by (simp add: run_tasks_def fetch_task_def wlp_simps)
next
  case (Cons r q)
  from assms(2) Cons have "\<exists>u. tasks (tasks_of k) r = Some u \<and> t_status u = Ready \<and> own_cx r (t_cx u)"
    by (intro queued_ready) (simp_all add: tasks_inv_def)
  then obtain t where t: "tcbs k r = Some t" and cx: "own_cx r (task_cx t)" by auto
  let ?k = "k\<lparr>ready_queue := q, tcbs := (tcbs k)(r \<mapsto> t\<lparr>task_status := Running\<rparr>), current := Some r\<rparr>"
  have "wlp (resume pf (task_cx t)) (\<lambda>cpu k'. (\<exists>es. task_steps (tasks_of k) es (tasks_of k') \<and>
      concat (map dispatched es) = [r]) \<and> (cpu = Idle \<longleftrightarrow> current k' = None)) ?k"
  proof (rule wlp_conseq [OF wlp_resume [OF _ cx]])
    fix cpu k'
    assume "moved (tasks_of ?k) (cpu = Idle) (tasks_of k')"
    then obtain es where "task_steps (tasks_of ?k) es (tasks_of k')" "concat (map dispatched es) = []" "cpu = Idle \<longleftrightarrow> current k' = None"
      by (auto simp: moved_def)
    then show "(\<exists>es. task_steps (tasks_of k) es (tasks_of k') \<and> concat (map dispatched es) = [r]) \<and> (cpu = Idle \<longleftrightarrow> current k' = None)"
      using more_steps [OF dispatch_step [OF Cons assms(1) t]] by (intro conjI exI [of _ "Dispatch r # es"]) auto
  qed simp
  with Cons t show ?thesis by (simp add: run_tasks_def fetch_task_def wlp_simps)
qed

section \<open>Executions\<close>

text \<open>
  The pages that the running program may write: those its page table maps for writing from user mode.
\<close>

definition user_pages :: "kernel \<Rightarrow> usize set" where
  "user_pages k = {page_index (pte_ppn pte) | pte vpn.
     PageTable_translate (k_mm k) (PageTable_from_token (satp k)) vpn = Some pte \<and>
     is_valid pte \<and> writable pte \<and> flags pte AND PTE_U \<noteq> 0}"

text \<open>
  The machine alternates between the idle control flow, a program and the kernel's traps. A program
  does what it likes with its registers and its memory until something traps. The label lists the
  task that was taken from the ready queue. A run ends where the kernel panics, stops the emulator or
  loops, and where a trap jumps out of the kernel (\<open>WildJump\<close>), which happens exactly to a program that
  had the handler's address in its trap context overwritten: \<open>stvec\<close> is part of the invariant.
\<close>

inductive kernel_step :: "platform \<Rightarrow> cpu \<times> kernel \<Rightarrow> nat list \<Rightarrow> cpu \<times> kernel \<Rightarrow> bool" for pf where
  do_idle: "run_tasks pf k = Inr (c, k') \<Longrightarrow> kernel_step pf (Idle, k) (take 1 (ready_queue k)) (c, k')"
| do_user: "same_pages (user_pages k) (k_mm k) m \<Longrightarrow> kernel_step pf (User rs, k) [] (User rs', k\<lparr>k_mm := m\<rparr>)"
| do_trap: "user_trap pf scause rs k = Inr (c, k') \<Longrightarrow> kernel_step pf (User rs, k) [] (c, k')"

inductive kernel_run :: "platform \<Rightarrow> cpu \<times> kernel \<Rightarrow> nat list \<Rightarrow> cpu \<times> kernel \<Rightarrow> bool" for pf where
  run_nothing: "kernel_run pf s [] s"
| run_step: "kernel_run pf s ds s' \<Longrightarrow> kernel_step pf s' d s'' \<Longrightarrow> kernel_run pf s (ds @ d) s''"

definition kernel_inv :: "cpu \<times> kernel \<Rightarrow> bool" where
  "kernel_inv s \<longleftrightarrow> tasks_inv (tasks_of (snd s)) \<and> (fst s = Idle \<longleftrightarrow> current (snd s) = None) \<and>
     (fst s \<noteq> Idle \<longrightarrow> stvec (snd s) = TRAMPOLINE)"

lemma user_trap_Inr:
  "user_trap pf scause rs k = Inr r \<longleftrightarrow> stvec k = TRAMPOLINE \<and>
    (\<exists>k1. alltraps rs k = Inr (trap_handler_addr pf, k1) \<and> trap_handler pf scause k1 = Inr r)"
  by (auto simp: user_trap_def action_defs split: sum.splits)

text \<open>Whatever returns to user mode does so through \<open>trap_return\<close>, which sets the trap vector.\<close>

definition sets_vector :: "cpu kernel_action \<Rightarrow> bool" where
  "sets_vector m \<longleftrightarrow> (\<forall>k. wlp m (\<lambda>c k'. c \<noteq> Idle \<longrightarrow> stvec k' = TRAMPOLINE) k)"

named_theorems vector_intros \<open>actions that set the trap vector before they return to user mode\<close>

lemma sets_vector_bnd [vector_intros]: "(\<And>a. sets_vector (f a)) \<Longrightarrow> sets_vector (bnd m f)"
  by (auto simp: sets_vector_def wlp_bnd intro: wlpI)

lemma sets_vector_thn [vector_intros]: "sets_vector n \<Longrightarrow> sets_vector (thn m n)"
  by (auto simp: sets_vector_def wlp_thn intro: wlpI)

lemma sets_vector_fail [vector_intros]: "sets_vector (ret Idle)" "sets_vector (fail e)"
  by (simp_all add: sets_vector_def wlp_simps)

lemma sets_vector_trap_return [vector_intros]: "sets_vector trap_return"
proof -
  have frame: "wlp trap_cx_frame (\<lambda>_ k'. k' = k) k" for k
    by (auto simp: trap_cx_frame_def wlp_def action_defs split: option.splits if_splits)
  have "wlp (restore tok) (\<lambda>_ k'. stvec k' = TRAMPOLINE) k" if "stvec k = TRAMPOLINE" for tok k
    unfolding restore_def wlp_thn wlp_bnd wlp_upd wlp_gets by (rule wlp_conseq [OF frame]) (simp add: that)
  moreover have tok: "wlp current_user_token (\<lambda>_ k'. k' = k) k" for k
    by (auto simp: current_user_token_def current_tcb_def current_task_def get_tcb_def wlp_simps)
  ultimately show ?thesis
    unfolding sets_vector_def trap_return_def set_user_trap_entry_def wlp_thn wlp_bnd wlp_upd wlp_ret
    by (intro allI wlp_conseq [OF tok]) simp
qed

lemma sets_vector_syscall_return [vector_intros]: "sets_vector (syscall_return out)"
  by (cases out) (auto simp: syscall_return_def intro!: vector_intros)

lemma sets_vector_trap_handler: "sets_vector (trap_handler pf scause)"
  by (cases scause) (auto simp: trap_handler_def intro!: vector_intros)

lemma sets_vector_run_tasks: "sets_vector (run_tasks pf)"
proof -
  have "sets_vector (resume pf cx)" for cx
    by (auto simp: resume_def intro!: vector_intros split: task_context.split continuation.split)
  then show ?thesis by (auto simp: run_tasks_def intro!: vector_intros split: option.split)
qed

lemma kernel_step_vector:
  assumes "kernel_step pf s d s'" and "kernel_inv s" and "fst s' \<noteq> Idle"
  shows "stvec (snd s') = TRAMPOLINE"
  using assms(1)
proof cases
  case (do_idle k c k')
  then show ?thesis using sets_vector_run_tasks [of pf] assms(3) by (auto simp: sets_vector_def wlp_def)
next
  case (do_user k m rs rs')
  then show ?thesis using assms(2) by (simp add: kernel_inv_def)
next
  case (do_trap scause rs k c k')
  then show ?thesis
    using sets_vector_trap_handler [of pf scause] assms(3) by (auto simp: user_trap_Inr sets_vector_def wlp_def)
qed

lemma kernel_step_refines:
  assumes "kernel_step pf s d s'" and "kernel_inv s"
  shows "\<exists>es. task_steps (tasks_of (snd s)) es (tasks_of (snd s')) \<and> concat (map dispatched es) = d \<and>
    (fst s' = Idle \<longleftrightarrow> current (snd s') = None)"
  using assms(1)
proof cases
  case (do_idle k c k')
  then show ?thesis using assms(2) wlpD [OF wlp_run_tasks] by (auto simp: kernel_inv_def)
next
  case (do_user k m rs rs')
  then show ?thesis
    using no_step [of "tasks_of k"] assms(2) by (intro exI [of _ "[]"]) (simp add: kernel_inv_def)
next
  case (do_trap scause rs k c k')
  from do_trap(4) obtain k1 where run: "alltraps rs k = Inr (trap_handler_addr pf, k1)" "trap_handler pf scause k1 = Inr (c, k')"
    by (auto simp: user_trap_Inr)
  have k1: "tasks_of k1 = tasks_of k" using silentD [OF silent_alltraps run(1)] .
  obtain r where "current k = Some r" using assms(2) do_trap(1) by (auto simp: kernel_inv_def)
  then have r: "current k1 = Some r" using tasks_ofD(4) [OF k1] by simp
  have "tasks_inv (tasks_of k1)" using assms(2) do_trap(1) k1 by (simp add: kernel_inv_def)
  from wlpD [OF wlp_trap_handler [OF r this] run(2)] have "moved (tasks_of k) (c = Idle) (tasks_of k')"
    by (simp add: k1)
  then show ?thesis using do_trap(1-3) by (simp add: moved_def)
qed

lemma kernel_inv_step:
  assumes "kernel_step pf s d s'" and "kernel_inv s"
  shows "kernel_inv s'"
  using kernel_step_refines [OF assms]
proof (elim exE conjE)
  fix es
  assume "task_steps (tasks_of (snd s)) es (tasks_of (snd s'))"
  from tasks_inv_steps [OF this] assms(2) have "tasks_inv (tasks_of (snd s'))" by (simp add: kernel_inv_def)
  then show "(fst s' = Idle) = (current (snd s') = None) \<Longrightarrow> kernel_inv s'"
    using kernel_step_vector [OF assms] by (simp add: kernel_inv_def)
qed

lemma kernel_run_refines:
  assumes "kernel_run pf s ds s'" and "kernel_inv s"
  shows "kernel_inv s' \<and> (\<exists>es. task_steps (tasks_of (snd s)) es (tasks_of (snd s')) \<and> concat (map dispatched es) = ds)"
  using assms
proof (induction rule: kernel_run.induct)
  case (run_nothing s)
  then show ?case by (auto intro!: exI [of _ "[]"] no_step)
next
  case (run_step s ds s' d s'')
  then obtain es where es: "task_steps (tasks_of (snd s)) es (tasks_of (snd s'))" "concat (map dispatched es) = ds"
    and inv: "kernel_inv s'" by blast
  from kernel_step_refines [OF run_step.hyps(2) inv]
  obtain es' where "task_steps (tasks_of (snd s')) es' (tasks_of (snd s''))" "concat (map dispatched es') = d"
    by (elim exE conjE)
  with es have "task_steps (tasks_of (snd s)) (es @ es') (tasks_of (snd s''))" "concat (map dispatched (es @ es')) = ds @ d"
    by (simp_all add: task_steps_append)
  with kernel_inv_step [OF run_step.hyps(2) inv] show ?case by blast
qed

end
