(* ===== verification/Processes.thy ===== *)
theory Processes
  imports Scheduler
begin

text \<open>
  What the kernel promises about processes in every state it can reach: the scheduler's
  bookkeeping, reference counts and borrows, \<open>waitpid\<close> and \<open>exit\<close>, file descriptors, and saved
  registers.
\<close>

section \<open>The kernel after the start\<close>

definition fresh_kernel :: "kernel \<Rightarrow> bool" where
  "fresh_kernel k \<longleftrightarrow> (\<forall>r. tcbs k r = None) \<and> next_tcb k = 0 \<and> ready_queue k = [] \<and> current k = None \<and>
     pids k = PidAllocator_new"

definition first_tasks :: "usize \<Rightarrow> tasks_state" where
  "first_tasks kstack =
     \<lparr>tasks = [0 \<mapsto> new_task (PidHandle 0) None kstack], fresh = 1, queue = [0], running = None, init = 0,
      pid_pool = \<lparr>pid_current = 1, pid_recycled = []\<rparr>\<rparr>"

lemma tasks_inv_first: "tasks_inv (first_tasks kstack)"
proof -
  have "queue_inv (first_tasks kstack)"
    by (auto simp: queue_inv_def first_tasks_def new_task_def own_cx_def)
  moreover have "family_inv (first_tasks kstack)"
    by (auto simp: family_inv_def first_tasks_def new_task_def)
  moreover have "task_pids (first_tasks kstack) = [0 \<mapsto> PidHandle 0]"
    by (auto simp: task_pids_def first_tasks_def new_task_def)
  then have "pids_inv (first_tasks kstack)"
    by (auto simp: pids_inv_def pid_inv_def pid_live_def first_tasks_def eq_PidHandle_iff
        word_less_1 [simplified] intro: pid_handle.expand)
  ultimately show ?thesis by (simp add: tasks_inv_def)
qed

lemma silent_start [silent_intros]: "silent (mm_init pf)" "silent (remap_test pf)" "silent init_root"
  unfolding mm_init_def remap_test_def init_root_def Let_def
  by (intro silent_intros silent_upd; simp add: tasks_of_def)+

lemma wlp_add_initproc:
  assumes "fresh_kernel k"
  shows "wlp (add_initproc pf) (\<lambda>_ k'. (\<exists>kstack. tasks_of k' = first_tasks kstack)) k"
proof -
  have add: "\<exists>kstack. tasks_of (k2\<lparr>tcbs := (tcbs k2)(next_tcb k2 \<mapsto> t), next_tcb := Suc (next_tcb k2),
      initproc := next_tcb k2, ready_queue := ready_queue k2 @ [next_tcb k2]\<rparr>) = first_tasks kstack"
    if k1: "tasks_of k1 = tasks_of k" and h: "PidAllocator_alloc (pids k1) = Inr (h, pool)"
      and k2: "tasks_of k2 = tasks_of (k1\<lparr>pids := pool\<rparr>)" and t: "task_of t = new_task h None top'" for k1 h pool k2 t top'
  proof -
    from h tasks_ofD(6) [OF k1] assms have "h = PidHandle 0" "pool = \<lparr>pid_current = 1, pid_recycled = []\<rparr>"
      by (auto simp: fresh_kernel_def PidAllocator_new_def PidAllocator_alloc_def)
    moreover note tasks_ofD [OF k1] tasks_ofD [OF k2]
    ultimately have "tasks_of (k2\<lparr>tcbs := (tcbs k2)(next_tcb k2 \<mapsto> t), next_tcb := Suc (next_tcb k2),
      initproc := next_tcb k2, ready_queue := ready_queue k2 @ [next_tcb k2]\<rparr>) = first_tasks top'"
      using assms t by (auto simp: tasks_of_def first_tasks_def fresh_kernel_def fun_eq_iff)
    then show ?thesis ..
  qed
  show ?thesis
    unfolding add_initproc_def TaskControlBlock_new_def Arc_new_tcb_def add_task_def Let_def
  proof (auto simp: wlp_simps case_prod_beta simp del: fun_upd_apply
      intro!: wlp_silent [OF silent_on_disk] wlp_silent [OF silent_on_mm] wlp_silent [OF silent_trap_cx_page]
        wlp_silent [OF silent_KernelStack(1)] wlp_pid_alloc, goal_cases)
    case (1 ka kb ms sp kc ppn kd h pool kstack ke kf)
    show ?case
      by (rule add [OF 1(4,5,7), where top' = "get_top kstack"]) (simp add: task_of_def new_task_def goto_trap_return_def)
  qed
qed

lemma rust_main_inv:
  assumes "fresh_kernel k0" and "rust_main pf k0 = Inr (c, k)"
  shows "c = Idle" and "kernel_inv (c, k)"
proof -
  have fresh: "fresh_kernel k'" if "tasks_of k' = tasks_of k0" for k'
    using tasks_ofD [OF that] assms(1) by (simp add: fresh_kernel_def)
  have "wlp (rust_main pf) (\<lambda>c k. c = Idle \<and> (\<exists>kstack. tasks_of k = first_tasks kstack)) k0"
    unfolding rust_main_def wlp_thn wlp_bnd wlp_gets
  proof (intro wlp_silent [OF silent_start(1)] wlp_silent [OF silent_start(2)] wlp_silent [OF silent_start(3)]
      wlp_silent [OF silent_set_kernel_trap_entry] wlp_silent [OF silent_set_next_trigger] wlp_silent [OF silent_on_disk])
    fix k1 k2 k3 k4 k5 k'
    assume "tasks_of k1 = tasks_of k0" "tasks_of k2 = tasks_of k1" "tasks_of k3 = tasks_of k2"
      "tasks_of k4 = tasks_of k3" "tasks_of k5 = tasks_of k4" "tasks_of k' = tasks_of k5"
    then have "fresh_kernel k'" by (intro fresh) simp
    then show "wlp (add_initproc pf) (\<lambda>_. wlp (ret Idle) (\<lambda>c k. c = Idle \<and> (\<exists>kstack. tasks_of k = first_tasks kstack))) k'"
      using wlp_conseq [OF wlp_add_initproc] by (simp add: wlp_ret)
  qed
  from wlpD [OF this assms(2)] obtain kstack where c: "c = Idle" "tasks_of k = first_tasks kstack" by blast
  then show "c = Idle" by simp
  have "current k = None" using tasks_ofD(4) [OF c(2)] by (simp add: first_tasks_def)
  with c tasks_inv_first show "kernel_inv (c, k)" by (simp add: kernel_inv_def)
qed

section \<open>Consequences of the invariant\<close>

lemma kernel_invD:
  assumes "kernel_inv (c, k)"
  shows "queue_inv (tasks_of k)" "family_inv (tasks_of k)" "pids_inv (tasks_of k)"
    "c = Idle \<longleftrightarrow> current k = None" "c \<noteq> Idle \<longrightarrow> stvec k = TRAMPOLINE"
  using assms by (simp_all add: kernel_inv_def tasks_inv_def)

lemma child_facts:
  assumes inv: "kernel_inv (c, k)" and t: "tcbs k p = Some t" and x: "x \<in> set (children t)"
  shows "p < x" "\<exists>u. tcbs k x = Some u \<and> parent u = Some p" "x \<noteq> p" "x \<noteq> initproc k"
proof -
  note fam = family_invD [OF kernel_invD(2) [OF inv]]
  have "tasks (tasks_of k) p = Some (task_of t)" using t by simp
  from fam(2) [OF this, of x] x show "p < x" "\<exists>u. tcbs k x = Some u \<and> parent u = Some p" by auto
  with fam(1) show "x \<noteq> p" "x \<noteq> initproc k" by auto
qed

lemma zombie_facts:
  assumes inv: "kernel_inv (c, k)" and u: "tcbs k x = Some u" "is_zombie u"
  shows "x \<notin> set (ready_queue k)" "current k \<noteq> Some x" "x \<noteq> initproc k"
proof -
  have q: "queue_inv (tasks_of k)" and f: "family_inv (tasks_of k)" using kernel_invD [OF inv] by simp_all
  show "x \<notin> set (ready_queue k)"
    using queued_ready [OF q, of x] u by (auto simp: is_zombie_def)
  show "current k \<noteq> Some x"
    using running_status [OF q, of x "task_of u"] u by (auto simp: is_zombie_def)
  show "x \<noteq> initproc k" using family_invD(1) [OF f] u by (auto simp: is_zombie_def)
qed

lemma context_arcs_own:
  assumes inv: "kernel_inv (c, k)" and t: "tcbs k r = Some t" and x: "x \<in> set (context_arcs t)"
  shows "x = r \<and> task_status t = Ready"
proof -
  have ready: "task_status t = Ready"
  proof (rule ccontr)
    assume "task_status t \<noteq> Ready"
    with x show False by (simp add: context_arcs_def)
  qed
  have "\<exists>b. task_cx t = SwitchedOut (StdinRetry x b)"
  proof (cases "task_cx t")
    case (SwitchedOut w)
    with x ready show ?thesis by (cases w) (simp_all add: context_arcs_def)
  qed (use x ready in \<open>simp_all add: context_arcs_def\<close>)
  then obtain b where b: "task_status t = Ready" "task_cx t = SwitchedOut (StdinRetry x b)"
    using ready by blast
  then have "own_cx r (task_cx t)" using ready_cx [OF kernel_invD(1) [OF inv], of r "task_of t"] t by simp
  with b show ?thesis by (simp add: own_cx_def)
qed

lemma in_arcs_iff:
  "r \<in> set (arcs k) \<longleftrightarrow> (\<exists>q t. q < next_tcb k \<and> tcbs k q = Some t \<and> (r \<in> set (children t) \<or> r \<in> set (context_arcs t))) \<or>
    r \<in> set (ready_queue k) \<or> current k = Some r \<or> r = initproc k"
proof -
  have "r \<in> set (case tcbs k q of None \<Rightarrow> [] | Some t \<Rightarrow> children t @ context_arcs t) \<longleftrightarrow>
      (\<exists>t. tcbs k q = Some t \<and> (r \<in> set (children t) \<or> r \<in> set (context_arcs t)))" for q
    by (cases "tcbs k q") simp_all
  moreover have "r \<in> set (case current k of None \<Rightarrow> [] | Some r \<Rightarrow> [r]) \<longleftrightarrow> current k = Some r"
    by (cases "current k") auto
  ultimately show ?thesis by (auto simp: arcs_def)
qed

lemma only_parent:
  assumes "kernel_inv (c, k)" and "tcbs k p = Some t" "x \<in> set (children t)" and "tcbs k q = Some v" "x \<in> set (children v)"
  shows "q = p"
  using child_facts(2) [OF assms(1-3)] child_facts(2) [OF assms(1,4,5)] by auto

lemma live_pid_eq:
  assumes "kernel_inv (c, k)" and "next_tcb k < 2 ^ 64 - 1"
    and "tcbs k x = Some u" "tcbs k y = Some v" "getpid u = getpid v"
  shows "x = y"
proof -
  have "inj_on (task_pids (tasks_of k)) (dom (task_pids (tasks_of k)))"
    using kernel_invD(3) [OF assms(1)] assms(2) by (simp add: pids_inv_def)
  moreover have "task_pids (tasks_of k) x = Some (tcb_pid u)" "task_pids (tasks_of k) y = Some (tcb_pid v)"
    using assms(3,4) by (simp_all add: task_pids_def)
  moreover have "tcb_pid u = tcb_pid v" using assms(5) by (simp add: getpid_def pid_handle.expand)
  ultimately show ?thesis by (metis domI inj_onD)
qed

lemma live_pid_zero:
  assumes "kernel_inv (c, k)" and "next_tcb k < 2 ^ 64 - 1" and "tcbs k r = Some t"
  shows "getpid t = IDLE_PID \<longleftrightarrow> r = initproc k"
proof -
  obtain t0 where t0: "tcbs k (initproc k) = Some t0" "getpid t0 = 0"
    using family_invD(1) [OF kernel_invD(2) [OF assms(1)]] by (auto simp: getpid_def)
  with live_pid_eq [OF assms t0(1)] assms(3) show ?thesis by (auto simp: IDLE_PID_def)
qed

lemma distinct_children: "kernel_inv (c, k) \<Longrightarrow> tcbs k p = Some t \<Longrightarrow> distinct (children t)"
  using family_invD(3) [OF kernel_invD(2), of c k p "task_of t"] by simp

lemma reaped_not_in_arcs:
  assumes inv: "kernel_inv (c, k)" and p: "current k = Some p" "tcbs k p = Some t" "i < length (children t)"
    and u: "tcbs k (children t ! i) = Some u" "is_zombie u"
  shows "children t ! i \<notin> set (arcs (k\<lparr>tcbs := (tcbs k)(p \<mapsto> t\<lparr>children := take i (children t) @ drop (Suc i) (children t)\<rparr>)\<rparr>))"
proof -
  let ?x = "children t ! i"
  have x: "?x \<in> set (children t)" using p(3) by simp
  have "children t = take i (children t) @ ?x # drop (Suc i) (children t)" using p(3) by (simp add: id_take_nth_drop [symmetric])
  with distinct_children [OF inv p(2)] have gone: "?x \<notin> set (take i (children t) @ drop (Suc i) (children t))"
    by (metis distinct_append distinct.simps(2) Un_iff set_append disjoint_iff list.set_intros(1))
  have mine: "?x \<notin> set (context_arcs v)" if "tcbs k r = Some v" for r v
  proof
    assume "?x \<in> set (context_arcs v)"
    from context_arcs_own [OF inv that this] that u show False by (auto simp: is_zombie_def)
  qed
  have other: "?x \<notin> set (children v)" if "tcbs k r = Some v" "r \<noteq> p" for r v
    using only_parent [OF inv p(2) x that(1)] that(2) by blast
  have "context_arcs (t\<lparr>children := ys\<rparr>) = context_arcs t" for ys by (simp add: context_arcs_def)
  with gone mine [OF p(2)] mine other zombie_facts [OF inv u] p(1) show ?thesis
    by (auto simp: arcs_def split: option.splits if_splits)
qed

section \<open>\<open>waitpid\<close> and \<open>exit\<close>, step by step\<close>

lemma get_tcb_Some: "tcbs k r = Some t \<Longrightarrow> get_tcb r k = Inr (t, k)"
  by (simp add: get_tcb_def action_defs)

lemma current_tcb_eq: "current k = Some r \<Longrightarrow> tcbs k r = Some t \<Longrightarrow> current_tcb k = Inr ((r, t), k)"
  by (simp add: current_tcb_def current_task_def get_tcb_def action_defs)

definition matching :: "kernel \<Rightarrow> usize \<Rightarrow> nat \<Rightarrow> bool" where
  "matching k pid c \<longleftrightarrow> (\<exists>t. tcbs k c = Some t \<and> pid_matches pid t)"

definition dead :: "kernel \<Rightarrow> nat \<Rightarrow> bool" where
  "dead k c \<longleftrightarrow> (\<exists>t. tcbs k c = Some t \<and> is_zombie t)"

lemma any_child_eq:
  "list_all (\<lambda>c. tcbs k c \<noteq> None) cs \<Longrightarrow> any_child pid cs k = Inr (list_ex (matching k pid) cs, k)"
  by (induction cs) (auto simp: matching_def get_tcb_def action_defs)

lemma find_zombie_None:
  "list_all (\<lambda>c. tcbs k c \<noteq> None) cs \<Longrightarrow> task \<notin> set cs \<Longrightarrow> \<not> list_ex (\<lambda>c. dead k c \<and> matching k pid c) cs \<Longrightarrow>
    find_zombie task pid cs k = Inr (None, k)"
  by (induction cs) (auto simp: matching_def dead_def get_tcb_def borrow_def action_defs)

lemma find_zombie_Some:
  "list_all (\<lambda>c. tcbs k c \<noteq> None) cs \<Longrightarrow> task \<notin> set cs \<Longrightarrow> cs = xs @ c # ys \<Longrightarrow>
    \<not> list_ex (\<lambda>c. dead k c \<and> matching k pid c) xs \<Longrightarrow> dead k c \<Longrightarrow> matching k pid c \<Longrightarrow>
    find_zombie task pid cs k = Inr (Some (length xs), k)"
  by (induction xs arbitrary: cs) (auto simp: matching_def dead_def get_tcb_def borrow_def action_defs)

lemma children_live:
  assumes "kernel_inv (c, k)" and "tcbs k p = Some t"
  shows "list_all (\<lambda>x. tcbs k x \<noteq> None) (children t)" "p \<notin> set (children t)" "initproc k \<notin> set (children t)"
  using child_facts(2) [OF assms] child_facts(3,4) [OF assms] unfolding list_all_iff by blast+

lemma reap_child_eq:
  assumes inv: "kernel_inv (c, k)" and p: "current k = Some p" "tcbs k p = Some t" "i < length (children t)"
    and u: "tcbs k (children t ! i) = Some u" "is_zombie u"
    and ptr: "translated_refmut (k_mm k) (get_user_token t) ptr = Inr pa"
  shows "reap_child p t i ptr k =
    bnd (drop_tcb (children t ! i)) (\<lambda>_. ret (Returns (getpid u)))
      (k\<lparr>tcbs := (tcbs k)(p \<mapsto> t\<lparr>children := take i (children t) @ drop (Suc i) (children t)\<rparr>),
         k_mm := write_phys (pa_0 pa) (le_enc 4 (unat (exit_code u))) (k_mm k)\<rparr>)"
proof -
  have x: "children t ! i \<noteq> p" using child_facts(3) [OF inv p(2)] p(3) by simp
  have "count_list (arcs (k\<lparr>tcbs := (tcbs k)(p \<mapsto> t\<lparr>children := take i (children t) @ drop (Suc i) (children t)\<rparr>)\<rparr>)) (children t ! i) = 0"
    using reaped_not_in_arcs [OF inv p u] by simp
  with x have "strong_count [p, children t ! i] (children t ! i)
      (k\<lparr>tcbs := (tcbs k)(p \<mapsto> t\<lparr>children := take i (children t) @ drop (Suc i) (children t)\<rparr>)\<rparr>) = 1"
    by (simp add: strong_count_def)
  with x p u ptr show ?thesis
    by (simp add: reap_child_def upd_tcb_def get_tcb_def on_mm_def on_def action_defs Let_def)
qed



section \<open>A small kernel\<close>

text \<open>
  Four tasks, for the concrete instances below: the initial process 0, which waits for a
  character, its child 1, and the children 2 (dead) and 3 (interrupted by the timer) of 1.
\<close>

definition ex_pf :: platform where
  "ex_pf = \<lparr>parse_elf = (\<lambda>_. None),
     linker = \<lparr>stext = 0x80200000, etext = 0x80201000, srodata = 0x80201000, erodata = 0x80202000, sdata = 0x80202000,
       edata = 0x80203000, sbss_with_stack = 0x80203000, ebss = 0x80204000, ekernel = 0x80204000, strampoline = 0x80200000\<rparr>,
     trap_handler_addr = 0x80200100, trap_from_kernel_addr = 0x80200200, user_sstatus = 0,
     getchar_results = (\<lambda>_. 0), time_values = (\<lambda>n. word_of_nat n)\<rparr>"

definition ex_task :: "page_table \<Rightarrow> usize \<Rightarrow> task_status \<Rightarrow> nat option \<Rightarrow> nat list \<Rightarrow> continuation \<Rightarrow> tcb" where
  "ex_task pt pid status par kids cont =
     \<lparr>tcb_pid = PidHandle pid, kernel_stack = pid, trap_cx_ppn = PhysPageNum 0x50, base_size = 0x1000,
      task_cx = SwitchedOut cont, task_status = status,
      memory_set = \<lparr>ms_page_table = pt\<lparr>pt_frames := []\<rparr>, areas = []\<rparr>, parent = par, children = kids, exit_code = 7,
      fd_table = [Some Stdin, Some Stdout, None, Some Stdout]\<rparr>"

definition ex_kernel :: "mm \<Rightarrow> page_table \<Rightarrow> kernel" where
  "ex_kernel m pt =
     \<lparr>k_mm = m, kernel_space = \<lparr>ms_page_table = pt, areas = []\<rparr>, pids = \<lparr>pid_current = 4, pid_recycled = []\<rparr>,
      disk = fresh_disk, root_ino = Inode_of fresh_fs 0,
      tcbs = [0 \<mapsto> ex_task pt 0 Ready None [1] (StdinRetry 0 \<lparr>buffers = []\<rparr>),
              1 \<mapsto> ex_task pt 1 Running (Some 0) [2, 3] TimerReturn,
              2 \<mapsto> ex_task pt 2 Zombie (Some 1) [] TimerReturn,
              3 \<mapsto> ex_task pt 3 Ready (Some 1) [] TimerReturn],
      next_tcb = 4, os_files = Map.empty, next_file = 0, ready_queue = [0, 3], current = Some 1, initproc = 0,
      console_out = [], getchar_calls = 0, time_reads = 0, timer = 0, stvec = TRAMPOLINE, satp = 0, tp = 0\<rparr>"

text \<open>The same kernel after task 1 has been interrupted.\<close>

definition ex_idle :: "mm \<Rightarrow> page_table \<Rightarrow> kernel" where
  "ex_idle m pt = (ex_kernel m pt)\<lparr>tcbs := (tcbs (ex_kernel m pt))(1 \<mapsto> ex_task pt 1 Ready (Some 0) [2, 3] TimerReturn),
     ready_queue := [0, 3, 1], current := None\<rparr>"

lemma pid_live_four: "pid_live \<lparr>pid_current = 4, pid_recycled = []\<rparr> = {PidHandle 0, PidHandle 1, PidHandle 2, PidHandle 3}"
proof (intro set_eqI iffI)
  fix h
  assume "h \<in> pid_live \<lparr>pid_current = 4, pid_recycled = []\<rparr>"
  then have "unat (pid_0 h) < 4" by (simp add: pid_live_def word_less_nat_alt)
  then have "unat (pid_0 h) \<in> {0, 1, 2, 3}" by auto
  then have "pid_0 h \<in> {0, 1, 2, 3}" by (auto simp: word_unat_eq_iff)
  then show "h \<in> {PidHandle 0, PidHandle 1, PidHandle 2, PidHandle 3}" by (simp add: eq_PidHandle_iff)
next
  fix h
  assume "h \<in> {PidHandle 0, PidHandle 1, PidHandle 2, PidHandle 3}"
  then show "h \<in> pid_live \<lparr>pid_current = 4, pid_recycled = []\<rparr>" by (auto simp: pid_live_def)
qed

lemma four_tasks_inv:
  assumes "tasks \<sigma> = [0 \<mapsto> t0, 1 \<mapsto> t1, 2 \<mapsto> t2, 3 \<mapsto> t3]" "t_status t0 = Ready" "t_parent t0 = None"
    "t_status t1 \<noteq> Zombie" "t_parent t1 = Some 0" "t_status t2 = Zombie" "t_parent t2 = Some 1" "t_status t3 = Ready" "t_parent t3 = Some 1"
    "t_children t0 = [1]" "t_children t1 = [2, 3]" "t_children t2 = []" "t_children t3 = []"
    "t_pid t0 = PidHandle 0" "t_pid t1 = PidHandle 1" "t_pid t2 = PidHandle 2" "t_pid t3 = PidHandle 3"
    "init \<sigma> = 0" "fresh \<sigma> = 4" "pid_pool \<sigma> = \<lparr>pid_current = 4, pid_recycled = []\<rparr>"
  shows "family_inv \<sigma>" "pids_inv \<sigma>"
proof -
  have look: "(p = 0 \<and> t = t0) \<or> (p = 1 \<and> t = t1) \<or> (p = 2 \<and> t = t2) \<or> (p = 3 \<and> t = t3)" if "tasks \<sigma> p = Some t" for p t
    using that unfolding assms(1) by (simp split: if_splits)
  have at: "tasks \<sigma> 0 = Some t0" "tasks \<sigma> 1 = Some t1" "tasks \<sigma> 2 = Some t2" "tasks \<sigma> 3 = Some t3"
    unfolding assms(1) by simp_all
  show "family_inv \<sigma>"
    unfolding family_inv_def
  proof (intro conjI allI impI)
    show "\<exists>t. tasks \<sigma> (init \<sigma>) = Some t \<and> t_status t \<noteq> Zombie \<and> pid_0 (t_pid t) = 0 \<and> t_parent t = None"
      using assms(2,3,14,18) at(1) by simp
  next
    fix p t c
    assume "tasks \<sigma> p = Some t" and "c \<in> set (t_children t)"
    then have "(p, c) \<in> {(0, 1), (1, 2), (1, 3)}" using look [of p t] assms(10-13) by auto
    then show "p < c" "\<exists>u. tasks \<sigma> c = Some u \<and> t_parent u = Some p"
      using at assms(5,7,9) by auto
  next
    fix p t
    assume p: "tasks \<sigma> p = Some t"
    show "distinct (t_children t)" using look [OF p] assms(10-13) by auto
    show "t_children t = []" if "t_status t = Zombie" using look [OF p] assms(2,4,8,12) that by auto
    show "init \<sigma> \<le> p" using assms(18) by simp
    assume "p \<noteq> init \<sigma>"
    with look [OF p] assms(18) consider "p = 1" "t = t1" | "p = 2" "t = t2" | "p = 3" "t = t3" by auto
    then show "\<exists>q u. t_parent t = Some q \<and> tasks \<sigma> q = Some u \<and> p \<in> set (t_children u)"
      by cases (use assms(5,7,9,10,11) at in simp_all)
  qed
  have pids: "task_pids \<sigma> = [0 \<mapsto> PidHandle 0, 1 \<mapsto> PidHandle 1, 2 \<mapsto> PidHandle 2, 3 \<mapsto> PidHandle 3]"
    by (rule ext) (simp add: task_pids_def assms(1,14-17))
  have "dom (task_pids \<sigma>) = {0, 1, 2, 3}" unfolding pids by auto
  then have "inj_on (task_pids \<sigma>) (dom (task_pids \<sigma>))" by (simp add: pids inj_on_def)
  moreover have "ran (task_pids \<sigma>) = {PidHandle 0, PidHandle 1, PidHandle 2, PidHandle 3}"
    unfolding pids by (simp add: ran_map_upd insert_commute)
  ultimately show "pids_inv \<sigma>"
    using assms(19,20) by (simp add: pids_inv_def pid_inv_def pid_live_four)
qed

lemma ex_kernel_tasks:
  "tasks_of (ex_kernel m pt) =
    \<lparr>tasks = [0 \<mapsto> task_of (ex_task pt 0 Ready None [1] (StdinRetry 0 \<lparr>buffers = []\<rparr>)),
              1 \<mapsto> task_of (ex_task pt 1 Running (Some 0) [2, 3] TimerReturn),
              2 \<mapsto> task_of (ex_task pt 2 Zombie (Some 1) [] TimerReturn),
              3 \<mapsto> task_of (ex_task pt 3 Ready (Some 1) [] TimerReturn)],
     fresh = 4, queue = [0, 3], running = Some 1, init = 0, pid_pool = \<lparr>pid_current = 4, pid_recycled = []\<rparr>\<rparr>"
  by (simp add: tasks_of_def ex_kernel_def fun_eq_iff)

lemma ex_kernel_inv: "kernel_inv (User rs, ex_kernel m pt)"
proof -
  have "queue_inv (tasks_of (ex_kernel m pt))"
    unfolding ex_kernel_tasks queue_inv_def
    by (auto simp: ex_task_def own_cx_def split: if_splits)
  moreover have "family_inv (tasks_of (ex_kernel m pt)) \<and> pids_inv (tasks_of (ex_kernel m pt))"
    unfolding ex_kernel_tasks
    by (rule conjI; rule four_tasks_inv; (rule tasks_state.select_convs)?; simp add: ex_task_def)
  ultimately show ?thesis by (simp add: kernel_inv_def tasks_inv_def ex_kernel_def)
qed

lemma ex_idle_tasks:
  "tasks_of (ex_idle m pt) =
    \<lparr>tasks = [0 \<mapsto> task_of (ex_task pt 0 Ready None [1] (StdinRetry 0 \<lparr>buffers = []\<rparr>)),
              1 \<mapsto> task_of (ex_task pt 1 Ready (Some 0) [2, 3] TimerReturn),
              2 \<mapsto> task_of (ex_task pt 2 Zombie (Some 1) [] TimerReturn),
              3 \<mapsto> task_of (ex_task pt 3 Ready (Some 1) [] TimerReturn)],
     fresh = 4, queue = [0, 3, 1], running = None, init = 0, pid_pool = \<lparr>pid_current = 4, pid_recycled = []\<rparr>\<rparr>"
  by (simp add: tasks_of_def ex_idle_def ex_kernel_def fun_eq_iff)

lemma ex_idle_inv: "kernel_inv (Idle, ex_idle m pt)"
proof -
  have "queue_inv (tasks_of (ex_idle m pt))"
    unfolding ex_idle_tasks queue_inv_def
    by (auto simp: ex_task_def own_cx_def split: if_splits)
  moreover have "family_inv (tasks_of (ex_idle m pt)) \<and> pids_inv (tasks_of (ex_idle m pt))"
    unfolding ex_idle_tasks
    by (rule conjI; rule four_tasks_inv; (rule tasks_state.select_convs)?; simp add: ex_task_def)
  ultimately show ?thesis by (simp add: kernel_inv_def tasks_inv_def ex_idle_def)
qed

text \<open>The initial process is dispatched, finds no character and queues up again.\<close>

lemma ex_idle_run:
  "kernel_run ex_pf (Idle, ex_idle m pt) [0]
    (Idle, (ex_idle m pt)\<lparr>ready_queue := [3, 1, 0], getchar_calls := 1\<rparr>)"
proof -
  have "run_tasks ex_pf (ex_idle m pt) = Inr (Idle, (ex_idle m pt)\<lparr>ready_queue := [3, 1, 0], getchar_calls := 1\<rparr>)"
    by (simp add: run_tasks_def fetch_task_def get_tcb_def upd_tcb_def resume_def Stdin_read_loop_def console_getchar_def
        suspend_current_and_run_next_def schedule_def take_current_task_def add_task_def syscall_return_def action_defs
        ex_idle_def ex_kernel_def ex_task_def ex_pf_def fun_upd_twist)
  from run_step [OF run_nothing do_idle [OF this]] show ?thesis by (simp add: ex_idle_def)
qed

section \<open>Properties\<close>

text \<open>
  C2: In every state the kernel reaches, the ready queue holds each ready task exactly once and
  nothing else, the task on the processor is the only running one, the kernel is in its idle
  control flow exactly when no task is on the processor, and while a program runs the trap vector is the
  trampoline. No task is lost and none is queued twice. As in all statements on runs of the kernel, a run
  ends where the kernel panics, and where a program traps that had the address of the trap handler in
  its trap context overwritten (\<open>WildJump\<close>).
\<close>

theorem scheduler_sound:
  assumes "kernel_inv s" and "kernel_run pf s ds (c, k)"
  shows "distinct (ready_queue k) \<and>
    (\<forall>r. r \<in> set (ready_queue k) \<longleftrightarrow> (\<exists>t. tcbs k r = Some t \<and> task_status t = Ready)) \<and>
    (\<forall>r. current k = Some r \<longleftrightarrow> (\<exists>t. tcbs k r = Some t \<and> task_status t = Running)) \<and>
    (c = Idle \<longleftrightarrow> current k = None) \<and> (c \<noteq> Idle \<longrightarrow> stvec k = TRAMPOLINE)"
proof -
  have inv: "kernel_inv (c, k)" using kernel_run_refines [OF assms(2,1)] by simp
  have "(\<exists>t. tasks (tasks_of k) r = Some t \<and> t_status t = st) \<longleftrightarrow> (\<exists>t. tcbs k r = Some t \<and> task_status t = st)" for r st
    by (auto simp: map_option_eq_Some)
  with kernel_invD(1,4,5) [OF inv] show ?thesis unfolding queue_inv_def by simp
qed

theorem scheduler_sound_witness:
  "\<exists>k. kernel_run ex_pf (Idle, ex_idle tiny_mm tiny_pt) [0] (Idle, k) \<and> distinct (ready_queue k) \<and>
    ready_queue k = [3, 1, 0] \<and> (\<exists>t. tcbs k 3 = Some t \<and> task_status t = Ready)"
proof (intro exI conjI)
  show "kernel_run ex_pf (Idle, ex_idle tiny_mm tiny_pt) [0]
      (Idle, (ex_idle tiny_mm tiny_pt)\<lparr>ready_queue := [3, 1, 0], getchar_calls := 1\<rparr>)" by (rule ex_idle_run)
  note * = scheduler_sound [OF ex_idle_inv ex_idle_run, of tiny_mm tiny_pt]
  from * show "distinct (ready_queue ((ex_idle tiny_mm tiny_pt)\<lparr>ready_queue := [3, 1, 0], getchar_calls := 1\<rparr>))" by (elim conjE)
  show "ready_queue ((ex_idle tiny_mm tiny_pt)\<lparr>ready_queue := [3, 1, 0], getchar_calls := 1\<rparr>) = [3, 1, 0]" by simp
  show "tcbs ((ex_idle tiny_mm tiny_pt)\<lparr>ready_queue := [3, 1, 0], getchar_calls := 1\<rparr>) 3 =
      Some (ex_task tiny_pt 3 Ready (Some 1) [] TimerReturn)" by (simp add: ex_idle_def ex_kernel_def)
  show "task_status (ex_task tiny_pt 3 Ready (Some 1) [] TimerReturn) = Ready" by (simp add: ex_task_def)
qed

text \<open>
  C3: The kernel implements the abstract task manager: every execution is a sequence of its
  events, and the tasks taken from the queue are the ones that the events dispatch. The executions are
  those of the kernel's own code: they end at a panic and at a trap that jumps out of the kernel.
\<close>

theorem kernel_refines_task_manager:
  assumes "kernel_inv s" and "kernel_run pf s ds s'"
  shows "\<exists>es. task_steps (tasks_of (snd s)) es (tasks_of (snd s')) \<and> concat (map dispatched es) = ds"
  using kernel_run_refines [OF assms(2,1)] by (elim conjE)

theorem kernel_refines_task_manager_witness:
  "\<exists>es k. kernel_run ex_pf (Idle, ex_idle tiny_mm tiny_pt) [0] (Idle, k) \<and>
    task_steps (tasks_of (ex_idle tiny_mm tiny_pt)) es (tasks_of k) \<and> concat (map dispatched es) = [0]"
  using kernel_refines_task_manager [OF ex_idle_inv ex_idle_run, of tiny_mm tiny_pt] ex_idle_run [of tiny_mm tiny_pt]
  by force

text \<open>
  C8: Tasks are dispatched in the order of the queue: a ready task with \<open>i\<close> tasks in front of it is
  the one taken by the dispatch number \<open>i\<close> (counting from 0), whatever the programs do meanwhile, in
  every execution that has that many dispatches: an execution may end before, at a panic or at a trap
  that jumps out of the kernel, and it may stay in a program if the timer does not interrupt it.
\<close>

theorem ready_tasks_dispatched_in_order:
  assumes "kernel_inv (c, k)" and "kernel_run pf (c, k) ds s'" and "i < length (ready_queue k)" and "i < length ds"
  shows "ds ! i = ready_queue k ! i"
proof -
  have "\<exists>es. task_steps (tasks_of k) es (tasks_of (snd s')) \<and> concat (map dispatched es) = ds"
    using kernel_run_refines [OF assms(2,1)] by simp
  with dispatch_order [of "tasks_of k" _ _ i] assms(3,4) show ?thesis by auto
qed

theorem ready_tasks_dispatched_in_order_witness:
  "\<exists>k. kernel_run ex_pf (Idle, ex_idle tiny_mm tiny_pt) [0] (Idle, k) \<and> [0] ! 0 = ready_queue (ex_idle tiny_mm tiny_pt) ! 0"
  using ready_tasks_dispatched_in_order [OF ex_idle_inv ex_idle_run, of 0 tiny_mm tiny_pt] ex_idle_run [of tiny_mm tiny_pt]
  by (force simp: ex_idle_def)

text \<open>
  C11: No reference to a task dangles: whatever the ready queue, the processor, \<open>INITPROC\<close>, a list of
  children, a parent pointer or a suspended \<open>sys_read\<close> refers to is a live task, and every live
  task but the initial process is a child of exactly the task its parent pointer names.
\<close>

theorem task_references_valid:
  assumes "kernel_inv s" and "kernel_run pf s ds (c, k)"
  shows "(\<forall>r. r \<in> set (arcs k) \<longrightarrow> tcbs k r \<noteq> None) \<and>
    (\<forall>r t. tcbs k r = Some t \<longrightarrow> r \<noteq> initproc k \<longrightarrow>
       (\<exists>p u. parent t = Some p \<and> tcbs k p = Some u \<and> r \<in> set (children u))) \<and>
    (\<forall>p t q u r. tcbs k p = Some t \<longrightarrow> tcbs k q = Some u \<longrightarrow>
       r \<in> set (children t) \<longrightarrow> r \<in> set (children u) \<longrightarrow> p = q)"
proof -
  have inv: "kernel_inv (c, k)" using kernel_run_refines [OF assms(2,1)] by simp
  have ctx: "tcbs k r \<noteq> None" if "tcbs k q = Some t" "r \<in> set (context_arcs t)" for q t r
    using context_arcs_own [OF inv that] that(1) by simp
  have kid: "tcbs k r \<noteq> None" if "tcbs k q = Some t" "r \<in> set (children t)" for q t r
    using child_facts(2) [OF inv that] by auto
  have queue: "tcbs k r \<noteq> None" if "r \<in> set (ready_queue k)" for r
    using queued_ready [OF kernel_invD(1) [OF inv], of r] that by auto
  have cur: "tcbs k r \<noteq> None" if "current k = Some r" for r
    using kernel_invD(1) [OF inv] that unfolding queue_inv_def by (auto dest!: spec [of _ r])
  have ini: "tcbs k (initproc k) \<noteq> None" using family_invD(1) [OF kernel_invD(2) [OF inv]] by auto
  have "tcbs k r \<noteq> None" if "r \<in> set (arcs k)" for r
    using that ctx kid queue cur ini unfolding in_arcs_iff by (elim disjE exE conjE) blast+
  moreover have "\<exists>p u. parent t = Some p \<and> tcbs k p = Some u \<and> r \<in> set (children u)"
    if "tcbs k r = Some t" "r \<noteq> initproc k" for r t
    using family_invD(5) [OF kernel_invD(2) [OF inv], of r "task_of t"] that by auto
  ultimately show ?thesis using only_parent [OF inv] by blast
qed

theorem task_references_valid_witness:
  "\<exists>k t. kernel_run ex_pf (Idle, ex_idle tiny_mm tiny_pt) [0] (Idle, k) \<and> tcbs k 3 = Some t \<and> 3 \<noteq> initproc k \<and>
    (\<exists>p u. parent t = Some p \<and> tcbs k p = Some u \<and> 3 \<in> set (children u))"
proof (intro exI conjI)
  let ?k = "(ex_idle tiny_mm tiny_pt)\<lparr>ready_queue := [3, 1, 0], getchar_calls := 1\<rparr>"
  let ?t = "ex_task tiny_pt 3 Ready (Some 1) [] TimerReturn"
  show "kernel_run ex_pf (Idle, ex_idle tiny_mm tiny_pt) [0] (Idle, ?k)" by (rule ex_idle_run)
  show t: "tcbs ?k 3 = Some ?t" and ne: "3 \<noteq> initproc ?k" by (simp_all add: ex_idle_def ex_kernel_def)
  obtain p u where "parent ?t = Some p \<and> tcbs ?k p = Some u \<and> 3 \<in> set (children u)"
    using task_references_valid [OF ex_idle_inv ex_idle_run, of tiny_mm tiny_pt] t ne by blast
  then show "parent ?t = Some (the (parent ?t))" "tcbs ?k (the (parent ?t)) = Some (the (tcbs ?k (the (parent ?t))))"
    "3 \<in> set (children (the (tcbs ?k (the (parent ?t)))))" by simp_all
qed

text \<open>
  C27: Two live tasks never have the same pid, and only the initial process has pid 0, as long as
  fewer than \<open>2 ^ 64 - 1\<close> tasks were created.
\<close>

theorem live_pids_distinct:
  assumes "kernel_inv s" and "kernel_run pf s ds (c, k)" and "next_tcb k < 2 ^ 64 - 1"
    and "tcbs k r = Some t" and "tcbs k r' = Some t'" and "getpid t = getpid t'"
  shows "r = r' \<and> (getpid t = IDLE_PID \<longleftrightarrow> r = initproc k)"
proof -
  have inv: "kernel_inv (c, k)" using kernel_run_refines [OF assms(2,1)] by simp
  show ?thesis
    using live_pid_eq [OF inv assms(3-6)] live_pid_zero [OF inv assms(3,4)] by simp
qed

theorem live_pids_distinct_witness:
  "\<exists>k t. kernel_run ex_pf (Idle, ex_idle tiny_mm tiny_pt) [0] (Idle, k) \<and> tcbs k 3 = Some t \<and> getpid t \<noteq> IDLE_PID"
proof (intro exI conjI)
  let ?k = "(ex_idle tiny_mm tiny_pt)\<lparr>ready_queue := [3, 1, 0], getchar_calls := 1\<rparr>"
  let ?t = "ex_task tiny_pt 3 Ready (Some 1) [] TimerReturn"
  show "kernel_run ex_pf (Idle, ex_idle tiny_mm tiny_pt) [0] (Idle, ?k)" by (rule ex_idle_run)
  show t: "tcbs ?k 3 = Some ?t" by (simp add: ex_idle_def ex_kernel_def)
  have "next_tcb ?k < 2 ^ 64 - 1" "3 \<noteq> initproc ?k" by (simp_all add: ex_idle_def ex_kernel_def)
  with live_pids_distinct [OF ex_idle_inv ex_idle_run _ t t refl] show "getpid ?t \<noteq> IDLE_PID" by blast
qed

text \<open>
  C10: When \<open>sys_waitpid\<close> takes a dead child out of the list of children, nothing else refers to
  it: the assertion on the reference count holds, so that the child is really freed.
\<close>

theorem reaped_child_unshared:
  assumes "kernel_inv s" and "kernel_run pf s ds (c, k)" and "current k = Some p" and "tcbs k p = Some t"
    and "i < length (children t)" and "tcbs k (children t ! i) = Some u" and "is_zombie u"
  shows "strong_count [p, children t ! i] (children t ! i)
    (k\<lparr>tcbs := (tcbs k)(p \<mapsto> t\<lparr>children := take i (children t) @ drop (Suc i) (children t)\<rparr>)\<rparr>) = 1"
proof -
  have inv: "kernel_inv (c, k)" using kernel_run_refines [OF assms(2,1)] by simp
  have "children t ! i \<noteq> p" using child_facts(3) [OF inv assms(4)] assms(5) by simp
  with reaped_not_in_arcs [OF inv assms(3-7)] show ?thesis by (simp add: strong_count_def)
qed

theorem reaped_child_unshared_witness:
  "strong_count [1, 2] 2 ((ex_kernel tiny_mm tiny_pt)\<lparr>tcbs := (tcbs (ex_kernel tiny_mm tiny_pt))
    (1 \<mapsto> ex_task tiny_pt 1 Running (Some 0) [3] TimerReturn)\<rparr>) = 1"
proof -
  let ?k = "ex_kernel tiny_mm tiny_pt"
  let ?t = "ex_task tiny_pt 1 Running (Some 0) [2, 3] TimerReturn"
  have "current ?k = Some 1" "tcbs ?k 1 = Some ?t" "0 < length (children ?t)"
    "tcbs ?k (children ?t ! 0) = Some (ex_task tiny_pt 2 Zombie (Some 1) [] TimerReturn)"
    "is_zombie (ex_task tiny_pt 2 Zombie (Some 1) [] TimerReturn)"
    by (simp_all add: ex_kernel_def ex_task_def is_zombie_def)
  from reaped_child_unshared [OF ex_kernel_inv run_nothing this] show ?thesis
    by (simp add: ex_task_def)
qed

text \<open>
  C24: \<open>sys_waitpid\<close> answers -1 when no child matches, -2 when matching children exist but none of
  them is dead; otherwise, for a pointer that the caller's page table translates and if the child can be
  freed without a panic, it takes the first dead matching child, stores its exit code where
  the pointer says, frees it and answers its pid.
\<close>

theorem sys_waitpid_result:
  assumes "kernel_inv s" and "kernel_run pf s ds (c, k)" and "current k = Some p" and "tcbs k p = Some t"
  shows "(\<not> list_ex (matching k pid) (children t) \<longrightarrow> sys_waitpid pid ptr k = Inr (Returns (- 1), k)) \<and>
    (list_ex (matching k pid) (children t) \<longrightarrow> \<not> list_ex (\<lambda>x. dead k x \<and> matching k pid x) (children t) \<longrightarrow>
       sys_waitpid pid ptr k = Inr (Returns (- 2), k)) \<and>
    (\<forall>xs x ys u pa k'. children t = xs @ x # ys \<longrightarrow> \<not> list_ex (\<lambda>x. dead k x \<and> matching k pid x) xs \<longrightarrow>
       tcbs k x = Some u \<longrightarrow> is_zombie u \<longrightarrow> pid_matches pid u \<longrightarrow>
       translated_refmut (k_mm k) (get_user_token t) ptr = Inr pa \<longrightarrow>
       drop_tcb x (k\<lparr>tcbs := (tcbs k)(p \<mapsto> t\<lparr>children := xs @ ys\<rparr>),
         k_mm := write_phys (pa_0 pa) (le_enc 4 (unat (exit_code u))) (k_mm k)\<rparr>) = Inr ((), k') \<longrightarrow>
       sys_waitpid pid ptr k = Inr (Returns (getpid u), k'))"
proof -
  have inv: "kernel_inv (c, k)" using kernel_run_refines [OF assms(2,1)] by simp
  note live = children_live [OF inv assms(4)]
  note any = any_child_eq [OF live(1), of pid]
  have start: "sys_waitpid pid ptr k = bnd (any_child pid (children t)) (\<lambda>found. if \<not> found then ret (Returns (- 1)) else
      bnd (find_zombie p pid (children t)) (\<lambda>r. case r of None \<Rightarrow> ret (Returns (- 2)) | Some i \<Rightarrow> reap_child p t i ptr)) k"
    unfolding sys_waitpid_def by (simp add: bnd_def current_tcb_eq [OF assms(3,4)])
  have "sys_waitpid pid ptr k = Inr (Returns (getpid u), k')"
    if x: "children t = xs @ x # ys" "\<not> list_ex (\<lambda>x. dead k x \<and> matching k pid x) xs" "tcbs k x = Some u" "is_zombie u" "pid_matches pid u"
      and ptr: "translated_refmut (k_mm k) (get_user_token t) ptr = Inr pa"
      and drop: "drop_tcb x (k\<lparr>tcbs := (tcbs k)(p \<mapsto> t\<lparr>children := xs @ ys\<rparr>),
         k_mm := write_phys (pa_0 pa) (le_enc 4 (unat (exit_code u))) (k_mm k)\<rparr>) = Inr ((), k')" for xs x ys u pa k'
  proof -
    have m: "matching k pid x" "dead k x" using x by (auto simp: matching_def dead_def)
    then have "list_ex (matching k pid) (children t)" by (simp add: x(1))
    moreover have "find_zombie p pid (children t) k = Inr (Some (length xs), k)"
      by (rule find_zombie_Some [OF live(1,2) x(1,2) m(2,1)])
    moreover have "reap_child p t (length xs) ptr k = Inr (Returns (getpid u), k')"
      using reap_child_eq [OF inv assms(3,4), of "length xs" u ptr pa] x ptr drop by (simp add: bnd_def ret_def)
    ultimately show ?thesis by (simp add: start bnd_def any)
  qed
  moreover have "sys_waitpid pid ptr k = Inr (Returns (- 1), k)" if "\<not> list_ex (matching k pid) (children t)"
    using that by (simp add: start bnd_def any ret_def)
  moreover have "sys_waitpid pid ptr k = Inr (Returns (- 2), k)"
    if "list_ex (matching k pid) (children t)" "\<not> list_ex (\<lambda>x. dead k x \<and> matching k pid x) (children t)"
    using that find_zombie_None [OF live(1,2) that(2)] by (simp add: start bnd_def any ret_def)
  ultimately show ?thesis by blast
qed

lemma ex_ptr:
  assumes "unat (ppn_0 (root_ppn pt)) < 2 ^ 44"
    and "PageTable_translate m pt (VirtPageNum 0x10) = Some (PageTableEntry_new (PhysPageNum 0x50) (PTE_R OR PTE_V))"
  shows "translated_refmut m (PageTable_token pt) 0x10000 = Inr (PhysAddr 0x50000)"
proof -
  have va: "VirtAddr_from_usize 0x10000 = VirtAddr 0x10000" "VirtAddr_floor (VirtAddr 0x10000) = VirtPageNum 0x10"
    by code_simp+
  obtain p i where p: "find_pte m pt (VirtPageNum 0x10) = Some (p, i)"
      "get_pte m p i = PageTableEntry_new (PhysPageNum 0x50) (PTE_R OR PTE_V)"
    using assms(2) by (auto simp: PageTable_translate_def)
  have "map_option (\<lambda>pa. unat (pa_0 pa)) (PageTable_translate_va m (PageTable_from_token (PageTable_token pt)) (VirtAddr 0x10000))
      = Some 0x50000"
    using unat_translate_va [of m "PageTable_from_token (PageTable_token pt)" "VirtAddr 0x10000" p i] p
    by (simp add: find_pte_token [OF assms(1)] va pte_ppn_new)
  then obtain pa where pa: "PageTable_translate_va m (PageTable_from_token (PageTable_token pt)) (VirtAddr 0x10000) = Some pa"
      "unat (pa_0 pa) = 0x50000" by auto
  then have "pa = PhysAddr 0x50000" by (simp add: word_unat_eq_iff phys_addr.expand)
  with pa(1) show ?thesis by (simp add: translated_refmut_def va PhysAddr_get_mut_def)
qed

lemma ex_drop:
  assumes "tcbs k 2 = Some (ex_task pt 2 Zombie (Some 1) [] TimerReturn)" and "areas (kernel_space k) = []"
    and "pids k = \<lparr>pid_current = 4, pid_recycled = []\<rparr>"
  shows "drop_tcb 2 k = Inr ((), k\<lparr>pids := \<lparr>pid_current = 4, pid_recycled = [2]\<rparr>, tcbs := (tcbs k)(2 := None)\<rparr>)"
proof -
  have "VirtAddr_page_offset (VirtAddr_from_usize (fst (kernel_stack_position 2))) = 0" by code_simp
  then have "KernelStack_drop 2 k' = Inr ((), k')" if "areas (kernel_space k') = []" for k'
    using that by (simp add: KernelStack_drop_def VirtPageNum_from_VirtAddr_def on_kernel_space_def on_mm_def on_def
        remove_area_with_start_vpn_def action_defs case_prod_beta)
  moreover have "on_pids (PidHandle_drop (PidHandle 2)) k = Inr ((), k\<lparr>pids := \<lparr>pid_current = 4, pid_recycled = [2]\<rparr>\<rparr>)"
    using assms(3) by (simp add: on_pids_def on_def PidHandle_drop_def PidAllocator_dealloc_def action_defs)
  moreover have "on_mm (MemorySet_drop \<lparr>ms_page_table = pt\<lparr>pt_frames := []\<rparr>, areas = []\<rparr>) k' = Inr ((), k')" for k'
    by (simp add: on_mm_def on_def MemorySet_drop_def action_defs)
  ultimately show ?thesis
    using assms(1,2) by (simp add: drop_tcb_def get_tcb_def action_defs ex_task_def)
qed

theorem sys_waitpid_result_witness:
  "\<exists>m pt k'. sys_waitpid 9 0x10000 (ex_kernel m pt) = Inr (Returns (- 1), ex_kernel m pt) \<and>
    sys_waitpid 3 0x10000 (ex_kernel m pt) = Inr (Returns (- 2), ex_kernel m pt) \<and>
    sys_waitpid (- 1) 0x10000 (ex_kernel m pt) = Inr (Returns 2, k') \<and> tcbs k' 2 = None \<and>
    memory (k_mm k') 0x50 ! 0 = 7"
proof (rule tiny_mapped)
  fix pt m
  assume ok: "memory_ok m" "unat (ppn_0 (root_ppn pt)) < 2 ^ 44"
    and tr: "PageTable_translate m pt (VirtPageNum 0x10) = Some (PageTableEntry_new (PhysPageNum 0x50) (PTE_R OR PTE_V))"
  let ?k = "ex_kernel m pt" and ?t = "ex_task pt 1 Running (Some 0) [2, 3] TimerReturn"
  have k: "current ?k = Some 1" "tcbs ?k 1 = Some ?t" by (simp_all add: ex_kernel_def)
  note result = sys_waitpid_result [OF ex_kernel_inv run_nothing k, where ptr = "0x10000"]
  let ?u = "ex_task pt 2 Zombie (Some 1) [] TimerReturn"
  have kids: "children ?t = [2, 3]" "tcbs ?k 2 = Some ?u" "tcbs ?k 3 = Some (ex_task pt 3 Ready (Some 1) [] TimerReturn)"
    by (simp_all add: ex_kernel_def ex_task_def)
  have none: "sys_waitpid 9 0x10000 ?k = Inr (Returns (- 1), ?k)"
    using result [where pid = 9, THEN conjunct1] kids by (simp add: matching_def pid_matches_def getpid_def ex_task_def)
  have alive: "sys_waitpid 3 0x10000 ?k = Inr (Returns (- 2), ?k)"
    using result [where pid = 3, THEN conjunct2, THEN conjunct1] kids
    by (simp add: matching_def dead_def is_zombie_def pid_matches_def getpid_def ex_task_def)
  let ?k1 = "?k\<lparr>tcbs := (tcbs ?k)(1 \<mapsto> ?t\<lparr>children := [] @ [3]\<rparr>), k_mm := write_phys (pa_0 (PhysAddr 0x50000)) (le_enc 4 (unat (exit_code ?u))) (k_mm ?k)\<rparr>"
  let ?k' = "?k1\<lparr>pids := \<lparr>pid_current = 4, pid_recycled = [2]\<rparr>, tcbs := (tcbs ?k1)(2 := None)\<rparr>"
  have "translated_refmut (k_mm ?k) (get_user_token ?t) 0x10000 = Inr (PhysAddr 0x50000)"
    using ex_ptr [OF ok(2) tr] by (simp add: ex_kernel_def ex_task_def get_user_token_def MemorySet_token_def PageTable_token_def)
  moreover have "drop_tcb 2 ?k1 = Inr ((), ?k')"
    by (rule ex_drop) (simp_all add: ex_kernel_def)
  ultimately have "sys_waitpid (- 1) 0x10000 ?k = Inr (Returns (getpid ?u), ?k')"
    by (intro result [where pid = "- 1", THEN conjunct2, THEN conjunct2, rule_format, of "[]" 2 "[3]" ?u "PhysAddr 0x50000"])
      (use kids in \<open>simp_all add: is_zombie_def pid_matches_def ex_task_def\<close>)
  then have reap: "sys_waitpid (- 1) 0x10000 ?k = Inr (Returns 2, ?k')" by (simp add: getpid_def ex_task_def)
  have "length (memory m 0x50) = 4096" using ok(1) by (simp add: memory_ok_def)
  then have "memory (write_phys 0x50000 [7, 0, 0, 0] m) 0x50 ! 0 = 7"
    by (simp add: write_u8_def PAGE_SIZE_def PhysAddr_page_offset_def)
  moreover have "le_enc 4 7 = [7, 0, 0, 0]" by code_simp
  ultimately have "memory (k_mm ?k') 0x50 ! 0 = 7" by (simp add: ex_kernel_def ex_task_def)
  moreover have "tcbs ?k' 2 = None" by simp
  ultimately show ?thesis using none alive reap by blast
qed



section \<open>File descriptors\<close>

lemma find_none_Some: "find_none xs = Some i \<Longrightarrow> i < length xs \<and> xs ! i = None \<and> (\<forall>j < i. xs ! j \<noteq> None)"
proof (induction xs arbitrary: i)
  case (Cons x xs)
  show ?case
  proof (cases "x = None")
    case True
    with Cons.prems show ?thesis by simp
  next
    case False
    with Cons.prems obtain j where j: "find_none xs = Some j" "i = Suc j" by auto
    with Cons.IH [OF j(1)] False show ?thesis by (auto simp: nth_Cons split: nat.split)
  qed
qed simp

lemma find_none_None: "find_none xs = None \<Longrightarrow> i < length xs \<Longrightarrow> xs ! i \<noteq> None"
  by (induction xs arbitrary: i) (auto simp: nth_Cons split: if_splits nat.split)

text \<open>
  A new descriptor is the lowest one that is not in use: it is free in the new table, all
  lower ones are in use, no other entry changes, and the table grows by one entry exactly
  when it was full.
\<close>

theorem alloc_fd_lowest:
  assumes "alloc_fd t = (fd, t')"
  shows "fd < length (fd_table t') \<and> fd_table t' ! fd = None \<and> (\<forall>i < fd. fd_table t ! i \<noteq> None) \<and>
    take (length (fd_table t)) (fd_table t') = fd_table t \<and>
    length (fd_table t') = length (fd_table t) + (if fd < length (fd_table t) then 0 else 1)"
proof (cases "find_none (fd_table t)")
  case None
  with assms have "fd = length (fd_table t)" "fd_table t' = fd_table t @ [None]" by (auto simp: alloc_fd_def Let_def)
  with find_none_None [OF None] show ?thesis by simp
next
  case (Some i)
  with assms find_none_Some [OF Some] show ?thesis by (simp add: alloc_fd_def)
qed

theorem alloc_fd_lowest_witness:
  "\<exists>t'. alloc_fd (ex_task tiny_pt 1 Running (Some 0) [] TimerReturn) = (2, t') \<and> fd_table t' ! 2 = None"
proof -
  have "alloc_fd (ex_task tiny_pt 1 Running (Some 0) [] TimerReturn) = (2, ex_task tiny_pt 1 Running (Some 0) [] TimerReturn)"
    by (simp add: alloc_fd_def ex_task_def)
  with alloc_fd_lowest [OF this] show ?thesis by blast
qed

text \<open>
  C38: Reading, writing or closing a descriptor that is out of range or not open answers -1 and
  changes nothing.
\<close>

theorem bad_descriptor_refused:
  assumes "current k = Some r" and "tcbs k r = Some t"
    and "length (fd_table t) \<le> unat fd \<or> fd_table t ! unat fd = None"
  shows "sys_read pf fd buf len k = Inr (Returns (- 1), k) \<and> sys_write fd buf len k = Inr (Returns (- 1), k) \<and>
    sys_close fd k = Inr (Returns (- 1), k)"
  using assms
  by (auto simp: sys_read_def sys_write_def sys_close_def current_user_token_def current_tcb_def current_task_def
      get_tcb_def action_defs)

theorem bad_descriptor_refused_witness:
  "sys_read ex_pf 2 0 1 (ex_kernel tiny_mm tiny_pt) = Inr (Returns (- 1), ex_kernel tiny_mm tiny_pt) \<and>
   sys_close 9 (ex_kernel tiny_mm tiny_pt) = Inr (Returns (- 1), ex_kernel tiny_mm tiny_pt)"
proof -
  let ?k = "ex_kernel tiny_mm tiny_pt" and ?t = "ex_task tiny_pt 1 Running (Some 0) [2, 3] TimerReturn"
  have "current ?k = Some 1" "tcbs ?k 1 = Some ?t" by (simp_all add: ex_kernel_def)
  from bad_descriptor_refused [OF this, of 2 ex_pf 0 1] bad_descriptor_refused [OF this, of 9] show ?thesis
    by (simp add: ex_task_def)
qed

end
