(* ===== verification/Traps.thy ===== *)
theory Traps
  imports Processes
begin

text \<open>
  Saved registers: what \<open>__alltraps\<close> stores in the trap context of a task is what \<open>__restore\<close> loads
  when the task is switched to again (\<open>src/os/src/trap/trap.S\<close>, \<open>src/os/src/trap/mod.rs\<close>).
\<close>

section \<open>Words of a trap context\<close>

lemma tc_get_set:
  assumes "memory_ok m" and "i < 512" "j < 512"
  shows "tc_get (tc_set p j v m) p i = (if i = j then v else tc_get m p i)"
proof -
  have len: "length (get_bytes_array m p) = 4096" using assms(1) by (simp add: memory_ok_def get_bytes_array_def)
  have page: "get_bytes_array (tc_set p j v m) p = set_le 8 (get_bytes_array m p) j (unat v)"
    by (simp add: tc_set_def get_bytes_array_def set_bytes_array_def)
  have "unat v < 256 ^ 8" using unsigned_less [of v] by simp
  with assms len show ?thesis
    by (simp add: tc_get_def page get_set_le_other)
qed

lemma tc_set_only_pages: "memory_ok m \<Longrightarrow> j < 512 \<Longrightarrow> only_pages {p} m (tc_set p j v m)"
  unfolding tc_set_def by (rule only_pages_set_bytes) (simp_all add: memory_ok_def get_bytes_array_def)

lemma tc_set_ok: "memory_ok m \<Longrightarrow> j < 512 \<Longrightarrow> memory_ok (tc_set p j v m)"
  using tc_set_only_pages [of m j p v] by (simp add: only_pages_def)

definition save_words :: "phys_page_num \<Rightarrow> usize list \<Rightarrow> nat list \<Rightarrow> mm \<Rightarrow> mm" where
  "save_words p x ns m = fold (\<lambda>n. tc_set p n (x ! n)) ns m"

lemma for_each_save_gp: "for_each (save_gp p x) ns k = Inr ((), k\<lparr>k_mm := save_words p x ns (k_mm k)\<rparr>)"
  by (induction ns arbitrary: k) (simp_all add: save_words_def save_gp_def on_mm_def on_def action_defs)

lemma save_words:
  assumes "memory_ok m" and "list_all (\<lambda>n. n < 512) ns"
  shows "memory_ok (save_words p x ns m)" "only_pages {p} m (save_words p x ns m)"
    "i < 512 \<Longrightarrow> tc_get (save_words p x ns m) p i = (if i \<in> set ns then x ! i else tc_get m p i)"
proof -
  have "memory_ok (save_words p x ns m) \<and> only_pages {p} m (save_words p x ns m) \<and>
    (i < 512 \<longrightarrow> tc_get (save_words p x ns m) p i = (if i \<in> set ns then x ! i else tc_get m p i))"
    using assms
  proof (induction ns arbitrary: m)
    case Nil
    then show ?case by (simp add: save_words_def)
  next
    case (Cons n ns)
    have IH: "memory_ok (save_words p x ns (tc_set p n (x ! n) m))" "only_pages {p} (tc_set p n (x ! n) m) (save_words p x ns (tc_set p n (x ! n) m))"
      "i < 512 \<longrightarrow> tc_get (save_words p x ns (tc_set p n (x ! n) m)) p i = (if i \<in> set ns then x ! i else tc_get (tc_set p n (x ! n) m) p i)"
      using Cons.IH [of "tc_set p n (x ! n) m"] Cons.prems tc_set_ok [of m n p "x ! n"] by simp_all
    have "save_words p x (n # ns) m = save_words p x ns (tc_set p n (x ! n) m)" by (simp add: save_words_def)
    with IH Cons.prems only_pages_trans [OF tc_set_only_pages IH(2)] show ?case by (simp add: tc_get_set)
  qed
  then show "memory_ok (save_words p x ns m)" "only_pages {p} m (save_words p x ns m)"
    "i < 512 \<Longrightarrow> tc_get (save_words p x ns m) p i = (if i \<in> set ns then x ! i else tc_get m p i)" by blast+
qed

section \<open>Saving and restoring\<close>

definition TRAP_CONTEXT_VPN :: virt_page_num where
  "TRAP_CONTEXT_VPN = VirtAddr_floor (VirtAddr_from_usize TRAP_CONTEXT)"

lemma trap_cx_frame_eq:
  assumes "satp k = PageTable_token pt" and "unat (ppn_0 (root_ppn pt)) < 2 ^ 44" and "pt_abs (k_mm k) pt TRAP_CONTEXT_VPN = Some pte"
  shows "trap_cx_frame k = Inr (pte_ppn pte, k)"
proof -
  have "PageTable_translate (k_mm k) pt TRAP_CONTEXT_VPN = Some pte" "is_valid pte"
    using assms(3) by (auto simp: pt_abs_def split: option.splits if_splits)
  then have "PageTable_translate (k_mm k) (PageTable_from_token (satp k)) TRAP_CONTEXT_VPN = Some pte"
    by (simp add: PageTable_translate_def assms(1) find_pte_token [OF assms(2)])
  with \<open>is_valid pte\<close> show ?thesis by (simp add: trap_cx_frame_def TRAP_CONTEXT_VPN_def action_defs)
qed

text \<open>The memory after \<open>__alltraps\<close>.\<close>

definition saved_mm :: "phys_page_num \<Rightarrow> user_regs \<Rightarrow> mm \<Rightarrow> mm" where
  "saved_mm p rs m =
     tc_set p 2 (u_x rs ! 2) (tc_set p 33 (u_sepc rs) (tc_set p 32 (u_sstatus rs) (save_words p (u_x rs) saved_gp m)))"

lemma in_saved_gp: "i \<in> set saved_gp \<longleftrightarrow> i = 1 \<or> i = 3 \<or> 5 \<le> i \<and> i < 32"
  unfolding saved_gp_def set_append set_upt by auto

lemma saved_mm:
  assumes "memory_ok m"
  shows "memory_ok (saved_mm p rs m)" "only_pages {p} m (saved_mm p rs m)"
    "\<And>i. 0 < i \<Longrightarrow> i < 32 \<Longrightarrow> i \<noteq> 4 \<Longrightarrow> tc_get (saved_mm p rs m) p i = u_x rs ! i"
    "tc_get (saved_mm p rs m) p 32 = u_sstatus rs" "tc_get (saved_mm p rs m) p 33 = u_sepc rs"
    "\<And>i. 34 \<le> i \<Longrightarrow> i < 512 \<Longrightarrow> tc_get (saved_mm p rs m) p i = tc_get m p i"
proof -
  let ?m1 = "save_words p (u_x rs) saved_gp m"
  let ?m2 = "tc_set p 32 (u_sstatus rs) ?m1" let ?m3 = "tc_set p 33 (u_sepc rs) ?m2"
  have ns: "list_all (\<lambda>n. n < 512) saved_gp" by (auto simp: list_all_iff in_saved_gp)
  note s = save_words [OF assms ns, where p = p and x = "u_x rs"]
  have ok: "memory_ok ?m2" "memory_ok ?m3" using s(1) by (simp_all add: tc_set_ok)
  show "memory_ok (saved_mm p rs m)" using ok by (simp add: saved_mm_def tc_set_ok)
  have "only_pages {p} ?m1 ?m2" using tc_set_only_pages [OF s(1), of 32] by simp
  moreover have "only_pages {p} ?m2 ?m3" using tc_set_only_pages [OF ok(1), of 33] by simp
  moreover have "only_pages {p} ?m3 (saved_mm p rs m)" using tc_set_only_pages [OF ok(2), of 2] by (simp add: saved_mm_def)
  ultimately show "only_pages {p} m (saved_mm p rs m)" using s(2) only_pages_trans by blast
  have get: "tc_get (saved_mm p rs m) p i = (if i = 2 then u_x rs ! 2 else if i = 33 then u_sepc rs else if i = 32 then u_sstatus rs
      else if i \<in> set saved_gp then u_x rs ! i else tc_get m p i)" if "i < 512" for i
    using that s(1,3) ok by (simp add: saved_mm_def tc_get_set)
  show "tc_get (saved_mm p rs m) p i = u_x rs ! i" if "0 < i" "i < 32" "i \<noteq> 4" for i
    using that by (auto simp: get in_saved_gp)
  show "tc_get (saved_mm p rs m) p 32 = u_sstatus rs" "tc_get (saved_mm p rs m) p 33 = u_sepc rs" by (simp_all add: get)
  show "tc_get (saved_mm p rs m) p i = tc_get m p i" if "34 \<le> i" "i < 512" for i
    using that by (auto simp: get in_saved_gp)
qed

lemma alltraps_eq:
  assumes "memory_ok (k_mm k)" and "satp k = PageTable_token pt" and "unat (ppn_0 (root_ppn pt)) < 2 ^ 44"
    and "pt_abs (k_mm k) pt TRAP_CONTEXT_VPN = Some pte"
  shows "alltraps rs k = Inr (tc_get (k_mm k) (pte_ppn pte) 36,
    k\<lparr>tp := u_x rs ! 4, k_mm := saved_mm (pte_ppn pte) rs (k_mm k), satp := tc_get (k_mm k) (pte_ppn pte) 34\<rparr>)"
proof -
  have "trap_cx_frame (k\<lparr>tp := u_x rs ! 4\<rparr>) = Inr (pte_ppn pte, k\<lparr>tp := u_x rs ! 4\<rparr>)"
    by (rule trap_cx_frame_eq [where pt = pt]) (use assms in simp_all)
  then show ?thesis
    using saved_mm(6) [OF assms(1), of 34] saved_mm(6) [OF assms(1), of 36]
    by (simp add: alltraps_def for_each_save_gp save_gp_def on_mm_def on_def action_defs saved_mm_def)
qed

lemma restore_eq:
  assumes "unat (ppn_0 (root_ppn pt)) < 2 ^ 44" and "pt_abs (k_mm k) pt TRAP_CONTEXT_VPN = Some pte"
    and "get_bytes_array (k_mm k) (pte_ppn pte) = get_bytes_array (saved_mm (pte_ppn pte) rs m) (pte_ppn pte)" and "memory_ok m"
    and "tp k = u_x rs ! 4" and "length (u_x rs) = 32" and "u_x rs ! 0 = 0"
  shows "restore (PageTable_token pt) k = Inr (rs, k\<lparr>satp := PageTable_token pt\<rparr>)"
proof -
  let ?k = "k\<lparr>satp := PageTable_token pt\<rparr>"
  have frame: "trap_cx_frame ?k = Inr (pte_ppn pte, ?k)"
    by (rule trap_cx_frame_eq [where pt = pt]) (use assms(1,2) in simp_all)
  have get: "tc_get (k_mm k) (pte_ppn pte) i = tc_get (saved_mm (pte_ppn pte) rs m) (pte_ppn pte) i" for i
    using assms(3) by (simp add: tc_get_def)
  have "load_gp ?k (pte_ppn pte) i = u_x rs ! i" if "i < 32" for i
    using that saved_mm(3) [OF assms(4), of i] assms(5,7) by (auto simp: load_gp_def get)
  then have "map (load_gp ?k (pte_ppn pte)) [0..<32] = u_x rs"
    using assms(6) by (intro nth_equalityI) simp_all
  with frame saved_mm(4,5) [OF assms(4)] show ?thesis
    by (simp add: restore_def action_defs get)
qed

lemma get_user_token_pt: "get_user_token t = PageTable_token (ms_page_table (memory_set t))"
  by (simp add: get_user_token_def MemorySet_token_def)

lemma trap_return_eq:
  assumes "current k = Some r" and "tcbs k r = Some t" and "pt = ms_page_table (memory_set t)"
    and "restore (PageTable_token pt) (k\<lparr>stvec := TRAMPOLINE\<rparr>) = Inr (rs, k')"
  shows "trap_return k = Inr (User rs, k')"
  using assms
  by (simp add: trap_return_def set_user_trap_entry_def current_user_token_def current_tcb_eq get_user_token_pt action_defs)

section \<open>A system call from the trap to the return\<close>

text \<open>
  \<open>trap_ready l k r t pte\<close>: the task \<open>r\<close> runs in its address space, which maps its trap context
  to the page \<open>pte\<close> refers to.
\<close>

definition trap_ready :: "nat \<Rightarrow> kernel \<Rightarrow> nat \<Rightarrow> tcb \<Rightarrow> page_table_entry \<Rightarrow> bool" where
  "trap_ready l k r t pte \<longleftrightarrow> (let pt = ms_page_table (memory_set t) in
     pt_wf l (k_mm k) pt \<and> current k = Some r \<and> tcbs k r = Some t \<and> unat (ppn_0 (root_ppn pt)) < 2 ^ 44 \<and>
     pt_abs (k_mm k) pt TRAP_CONTEXT_VPN = Some pte \<and> pte_ppn pte = trap_cx_ppn t \<and> pte_ppn pte \<notin> set (pt_frames pt))"

text \<open>The kernel when it calls \<open>syscall\<close>: the registers are saved, and the saved program counter is advanced.\<close>

definition at_dispatch :: "platform \<Rightarrow> user_regs \<Rightarrow> tcb \<Rightarrow> kernel \<Rightarrow> kernel" where
  "at_dispatch pf rs t k = (let p = trap_cx_ppn t in
     k\<lparr>tp := u_x rs ! 4, satp := tc_get (k_mm k) p 34, stvec := trap_from_kernel_addr pf,
       k_mm := tc_set p TC_SEPC (u_sepc rs + 4) (saved_mm p rs (k_mm k))\<rparr>)"

lemma at_dispatch_mm:
  assumes "memory_ok (k_mm k)"
  shows "memory_ok (k_mm (at_dispatch pf rs t k))" "only_pages {trap_cx_ppn t} (k_mm k) (k_mm (at_dispatch pf rs t k))"
    "\<And>i. i < 512 \<Longrightarrow> tc_get (k_mm (at_dispatch pf rs t k)) (trap_cx_ppn t) i =
      (if i = 33 then u_sepc rs + 4 else tc_get (saved_mm (trap_cx_ppn t) rs (k_mm k)) (trap_cx_ppn t) i)"
proof -
  note s = saved_mm [OF assms, where p = "trap_cx_ppn t" and rs = rs]
  show "memory_ok (k_mm (at_dispatch pf rs t k))" using s(1) by (simp add: at_dispatch_def Let_def TC_SEPC_def tc_set_ok)
  have "only_pages {trap_cx_ppn t} (saved_mm (trap_cx_ppn t) rs (k_mm k)) (k_mm (at_dispatch pf rs t k))"
    using s(1) by (simp add: at_dispatch_def Let_def TC_SEPC_def tc_set_only_pages)
  with s(2) show "only_pages {trap_cx_ppn t} (k_mm k) (k_mm (at_dispatch pf rs t k))" by (rule only_pages_trans)
  show "tc_get (k_mm (at_dispatch pf rs t k)) (trap_cx_ppn t) i =
      (if i = 33 then u_sepc rs + 4 else tc_get (saved_mm (trap_cx_ppn t) rs (k_mm k)) (trap_cx_ppn t) i)" if "i < 512" for i
    using s(1) that by (simp add: at_dispatch_def Let_def TC_SEPC_def tc_get_set)
qed

lemma trap_word_kept:
  assumes "memory_ok (k_mm k)"
  shows "tc_get (tc_set (trap_cx_ppn t) 10 v (k_mm (at_dispatch pf rs t k))) (trap_cx_ppn t) 36 = tc_get (k_mm k) (trap_cx_ppn t) 36"
  using at_dispatch_mm(1,3) [OF assms] saved_mm(6) [OF assms] by (simp add: tc_get_set)

lemma trap_ready_only_pages:
  assumes "trap_ready l k r t pte" and "only_pages {trap_cx_ppn t} (k_mm k) (k_mm k')" and "current k' = current k" and "tcbs k' r = tcbs k r"
  shows "trap_ready l k' r t pte"
proof -
  have "unat (ppn_0 (trap_cx_ppn t)) < 2 ^ 44"
    using assms(1) unat_pte_ppn(1) [of pte] by (simp add: trap_ready_def Let_def del: unat_pte_ppn)
  then have "pt_wf l (k_mm k') (ms_page_table (memory_set t))"
      "pt_abs (k_mm k') (ms_page_table (memory_set t)) = pt_abs (k_mm k) (ms_page_table (memory_set t))"
    using assms(1) pt_wf_only_pages [OF _ assms(2), of l "ms_page_table (memory_set t)"] by (auto simp: trap_ready_def Let_def)
  with assms show ?thesis by (auto simp: trap_ready_def Let_def)
qed

text \<open>The return to the program, after the result has been stored.\<close>

lemma syscall_return_eq:
  assumes "trap_ready l k r t pte" and "memory_ok m" and "length (u_x rs) = 32" and "u_x rs ! 0 = 0" and "tp k = u_x rs ! 4"
    and "\<And>i. i < 34 \<Longrightarrow> tc_get (k_mm k) (trap_cx_ppn t) i =
      (if i = 33 then u_sepc rs + 4 else tc_get (saved_mm (trap_cx_ppn t) rs m) (trap_cx_ppn t) i)"
  shows "syscall_return (Returns v) k = Inr (User (rs\<lparr>u_x := (u_x rs)[10 := v], u_sepc := u_sepc rs + 4\<rparr>),
    k\<lparr>k_mm := tc_set (trap_cx_ppn t) 10 v (k_mm k), stvec := TRAMPOLINE,
      satp := PageTable_token (ms_page_table (memory_set t))\<rparr>)"
proof -
  let ?p = "trap_cx_ppn t" and ?pt = "ms_page_table (memory_set t)"
  let ?k3 = "k\<lparr>k_mm := tc_set ?p 10 v (k_mm k)\<rparr>" and ?rs = "rs\<lparr>u_x := (u_x rs)[10 := v], u_sepc := u_sepc rs + 4\<rparr>"
  let ?k4 = "?k3\<lparr>stvec := TRAMPOLINE, satp := PageTable_token ?pt\<rparr>"
  have ok: "memory_ok (k_mm k)" using assms(1) by (simp add: trap_ready_def Let_def pt_wf_def)
  note s = saved_mm [OF assms(2), where p = ?p and rs = rs]
  have "trap_ready l ?k3 r t pte"
    by (rule trap_ready_only_pages [OF assms(1)]) (use tc_set_only_pages [OF ok, of 10] in simp_all)
  then have r3: "pt_abs (k_mm ?k3) ?pt TRAP_CONTEXT_VPN = Some pte" "pte_ppn pte = ?p" "unat (ppn_0 (root_ppn ?pt)) < 2 ^ 44"
    "current k = Some r" "tcbs k r = Some t" by (simp_all add: trap_ready_def Let_def)
  have get3: "tc_get (k_mm ?k4) ?p i = (if i = 10 then v else if i = 33 then u_sepc rs + 4 else tc_get (saved_mm ?p rs m) ?p i)"
    if "i < 34" for i using that assms(6) [OF that] ok by (simp add: tc_get_set)
  have "trap_cx_frame ?k4 = Inr (?p, ?k4)" using trap_cx_frame_eq [of ?k4 ?pt pte] r3 by simp
  moreover have "map (load_gp ?k4 ?p) [0..<32] = (u_x rs)[10 := v]"
  proof (rule nth_equalityI)
    fix i
    assume "i < length (map (load_gp ?k4 ?p) [0..<32])"
    then have "i < 32" by simp
    then show "map (load_gp ?k4 ?p) [0..<32] ! i = (u_x rs)[10 := v] ! i"
      using assms(3,4,5) s(3) [of i] get3 [of i] by (auto simp: load_gp_def nth_list_update)
  qed (simp add: assms(3))
  ultimately have "restore (PageTable_token ?pt) (?k3\<lparr>stvec := TRAMPOLINE\<rparr>) = Inr (?rs, ?k4)"
    using s(4) get3 [of 32] get3 [of 33] by (simp add: restore_def action_defs)
  then have "trap_return ?k3 = Inr (User ?rs, ?k4)"
    by (intro trap_return_eq [where r = r and t = t and pt = ?pt]) (use r3 in simp_all)
  then show ?thesis
    using r3(4,5) by (simp add: syscall_return_def current_trap_cx_def current_tcb_def current_task_def get_tcb_def on_mm_def on_def action_defs)
qed

text \<open>
  A system call that returns, and that leaves the task, its trap context and \<open>tp\<close> as they are at the
  dispatch.
\<close>

lemma system_call_returns:
  assumes "trap_ready l k r t pte" and "satp k = PageTable_token (ms_page_table (memory_set t))"
    and "length (u_x rs) = 32" and "u_x rs ! 0 = 0"
    and "syscall pf (u_x rs ! 17) (u_x rs ! 10, u_x rs ! 11, u_x rs ! 12) (at_dispatch pf rs t k) = Inr (Returns v, k2)"
    and "trap_ready l k2 r t' pte" and "ms_page_table (memory_set t') = ms_page_table (memory_set t)" and "tp k2 = u_x rs ! 4"
    and "get_bytes_array (k_mm k2) (trap_cx_ppn t) = get_bytes_array (k_mm (at_dispatch pf rs t k)) (trap_cx_ppn t)"
  shows "\<exists>k1 k'. alltraps rs k = Inr (tc_get (k_mm k) (trap_cx_ppn t) 36, k1) \<and> trap_handler pf UserEnvCall k1 =
      Inr (User (rs\<lparr>u_x := (u_x rs)[10 := v], u_sepc := u_sepc rs + 4\<rparr>), k') \<and>
    k' = k2\<lparr>k_mm := tc_set (trap_cx_ppn t) 10 v (k_mm k2), stvec := TRAMPOLINE, satp := satp k\<rparr>"
proof -
  let ?p = "trap_cx_ppn t"
  have r: "memory_ok (k_mm k)" "pt_abs (k_mm k) (ms_page_table (memory_set t)) TRAP_CONTEXT_VPN = Some pte" "pte_ppn pte = ?p"
      "unat (ppn_0 (root_ppn (ms_page_table (memory_set t)))) < 2 ^ 44" "current k = Some r" "tcbs k r = Some t"
    using assms(1) by (simp_all add: trap_ready_def Let_def pt_wf_def)
  have t': "trap_cx_ppn t' = ?p" using assms(6) r(3) by (simp add: trap_ready_def Let_def)
  note s = saved_mm [OF r(1), where p = ?p and rs = rs] and d = at_dispatch_mm [OF r(1), where pf = pf and rs = rs and t = t]
  let ?k1 = "k\<lparr>tp := u_x rs ! 4, k_mm := saved_mm ?p rs (k_mm k), satp := tc_get (k_mm k) ?p 34\<rparr>"
  have save: "alltraps rs k = Inr (tc_get (k_mm k) ?p 36, ?k1)"
    using alltraps_eq [OF r(1) assms(2) r(4) r(2), of rs] r(3) by simp
  have at: "?k1\<lparr>stvec := trap_from_kernel_addr pf, k_mm := tc_set ?p TC_SEPC (u_sepc rs + 4) (saved_mm ?p rs (k_mm k))\<rparr> =
      at_dispatch pf rs t k" by (simp add: at_dispatch_def Let_def)
  have args: "tc_get (k_mm (at_dispatch pf rs t k)) ?p i = u_x rs ! i" if "i \<in> {10, 11, 12, 17}" for i
    using that s(3) [of i] d(3) [of i] by auto
  have "syscall_return (Returns v) k2 = Inr (User (rs\<lparr>u_x := (u_x rs)[10 := v], u_sepc := u_sepc rs + 4\<rparr>),
      k2\<lparr>k_mm := tc_set (trap_cx_ppn t') 10 v (k_mm k2), stvec := TRAMPOLINE,
        satp := PageTable_token (ms_page_table (memory_set t'))\<rparr>)"
  proof (rule syscall_return_eq [OF assms(6) r(1) assms(3,4,8)])
    fix i :: nat
    assume "i < 34"
    then show "tc_get (k_mm k2) (trap_cx_ppn t') i = (if i = 33 then u_sepc rs + 4
        else tc_get (saved_mm (trap_cx_ppn t') rs (k_mm k)) (trap_cx_ppn t') i)"
      using d(3) [of i] assms(9) by (simp add: t' tc_get_def)
  qed
  moreover have "trap_handler pf UserEnvCall ?k1 =
      bnd (syscall pf (u_x rs ! 17) (u_x rs ! 10, u_x rs ! 11, u_x rs ! 12)) syscall_return (at_dispatch pf rs t k)"
    using r(5,6) s(5) args [of 10] args [of 11] args [of 12] args [of 17]
    by (simp add: trap_handler_def set_kernel_trap_entry_def current_trap_cx_def current_tcb_def current_task_def get_tcb_def
        on_mm_def on_def action_defs TC_SEPC_def flip: at)
  ultimately show ?thesis using save assms(2,5,7) t' by (simp add: bnd_def)
qed

section \<open>Properties\<close>

text \<open>
  C9: A program that the timer interrupts goes on as if nothing had happened: \<open>__alltraps\<close> jumps to
  the address that the trap context holds for the trap handler, the handler queues the task at the end, changes no memory but its trap context and returns to the
  idle control flow, and whenever the task
  comes to the front of the queue with its task control block and its trap context page as they were
  left, it is switched to and returns to user mode in its own address space with the same general
  registers, status and program counter, and with the trap vector set for the next trap, provided
  \<open>tp\<close>, which is not saved, still has its value.
\<close>

theorem preempted_task_resumes:
  assumes "memory_ok (k_mm k)" and "current k = Some r" and "tcbs k r = Some t" and "pt = ms_page_table (memory_set t)"
    and "satp k = PageTable_token pt" and "unat (ppn_0 (root_ppn pt)) < 2 ^ 44"
    and "pt_abs (k_mm k) pt TRAP_CONTEXT_VPN = Some pte" and "length (u_x rs) = 32" and "u_x rs ! 0 = 0"
  shows "\<exists>k1 k2. alltraps rs k = Inr (tc_get (k_mm k) (pte_ppn pte) 36, k1) \<and> trap_handler pf SupervisorTimer k1 = Inr (Idle, k2) \<and>
    ready_queue k2 = ready_queue k @ [r] \<and> current k2 = None \<and> only_pages {pte_ppn pte} (k_mm k) (k_mm k2) \<and>
    (\<forall>k3 q. ready_queue k3 = r # q \<longrightarrow> tcbs k3 r = tcbs k2 r \<longrightarrow> pt_abs (k_mm k3) pt TRAP_CONTEXT_VPN = Some pte \<longrightarrow>
       get_bytes_array (k_mm k3) (pte_ppn pte) = get_bytes_array (k_mm k2) (pte_ppn pte) \<longrightarrow> tp k3 = tp k2 \<longrightarrow>
       (\<exists>k4. run_tasks pf k3 = Inr (User rs, k4) \<and> current k4 = Some r \<and> satp k4 = satp k \<and> stvec k4 = TRAMPOLINE))"
proof -
  let ?p = "pte_ppn pte"
  let ?k1 = "k\<lparr>tp := u_x rs ! 4, k_mm := saved_mm ?p rs (k_mm k), satp := tc_get (k_mm k) ?p 34\<rparr>"
  let ?t2 = "t\<lparr>task_status := Ready, task_cx := SwitchedOut TimerReturn\<rparr>"
  let ?k2 = "?k1\<lparr>stvec := trap_from_kernel_addr pf, time_reads := Suc (time_reads k),
    timer := time_values pf (time_reads k) + CLOCK_FREQ div TICKS_PER_SEC, current := None,
    ready_queue := ready_queue k @ [r], tcbs := (tcbs k)(r \<mapsto> ?t2)\<rparr>"
  have save: "alltraps rs k = Inr (tc_get (k_mm k) ?p 36, ?k1)"
    by (rule alltraps_eq [OF assms(1,5,6,7)])
  have tick: "trap_handler pf SupervisorTimer ?k1 = Inr (Idle, ?k2)"
    using assms(2,3)
    by (simp add: trap_handler_def set_kernel_trap_entry_def set_next_trigger_def get_time_def suspend_current_and_run_next_def schedule_def
        take_current_task_def add_task_def get_tcb_def upd_tcb_def action_defs)
  have "\<exists>k4. run_tasks pf k3 = Inr (User rs, k4) \<and> current k4 = Some r \<and> satp k4 = satp k \<and> stvec k4 = TRAMPOLINE"
    if q: "ready_queue k3 = r # q" and t3: "tcbs k3 r = tcbs ?k2 r" and abs: "pt_abs (k_mm k3) pt TRAP_CONTEXT_VPN = Some pte"
      and page: "get_bytes_array (k_mm k3) ?p = get_bytes_array (k_mm ?k2) ?p" and "tp k3 = tp ?k2" for k3 q
  proof -
    let ?k3 = "k3\<lparr>ready_queue := q, tcbs := (tcbs k3)(r \<mapsto> ?t2\<lparr>task_status := Running\<rparr>), current := Some r\<rparr>"
    have "restore (PageTable_token pt) (?k3\<lparr>stvec := TRAMPOLINE\<rparr>) =
        Inr (rs, ?k3\<lparr>stvec := TRAMPOLINE, satp := PageTable_token pt\<rparr>)"
      by (rule restore_eq [OF assms(6), where pte = pte and m = "k_mm k"]) (use assms(1,8,9) abs page that(5) in simp_all)
    then have "trap_return ?k3 = Inr (User rs, ?k3\<lparr>stvec := TRAMPOLINE, satp := PageTable_token pt\<rparr>)"
      by (intro trap_return_eq [where r = r and t = "?t2\<lparr>task_status := Running\<rparr>" and pt = pt]) (use assms(4) in simp_all)
    then have "run_tasks pf k3 = Inr (User rs, ?k3\<lparr>stvec := TRAMPOLINE, satp := PageTable_token pt\<rparr>)"
      using q t3 by (simp add: run_tasks_def fetch_task_def get_tcb_def upd_tcb_def resume_def action_defs)
    then show ?thesis
      using assms(5) by (intro exI [of _ "?k3\<lparr>stvec := TRAMPOLINE, satp := PageTable_token pt\<rparr>"]) simp
  qed
  then have resume: "\<forall>k3 q. ready_queue k3 = r # q \<longrightarrow> tcbs k3 r = tcbs ?k2 r \<longrightarrow> pt_abs (k_mm k3) pt TRAP_CONTEXT_VPN = Some pte \<longrightarrow>
       get_bytes_array (k_mm k3) ?p = get_bytes_array (k_mm ?k2) ?p \<longrightarrow> tp k3 = tp ?k2 \<longrightarrow>
       (\<exists>k4. run_tasks pf k3 = Inr (User rs, k4) \<and> current k4 = Some r \<and> satp k4 = satp k \<and> stvec k4 = TRAMPOLINE)"
    by blast
  have only: "only_pages {?p} (k_mm k) (k_mm ?k2)" using saved_mm(2) [OF assms(1)] by simp
  show ?thesis by (intro exI conjI; (rule save tick only resume)?) simp_all
qed

text \<open>The small machine with the page of the trap context mapped.\<close>

lemma trap_mapped:
  obtains pt m pte where "memory_ok m" and "root_ppn pt = PhysPageNum 2" and "pt_abs m pt TRAP_CONTEXT_VPN = Some pte"
    and "pt_wf 2 m pt" and "pte_ppn pte = PhysPageNum 0x50" and "PhysPageNum 0x50 \<notin> set (pt_frames pt)"
proof -
  obtain pt m where grown: "pt_grown 2 20 tiny_mm tiny_pt m pt"
    and abs: "pt_abs m pt = abs_update TRAP_CONTEXT_VPN
      (Some (PageTableEntry_new (PhysPageNum 0x50) ((PTE_R OR PTE_W) OR PTE_V))) (pt_abs tiny_mm tiny_pt)"
    using wp_PageTable_map [OF tiny_ok, of TRAP_CONTEXT_VPN "PhysPageNum 0x50" "PTE_R OR PTE_W"] by (auto simp: wp_iff)
  have "set (pt_frames pt) \<subseteq> insert (PhysPageNum 2) (mm_free tiny_mm)"
    using grown by (auto simp: pt_grown_def tiny_pt_def)
  then have small: "unat (ppn_0 p) < 20" if "p \<in> set (pt_frames pt)" for p
    using that by (fastforce simp: tiny_mm_def fa_free_def)
  then have "PhysPageNum 0x50 \<notin> set (pt_frames pt)" using small [of "PhysPageNum 0x50"] by auto
  moreover have "pt_abs m pt TRAP_CONTEXT_VPN = Some (PageTableEntry_new (PhysPageNum 0x50) ((PTE_R OR PTE_W) OR PTE_V))"
    by (simp add: abs abs_update_def)
  moreover have "pte_ppn (PageTableEntry_new (PhysPageNum 0x50) ((PTE_R OR PTE_W) OR PTE_V)) = PhysPageNum 0x50"
    by (rule pte_ppn_new) simp
  ultimately show ?thesis
    using grown that by (auto simp: pt_grown_def pt_wf_def tiny_pt_def)
qed

theorem preempted_task_resumes_witness:
  "\<exists>k a k1 k2 k4. current k = Some 1 \<and> alltraps \<lparr>u_x = 0 # replicate 31 5, u_sstatus = 6, u_sepc = 7\<rparr> k = Inr (a, k1) \<and>
     trap_handler ex_pf SupervisorTimer k1 = Inr (Idle, k2) \<and>
     run_tasks ex_pf (k2\<lparr>ready_queue := [1]\<rparr>) = Inr (User \<lparr>u_x = 0 # replicate 31 5, u_sstatus = 6, u_sepc = 7\<rparr>, k4)"
proof (rule trap_mapped)
  fix pt m pte
  assume m: "memory_ok m" and root: "root_ppn pt = PhysPageNum 2" and abs: "pt_abs m pt TRAP_CONTEXT_VPN = Some pte"
    and wf: "pt_wf 2 m pt" and ppn: "pte_ppn pte = PhysPageNum 0x50" "PhysPageNum 0x50 \<notin> set (pt_frames pt)"
  let ?rs = "\<lparr>u_x = 0 # replicate 31 5, u_sstatus = 6, u_sepc = 7\<rparr>"
  let ?pt = "pt\<lparr>pt_frames := []\<rparr>"
  let ?k = "(ex_kernel m pt)\<lparr>satp := PageTable_token ?pt\<rparr>" and ?t = "ex_task pt 1 Running (Some 0) [2, 3] TimerReturn"
  have same: "pt_abs m' ?pt = pt_abs m' pt" for m'
    by (simp add: fun_eq_iff pt_abs_def PageTable_translate_def find_pte_def)
  have hyps: "memory_ok (k_mm ?k)" "current ?k = Some 1" "tcbs ?k 1 = Some ?t" "?pt = ms_page_table (memory_set ?t)"
    "satp ?k = PageTable_token ?pt" "unat (ppn_0 (root_ppn ?pt)) < 2 ^ 44" "pt_abs (k_mm ?k) ?pt TRAP_CONTEXT_VPN = Some pte"
    "length (u_x ?rs) = 32" "u_x ?rs ! 0 = 0"
    using m root abs same by (simp_all add: ex_kernel_def ex_task_def)
  from preempted_task_resumes [OF hyps, of ex_pf] obtain k1 k2 where run: "alltraps ?rs ?k = Inr (tc_get (k_mm ?k) (pte_ppn pte) 36, k1)"
      "trap_handler ex_pf SupervisorTimer k1 = Inr (Idle, k2)" and only: "only_pages {pte_ppn pte} m (k_mm k2)"
    and resume: "\<And>k3 q. ready_queue k3 = 1 # q \<Longrightarrow> tcbs k3 1 = tcbs k2 1 \<Longrightarrow> pt_abs (k_mm k3) ?pt TRAP_CONTEXT_VPN = Some pte \<Longrightarrow>
       get_bytes_array (k_mm k3) (pte_ppn pte) = get_bytes_array (k_mm k2) (pte_ppn pte) \<Longrightarrow> tp k3 = tp k2 \<Longrightarrow>
       \<exists>k4. run_tasks ex_pf k3 = Inr (User ?rs, k4) \<and> current k4 = Some 1 \<and> satp k4 = satp ?k \<and> stvec k4 = TRAMPOLINE"
    by (auto simp: ex_kernel_def)
  have "pt_abs (k_mm k2) ?pt TRAP_CONTEXT_VPN = Some pte"
    using pt_wf_only_pages(2) [OF wf only] ppn abs same by simp
  then obtain k4 where "run_tasks ex_pf (k2\<lparr>ready_queue := [1]\<rparr>) = Inr (User ?rs, k4)"
    using resume [of "k2\<lparr>ready_queue := [1]\<rparr>" "[]"] by auto
  moreover have "current ?k = Some 1" by (rule hyps(2))
  ultimately show ?thesis using run by blast
qed

text \<open>
  C26: The system call \<open>getpid\<close> from the \<open>ecall\<close> of a program to its return: \<open>__alltraps\<close> jumps to
  the address that the trap context holds for the trap handler, and the handler returns to the program
  at the next instruction, in its own address space and with the trap vector set, with its pid in \<open>a0\<close>
  and no other register changed; the trap context keeps the handler's address for the next trap.
\<close>

theorem getpid_end_to_end:
  assumes "pt_wf l (k_mm k) pt" and "current k = Some r" and "tcbs k r = Some t" and "pt = ms_page_table (memory_set t)"
    and "satp k = PageTable_token pt" and "unat (ppn_0 (root_ppn pt)) < 2 ^ 44"
    and "pt_abs (k_mm k) pt TRAP_CONTEXT_VPN = Some pte" and "pte_ppn pte = trap_cx_ppn t" and "pte_ppn pte \<notin> set (pt_frames pt)"
    and "length (u_x rs) = 32" and "u_x rs ! 0 = 0" and "u_x rs ! 17 = SYSCALL_GETPID"
  shows "\<exists>k1 k'. alltraps rs k = Inr (tc_get (k_mm k) (pte_ppn pte) 36, k1) \<and>
    trap_handler pf UserEnvCall k1 =
      Inr (User (rs\<lparr>u_x := (u_x rs)[10 := getpid t], u_sepc := u_sepc rs + 4\<rparr>), k') \<and>
    satp k' = satp k \<and> stvec k' = TRAMPOLINE \<and> tc_get (k_mm k') (pte_ppn pte) 36 = tc_get (k_mm k) (pte_ppn pte) 36"
proof -
  let ?k = "at_dispatch pf rs t k"
  have ready: "trap_ready l k r t pte" using assms(1-9) by (simp add: trap_ready_def)
  have ok: "memory_ok (k_mm k)" using assms(1) by (simp add: pt_wf_def)
  have same: "current ?k = current k" "tcbs ?k = tcbs k" "tp ?k = u_x rs ! 4" by (simp_all add: at_dispatch_def Let_def)
  have "sys_getpid ?k = Inr (Returns (getpid t), ?k)"
    using assms(2,3) same by (simp add: sys_getpid_def current_tcb_def current_task_def get_tcb_def action_defs)
  then have "syscall pf (u_x rs ! 17) (u_x rs ! 10, u_x rs ! 11, u_x rs ! 12) ?k = Inr (Returns (getpid t), ?k)"
    using assms(12) by (simp add: syscall_def SYSCALL_OPEN_def SYSCALL_CLOSE_def SYSCALL_READ_def SYSCALL_WRITE_def
        SYSCALL_EXIT_def SYSCALL_YIELD_def SYSCALL_GET_TIME_def SYSCALL_GETPID_def)
  moreover have "trap_ready l ?k r t pte"
    by (rule trap_ready_only_pages [OF ready at_dispatch_mm(2) [OF ok]]) (simp_all add: same)
  moreover have "satp k = PageTable_token (ms_page_table (memory_set t))" using assms(4,5) by simp
  ultimately obtain k1 where "alltraps rs k = Inr (tc_get (k_mm k) (trap_cx_ppn t) 36, k1)"
    "trap_handler pf UserEnvCall k1 = Inr (User (rs\<lparr>u_x := (u_x rs)[10 := getpid t], u_sepc := u_sepc rs + 4\<rparr>),
       ?k\<lparr>k_mm := tc_set (trap_cx_ppn t) 10 (getpid t) (k_mm ?k), stvec := TRAMPOLINE, satp := satp k\<rparr>)"
    using system_call_returns [OF ready _ assms(10,11)] same(3) by blast
  moreover have "tc_get (tc_set (trap_cx_ppn t) 10 (getpid t) (k_mm ?k)) (trap_cx_ppn t) 36 = tc_get (k_mm k) (trap_cx_ppn t) 36"
    by (simp add: trap_word_kept [OF ok])
  ultimately show ?thesis using assms(8) by simp
qed

theorem getpid_end_to_end_witness:
  "\<exists>k rs a k1 k'. current k = Some 1 \<and> rs = \<lparr>u_x = (0 # replicate 31 5)[17 := 172], u_sstatus = 6, u_sepc = 0x10000\<rparr> \<and>
     alltraps rs k = Inr (a, k1) \<and>
     trap_handler ex_pf UserEnvCall k1 = Inr (User (rs\<lparr>u_x := (u_x rs)[10 := 1], u_sepc := 0x10004\<rparr>), k')"
proof (rule trap_mapped)
  fix pt m pte
  assume m: "memory_ok m" and root: "root_ppn pt = PhysPageNum 2" and abs: "pt_abs m pt TRAP_CONTEXT_VPN = Some pte"
    and wf: "pt_wf 2 m pt" and ppn: "pte_ppn pte = PhysPageNum 0x50" "PhysPageNum 0x50 \<notin> set (pt_frames pt)"
  let ?rs = "\<lparr>u_x = (0 # replicate 31 5)[17 := 172], u_sstatus = 6, u_sepc = 0x10000\<rparr>"
  let ?t = "(ex_task pt 1 Running (Some 0) [2, 3] TimerReturn)\<lparr>memory_set := \<lparr>ms_page_table = pt, areas = []\<rparr>\<rparr>"
  let ?k = "(ex_kernel m pt)\<lparr>satp := PageTable_token pt, tcbs := (tcbs (ex_kernel m pt))(1 \<mapsto> ?t)\<rparr>"
  have hyps: "pt_wf 2 (k_mm ?k) pt" "current ?k = Some 1" "tcbs ?k 1 = Some ?t" "pt = ms_page_table (memory_set ?t)"
    "satp ?k = PageTable_token pt" "unat (ppn_0 (root_ppn pt)) < 2 ^ 44" "pt_abs (k_mm ?k) pt TRAP_CONTEXT_VPN = Some pte"
    "pte_ppn pte = trap_cx_ppn ?t" "pte_ppn pte \<notin> set (pt_frames pt)"
    "length (u_x ?rs) = 32" "u_x ?rs ! 0 = 0" "u_x ?rs ! 17 = SYSCALL_GETPID"
    using root abs wf ppn by (simp_all add: ex_kernel_def ex_task_def SYSCALL_GETPID_def)
  from getpid_end_to_end [OF hyps, of ex_pf] obtain k1 k' where "alltraps ?rs ?k = Inr (tc_get (k_mm ?k) (pte_ppn pte) 36, k1)"
      "trap_handler ex_pf UserEnvCall k1 = Inr (User (?rs\<lparr>u_x := (u_x ?rs)[10 := getpid ?t], u_sepc := u_sepc ?rs + 4\<rparr>), k')"
    by blast
  moreover have "getpid ?t = 1" "u_sepc ?rs + 4 = 0x10004" by (simp_all add: getpid_def ex_task_def)
  ultimately show ?thesis using hyps(2) by (intro exI [of _ ?k] exI [of _ ?rs]) auto
qed

end
