(* ===== verification/File_Calls.thy ===== *)
theory File_Calls
  imports Traps
begin

text \<open>
  The system calls on open files from end to end: from the descriptor and the user's buffer,
  through the page table of the task and the open file, to the contents of the file on disk.
  \<open>sys_write\<close> writes exactly the bytes that the program sees in its buffer, and \<open>sys_read\<close>
  delivers exactly the bytes of the file into it.
\<close>

section \<open>Calls on a descriptor\<close>

lemma file_write_inode:
  assumes "os_files k f = Some o'" and "OSInode_write_loop v o' 0 (k_mm k, disk k) = Inr ((n, o''), (m', s'))"
  shows "Syscall.file_write (InodeFile f) (UserBuffer_new v) k =
    Inr (Returns (word_of_nat n), k\<lparr>k_mm := m', disk := s', os_files := (os_files k)(f \<mapsto> o'')\<rparr>)"
  using assms
  by (simp add: Syscall.file_write_def get_file_def put_file_def on_io_def on_def OSInode_write_def UserBuffer_new_def action_defs)

lemma file_read_inode:
  assumes "os_files k f = Some o'" and "OSInode_read_loop v o' 0 (k_mm k, disk k) = Inr ((n, o''), (m', s'))"
  shows "Syscall.file_read pf r (InodeFile f) (UserBuffer_new v) k =
    Inr (Returns (word_of_nat n), k\<lparr>k_mm := m', disk := s', os_files := (os_files k)(f \<mapsto> o'')\<rparr>)"
  using assms
  by (simp add: Syscall.file_read_def get_file_def put_file_def on_io_def on_def OSInode_read_def UserBuffer_new_def action_defs)

text \<open>A descriptor of the current task that refers to an open file.\<close>

definition open_at :: "kernel \<Rightarrow> usize \<Rightarrow> tcb \<Rightarrow> nat \<Rightarrow> os_inode \<Rightarrow> bool" where
  "open_at k fd t f o' \<longleftrightarrow>
     (\<exists>r. current k = Some r \<and> tcbs k r = Some t) \<and> unat fd < length (fd_table t) \<and>
     fd_table t ! unat fd = Some (InodeFile f) \<and> os_files k f = Some o'"

lemma sys_write_open:
  assumes "open_at k fd t f o'" and "os_writable o'"
    and "translated_byte_buffer (k_mm k) (get_user_token t) buf len = Some (Inr v)"
  shows "sys_write fd buf len k = Syscall.file_write (InodeFile f) (UserBuffer_new v) k"
  using assms
  by (auto simp: open_at_def sys_write_def current_user_token_def current_tcb_def current_task_def get_tcb_def
      file_writable_def get_file_def user_access_def action_defs)

lemma sys_read_open:
  assumes "open_at k fd t f o'" and "os_readable o'"
    and "translated_byte_buffer (k_mm k) (get_user_token t) buf len = Some (Inr v)"
  shows "\<exists>r. sys_read pf fd buf len k = Syscall.file_read pf r (InodeFile f) (UserBuffer_new v) k"
  using assms
  by (auto simp: open_at_def sys_read_def current_user_token_def current_tcb_def current_task_def get_tcb_def
      file_readable_def get_file_def user_access_def action_defs)

text \<open>
  The example kernel with a running task that has the file \<open>1\<close> open for reading and writing, at
  its start, as descriptor 0.
\<close>

definition ex_open :: os_inode where
  "ex_open = \<lparr>os_readable = True, os_writable = True, os_offset = 0, os_inode = Inode_of fresh_fs 1\<rparr>"

definition ex_reader :: "page_table \<Rightarrow> tcb" where
  "ex_reader pt = (ex_task pt 1 Running (Some 0) [2, 3] TimerReturn)
     \<lparr>memory_set := \<lparr>ms_page_table = pt, areas = []\<rparr>, fd_table := [Some (InodeFile 0)]\<rparr>"

definition ex_files :: "mm \<Rightarrow> page_table \<Rightarrow> store \<Rightarrow> kernel" where
  "ex_files m pt s = (ex_kernel m pt)\<lparr>disk := s, os_files := [0 \<mapsto> ex_open], tcbs := (tcbs (ex_kernel m pt))(1 \<mapsto> ex_reader pt)\<rparr>"

lemma ex_files_open: "open_at (ex_files m pt s) 0 (ex_reader pt) 0 ex_open"
  by (simp add: open_at_def ex_files_def ex_reader_def ex_kernel_def)

lemma ex_files_simps [simp]:
  "k_mm (ex_files m pt s) = m" "disk (ex_files m pt s) = s" "ms_page_table (memory_set (ex_reader pt)) = pt"
  "os_offset ex_open = 0" "os_readable ex_open" "os_writable ex_open" "os_inode ex_open = Inode_of fresh_fs 1"
  "os_files (ex_files m pt s) = [0 \<mapsto> ex_open]"
  by (simp_all add: ex_files_def ex_reader_def ex_open_def ex_kernel_def)

lemma ex_unat: "unat (2 :: usize) = 2" "unat (3 :: usize) = 3" "unat (0x10000 :: usize) = 0x10000"
  by simp_all

lemma ex_bytes:
  assumes "PageTable_translate m pt (VirtPageNum 0x10) = Some (PageTableEntry_new (PhysPageNum 0x50) (PTE_R OR PTE_V))"
    and "get_bytes_array m (PhysPageNum 0x50) = [104, 105] @ replicate 4094 0"
  shows "map (user_byte m pt) [0x10000..<0x10002] = map Some [104, 105]"
    "map (user_byte m pt) [0x10000..<0x10003] = map Some [104, 105, 0]"
    "user_frames m pt 0x10000 0x10003 = [Some 0x50]"
  using assms by (simp_all add: user_byte_def user_frames_def upt_rec pte_ppn_new page_index_id)

section \<open>Writing\<close>

lemma sys_write_file:
  assumes "open_at k fd t f o'" and "os_writable o'" and "os_inode o' = Inode_of fs i"
    and "fs_inv fs (disk k)" and "fs_abs fs (disk k) i = Some (ty, bs)"
    and "memory_ok (k_mm k)" and "unat (ppn_0 (root_ppn (ms_page_table (memory_set t)))) < 2 ^ 44"
    and "unat buf + unat len < 2 ^ 38" and "0 < len"
    and "map Some data = map (user_byte (k_mm k) (ms_page_table (memory_set t))) [unat buf..<unat buf + unat len]"
    and "room_for fs (disk k) (length bs) (os_offset o' + unat len)"
  shows "\<exists>s'. sys_write fd buf len k = Inr (Returns len,
      k\<lparr>disk := s', os_files := (os_files k)(f \<mapsto> o'\<lparr>os_offset := os_offset o' + unat len\<rparr>)\<rparr>) \<and>
    fs_inv fs s' \<and> fs_abs fs s' = (fs_abs fs (disk k))(i \<mapsto> (ty, write_bytes (os_offset o') data bs))"
proof -
  let ?pt = "ms_page_table (memory_set t)"
  obtain v where v: "translated_byte_buffer (k_mm k) (PageTable_token ?pt) buf len = Some (Inr v)"
      "concat (map (slice_bytes (k_mm k)) v) = data" "list_all slice_fits v"
    using translated_byte_buffer_slices [OF assms(6,7,8,10)] by (elim exE conjE)
  have len: "length data = unat len" using arg_cong [OF assms(10), of length] by simp
  have data: "buffer_bytes (k_mm k) v = data" using v(2) by (simp add: buffer_bytes_def)
  have "v \<noteq> []" using v(2) len assms(9) by (auto simp: word_less_nat_alt)
  then obtain s' where run: "OSInode_write_loop v o' 0 (k_mm k, disk k) =
        Inr ((length data, o'\<lparr>os_offset := os_offset o' + unat len\<rparr>), (k_mm k, s'))"
      and inv: "fs_inv fs s'" "fs_abs fs s' = (fs_abs fs (disk k))(i \<mapsto> (ty, write_bytes (os_offset o') data bs))"
    using wp_OSInode_write_loop [OF assms(4,5,3,6) v(3), of 0] assms(11) by (auto simp: wp_iff data len)
  have "sys_write fd buf len k = Inr (Returns (word_of_nat (length data)),
      k\<lparr>k_mm := k_mm k, disk := s', os_files := (os_files k)(f \<mapsto> o'\<lparr>os_offset := os_offset o' + unat len\<rparr>)\<rparr>)"
    using sys_write_open [OF assms(1,2)] file_write_inode [OF _ run] assms(1) v(1)
    by (simp add: get_user_token_def MemorySet_token_def open_at_def)
  then show ?thesis using inv by (intro exI [of _ s']) (simp add: len)
qed

text \<open>
  C12: \<open>sys_write\<close> on a descriptor of a file open for writing, with a non-empty buffer that the program's page
  table maps and room on the device, returns the length of the buffer, and the file then holds the bytes that the program
  sees in the buffer, from the offset of the open file on. The offset, which every descriptor of
  that open file shares, advances by their number; no other file, no memory and no task changes.
\<close>

theorem sys_write_refines:
  assumes "open_at k fd t f o'" and "os_writable o'" and "os_inode o' = Inode_of fs i"
    and "fs_inv fs (disk k)" and "fs_abs fs (disk k) i = Some (ty, bs)"
    and "memory_ok (k_mm k)" and "unat (ppn_0 (root_ppn (ms_page_table (memory_set t)))) < 2 ^ 44"
    and "unat buf + unat len < 2 ^ 38" and "0 < len"
    and "map Some data = map (user_byte (k_mm k) (ms_page_table (memory_set t))) [unat buf..<unat buf + unat len]"
    and "room_for fs (disk k) (length bs) (os_offset o' + unat len)"
  shows "\<exists>s'. sys_write fd buf len k = Inr (Returns len,
      k\<lparr>disk := s', os_files := (os_files k)(f \<mapsto> o'\<lparr>os_offset := os_offset o' + unat len\<rparr>)\<rparr>) \<and>
    fs_inv fs s' \<and> fs_abs fs s' = (fs_abs fs (disk k))(i \<mapsto> (ty, write_bytes (os_offset o') data bs))"
  using assms by (rule sys_write_file)

theorem sys_write_refines_witness:
  "\<exists>m pt s'. user_byte m pt 0x10000 = Some 104 \<and> user_byte m pt 0x10001 = Some 105 \<and>
    sys_write 0 0x10000 2 (ex_files m pt one_file) =
      Inr (Returns 2, (ex_files m pt one_file)\<lparr>disk := s', os_files := [0 \<mapsto> ex_open\<lparr>os_offset := 2\<rparr>]\<rparr>) \<and>
    fs_abs fresh_fs s' = [0 \<mapsto> (Directory, dir_bytes [([97], 1)]), 1 \<mapsto> (File, [104, 105])]"
proof (rule tiny_mapped)
  fix pt m
  assume "memory_ok m" and "unat (ppn_0 (root_ppn pt)) < 2 ^ 44"
    and tr: "PageTable_translate m pt (VirtPageNum 0x10) = Some (PageTableEntry_new (PhysPageNum 0x50) (PTE_R OR PTE_V))"
    and bytes: "get_bytes_array m (PhysPageNum 0x50) = [104, 105] @ replicate 4094 0"
  note two = ex_bytes(1) [OF tr bytes]
  let ?k = "ex_files m pt one_file"
  have "\<exists>s'. sys_write 0 0x10000 2 ?k = Inr (Returns 2,
      ?k\<lparr>disk := s', os_files := (os_files ?k)(0 \<mapsto> ex_open\<lparr>os_offset := os_offset ex_open + unat (2 :: usize)\<rparr>)\<rparr>) \<and>
    fs_inv fresh_fs s' \<and> fs_abs fresh_fs s' = (fs_abs fresh_fs (disk ?k))(1 \<mapsto> (File, write_bytes (os_offset ex_open) [104, 105] []))"
    by (intro sys_write_refines [OF ex_files_open]) (use two \<open>memory_ok m\<close> \<open>unat _ < _\<close> one_file(2) one_file_room [of 0 "Suc (Suc 0)"] in
      \<open>simp_all add: one_file(3)\<close>)
  then obtain s' where "sys_write 0 0x10000 2 ?k = Inr (Returns 2, ?k\<lparr>disk := s', os_files := [0 \<mapsto> ex_open\<lparr>os_offset := 2\<rparr>]\<rparr>)"
    "fs_abs fresh_fs s' = [0 \<mapsto> (Directory, dir_bytes [([97], 1)]), 1 \<mapsto> (File, [104, 105])]"
    unfolding ex_unat ex_files_simps add_0 one_file(3) by (auto simp: write_bytes_def splice_at_def numeral_2_eq_2)
  then show ?thesis using two by (intro exI [of _ m] exI [of _ pt] exI [of _ s']) (simp add: upt_rec)
qed

section \<open>Reading\<close>

text \<open>Stores into pages that hold no table change no translation.\<close>

lemma translate_same_frames:
  assumes wf: "pt_wf l m pt" and same: "\<And>p. p \<in> set (pt_frames pt) \<Longrightarrow> get_bytes_array m' p = get_bytes_array m p"
  shows "PageTable_translate m' pt v = PageTable_translate m pt v"
proof -
  have "get_pte m' q j = get_pte m q j" if "Page_Table.walk m (root_ppn pt) (hi_path v) = Some q" for q j
    using same [OF pt_wf_frame(1) [OF wf path_ok_hi_path that]] by (simp add: get_pte_def)
  then show ?thesis
    using walk_same_frames [OF wf same path_ok_hi_path]
    by (cases "Page_Table.walk m (root_ppn pt) (hi_path v)") (simp_all add: PageTable_translate_def find_pte_walk)
qed

lemma translate_token:
  assumes "unat (ppn_0 (root_ppn pt)) < 2 ^ 44"
  shows "PageTable_translate m (PageTable_from_token (PageTable_token pt)) v = PageTable_translate m pt v"
  by (simp add: PageTable_translate_def find_pte_token [OF assms])

lemma pt_wf_root: "pt_wf l m pt \<Longrightarrow> memory_ok m" "pt_wf l m pt \<Longrightarrow> unat (ppn_0 (root_ppn pt)) < 2 ^ 44"
  using pt_wf_frame(2) [of l m pt "[]" "root_ppn pt"] by (simp_all add: pt_wf_def path_ok_def)

text \<open>
  The slices of a buffer refer to the frames of its pages, also in a memory with the same
  translations.
\<close>

lemma translated_byte_buffer_frames:
  assumes "pt_wf l m pt" and "unat ptr + unat len < 2 ^ 38"
    and "map Some bs = map (user_byte m pt) [unat ptr..<unat ptr + unat len]"
  obtains v where "translated_byte_buffer m (PageTable_token pt) ptr len = Some (Inr v)"
    and "buffer_bytes m v = bs" and "list_all slice_fits v"
    and "v = [] \<or> map (Some \<circ> page_index \<circ> sl_page) v = user_frames m pt (unat ptr) (unat ptr + unat len)"
    and "\<And>m'. memory_ok m' \<Longrightarrow> (\<And>p. PageTable_translate m' pt p = PageTable_translate m pt p) \<Longrightarrow>
      map (user_byte m' pt) [unat ptr..<unat ptr + unat len] = map Some (buffer_bytes m' v)"
proof -
  let ?pt = "PageTable_from_token (PageTable_token pt)" and ?s = "unat ptr" and ?e = "unat ptr + unat len"
  note root = pt_wf_root [OF assms(1)] and tr = translate_token [OF pt_wf_root(2) [OF assms(1)]]
  have mapped: "user_byte m pt a \<noteq> None" if "?s \<le> a" "a < ?e" for a
  proof -
    have "length bs = unat len" using arg_cong [OF assms(3), of length] by simp
    then have "user_byte m pt a = Some (bs ! (a - ?s))"
      using arg_cong [OF assms(3), of "\<lambda>xs. xs ! (a - ?s)"] that by simp
    then show ?thesis by simp
  qed
  have "\<exists>v. (\<forall>m' u. (\<forall>p. PageTable_translate m' ?pt p = PageTable_translate m ?pt p) \<longrightarrow>
        translated_byte_buffer_loop m' ?pt (word_of_nat ?s) (word_of_nat ?e) u = Some (Inr (u @ v))) \<and>
      (?s < ?e \<longrightarrow> map (Some \<circ> page_index \<circ> sl_page) v = user_frames m ?pt ?s ?e) \<and> (?s = ?e \<longrightarrow> v = [])"
    by (rule byte_buffer_pages) (use assms(2) mapped in \<open>simp_all add: user_byte_token [OF root(2)]\<close>)
  then obtain v where v: "\<forall>m' u. (\<forall>p. PageTable_translate m' pt p = PageTable_translate m pt p) \<longrightarrow>
        translated_byte_buffer_loop m' ?pt (word_of_nat ?s) (word_of_nat ?e) u = Some (Inr (u @ v))"
      "?s < ?e \<longrightarrow> map (Some \<circ> page_index \<circ> sl_page) v = user_frames m ?pt ?s ?e" "?s = ?e \<longrightarrow> v = []"
    unfolding tr by (elim exE conjE)
  have buf: "translated_byte_buffer m' (PageTable_token pt) ptr len = Some (Inr v)"
    if "\<forall>p. PageTable_translate m' pt p = PageTable_translate m pt p" for m'
    using v(1) that by (simp add: translated_byte_buffer_def)
  have frames: "user_frames m ?pt ?s ?e = user_frames m pt ?s ?e" by (simp add: user_frames_def tr)
  show ?thesis
  proof (rule that [of v])
    show "translated_byte_buffer m (PageTable_token pt) ptr len = Some (Inr v)" by (rule buf) simp
    with translated_byte_buffer_slices [OF root assms(2,3)]
    show "buffer_bytes m v = bs" "list_all slice_fits v" by (auto simp: buffer_bytes_def)
    show "v = [] \<or> map (Some \<circ> page_index \<circ> sl_page) v = user_frames m pt ?s ?e"
      using v(2,3) frames by (cases "unat len = 0") simp_all
    fix m'
    assume ok: "memory_ok m'" and same: "\<And>p. PageTable_translate m' pt p = PageTable_translate m pt p"
    have "user_byte m' pt a \<noteq> None" if "?s \<le> a" "a < ?e" for a
      using mapped [OF that] same by (simp add: user_byte_def)
    then have all: "map Some (map (the \<circ> user_byte m' pt) [?s..<?e]) = map (user_byte m' pt) [?s..<?e]"
      by (auto simp: list_eq_iff_nth_eq)
    from translated_byte_buffer_slices [OF ok root(2) assms(2) this] buf [of m'] same
    have "buffer_bytes m' v = map (the \<circ> user_byte m' pt) [?s..<?e]" by (auto simp: buffer_bytes_def)
    then show "map (user_byte m' pt) [?s..<?e] = map Some (buffer_bytes m' v)" using all by simp
  qed
qed

lemma same_pages_mono: "same_pages P m m' \<Longrightarrow> P \<subseteq> Q \<Longrightarrow> same_pages Q m m'"
  by (auto simp: same_pages_def)

lemma splice_read_bytes:
  assumes "length data = n"
  shows "splice_at 0 (read_bytes off n bs) data = read_bytes off n bs @ drop (min n (length bs - off)) data"
  using assms by (simp add: splice_at_def read_bytes_def min.commute)

text \<open>
  C13: \<open>sys_read\<close> on a descriptor of a file open for reading, with a buffer that the program's page
  table maps, returns the number of bytes that the file
  has left after the offset, at most the length of the buffer. If the buffer's pages have frames of
  their own, the program then sees these bytes of the file at the start of its buffer and the old
  contents behind them, and no memory outside the frames of the buffer changes, nor does the disk.
\<close>

theorem sys_read_delivers:
  assumes "open_at k fd t f o'" and "os_readable o'" and "os_inode o' = Inode_of fs i"
    and "fs_inv fs (disk k)" and "fs_abs fs (disk k) i = Some (ty, bs)"
    and "pt = ms_page_table (memory_set t)" and "pt_wf l (k_mm k) pt" and "unat buf + unat len < 2 ^ 38"
    and "map Some data = map (user_byte (k_mm k) pt) [unat buf..<unat buf + unat len]"
    and "frames = user_frames (k_mm k) pt (unat buf) (unat buf + unat len)" and "distinct frames"
    and "set frames \<inter> Some ` page_index ` set (pt_frames pt) = {}"
    and "n = min (unat len) (length bs - os_offset o')"
  shows "\<exists>m'. sys_read pf fd buf len k = Inr (Returns (word_of_nat n),
      k\<lparr>k_mm := m', os_files := (os_files k)(f \<mapsto> o'\<lparr>os_offset := os_offset o' + n\<rparr>)\<rparr>) \<and>
    map (user_byte m' pt) [unat buf..<unat buf + unat len] =
      map Some (read_bytes (os_offset o') (unat len) bs @ drop n data) \<and>
    same_pages {q. Some q \<in> set frames} (k_mm k) m'"
proof -
  let ?m = "k_mm k"
  obtain v where v: "translated_byte_buffer ?m (PageTable_token pt) buf len = Some (Inr v)"
      "buffer_bytes ?m v = data" "list_all slice_fits v" "v = [] \<or> map (Some \<circ> page_index \<circ> sl_page) v = frames"
    and seen: "\<And>m'. memory_ok m' \<Longrightarrow> (\<And>p. PageTable_translate m' pt p = PageTable_translate ?m pt p) \<Longrightarrow>
      map (user_byte m' pt) [unat buf..<unat buf + unat len] = map Some (buffer_bytes m' v)"
    using translated_byte_buffer_frames [OF assms(7,8,9)] unfolding assms(10) [symmetric] by blast
  have len: "length data = unat len" using arg_cong [OF assms(9), of length] by simp
  have "distinct (map (page_index \<circ> sl_page) v)"
    using v(4) assms(11) by (auto simp: distinct_map comp_def inj_on_def)
  then have sl: "slices_ok v" using v(3) by (simp add: slices_ok_def)
  have pages: "(page_index \<circ> sl_page) ` set v \<subseteq> {q. Some q \<in> set frames}" using v(4) by auto
  obtain m' where run: "OSInode_read_loop v o' 0 (?m, disk k) = Inr ((n, o'\<lparr>os_offset := os_offset o' + n\<rparr>), (m', disk k))"
      and same: "same_pages ((page_index \<circ> sl_page) ` set v) ?m m'"
      and got: "buffer_bytes m' v = read_bytes (os_offset o') (unat len) bs @ drop n data"
    using wp_OSInode_read_loop [OF assms(4,5,3) pt_wf_root(1) [OF assms(7)] sl refl, of 0]
    unfolding v(2) len splice_read_bytes [OF len] by (auto simp: wp_iff assms(13))
  have same': "same_pages {q. Some q \<in> set frames} ?m m'" using same pages by (rule same_pages_mono)
  have "get_bytes_array m' p = get_bytes_array ?m p" if "p \<in> set (pt_frames pt)" for p
    using that assms(12) same' by (auto simp: same_pages_def get_bytes_array_def)
  then have tr: "PageTable_translate m' pt p = PageTable_translate ?m pt p" for p by (rule translate_same_frames [OF assms(7)])
  obtain r where "sys_read pf fd buf len k = Syscall.file_read pf r (InodeFile f) (UserBuffer_new v) k"
    using sys_read_open [OF assms(1,2), of buf len v pf] v(1) by (auto simp: get_user_token_def MemorySet_token_def assms(6))
  then have "sys_read pf fd buf len k = Inr (Returns (word_of_nat n),
      k\<lparr>k_mm := m', disk := disk k, os_files := (os_files k)(f \<mapsto> o'\<lparr>os_offset := os_offset o' + n\<rparr>)\<rparr>)"
    using file_read_inode [OF _ run] assms(1) by (simp add: open_at_def)
  moreover have "map (user_byte m' pt) [unat buf..<unat buf + unat len] =
      map Some (read_bytes (os_offset o') (unat len) bs @ drop n data)"
    using seen [OF _ tr] same by (simp add: same_pages_def got)
  ultimately show ?thesis using same' by (intro exI [of _ m']) simp
qed

theorem sys_read_delivers_witness:
  "\<exists>m pt s k'. fs_abs fresh_fs s = [0 \<mapsto> (Directory, dir_bytes [([97], 1)]), 1 \<mapsto> (File, [7, 8])] \<and>
    map (user_byte m pt) [0x10000..<0x10003] = map Some [104, 105, 0] \<and>
    sys_read ex_pf 0 0x10000 3 (ex_files m pt s) = Inr (Returns 2, k') \<and>
    map (user_byte (k_mm k') pt) [0x10000..<0x10003] = map Some [7, 8, 0] \<and> os_files k' = [0 \<mapsto> ex_open\<lparr>os_offset := 2\<rparr>]"
proof (rule tiny_mapped)
  fix pt m
  assume wf: "pt_wf 2 m pt" and other: "0x50 \<notin> page_index ` set (pt_frames pt)"
    and tr: "PageTable_translate m pt (VirtPageNum 0x10) = Some (PageTableEntry_new (PhysPageNum 0x50) (PTE_R OR PTE_V))"
    and bytes: "get_bytes_array m (PhysPageNum 0x50) = [104, 105] @ replicate 4094 0"
  note b = ex_bytes [OF tr bytes]
  obtain s where s: "fs_inv fresh_fs s" "fs_abs fresh_fs s = [0 \<mapsto> (Directory, dir_bytes [([97], 1)]), 1 \<mapsto> (File, [7, 8])]"
    using wp_Inode_write_at [OF one_file(2), of 1 File "[]" "[7, 8]" 0, OF _ _ _ refl] one_file_room [of 0 2]
    by (auto simp: one_file(3) write_bytes_def splice_at_def numeral_eq_Suc wp_iff)
  let ?k = "ex_files m pt s"
  have "\<exists>m'. sys_read ex_pf 0 0x10000 3 ?k = Inr (Returns (word_of_nat 2),
      ?k\<lparr>k_mm := m', os_files := (os_files ?k)(0 \<mapsto> ex_open\<lparr>os_offset := os_offset ex_open + 2\<rparr>)\<rparr>) \<and>
    map (user_byte m' pt) [unat (0x10000 :: usize)..<unat (0x10000 :: usize) + unat (3 :: usize)] =
      map Some (read_bytes (os_offset ex_open) (unat (3 :: usize)) [7, 8] @ drop 2 [104, 105, 0]) \<and>
    same_pages {q. Some q \<in> set [Some 0x50]} (k_mm ?k) m'"
    by (rule sys_read_delivers [OF ex_files_open, where fs = fresh_fs and i = 1 and ty = File and l = 2])
      (use wf other b s in \<open>simp_all add: image_iff\<close>)
  then obtain m' where "sys_read ex_pf 0 0x10000 3 ?k = Inr (Returns 2, ?k\<lparr>k_mm := m', os_files := [0 \<mapsto> ex_open\<lparr>os_offset := 2\<rparr>]\<rparr>)"
    "map (user_byte m' pt) [0x10000..<0x10003] = map Some [7, 8, 0]"
    unfolding ex_unat ex_files_simps add_0 by (auto simp: read_bytes_def)
  then show ?thesis
    using s(2) b(2)
    by (intro exI [of _ m] exI [of _ pt] exI [of _ s] exI [of _ "?k\<lparr>k_mm := m', os_files := [0 \<mapsto> ex_open\<lparr>os_offset := 2\<rparr>]\<rparr>"])
      simp
qed

end
