(* ===== verification/User_Lib.thy ===== *)
theory User_Lib
  imports File_Calls
begin

text \<open>
  The library of user programs: the system call stubs (\<open>src/user/src/syscall.rs\<close>) and the functions
  that programs call (\<open>src/user/src/lib.rs\<close>). A program sees the kernel through the instruction
  \<open>ecall\<close>, which is a parameter: from the registers and the rest of the world it gives those after
  the return, when other programs may have run. Byte slices, strings and references are addresses in
  the memory of the program. The last section puts the kernel model behind \<open>ecall\<close>.
\<close>

section \<open>System call stubs\<close>

type_synonym 'w ecall = "(user_regs \<times> 'w, unit) action"
type_synonym ('w, 'a) user_action = "(user_regs \<times> 'w, 'a) action"

text \<open>A slice or string: its address and its length.\<close>

record user_slice =
  us_ptr :: usize
  us_len :: usize

definition USER_SYSCALL_OPEN :: usize where "USER_SYSCALL_OPEN = 56"
definition USER_SYSCALL_CLOSE :: usize where "USER_SYSCALL_CLOSE = 57"
definition USER_SYSCALL_READ :: usize where "USER_SYSCALL_READ = 63"
definition USER_SYSCALL_WRITE :: usize where "USER_SYSCALL_WRITE = 64"
definition USER_SYSCALL_EXIT :: usize where "USER_SYSCALL_EXIT = 93"
definition USER_SYSCALL_YIELD :: usize where "USER_SYSCALL_YIELD = 124"
definition USER_SYSCALL_GET_TIME :: usize where "USER_SYSCALL_GET_TIME = 169"
definition USER_SYSCALL_GETPID :: usize where "USER_SYSCALL_GETPID = 172"
definition USER_SYSCALL_FORK :: usize where "USER_SYSCALL_FORK = 220"
definition USER_SYSCALL_EXEC :: usize where "USER_SYSCALL_EXEC = 221"
definition USER_SYSCALL_WAITPID :: usize where "USER_SYSCALL_WAITPID = 260"

definition user_syscall :: "'w ecall \<Rightarrow> usize \<Rightarrow> usize \<times> usize \<times> usize \<Rightarrow> ('w, usize) user_action" where
  "user_syscall ecall syscall_id args =
     (case args of (a0, a1, a2) \<Rightarrow>
        thn (upd (\<lambda>(rs, w). (rs\<lparr>u_x := (u_x rs)[10 := a0, 11 := a1, 12 := a2, 17 := syscall_id]\<rparr>, w)))
        (thn ecall (gets (\<lambda>(rs, w). u_x rs ! 10))))"

definition user_sys_open :: "'w ecall \<Rightarrow> user_slice \<Rightarrow> 32 word \<Rightarrow> ('w, usize) user_action" where
  "user_sys_open ecall path' fl = user_syscall ecall USER_SYSCALL_OPEN (us_ptr path', ucast fl, 0)"

definition user_sys_close :: "'w ecall \<Rightarrow> usize \<Rightarrow> ('w, usize) user_action" where
  "user_sys_close ecall fd = user_syscall ecall USER_SYSCALL_CLOSE (fd, 0, 0)"

definition user_sys_read :: "'w ecall \<Rightarrow> usize \<Rightarrow> user_slice \<Rightarrow> ('w, usize) user_action" where
  "user_sys_read ecall fd buffer = user_syscall ecall USER_SYSCALL_READ (fd, us_ptr buffer, us_len buffer)"

definition user_sys_write :: "'w ecall \<Rightarrow> usize \<Rightarrow> user_slice \<Rightarrow> ('w, usize) user_action" where
  "user_sys_write ecall fd buffer = user_syscall ecall USER_SYSCALL_WRITE (fd, us_ptr buffer, us_len buffer)"

definition user_sys_exit :: "'w ecall \<Rightarrow> 32 word \<Rightarrow> ('w, 'a) user_action" where
  "user_sys_exit ecall code = thn (user_syscall ecall USER_SYSCALL_EXIT (scast code, 0, 0)) (fail ExplicitPanic)"

definition user_sys_yield :: "'w ecall \<Rightarrow> ('w, usize) user_action" where
  "user_sys_yield ecall = user_syscall ecall USER_SYSCALL_YIELD (0, 0, 0)"

definition user_sys_get_time :: "'w ecall \<Rightarrow> ('w, usize) user_action" where
  "user_sys_get_time ecall = user_syscall ecall USER_SYSCALL_GET_TIME (0, 0, 0)"

definition user_sys_getpid :: "'w ecall \<Rightarrow> ('w, usize) user_action" where
  "user_sys_getpid ecall = user_syscall ecall USER_SYSCALL_GETPID (0, 0, 0)"

definition user_sys_fork :: "'w ecall \<Rightarrow> ('w, usize) user_action" where
  "user_sys_fork ecall = user_syscall ecall USER_SYSCALL_FORK (0, 0, 0)"

definition user_sys_exec :: "'w ecall \<Rightarrow> user_slice \<Rightarrow> ('w, usize) user_action" where
  "user_sys_exec ecall path' = user_syscall ecall USER_SYSCALL_EXEC (us_ptr path', 0, 0)"

definition user_sys_waitpid :: "'w ecall \<Rightarrow> usize \<Rightarrow> usize \<Rightarrow> ('w, usize) user_action" where
  "user_sys_waitpid ecall pid code_ptr = user_syscall ecall USER_SYSCALL_WAITPID (pid, code_ptr, 0)"

section \<open>The library\<close>

definition user_open :: "'w ecall \<Rightarrow> user_slice \<Rightarrow> open_flags \<Rightarrow> ('w, usize) user_action" where
  "user_open ecall path' fl = user_sys_open ecall path' fl"

definition user_close :: "'w ecall \<Rightarrow> usize \<Rightarrow> ('w, usize) user_action" where
  "user_close ecall fd = user_sys_close ecall fd"

definition user_read :: "'w ecall \<Rightarrow> usize \<Rightarrow> user_slice \<Rightarrow> ('w, usize) user_action" where
  "user_read ecall fd buf = user_sys_read ecall fd buf"

definition user_write :: "'w ecall \<Rightarrow> usize \<Rightarrow> user_slice \<Rightarrow> ('w, usize) user_action" where
  "user_write ecall fd buf = user_sys_write ecall fd buf"

definition user_exit :: "'w ecall \<Rightarrow> 32 word \<Rightarrow> ('w, 'a) user_action" where
  "user_exit ecall code = user_sys_exit ecall code"

definition user_yield :: "'w ecall \<Rightarrow> ('w, usize) user_action" where
  "user_yield ecall = user_sys_yield ecall"

definition user_get_time :: "'w ecall \<Rightarrow> ('w, usize) user_action" where
  "user_get_time ecall = user_sys_get_time ecall"

definition user_getpid :: "'w ecall \<Rightarrow> ('w, usize) user_action" where
  "user_getpid ecall = user_sys_getpid ecall"

definition user_fork :: "'w ecall \<Rightarrow> ('w, usize) user_action" where
  "user_fork ecall = user_sys_fork ecall"

definition user_exec :: "'w ecall \<Rightarrow> user_slice \<Rightarrow> ('w, usize) user_action" where
  "user_exec ecall path' = user_sys_exec ecall path'"

text \<open>Waiting polls the kernel, and gives up the processor as long as the answer is \<open>-2\<close>.\<close>

partial_function (option) wait_loop ::
    "'w ecall \<Rightarrow> usize \<Rightarrow> usize \<Rightarrow> user_regs \<times> 'w \<Rightarrow> (panic + usize \<times> user_regs \<times> 'w) option" where
  "wait_loop ecall pid code_ptr s =
     (case user_sys_waitpid ecall pid code_ptr s of
        Inl e \<Rightarrow> Some (Inl e)
      | Inr (r, s) \<Rightarrow>
          if r = - 2 then
            (case user_yield ecall s of
               Inl e \<Rightarrow> Some (Inl e)
             | Inr (_, s) \<Rightarrow> wait_loop ecall pid code_ptr s)
          else Some (Inr (r, s)))"

definition user_wait :: "'w ecall \<Rightarrow> usize \<Rightarrow> ('w, usize) user_action" where
  "user_wait ecall code_ptr = returning (wait_loop ecall (- 1) code_ptr)"

definition user_waitpid :: "'w ecall \<Rightarrow> usize \<Rightarrow> usize \<Rightarrow> ('w, usize) user_action" where
  "user_waitpid ecall pid code_ptr = returning (wait_loop ecall pid code_ptr)"

text \<open>Times are compared as signed integers; the addition wraps.\<close>

partial_function (option) sleep_loop ::
    "'w ecall \<Rightarrow> usize \<Rightarrow> user_regs \<times> 'w \<Rightarrow> (panic + unit \<times> user_regs \<times> 'w) option" where
  "sleep_loop ecall deadline s =
     (case user_sys_get_time ecall s of
        Inl e \<Rightarrow> Some (Inl e)
      | Inr (now, s) \<Rightarrow>
          if sint now < sint deadline then
            (case user_sys_yield ecall s of
               Inl e \<Rightarrow> Some (Inl e)
             | Inr (_, s) \<Rightarrow> sleep_loop ecall deadline s)
          else Some (Inr ((), s)))"

definition user_sleep :: "'w ecall \<Rightarrow> usize \<Rightarrow> ('w, unit) user_action" where
  "user_sleep ecall period_ms =
     bnd (user_sys_get_time ecall) (\<lambda>start. returning (sleep_loop ecall (start + period_ms)))"

text \<open>The entry point of a program, after its heap has been set up.\<close>

definition user_start :: "'w ecall \<Rightarrow> ('w, 32 word) user_action \<Rightarrow> ('w, 'a) user_action" where
  "user_start ecall main = bnd main (user_exit ecall)"

section \<open>Waiting\<close>

text \<open>One poll that says that the child still runs, and the yield after it.\<close>

definition still_running :: "'w ecall \<Rightarrow> usize \<Rightarrow> usize \<Rightarrow> user_regs \<times> 'w \<Rightarrow> user_regs \<times> 'w \<Rightarrow> bool" where
  "still_running ecall pid ptr s s' \<longleftrightarrow>
     (\<exists>s1 v. user_sys_waitpid ecall pid ptr s = Inr (- 2, s1) \<and> user_yield ecall s1 = Inr (v, s'))"

lemma wait_loop_polls:
  "(still_running ecall pid ptr)\<^sup>*\<^sup>* s s1 \<Longrightarrow> user_sys_waitpid ecall pid ptr s1 = Inr (r, s') \<Longrightarrow> r \<noteq> - 2 \<Longrightarrow>
    wait_loop ecall pid ptr s = Some (Inr (r, s'))"
proof (induction rule: converse_rtranclp_induct)
  case base
  then show ?case by (simp add: wait_loop.simps [of ecall pid ptr s1])
next
  case (step s s2)
  then obtain s3 v where "user_sys_waitpid ecall pid ptr s = Inr (- 2, s3)" "user_yield ecall s3 = Inr (v, s2)"
    by (auto simp: still_running_def)
  with step show ?case by (simp add: wait_loop.simps [of ecall pid ptr s])
qed

lemma wait_loop_result:
  assumes "wait_loop ecall pid ptr s = Some y" and "y = Inr (r, s')"
  shows "r \<noteq> - 2 \<and> (\<exists>s1. (still_running ecall pid ptr)\<^sup>*\<^sup>* s s1 \<and> user_sys_waitpid ecall pid ptr s1 = Inr (r, s'))"
  using assms
proof (induction rule: wait_loop.raw_induct [rotated, consumes 1, case_names step])
  case (step f ecall pid ptr s y)
  show ?case
  proof (cases "user_sys_waitpid ecall pid ptr s")
    case (Inr a)
    obtain r1 s1 where a: "a = (r1, s1)" by (cases a)
    show ?thesis
    proof (cases "r1 = - 2")
      case True
      then obtain v s2 where y: "user_yield ecall s1 = Inr (v, s2)" "f ecall pid ptr s2 = Some y"
        using step.prems Inr a step.hyps by (auto split: sum.splits)
      have "still_running ecall pid ptr s s2" using Inr a True y(1) by (auto simp: still_running_def)
      with step.IH [OF y(2) step.prems] show ?thesis by (meson converse_rtranclp_into_rtranclp)
    next
      case False
      then have "y = Inr (r1, s1)" using step.hyps Inr a by simp
      then show ?thesis using False step.prems Inr a by (intro conjI exI [of _ s]) auto
    qed
  qed (use step in auto)
qed

lemma user_waitpid_iff:
  "user_waitpid ecall pid ptr s = Inr (r, s') \<longleftrightarrow>
     r \<noteq> - 2 \<and> (\<exists>s1. (still_running ecall pid ptr)\<^sup>*\<^sup>* s s1 \<and> user_sys_waitpid ecall pid ptr s1 = Inr (r, s'))"
proof
  assume "user_waitpid ecall pid ptr s = Inr (r, s')"
  then have "wait_loop ecall pid ptr s = Some (Inr (r, s'))"
    by (simp add: user_waitpid_def returning_def split: option.splits)
  then show "r \<noteq> - 2 \<and> (\<exists>s1. (still_running ecall pid ptr)\<^sup>*\<^sup>* s s1 \<and> user_sys_waitpid ecall pid ptr s1 = Inr (r, s'))"
    by (rule wait_loop_result) simp
next
  assume "r \<noteq> - 2 \<and> (\<exists>s1. (still_running ecall pid ptr)\<^sup>*\<^sup>* s s1 \<and> user_sys_waitpid ecall pid ptr s1 = Inr (r, s'))"
  then have "wait_loop ecall pid ptr s = Some (Inr (r, s'))" using wait_loop_polls by blast
  then show "user_waitpid ecall pid ptr s = Inr (r, s')" by (simp add: user_waitpid_def returning_def)
qed

section \<open>Sleeping\<close>

text \<open>A look at the clock before the deadline, and the yield after it.\<close>

definition not_yet :: "'w ecall \<Rightarrow> usize \<Rightarrow> user_regs \<times> 'w \<Rightarrow> user_regs \<times> 'w \<Rightarrow> bool" where
  "not_yet ecall deadline s s' \<longleftrightarrow>
     (\<exists>now s1 v. user_sys_get_time ecall s = Inr (now, s1) \<and> sint now < sint deadline \<and> user_sys_yield ecall s1 = Inr (v, s'))"

lemma sleep_loop_waits:
  "(not_yet ecall deadline)\<^sup>*\<^sup>* s s1 \<Longrightarrow> user_sys_get_time ecall s1 = Inr (now, s') \<Longrightarrow> sint deadline \<le> sint now \<Longrightarrow>
    sleep_loop ecall deadline s = Some (Inr ((), s'))"
proof (induction rule: converse_rtranclp_induct)
  case base
  then show ?case by (simp add: sleep_loop.simps [of ecall deadline s1])
next
  case (step s s2)
  then obtain now s3 v where "user_sys_get_time ecall s = Inr (now, s3)" "sint now < sint deadline"
    "user_sys_yield ecall s3 = Inr (v, s2)" by (auto simp: not_yet_def)
  with step show ?case by (simp add: sleep_loop.simps [of ecall deadline s])
qed

lemma sleep_loop_result:
  assumes "sleep_loop ecall deadline s = Some y" and "y = Inr ((), s')"
  shows "\<exists>s1 now. (not_yet ecall deadline)\<^sup>*\<^sup>* s s1 \<and> user_sys_get_time ecall s1 = Inr (now, s') \<and> sint deadline \<le> sint now"
  using assms
proof (induction rule: sleep_loop.raw_induct [rotated, consumes 1, case_names step])
  case (step f ecall deadline s y)
  show ?case
  proof (cases "user_sys_get_time ecall s")
    case (Inr a)
    obtain now s1 where a: "a = (now, s1)" by (cases a)
    show ?thesis
    proof (cases "sint now < sint deadline")
      case True
      then obtain v s2 where y: "user_sys_yield ecall s1 = Inr (v, s2)" "f ecall deadline s2 = Some y"
        using step.prems Inr a step.hyps by (auto split: sum.splits)
      have "not_yet ecall deadline s s2" using Inr a True y(1) by (auto simp: not_yet_def)
      with step.IH [OF y(2) step.prems] show ?thesis by (meson converse_rtranclp_into_rtranclp)
    next
      case False
      then have "y = Inr ((), s1)" using step.hyps Inr a by simp
      then show ?thesis using False step.prems Inr a by (intro exI [of _ s] exI [of _ now]) auto
    qed
  qed (use step in auto)
qed

lemma returning_sleep_iff:
  "returning (sleep_loop ecall deadline) s = Inr ((), s') \<longleftrightarrow>
     (\<exists>s1 now. (not_yet ecall deadline)\<^sup>*\<^sup>* s s1 \<and> user_sys_get_time ecall s1 = Inr (now, s') \<and> sint deadline \<le> sint now)"
proof
  assume "returning (sleep_loop ecall deadline) s = Inr ((), s')"
  then have "sleep_loop ecall deadline s = Some (Inr ((), s'))" by (simp add: returning_def split: option.splits)
  then show "\<exists>s1 now. (not_yet ecall deadline)\<^sup>*\<^sup>* s s1 \<and> user_sys_get_time ecall s1 = Inr (now, s') \<and> sint deadline \<le> sint now"
    by (rule sleep_loop_result) simp
next
  assume "\<exists>s1 now. (not_yet ecall deadline)\<^sup>*\<^sup>* s s1 \<and> user_sys_get_time ecall s1 = Inr (now, s') \<and> sint deadline \<le> sint now"
  then have "sleep_loop ecall deadline s = Some (Inr ((), s'))" using sleep_loop_waits by blast
  then show "returning (sleep_loop ecall deadline) s = Inr ((), s')" by (simp add: returning_def)
qed

lemma user_sleep_iff:
  "user_sleep ecall period s = Inr ((), s') \<longleftrightarrow>
     (\<exists>start s0 s1 now. user_sys_get_time ecall s = Inr (start, s0) \<and> (not_yet ecall (start + period))\<^sup>*\<^sup>* s0 s1 \<and>
        user_sys_get_time ecall s1 = Inr (now, s') \<and> sint (start + period) \<le> sint now)"
proof (cases "user_sys_get_time ecall s")
  case (Inr a)
  obtain start s0 where a: "a = (start, s0)" by (cases a)
  then have "user_sleep ecall period s = returning (sleep_loop ecall (start + period)) s0"
    using Inr by (simp add: user_sleep_def bnd_def)
  then show ?thesis
    using Inr a by (simp add: returning_sleep_iff del: split_paired_Ex)
qed (simp add: user_sleep_def bnd_def)

section \<open>The kernel behind \<open>ecall\<close>\<close>

text \<open>
  An \<open>ecall\<close> of the running program, as long as the kernel returns to it without switching to another
  task.
\<close>

definition kernel_ecall :: "platform \<Rightarrow> kernel ecall" where
  "kernel_ecall pf s =
     (case s of (rs, k) \<Rightarrow>
        (case user_trap pf UserEnvCall rs k of
           Inl e \<Rightarrow> Inl e
         | Inr (User rs, k) \<Rightarrow> Inr ((), (rs, k))
         | Inr (Idle, k) \<Rightarrow> Inl RunsForever))"

text \<open>Storing into a page that is not part of a buffer does not change what the program sees there.\<close>

lemma user_bytes_only_pages:
  assumes wf: "pt_wf l m pt" and only: "only_pages {p} m m'" and "p \<notin> set (pt_frames pt)" and "unat (ppn_0 p) < 2 ^ 44"
    and "Some (page_index p) \<notin> set (user_frames m pt s e)"
  shows "map (user_byte m' pt) [s..<e] = map (user_byte m pt) [s..<e]"
proof (rule map_cong [OF refl])
  fix a
  assume "a \<in> set [s..<e]"
  then have "a div 4096 \<in> set [s div 4096..<(e + 4095) div 4096]" by (simp add: div_le_mono) linarith
  then have "map_option (page_index \<circ> pte_ppn) (PageTable_translate m pt (VirtPageNum (word_of_nat (a div 4096)))) \<noteq>
      Some (page_index p)"
    using assms(5) unfolding user_frames_def set_map by (metis (no_types, lifting) imageI)
  moreover have "get_bytes_array m' q = get_bytes_array m q" if "page_index q \<noteq> page_index p" for q
    using only that by (simp add: only_pages_def get_bytes_array_def)
  moreover have "PageTable_translate m' pt v = PageTable_translate m pt v" for v
  proof (rule translate_same_frames [OF wf])
    fix q
    assume "q \<in> set (pt_frames pt)"
    then show "get_bytes_array m' q = get_bytes_array m q"
      using assms(3,4) wf by (intro only_pages_other [OF only]) (auto simp: pt_wf_def)
  qed
  ultimately show "user_byte m' pt a = user_byte m pt a"
    by (cases "PageTable_translate m pt (VirtPageNum (word_of_nat (a div 4096)))") (simp_all add: user_byte_def)
qed

lemma kernel_ecall_eq:
  assumes "stvec k = TRAMPOLINE" and "alltraps rs k = Inr (trap_handler_addr pf, k1)"
    and "trap_handler pf UserEnvCall k1 = Inr (User rs', k')"
  shows "kernel_ecall pf (rs, k) = Inr ((), (rs', k'))"
proof -
  have "user_trap pf UserEnvCall rs k = Inr (User rs', k')" using assms by (simp add: user_trap_Inr)
  then show ?thesis by (simp add: kernel_ecall_def)
qed

text \<open>The registers of a program when it executes the \<open>ecall\<close> of a system call.\<close>

definition call_regs :: "usize \<Rightarrow> usize \<times> usize \<times> usize \<Rightarrow> user_regs \<Rightarrow> user_regs" where
  "call_regs n args rs = (case args of (a0, a1, a2) \<Rightarrow> rs\<lparr>u_x := (u_x rs)[10 := a0, 11 := a1, 12 := a2, 17 := n]\<rparr>)"

lemma call_regs_x:
  assumes "length (u_x rs) = 32" and "u_x rs ! 0 = 0"
  shows "length (u_x (call_regs n (a0, a1, a2) rs)) = 32" "u_x (call_regs n (a0, a1, a2) rs) ! 0 = 0"
    "u_x (call_regs n (a0, a1, a2) rs) ! 17 = n" "u_x (call_regs n (a0, a1, a2) rs) ! 10 = a0"
    "u_x (call_regs n (a0, a1, a2) rs) ! 11 = a1" "u_x (call_regs n (a0, a1, a2) rs) ! 12 = a2"
    "u_sepc (call_regs n (a0, a1, a2) rs) = u_sepc rs"
  using assms by (simp_all add: call_regs_def)

lemma user_syscall_eq:
  assumes "kernel_ecall pf (call_regs n args rs, k) = Inr ((), (rs', k'))"
  shows "user_syscall (kernel_ecall pf) n args (rs, k) = Inr (u_x rs' ! 10, (rs', k'))"
  using assms by (cases args) (simp add: user_syscall_def call_regs_def action_defs)

section \<open>Properties\<close>

text \<open>
  C4: A program that calls \<open>write\<close> of its library on a file open for writing, with a non-empty buffer and room
  on the device, from the call to the return: the
  stub puts the arguments into registers and traps through the trap vector into the trampoline, the
  kernel saves the registers, jumps to the handler whose address the trap context holds, dispatches the
  call, finds the bytes through the program's page table, writes them to the file and returns, and the
  program goes on at the next instruction with the number of bytes as the result. The file holds the
  bytes of the buffer, from the offset on; no other file changes, no register of the program but those
  of the call, and no memory but the page of the trap context. The trap vector and the handler's address
  in the trap context are there again for the next call.
\<close>

theorem write_end_to_end:
  assumes "trap_ready l k r t pte" and "pt = ms_page_table (memory_set t)" and "satp k = PageTable_token pt"
    and "length (u_x rs) = 32" and "u_x rs ! 0 = 0"
    and "stvec k = TRAMPOLINE" and "tc_get (k_mm k) (trap_cx_ppn t) 36 = trap_handler_addr pf"
    and "open_at k fd t f o'" and "os_writable o'" and "os_inode o' = Inode_of fs i"
    and "fs_inv fs (disk k)" and "fs_abs fs (disk k) i = Some (ty, bs)"
    and "unat buf + unat len < 2 ^ 38" and "0 < len"
    and "map Some data = map (user_byte (k_mm k) pt) [unat buf..<unat buf + unat len]"
    and "Some (page_index (trap_cx_ppn t)) \<notin> set (user_frames (k_mm k) pt (unat buf) (unat buf + unat len))"
    and "room_for fs (disk k) (length bs) (os_offset o' + unat len)"
  shows "\<exists>k'. user_write (kernel_ecall pf) fd \<lparr>us_ptr = buf, us_len = len\<rparr> (rs, k) =
      Inr (len, (rs\<lparr>u_x := (u_x rs)[10 := len, 11 := buf, 12 := len, 17 := USER_SYSCALL_WRITE], u_sepc := u_sepc rs + 4\<rparr>, k')) \<and>
    fs_abs fs (disk k') = (fs_abs fs (disk k))(i \<mapsto> (ty, write_bytes (os_offset o') data bs)) \<and>
    os_files k' = (os_files k)(f \<mapsto> o'\<lparr>os_offset := os_offset o' + unat len\<rparr>) \<and>
    tcbs k' = tcbs k \<and> current k' = current k \<and> satp k' = satp k \<and> only_pages {trap_cx_ppn t} (k_mm k) (k_mm k') \<and>
    stvec k' = TRAMPOLINE \<and> tc_get (k_mm k') (trap_cx_ppn t) 36 = trap_handler_addr pf"
proof -
  let ?rs = "call_regs USER_SYSCALL_WRITE (fd, buf, len) rs" and ?p = "trap_cx_ppn t"
  let ?k1 = "at_dispatch pf ?rs t k"
  have wf: "pt_wf l (k_mm k) pt" "?p \<notin> set (pt_frames pt)" "unat (ppn_0 ?p) < 2 ^ 44" "unat (ppn_0 (root_ppn pt)) < 2 ^ 44"
    using assms(1,2) unat_pte_ppn(1) [of pte] by (auto simp: trap_ready_def Let_def simp del: unat_pte_ppn)
  note ok = pt_wf_root(1) [OF wf(1)] and x = call_regs_x [OF assms(4,5), of USER_SYSCALL_WRITE fd buf len]
  note d = at_dispatch_mm [OF ok, where pf = pf and rs = ?rs and t = t]
  have k1: "open_at ?k1 fd t f o'" "disk ?k1 = disk k" "tp ?k1 = u_x ?rs ! 4" "current ?k1 = current k" "tcbs ?k1 = tcbs k"
      "os_files ?k1 = os_files k"
    using assms(8) by (simp_all add: open_at_def at_dispatch_def Let_def)
  have data: "map Some data = map (user_byte (k_mm ?k1) pt) [unat buf..<unat buf + unat len]"
    using assms(15) user_bytes_only_pages [OF wf(1) d(2) wf(2,3) assms(16)] by (simp only:)
  have "\<exists>s'. sys_write fd buf len ?k1 = Inr (Returns len,
        ?k1\<lparr>disk := s', os_files := (os_files ?k1)(f \<mapsto> o'\<lparr>os_offset := os_offset o' + unat len\<rparr>)\<rparr>) \<and>
      fs_inv fs s' \<and> fs_abs fs s' = (fs_abs fs (disk ?k1))(i \<mapsto> (ty, write_bytes (os_offset o') data bs))"
    by (rule sys_write_file [OF k1(1) assms(9,10)]) (use assms(2,11-14,17) d(1) wf(4) data in \<open>simp_all add: k1(2)\<close>)
  then obtain s' where run: "sys_write fd buf len ?k1 = Inr (Returns len,
        ?k1\<lparr>disk := s', os_files := (os_files k)(f \<mapsto> o'\<lparr>os_offset := os_offset o' + unat len\<rparr>)\<rparr>)"
      and s': "fs_abs fs s' = (fs_abs fs (disk k))(i \<mapsto> (ty, write_bytes (os_offset o') data bs))"
    unfolding k1(2,6) by (elim exE conjE)
  let ?k2 = "?k1\<lparr>disk := s', os_files := (os_files k)(f \<mapsto> o'\<lparr>os_offset := os_offset o' + unat len\<rparr>)\<rparr>"
  let ?k' = "?k2\<lparr>k_mm := tc_set ?p 10 len (k_mm ?k2), stvec := TRAMPOLINE, satp := satp k\<rparr>"
  have "syscall pf USER_SYSCALL_WRITE (fd, buf, len) ?k1 = sys_write fd buf len ?k1"
    by (simp add: syscall_def USER_SYSCALL_WRITE_def SYSCALL_OPEN_def SYSCALL_CLOSE_def SYSCALL_READ_def SYSCALL_WRITE_def)
  then have "syscall pf (u_x ?rs ! 17) (u_x ?rs ! 10, u_x ?rs ! 11, u_x ?rs ! 12) ?k1 = Inr (Returns len, ?k2)"
    unfolding x(3-6) run .
  moreover have "trap_ready l ?k2 r t pte"
    by (rule trap_ready_only_pages [OF assms(1)]) (use d(2) k1 in simp_all)
  ultimately obtain k0 where "alltraps ?rs k = Inr (trap_handler_addr pf, k0)"
      "trap_handler pf UserEnvCall k0 = Inr (User (?rs\<lparr>u_x := (u_x ?rs)[10 := len], u_sepc := u_sepc ?rs + 4\<rparr>), ?k')"
    using system_call_returns [OF assms(1) _ x(1,2), where pf = pf and v = len and ?k2.0 = ?k2 and t' = t] assms(2,3,7) k1(3) by simp blast
  from user_syscall_eq [OF kernel_ecall_eq [OF assms(6) this]]
  have "user_write (kernel_ecall pf) fd \<lparr>us_ptr = buf, us_len = len\<rparr> (rs, k) =
      Inr (len, (rs\<lparr>u_x := (u_x rs)[10 := len, 11 := buf, 12 := len, 17 := USER_SYSCALL_WRITE], u_sepc := u_sepc rs + 4\<rparr>, ?k'))"
    using assms(4) by (simp add: user_write_def user_sys_write_def call_regs_def list_update_swap)
  moreover have "only_pages {?p} (k_mm k) (k_mm ?k')"
    using only_pages_trans [OF d(2) tc_set_only_pages [OF d(1), of 10]] by simp
  moreover have "tc_get (k_mm ?k') ?p 36 = trap_handler_addr pf" using trap_word_kept [OF ok] assms(7) by simp
  ultimately show ?thesis using s' k1 by (intro exI [of _ ?k']) simp
qed

text \<open>The small machine with a page that holds a string and the page of the trap context mapped.\<close>

lemma TRAP_CONTEXT_VPN_eq: "TRAP_CONTEXT_VPN = VirtPageNum 0x7fffffe"
  unfolding TRAP_CONTEXT_VPN_def by code_simp

lemma both_mapped:
  obtains pt m pte where "pt_wf 2 m pt" and "root_ppn pt = PhysPageNum 2" and "pt_abs m pt TRAP_CONTEXT_VPN = Some pte"
    and "pte_ppn pte = PhysPageNum 0x51" and "PhysPageNum 0x51 \<notin> set (pt_frames pt)"
    and "PageTable_translate m pt (VirtPageNum 0x10) = Some (PageTableEntry_new (PhysPageNum 0x50) (PTE_R OR PTE_V))"
    and "get_bytes_array m (PhysPageNum 0x50) = [104, 105] @ replicate 4094 0"
proof -
  let ?e = "PageTableEntry_new (PhysPageNum 0x50) (PTE_R OR PTE_V)" and ?x = "PageTableEntry_new (PhysPageNum 0x51) ((PTE_R OR PTE_W) OR PTE_V)"
  obtain pt1 m1 where g1: "pt_grown 2 20 tiny_mm tiny_pt m1 pt1" "length (pt_frames pt1) \<le> length (pt_frames tiny_pt) + 2"
      "pt_abs m1 pt1 = abs_update (VirtPageNum 0x10) (Some ?e) (pt_abs tiny_mm tiny_pt)"
    using wp_PageTable_map [OF tiny_ok, of "VirtPageNum 0x10" "PhysPageNum 0x50" PTE_R] by (auto simp: wp_iff)
  obtain new where new: "pt_frames pt1 = pt_frames tiny_pt @ new" "mm_free m1 = mm_free tiny_mm - set new" "distinct new"
    using g1(1) by (auto simp: pt_grown_def)
  have "{PhysPageNum 3, PhysPageNum 4, PhysPageNum 5, PhysPageNum 6} \<subseteq> mm_free tiny_mm" by (simp add: tiny_mm_def fa_free_def)
  from card_mono [OF _ this] have "4 \<le> card (mm_free tiny_mm)" by simp
  moreover have "card (set new) \<le> 2" using g1(2) new(1) card_length [of new] by simp
  ultimately have free: "2 \<le> card (mm_free m1)" using diff_card_le_card_Diff [of "set new" "mm_free tiny_mm"] new(2) by simp
  have other: "VirtPageNum_indexes TRAP_CONTEXT_VPN \<noteq> VirtPageNum_indexes (VirtPageNum 0x10)"
    by (simp add: TRAP_CONTEXT_VPN_eq indexes_inject)
  then have none: "pt_abs m1 pt1 TRAP_CONTEXT_VPN = None" by (simp add: g1(3) abs_update_def tiny_ok(4))
  have inv1: "mm_frames_inv 2 20 m1" "pt_wf 2 m1 pt1" using g1(1) by (simp_all add: pt_grown_def)
  obtain pt m where g2: "pt_grown 2 20 m1 pt1 m pt" "pt_abs m pt = abs_update TRAP_CONTEXT_VPN (Some ?x) (pt_abs m1 pt1)"
    using wp_PageTable_map [OF inv1 free none, of "PhysPageNum 0x51" "PTE_R OR PTE_W"] by (auto simp: wp_iff)
  have g: "pt_grown 2 20 tiny_mm tiny_pt m pt" by (rule pt_grown_trans [OF g1(1) g2(1)])
  then have "set (pt_frames pt) \<subseteq> insert (PhysPageNum 2) (mm_free tiny_mm)" by (auto simp: pt_grown_def tiny_pt_def)
  then have small: "unat (ppn_0 p) < 20" if "p \<in> set (pt_frames pt)" for p
    using that by (fastforce simp: tiny_mm_def fa_free_def)
  have "0x50 \<notin> page_index ` set (pt_frames pt)" using small by (fastforce simp: page_index_id)
  then have "get_bytes_array m (PhysPageNum 0x50) = [104, 105] @ replicate 4094 0"
    using g by (simp add: pt_grown_def tiny_mm_def get_bytes_array_def page_index_id)
  moreover have "pt_abs m pt (VirtPageNum 0x10) = Some ?e" using other by (simp add: g2(2) g1(3) abs_update_def)
  then have "PageTable_translate m pt (VirtPageNum 0x10) = Some ?e" by (auto simp: pt_abs_def split: option.splits if_splits)
  moreover have "pte_ppn ?x = PhysPageNum 0x51" by (rule pte_ppn_new) simp
  moreover have "PhysPageNum 0x51 \<notin> set (pt_frames pt)" using small [of "PhysPageNum 0x51"] by auto
  moreover have "pt_abs m pt TRAP_CONTEXT_VPN = Some ?x" by (simp add: g2(2) abs_update_def)
  ultimately show ?thesis using g that [of m pt ?x] by (auto simp: pt_grown_def tiny_pt_def)
qed

text \<open>The same with the address of the trap handler in the trap context.\<close>

lemma ready_for_call:
  obtains pt m pte where "pt_wf 2 m pt" and "root_ppn pt = PhysPageNum 2" and "pt_abs m pt TRAP_CONTEXT_VPN = Some pte"
    and "pte_ppn pte = PhysPageNum 0x51" and "PhysPageNum 0x51 \<notin> set (pt_frames pt)"
    and "PageTable_translate m pt (VirtPageNum 0x10) = Some (PageTableEntry_new (PhysPageNum 0x50) (PTE_R OR PTE_V))"
    and "get_bytes_array m (PhysPageNum 0x50) = [104, 105] @ replicate 4094 0"
    and "tc_get m (PhysPageNum 0x51) 36 = trap_handler_addr ex_pf"
proof (rule both_mapped)
  fix pt m pte
  assume wf: "pt_wf 2 m pt" and root: "root_ppn pt = PhysPageNum 2" and abs: "pt_abs m pt TRAP_CONTEXT_VPN = Some pte"
    and ppn: "pte_ppn pte = PhysPageNum 0x51" "PhysPageNum 0x51 \<notin> set (pt_frames pt)"
    and tr: "PageTable_translate m pt (VirtPageNum 0x10) = Some (PageTableEntry_new (PhysPageNum 0x50) (PTE_R OR PTE_V))"
    and bytes: "get_bytes_array m (PhysPageNum 0x50) = [104, 105] @ replicate 4094 0"
  let ?m = "tc_set (PhysPageNum 0x51) 36 (trap_handler_addr ex_pf) m"
  have ok: "memory_ok m" by (rule pt_wf_root(1) [OF wf])
  have only: "only_pages {PhysPageNum 0x51} m ?m" by (rule tc_set_only_pages [OF ok]) simp
  have other: "get_bytes_array ?m q = get_bytes_array m q" if "page_index q \<noteq> 0x51" for q
    using only that by (simp add: only_pages_def get_bytes_array_def page_index_id)
  have wf': "pt_wf 2 ?m pt" "pt_abs ?m pt = pt_abs m pt"
    using pt_wf_only_pages [OF wf only] ppn(2) by simp_all
  have "PageTable_translate ?m pt (VirtPageNum 0x10) = PageTable_translate m pt (VirtPageNum 0x10)"
  proof (rule translate_same_frames [OF wf])
    fix q
    assume "q \<in> set (pt_frames pt)"
    then show "get_bytes_array ?m q = get_bytes_array m q"
      using ppn(2) wf by (intro only_pages_other [OF only]) (auto simp: pt_wf_def)
  qed
  moreover have "tc_get ?m (PhysPageNum 0x51) 36 = trap_handler_addr ex_pf" by (simp add: tc_get_set [OF ok])
  ultimately show ?thesis
    using that [OF wf'(1) root, of pte] abs ppn tr bytes other [of "PhysPageNum 0x50"] wf'(2) by (simp add: page_index_id)
qed

theorem write_end_to_end_witness:
  "\<exists>m pt k rs rs' k'. k = (ex_files m pt one_file)\<lparr>satp := PageTable_token pt,
       tcbs := (tcbs (ex_kernel m pt))(1 \<mapsto> (ex_reader pt)\<lparr>trap_cx_ppn := PhysPageNum 0x51\<rparr>)\<rparr> \<and>
     rs = \<lparr>u_x = 0 # replicate 31 5, u_sstatus = 6, u_sepc = 0x10100\<rparr> \<and>
     user_write (kernel_ecall ex_pf) 0 \<lparr>us_ptr = 0x10000, us_len = 2\<rparr> (rs, k) = Inr (2, (rs', k')) \<and> u_sepc rs' = 0x10104 \<and>
     fs_abs fresh_fs (disk k') = [0 \<mapsto> (Directory, dir_bytes [([97], 1)]), 1 \<mapsto> (File, [104, 105])]"
proof (rule ready_for_call)
  fix pt m pte
  assume wf: "pt_wf 2 m pt" and root: "root_ppn pt = PhysPageNum 2" and abs: "pt_abs m pt TRAP_CONTEXT_VPN = Some pte"
    and ppn: "pte_ppn pte = PhysPageNum 0x51" "PhysPageNum 0x51 \<notin> set (pt_frames pt)"
    and tr: "PageTable_translate m pt (VirtPageNum 0x10) = Some (PageTableEntry_new (PhysPageNum 0x50) (PTE_R OR PTE_V))"
    and bytes: "get_bytes_array m (PhysPageNum 0x50) = [104, 105] @ replicate 4094 0"
    and handler: "tc_get m (PhysPageNum 0x51) 36 = trap_handler_addr ex_pf"
  let ?t = "(ex_reader pt)\<lparr>trap_cx_ppn := PhysPageNum 0x51\<rparr>" and ?rs = "\<lparr>u_x = 0 # replicate 31 5, u_sstatus = 6, u_sepc = 0x10100\<rparr>"
  let ?k = "(ex_files m pt one_file)\<lparr>satp := PageTable_token pt, tcbs := (tcbs (ex_kernel m pt))(1 \<mapsto> ?t)\<rparr>"
  have pt: "pt = ms_page_table (memory_set ?t)" by (simp add: ex_reader_def)
  have ready: "trap_ready 2 ?k 1 ?t pte"
    using wf root abs ppn unfolding trap_ready_def pt [symmetric] by (simp add: ex_files_def ex_kernel_def)
  have op: "open_at ?k 0 ?t 0 ex_open" by (simp add: open_at_def ex_files_def ex_reader_def ex_kernel_def)
  have vector: "stvec ?k = TRAMPOLINE" by (simp add: ex_files_def ex_kernel_def)
  have frames: "user_frames m pt 0x10000 0x10002 = [Some 0x50]"
    using tr by (simp add: user_frames_def upt_rec pte_ppn_new page_index_id)
  have "\<exists>k'. user_write (kernel_ecall ex_pf) 0 \<lparr>us_ptr = 0x10000, us_len = 2\<rparr> (?rs, ?k) =
      Inr (2, (?rs\<lparr>u_x := (u_x ?rs)[10 := 2, 11 := 0x10000, 12 := 2, 17 := USER_SYSCALL_WRITE], u_sepc := u_sepc ?rs + 4\<rparr>, k')) \<and>
    fs_abs fresh_fs (disk k') = (fs_abs fresh_fs (disk ?k))(1 \<mapsto> (File, write_bytes (os_offset ex_open) [104, 105] [])) \<and>
    os_files k' = (os_files ?k)(0 \<mapsto> ex_open\<lparr>os_offset := os_offset ex_open + unat (2 :: usize)\<rparr>) \<and>
    tcbs k' = tcbs ?k \<and> current k' = current ?k \<and> satp k' = satp ?k \<and> only_pages {trap_cx_ppn ?t} (k_mm ?k) (k_mm k') \<and>
    stvec k' = TRAMPOLINE \<and> tc_get (k_mm k') (trap_cx_ppn ?t) 36 = trap_handler_addr ex_pf"
    by (rule write_end_to_end [OF ready pt _ _ _ vector _ op])
      (use handler one_file(2) one_file_room [of 0 "Suc (Suc 0)"] ex_bytes(1) [OF tr bytes] frames in \<open>simp_all add: one_file(3) page_index_id\<close>)
  then obtain k' where k': "user_write (kernel_ecall ex_pf) 0 \<lparr>us_ptr = 0x10000, us_len = 2\<rparr> (?rs, ?k) =
      Inr (2, (?rs\<lparr>u_x := (u_x ?rs)[10 := 2, 11 := 0x10000, 12 := 2, 17 := USER_SYSCALL_WRITE], u_sepc := u_sepc ?rs + 4\<rparr>, k'))"
    "fs_abs fresh_fs (disk k') = (fs_abs fresh_fs (disk ?k))(1 \<mapsto> (File, write_bytes (os_offset ex_open) [104, 105] []))"
    by (elim exE conjE)
  have fs: "fs_abs fresh_fs (disk k') = [0 \<mapsto> (Directory, dir_bytes [([97], 1)]), 1 \<mapsto> (File, [104, 105])]"
    using k'(2) by (simp add: one_file(3) write_bytes_def splice_at_def)
  have "u_sepc (?rs\<lparr>u_x := (u_x ?rs)[10 := 2, 11 := 0x10000, 12 := 2, 17 := USER_SYSCALL_WRITE], u_sepc := u_sepc ?rs + 4\<rparr>) = 0x10104"
    by simp
  then show ?thesis
    by (intro exI [of _ m] exI [of _ pt] exI [of _ ?k] exI [of _ ?rs] exI conjI) (rule refl k'(1) fs | assumption)+
qed

text \<open>
  C15: \<open>waitpid\<close> of the library returns exactly when some poll of the kernel gives an answer
  other than \<open>-2\<close> after polls that all said \<open>-2\<close>, each followed by a yield, and it then returns
  that answer: a caller never sees \<open>-2\<close>, and no answer is lost. \<open>wait\<close> is the same for any child.
\<close>

theorem waitpid_returns_first_answer:
  "(user_waitpid ecall pid ptr s = Inr (r, s') \<longleftrightarrow>
      r \<noteq> - 2 \<and> (\<exists>s1. (still_running ecall pid ptr)\<^sup>*\<^sup>* s s1 \<and> user_sys_waitpid ecall pid ptr s1 = Inr (r, s'))) \<and>
   user_wait ecall ptr = user_waitpid ecall (- 1) ptr"
  by (intro conjI user_waitpid_iff) (simp add: user_wait_def user_waitpid_def)

end
