(* ===== verification/Block_Cache.thy ===== *)
theory Block_Cache
  imports Block_Store
begin

text \<open>
  The block cache (\<open>src/easy-fs/src/block_cache.rs\<close>): a queue of at most 16 cached blocks, each
  behind a reference count and a spin lock, and the devices they were loaded from. A modified
  block is written back when it is dropped from the queue or synced. The clients' accesses
  are shown to behave like accesses to the uncached blocks of \<open>Block_Store\<close>.
\<close>

section \<open>Cached blocks\<close>

record block_cache =
  cache :: "byte list"
  block_id :: nat
  cache_device :: nat
  modified :: bool

text \<open>An \<open>Arc<Mutex<BlockCache>>\<close>: the block, its lock and its reference count.\<close>

record shared_cache =
  guarded :: block_cache
  locked :: bool
  strong_count :: nat

text \<open>
  The state: the queue of \<open>BLOCK_CACHE_MANAGER\<close> and the devices, by number (the
  \<open>Arc<dyn BlockDevice>\<close> of the code). A clone of a shared cache is denoted by the number of
  its block: the queue holds at most one cache of a number and never drops one that has
  clones.
\<close>

record 'd bcm =
  queue :: "(nat \<times> shared_cache) list"
  devices :: "nat \<Rightarrow> 'd"

type_synonym 'd reader = "nat \<Rightarrow> byte list \<Rightarrow> ('d, byte list) action"
type_synonym 'd writer = "nat \<Rightarrow> byte list \<Rightarrow> ('d, unit) action"
type_synonym ('d, 'a) bcm_action = "('d bcm, 'a) action"

definition on_device :: "nat \<Rightarrow> ('d, 'a) action \<Rightarrow> ('d, 'a) bcm_action" where
  "on_device dv = on (\<lambda>s. devices s dv) (\<lambda>d s. s\<lparr>devices := (devices s)(dv := d)\<rparr>)"

definition BlockCache_new :: "'d reader \<Rightarrow> nat \<Rightarrow> nat \<Rightarrow> ('d, block_cache) bcm_action" where
  "BlockCache_new rd bid dv =
     bnd (on_device dv (rd bid (replicate BLOCK_SZ 0))) (\<lambda>buf.
     ret \<lparr>cache = buf, block_id = bid, cache_device = dv, modified = False\<rparr>)"

text \<open>
  The index check of \<open>addr_of_offset\<close> follows from the assertion, since no type that is read or written has
  size 0: it could only fail for an empty value at the very end of a block.
\<close>

definition BlockCache_get_ref :: "'a view \<Rightarrow> block_cache \<Rightarrow> nat \<Rightarrow> ('s, 'a) action" where
  "BlockCache_get_ref V c offset =
     thn (assert_that (offset + v_size V \<le> BLOCK_SZ)) (ret (view_at V offset (cache c)))"

text \<open>
  \<open>get_mut\<close> marks the block as modified; what the caller stores through the reference it
  returns is stored by \<open>BlockCache_store\<close>.
\<close>

definition BlockCache_get_mut :: "'a view \<Rightarrow> block_cache \<Rightarrow> nat \<Rightarrow> ('s, 'a \<times> block_cache) action" where
  "BlockCache_get_mut V c offset =
     thn (assert_that (offset + v_size V \<le> BLOCK_SZ))
       (ret (view_at V offset (cache c), c\<lparr>modified := True\<rparr>))"

definition BlockCache_store :: "'a view \<Rightarrow> nat \<Rightarrow> 'a \<Rightarrow> block_cache \<Rightarrow> block_cache" where
  "BlockCache_store V offset x c = c\<lparr>cache := put_at V offset x (cache c)\<rparr>"

definition BlockCache_sync :: "'d writer \<Rightarrow> block_cache \<Rightarrow> ('d, block_cache) bcm_action" where
  "BlockCache_sync wr c =
     (if modified c
      then thn (on_device (cache_device c) (wr (block_id c) (cache c))) (ret (c\<lparr>modified := False\<rparr>))
      else ret c)"

definition BlockCache_drop :: "'d writer \<Rightarrow> block_cache \<Rightarrow> ('d, unit) bcm_action" where
  "BlockCache_drop wr c = thn (BlockCache_sync wr c) (ret ())"

section \<open>The manager\<close>

definition BlockCacheManager_new :: "(nat \<times> shared_cache) list" where
  "BlockCacheManager_new = []"

primrec find_cache :: "nat \<Rightarrow> (nat \<times> shared_cache) list \<Rightarrow> shared_cache option" where
  "find_cache bid [] = None"
| "find_cache bid (p # q) = (if fst p = bid then Some (snd p) else find_cache bid q)"

primrec set_cache :: "nat \<Rightarrow> shared_cache \<Rightarrow> (nat \<times> shared_cache) list \<Rightarrow> (nat \<times> shared_cache) list" where
  "set_cache bid c [] = []"
| "set_cache bid c (p # q) = (if fst p = bid then (bid, c) # q else p # set_cache bid c q)"

text \<open>The first cache without clones, and the queue without it.\<close>

primrec drain_unused ::
    "(nat \<times> shared_cache) list \<Rightarrow> (block_cache \<times> (nat \<times> shared_cache) list) option" where
  "drain_unused [] = None"
| "drain_unused (p # q) =
     (if strong_count (snd p) = 1 then Some (guarded (snd p), q)
      else (case drain_unused q of None \<Rightarrow> None | Some (c, q') \<Rightarrow> Some (c, p # q')))"

definition substitute :: "'d writer \<Rightarrow> ('d, unit) bcm_action" where
  "substitute wr =
     bnd (gets queue) (\<lambda>q.
     if length q = BLOCK_CACHE_SIZE
     then (case drain_unused q of
             None \<Rightarrow> fail RunOutOfBlockCache
           | Some (c, q') \<Rightarrow> thn (upd (\<lambda>s. s\<lparr>queue := q'\<rparr>)) (BlockCache_drop wr c))
     else ret ())"

definition get_block_cache :: "'d reader \<Rightarrow> 'd writer \<Rightarrow> nat \<Rightarrow> nat \<Rightarrow> ('d, nat) bcm_action" where
  "get_block_cache rd wr bid dv =
     bnd (gets (\<lambda>s. find_cache bid (queue s))) (\<lambda>found.
     case found of
       Some c \<Rightarrow> thn (upd (\<lambda>s. s\<lparr>queue := set_cache bid (c\<lparr>strong_count := strong_count c + 1\<rparr>) (queue s)\<rparr>)) (ret bid)
     | None \<Rightarrow>
         thn (substitute wr)
         (bnd (BlockCache_new rd bid dv) (\<lambda>c.
          thn (upd (\<lambda>s. s\<lparr>queue := queue s @ [(bid, \<lparr>guarded = c, locked = False, strong_count = 2\<rparr>)]\<rparr>))
          (ret bid))))"

section \<open>Locks and accesses\<close>

definition the_cache :: "nat \<Rightarrow> ('d, shared_cache) bcm_action" where
  "the_cache h = bnd (gets (\<lambda>s. find_cache h (queue s))) unwrap"

definition put_cache :: "nat \<Rightarrow> shared_cache \<Rightarrow> ('d, unit) bcm_action" where
  "put_cache h c = upd (\<lambda>s. s\<lparr>queue := set_cache h c (queue s)\<rparr>)"

definition lock :: "nat \<Rightarrow> ('d, unit) bcm_action" where
  "lock h = bnd (the_cache h) (\<lambda>e. if locked e then fail Deadlock else put_cache h (e\<lparr>locked := True\<rparr>))"

text \<open>The guard and then the clone go out of scope.\<close>

definition unlock :: "nat \<Rightarrow> ('d, unit) bcm_action" where
  "unlock h = bnd (the_cache h) (\<lambda>e. put_cache h (e\<lparr>locked := False\<rparr>))"

definition drop_clone :: "nat \<Rightarrow> ('d, unit) bcm_action" where
  "drop_clone h = bnd (the_cache h) (\<lambda>e. put_cache h (e\<lparr>strong_count := strong_count e - 1\<rparr>))"

text \<open>The typed reference into the block that \<open>get_ref\<close> and \<open>get_mut\<close> give to the closure.\<close>

definition BlockCache_read :: "'a view \<Rightarrow> nat \<Rightarrow> nat \<Rightarrow> ('a \<Rightarrow> ('d, 'v) bcm_action) \<Rightarrow> ('d, 'v) bcm_action" where
  "BlockCache_read V h offset f =
     bnd (the_cache h) (\<lambda>e.
     bnd (BlockCache_get_ref V (guarded e) offset) f)"

definition store_back :: "'a view \<Rightarrow> nat \<Rightarrow> nat \<Rightarrow> 'v \<times> 'a \<Rightarrow> ('d, 'v) bcm_action" where
  "store_back V h offset r =
     bnd (the_cache h) (\<lambda>e.
     thn (put_cache h (e\<lparr>guarded := BlockCache_store V offset (snd r) (guarded e)\<rparr>))
     (ret (fst r)))"

definition BlockCache_modify ::
    "'a view \<Rightarrow> nat \<Rightarrow> nat \<Rightarrow> ('a \<Rightarrow> ('d, 'v \<times> 'a) bcm_action) \<Rightarrow> ('d, 'v) bcm_action" where
  "BlockCache_modify V h offset f =
     bnd (the_cache h) (\<lambda>e.
     bnd (BlockCache_get_mut V (guarded e) offset) (\<lambda>(x, c).
     thn (put_cache h (e\<lparr>guarded := c\<rparr>))
     (bnd (f x) (store_back V h offset))))"

text \<open>\<open>get_block_cache(id, dev).lock().read(offset, f)\<close> and \<open>.modify(offset, f)\<close>.\<close>

definition cache_read ::
    "'d reader \<Rightarrow> 'd writer \<Rightarrow> 'a view \<Rightarrow> nat \<Rightarrow> nat \<Rightarrow> nat \<Rightarrow> ('a \<Rightarrow> ('d, 'v) bcm_action) \<Rightarrow> ('d, 'v) bcm_action" where
  "cache_read rd wr V bid dv offset f =
     bnd (get_block_cache rd wr bid dv) (\<lambda>h.
     thn (lock h)
     (bnd (BlockCache_read V h offset f) (\<lambda>v.
      thn (unlock h) (thn (drop_clone h) (ret v)))))"

definition cache_modify ::
    "'d reader \<Rightarrow> 'd writer \<Rightarrow> 'a view \<Rightarrow> nat \<Rightarrow> nat \<Rightarrow> nat \<Rightarrow>
      ('a \<Rightarrow> ('d, 'v \<times> 'a) bcm_action) \<Rightarrow> ('d, 'v) bcm_action" where
  "cache_modify rd wr V bid dv offset f =
     bnd (get_block_cache rd wr bid dv) (\<lambda>h.
     thn (lock h)
     (bnd (BlockCache_modify V h offset f) (\<lambda>v.
      thn (unlock h) (thn (drop_clone h) (ret v)))))"

definition sync_one :: "'d writer \<Rightarrow> nat \<Rightarrow> ('d, unit) bcm_action" where
  "sync_one wr h =
     thn (lock h)
     (bnd (the_cache h) (\<lambda>e.
      bnd (BlockCache_sync wr (guarded e)) (\<lambda>c.
      thn (put_cache h (e\<lparr>guarded := c\<rparr>))
      (unlock h))))"

definition block_cache_sync_all :: "'d writer \<Rightarrow> ('d, unit) bcm_action" where
  "block_cache_sync_all wr = bnd (gets queue) (\<lambda>q. for_each (sync_one wr) (map fst q))"

section \<open>The queue\<close>

lemma find_cache_map_of: "find_cache i q = map_of q i"
  by (induction q) auto

lemma set_cache_fst [simp]: "map fst (set_cache i e q) = map fst q"
  by (induction q) auto

lemma set_cache_length [simp]: "length (set_cache i e q) = length q"
  by (induction q) auto

lemma set_cache_map_of:
  "map_of (set_cache i e q) j = (if j = i \<and> map_of q i \<noteq> None then Some e else map_of q j)"
  by (induction q) auto

lemma set_cache_twice [simp]: "set_cache i e (set_cache i e' q) = set_cache i e q"
  by (induction q) auto

lemma set_cache_snoc: "map_of q i = None \<Longrightarrow> set_cache i e (q @ [(i, e')]) = q @ [(i, e)]"
  by (induction q) (auto split: if_splits)

lemma drain_unused_None: "drain_unused q = None \<longleftrightarrow> (\<forall>p \<in> set q. strong_count (snd p) \<noteq> 1)"
  by (induction q) (auto split: option.splits)

lemma drain_unused_Some:
  "drain_unused q = Some (c, q') \<Longrightarrow>
    \<exists>xs i e ys. q = xs @ (i, e) # ys \<and> q' = xs @ ys \<and> c = guarded e \<and> strong_count e = 1"
proof (induction q arbitrary: q')
  case Nil
  then show ?case by simp
next
  case (Cons p q)
  show ?case
  proof (cases "strong_count (snd p) = 1")
    case True
    with Cons.prems have "p # q = [] @ (fst p, snd p) # q" "q' = [] @ q" "c = guarded (snd p)" by simp_all
    with True show ?thesis by blast
  next
    case False
    with Cons.prems obtain q'' where q'': "drain_unused q = Some (c, q'')" "q' = p # q''"
      by (auto split: option.splits)
    from Cons.IH [OF q''(1)] obtain xs i e ys
      where "q = xs @ (i, e) # ys" "q'' = xs @ ys" "c = guarded e" "strong_count e = 1" by blast
    with q''(2) have "p # q = (p # xs) @ (i, e) # ys" "q' = (p # xs) @ ys" by simp_all
    with \<open>c = guarded e\<close> \<open>strong_count e = 1\<close> show ?thesis by blast
  qed
qed

text \<open>Dropping an entry of a queue without duplicates.\<close>

lemma map_of_drop_entry:
  assumes "distinct (map fst (xs @ (i, e) # ys))"
  shows "map_of (xs @ ys) j = (if j = i then None else map_of (xs @ (i, e) # ys) j)"
proof -
  have "i \<notin> fst ` set xs" "i \<notin> fst ` set ys" using assms by auto
  then have "map_of xs i = None" "map_of ys i = None" by (simp_all add: map_of_eq_None_iff)
  then show ?thesis by (auto simp: map_add_def split: option.splits)
qed

section \<open>The cache and the blocks it stands for\<close>

text \<open>
  \<open>nb d\<close> and \<open>blk d b\<close> are the number of blocks of a device and its blocks. A cached block
  that is not modified agrees with the device; a block is locked while it has one clone.
\<close>

definition entry_ok :: "nat \<Rightarrow> (nat \<Rightarrow> byte list) \<Rightarrow> nat \<Rightarrow> nat \<Rightarrow> shared_cache \<Rightarrow> bool" where
  "entry_ok n blk dv i e \<longleftrightarrow>
     i < n \<and> block_id (guarded e) = i \<and> cache_device (guarded e) = dv \<and> length (cache (guarded e)) = 512 \<and>
     (\<not> modified (guarded e) \<longrightarrow> cache (guarded e) = blk i) \<and>
     strong_count e = (if locked e then 2 else 1)"

lemma entry_ok_unlocked: "entry_ok n blk dv i e \<Longrightarrow> strong_count e = 1 \<longleftrightarrow> \<not> locked e"
  unfolding entry_ok_def by simp

definition cache_inv :: "('d \<Rightarrow> nat) \<Rightarrow> ('d \<Rightarrow> nat \<Rightarrow> byte list) \<Rightarrow> nat \<Rightarrow> 'd bcm \<Rightarrow> bool" where
  "cache_inv nb blk dv s \<longleftrightarrow>
     distinct (map fst (queue s)) \<and> length (queue s) \<le> 16 \<and>
     (\<forall>i e. map_of (queue s) i = Some e \<longrightarrow> entry_ok (nb (devices s dv)) (blk (devices s dv)) dv i e)"

definition logical :: "('d \<Rightarrow> nat \<Rightarrow> byte list) \<Rightarrow> nat \<Rightarrow> 'd bcm \<Rightarrow> nat \<Rightarrow> byte list" where
  "logical blk dv s b =
     (case find_cache b (queue s) of Some e \<Rightarrow> cache (guarded e) | None \<Rightarrow> blk (devices s dv) b)"

definition locks :: "'d bcm \<Rightarrow> nat set" where
  "locks s = {i. \<exists>e. map_of (queue s) i = Some e \<and> locked e}"

definition cache_rel :: "('d \<Rightarrow> nat) \<Rightarrow> ('d \<Rightarrow> nat \<Rightarrow> byte list) \<Rightarrow> nat \<Rightarrow> 'd bcm \<Rightarrow> store \<Rightarrow> bool" where
  "cache_rel nb blk dv s t \<longleftrightarrow>
     cache_inv nb blk dv s \<and> nblocks t = nb (devices s dv) \<and>
     (\<forall>b < nblocks t. blocks t b = logical blk dv s b) \<and>
     distinct (held t) \<and> set (held t) = locks s"

lemma locks_subset: "locks s \<subseteq> fst ` set (queue s)"
proof
  fix i
  assume "i \<in> locks s"
  then obtain e where "map_of (queue s) i = Some e" by (auto simp: locks_def)
  then show "i \<in> fst ` set (queue s)" by (metis domI dom_map_of_conv_image_fst)
qed

text \<open>Replacing an entry by another.\<close>

lemma cache_inv_set:
  assumes "cache_inv nb blk dv s" and "entry_ok (nb (devices s dv)) (blk (devices s dv)) dv i e"
  shows "cache_inv nb blk dv (s\<lparr>queue := set_cache i e (queue s)\<rparr>)"
  using assms by (simp add: cache_inv_def set_cache_map_of)

lemma locks_set:
  "map_of (queue s) i = Some e \<Longrightarrow>
    locks (s\<lparr>queue := set_cache i e' (queue s)\<rparr>) = (if locked e' then insert i (locks s) else locks s - {i})"
  by (auto simp: locks_def set_cache_map_of)

lemma logical_set:
  "map_of (queue s) i = Some e \<Longrightarrow>
    logical blk dv (s\<lparr>queue := set_cache i e' (queue s)\<rparr>) =
      (logical blk dv s)(i := cache (guarded e'))"
  by (auto simp: logical_def find_cache_map_of set_cache_map_of fun_eq_iff split: option.split)

lemma logical_cached: "map_of (queue s) i = Some e \<Longrightarrow> logical blk dv s i = cache (guarded e)"
  by (simp add: logical_def find_cache_map_of)

text \<open>Dropping an unlocked entry whose contents the device now has.\<close>

lemma cache_rel_drop:
  assumes rel: "cache_rel nb blk dv s t"
    and q: "queue s = xs @ (i, e) # ys" "\<not> locked e"
    and s': "queue s' = xs @ ys" "nb (devices s' dv) = nb (devices s dv)"
      "\<And>j. j < nb (devices s dv) \<Longrightarrow>
        blk (devices s' dv) j = (if j = i then cache (guarded e) else blk (devices s dv) j)"
  shows "cache_rel nb blk dv s' t"
proof -
  let ?n = "nb (devices s dv)"
  have inv: "distinct (map fst (queue s))" "length (queue s) \<le> 16"
    "\<And>j e. map_of (queue s) j = Some e \<Longrightarrow> entry_ok ?n (blk (devices s dv)) dv j e"
    and t: "nblocks t = ?n" "\<And>b. b < ?n \<Longrightarrow> blocks t b = logical blk dv s b" "distinct (held t)"
      "set (held t) = locks s"
    using rel by (auto simp: cache_rel_def cache_inv_def)
  have dist: "distinct (map fst (xs @ (i, e) # ys))" using inv(1) by (simp only: q(1))
  have m: "map_of (queue s') j = (if j = i then None else map_of (queue s) j)" for j
    unfolding s'(1) q(1) by (rule map_of_drop_entry [OF dist])
  have mi: "map_of (queue s) i = Some e"
    using inv(1) by (rule map_of_is_SomeI) (simp add: q(1))
  have "entry_ok ?n (blk (devices s' dv)) dv j e'" if "map_of (queue s') j = Some e'" for j e'
  proof -
    have "j \<noteq> i" and "entry_ok ?n (blk (devices s dv)) dv j e'"
      using that inv(3) by (simp_all add: m split: if_splits)
    then show ?thesis using s'(3) [of j] by (simp add: entry_ok_def)
  qed
  moreover have "distinct (map fst (queue s'))" "length (queue s') \<le> 16"
    using inv(1,2) by (simp_all add: s'(1) q(1))
  ultimately have "cache_inv nb blk dv s'" by (simp add: cache_inv_def s'(2))
  moreover have "blocks t b = logical blk dv s' b" if "b < ?n" for b
    using t(2) [OF that] s'(3) [OF that] mi
    by (auto simp: logical_def find_cache_map_of m split: option.splits)
  moreover have "locks s' = locks s" using mi q(2) by (auto simp: locks_def m)
  ultimately show ?thesis using t by (simp add: cache_rel_def s'(2))
qed

text \<open>Loading a block, and locking it.\<close>

lemma map_of_snoc: "map_of (q @ [(b, e)]) j = (if j = b \<and> map_of q b = None then Some e else map_of q j)"
  by (auto simp: map_add_def split: option.splits)

lemma cache_rel_load:
  assumes rel: "cache_rel nb blk dv s t" and b: "map_of (queue s) b = None" "length (queue s) < 16" "b < nblocks t"
    and s': "queue s' = queue s @ [(b, e)]" "nb (devices s' dv) = nb (devices s dv)"
      "\<And>j. j < nb (devices s dv) \<Longrightarrow> blk (devices s' dv) j = blk (devices s dv) j"
    and e: "entry_ok (nb (devices s dv)) (blk (devices s dv)) dv b e" "locked e" "\<not> modified (guarded e)"
  shows "cache_rel nb blk dv s' (entered b t)"
proof -
  let ?n = "nb (devices s dv)"
  have inv: "distinct (map fst (queue s))" "length (queue s) \<le> 16"
    "\<And>j e. map_of (queue s) j = Some e \<Longrightarrow> entry_ok ?n (blk (devices s dv)) dv j e"
    and t: "nblocks t = ?n" "\<And>b. b < ?n \<Longrightarrow> blocks t b = logical blk dv s b" "distinct (held t)"
      "set (held t) = locks s"
    using rel by (auto simp: cache_rel_def cache_inv_def)
  have m: "map_of (queue s') j = (if j = b then Some e else map_of (queue s) j)" for j
    unfolding s'(1) map_of_snoc using b(1) by simp
  have "entry_ok ?n (blk (devices s' dv)) dv j e'" if "map_of (queue s') j = Some e'" for j e'
  proof -
    have "entry_ok ?n (blk (devices s dv)) dv j e'"
      using that inv(3) e(1) by (simp add: m split: if_splits)
    then show ?thesis using s'(3) [of j] by (simp add: entry_ok_def)
  qed
  moreover have "distinct (map fst (queue s'))" "length (queue s') \<le> 16"
    using inv(1) b(1,2) by (simp_all add: s'(1) map_of_eq_None_iff)
  ultimately have "cache_inv nb blk dv s'" by (simp add: cache_inv_def s'(2))
  moreover have "blocks t c = logical blk dv s' c" if "c < ?n" for c
    using t(2) [OF that] s'(3) [OF that] b(1) e(1,3)
    by (auto simp: logical_def find_cache_map_of m entry_ok_def split: option.splits)
  moreover have "locks s' = insert b (locks s)" "b \<notin> locks s"
    using e(2) b(1) by (auto simp: locks_def m)
  ultimately show ?thesis using t by (simp add: cache_rel_def s'(2))
qed

text \<open>Replacing an entry of the queue, with the corresponding change of the blocks.\<close>

lemma cache_rel_set:
  assumes rel: "cache_rel nb blk dv s t" and m: "map_of (queue s) i = Some e"
    and e': "entry_ok (nb (devices s dv)) (blk (devices s dv)) dv i e'"
    and t': "nblocks t' = nblocks t" "blocks t' = (blocks t)(i := cache (guarded e'))"
      "distinct (held t')" "set (held t') = (if locked e' then insert i (locks s) else locks s - {i})"
  shows "cache_rel nb blk dv (s\<lparr>queue := set_cache i e' (queue s)\<rparr>) t'"
proof -
  have "cache_inv nb blk dv (s\<lparr>queue := set_cache i e' (queue s)\<rparr>)"
    using rel e' by (intro cache_inv_set) (simp_all add: cache_rel_def)
  then show ?thesis using rel t' by (simp add: cache_rel_def locks_set [OF m] logical_set [OF m])
qed

section \<open>Relational triples\<close>

text \<open>
  \<open>simulates R P m n\<close>: from related states, \<open>m\<close> panics when \<open>n\<close> does; otherwise both return
  the same value, which satisfies \<open>P\<close>, in related states; \<open>n\<close> has released what it acquired,
  and \<open>m\<close> has left alone the caches that were locked.
\<close>

definition untouched :: "'d bcm \<Rightarrow> 'd bcm \<Rightarrow> bool" where
  "untouched s s' \<longleftrightarrow> (\<forall>b \<in> locks s. map_of (queue s') b = map_of (queue s) b)"

lemma untouched_refl [simp]: "untouched s s"
  by (simp add: untouched_def)

lemma untouched_trans: "untouched s s' \<Longrightarrow> untouched s' s'' \<Longrightarrow> untouched s s''"
  by (auto simp: untouched_def locks_def)

lemma untouched_locks: "untouched s s' \<Longrightarrow> locks s \<subseteq> locks s'"
  by (auto simp: untouched_def locks_def)

definition simulates ::
    "('d bcm \<Rightarrow> store \<Rightarrow> bool) \<Rightarrow> ('a \<Rightarrow> bool) \<Rightarrow> ('d, 'a) bcm_action \<Rightarrow> 'a store_action \<Rightarrow> bool" where
  "simulates R P m n \<longleftrightarrow> (\<forall>s t. R s t \<longrightarrow>
     (case n t of
        Inl _ \<Rightarrow> \<exists>e. m s = Inl e
      | Inr (v, t') \<Rightarrow> held t' = held t \<and> P v \<and> (\<exists>s'. m s = Inr (v, s') \<and> R s' t' \<and> untouched s s')))"

lemma simulates_ret: "P v \<Longrightarrow> simulates R P (ret v) (ret v)"
  by (simp add: simulates_def ret_def)

lemma simulates_fail: "simulates R P (fail e) (fail e')"
  by (simp add: simulates_def fail_def)

lemma simulates_run:
  assumes "simulates R P m n" and "R s t" and "n t = Inr (v, t')"
  obtains s' where "m s = Inr (v, s')" "R s' t'" "untouched s s'" "held t' = held t" "P v"
  using assms by (force simp: simulates_def)

lemma simulates_panics: "simulates R P m n \<Longrightarrow> R s t \<Longrightarrow> n t = Inl e \<Longrightarrow> \<exists>e'. m s = Inl e'"
  by (force simp: simulates_def)

lemma simulatesI:
  assumes "\<And>s t e. R s t \<Longrightarrow> n t = Inl e \<Longrightarrow> \<exists>e'. m s = Inl e'"
    and "\<And>s t v t'. R s t \<Longrightarrow> n t = Inr (v, t') \<Longrightarrow>
      held t' = held t \<and> P v \<and> (\<exists>s'. m s = Inr (v, s') \<and> R s' t' \<and> untouched s s')"
  shows "simulates R P m n"
  unfolding simulates_def
proof (intro allI impI)
  fix s t
  assume "R s t"
  then show "case n t of Inl _ \<Rightarrow> \<exists>e. m s = Inl e
    | Inr (v, t') \<Rightarrow> held t' = held t \<and> P v \<and> (\<exists>s'. m s = Inr (v, s') \<and> R s' t' \<and> untouched s s')"
    using assms by (cases "n t") auto
qed

lemma simulates_bnd:
  assumes "simulates R P m n" and k: "\<And>v. P v \<Longrightarrow> simulates R Q (k v) (l v)"
  shows "simulates R Q (bnd m k) (bnd n l)"
proof (rule simulatesI)
  fix s t e
  assume R: "R s t" and e: "bnd n l t = Inl e"
  show "\<exists>e'. bnd m k s = Inl e'"
  proof (cases "n t")
    case (Inl e')
    then show ?thesis using simulates_panics [OF assms(1) R] by (auto simp: bnd_def)
  next
    case (Inr r)
    obtain v t' where r: "n t = Inr (v, t')" using Inr by (cases r) simp
    from simulates_run [OF assms(1) R r] obtain s' where s': "m s = Inr (v, s')" "R s' t'" "P v" .
    then show ?thesis using simulates_panics [OF k [OF s'(3)] s'(2)] e r by (auto simp: bnd_def)
  qed
next
  fix s t w t''
  assume R: "R s t" and w: "bnd n l t = Inr (w, t'')"
  then obtain v t' where r: "n t = Inr (v, t')" "l v t' = Inr (w, t'')"
    by (auto simp: bnd_def split: sum.splits)
  from simulates_run [OF assms(1) R r(1)] obtain s'
    where s': "m s = Inr (v, s')" "R s' t'" "untouched s s'" "held t' = held t" "P v" .
  from simulates_run [OF k [OF s'(5)] s'(2) r(2)] obtain s''
    where s'': "k v s' = Inr (w, s'')" "R s'' t''" "untouched s' s''" "held t'' = held t'" "Q w" .
  show "held t'' = held t \<and> Q w \<and> (\<exists>s'. bnd m k s = Inr (w, s') \<and> R s' t'' \<and> untouched s s')"
    using s' s'' untouched_trans [OF s'(3) s''(3)] by (auto simp: bnd_def)
qed

lemma simulates_if:
  "(b \<Longrightarrow> simulates R P m n) \<Longrightarrow> (\<not> b \<Longrightarrow> simulates R P m' n') \<Longrightarrow>
    simulates R P (if b then m else m') (if b then n else n')"
  by simp

section \<open>Accesses through the cache are accesses to the logical blocks\<close>

context block_device
begin

lemma sync_entry:
  assumes "entry_ok (dev_blocks (devices s dv)) (dev_block (devices s dv)) dv i e"
  shows "\<exists>s'. BlockCache_sync write_block (guarded e) s = Inr ((guarded e)\<lparr>modified := False\<rparr>, s') \<and>
    queue s' = queue s \<and> dev_blocks (devices s' dv) = dev_blocks (devices s dv) \<and>
    (\<forall>j < dev_blocks (devices s dv). dev_block (devices s' dv) j =
      (if j = i then cache (guarded e) else dev_block (devices s dv) j))"
proof (cases "modified (guarded e)")
  case True
  from assms obtain d' where "write_block i (cache (guarded e)) (devices s dv) = Inr ((), d')"
    "dev_blocks d' = dev_blocks (devices s dv)"
    "\<forall>j < dev_blocks (devices s dv). dev_block d' j = (if j = i then cache (guarded e) else dev_block (devices s dv) j)"
    using write_inside [of i "devices s dv" "cache (guarded e)"] by (auto simp: entry_ok_def)
  with True assms show ?thesis
    by (simp add: BlockCache_sync_def on_device_def on_def action_defs entry_ok_def)
next
  case False
  with assms show ?thesis by (simp add: BlockCache_sync_def ret_def entry_ok_def)
qed

lemma all_locked_full:
  assumes "cache_rel dev_blocks dev_block dv s t" and "drain_unused (queue s) = None"
  shows "length (held t) = length (queue s)"
proof -
  have d: "distinct (map fst (queue s))" "distinct (held t)" "set (held t) = locks s"
    using assms(1) by (auto simp: cache_rel_def cache_inv_def)
  have "i \<in> locks s" if "(i, e) \<in> set (queue s)" for i e
  proof -
    have m: "map_of (queue s) i = Some e" using d(1) that by simp
    then have "strong_count e = 1 \<longleftrightarrow> \<not> locked e"
      using assms(1) entry_ok_unlocked unfolding cache_rel_def cache_inv_def by blast
    moreover have "strong_count e \<noteq> 1" using assms(2) that by (force simp: drain_unused_None)
    ultimately have "locked e" by blast
    with m show ?thesis by (auto simp: locks_def)
  qed
  then have "set (held t) = set (map fst (queue s))" using locks_subset [of s] d(3) by auto
  then show ?thesis using d(1,2) by (metis distinct_card length_map)
qed

lemma substitute_rel:
  assumes rel: "cache_rel dev_blocks dev_block dv s t" and room: "length (held t) < 16"
    and b: "map_of (queue s) b = None"
  shows "\<exists>s'. substitute write_block s = Inr ((), s') \<and> cache_rel dev_blocks dev_block dv s' t \<and>
    length (queue s') < 16 \<and> map_of (queue s') b = None \<and> untouched s s'"
proof (cases "length (queue s) = 16")
  case False
  moreover have "length (queue s) \<le> 16" using rel by (simp add: cache_rel_def cache_inv_def)
  ultimately show ?thesis using rel b by (simp add: substitute_def action_defs BLOCK_CACHE_SIZE_def)
next
  case full: True
  then obtain c q' where drain: "drain_unused (queue s) = Some (c, q')"
    using all_locked_full [OF rel] room by (cases "drain_unused (queue s)") auto
  from drain_unused_Some [OF drain] obtain xs i e ys
    where e: "queue s = xs @ (i, e) # ys" "q' = xs @ ys" "c = guarded e" "strong_count e = 1" by blast
  have "distinct (map fst (queue s))" using rel by (simp add: cache_rel_def cache_inv_def)
  then have m: "map_of (queue s) i = Some e" by (rule map_of_is_SomeI) (simp add: e(1))
  then have ok: "entry_ok (dev_blocks (devices s dv)) (dev_block (devices s dv)) dv i e"
    using rel by (simp add: cache_rel_def cache_inv_def)
  let ?s = "s\<lparr>queue := q'\<rparr>"
  have "entry_ok (dev_blocks (devices ?s dv)) (dev_block (devices ?s dv)) dv i e" using ok by simp
  from sync_entry [OF this] obtain s' where s':
    "BlockCache_sync write_block (guarded e) ?s = Inr ((guarded e)\<lparr>modified := False\<rparr>, s')"
    "queue s' = queue ?s" "dev_blocks (devices s' dv) = dev_blocks (devices ?s dv)"
    "\<forall>j < dev_blocks (devices ?s dv). dev_block (devices s' dv) j =
      (if j = i then cache (guarded e) else dev_block (devices ?s dv) j)" by (elim exE conjE)
  have "substitute write_block s = Inr ((), s')"
    using full drain s'(1) e(3)
    by (simp add: substitute_def BLOCK_CACHE_SIZE_def BlockCache_drop_def action_defs)
  moreover have "cache_rel dev_blocks dev_block dv s' t"
  proof (rule cache_rel_drop [OF rel e(1)])
    show "\<not> locked e" using entry_ok_unlocked [OF ok] e(4) by blast
    show "queue s' = xs @ ys" using s'(2) e(2) by simp
  qed (use s'(3,4) in simp_all)
  moreover have "length (queue s') < 16" "map_of (queue s') b = None"
    using full b by (simp_all add: s'(2) e(1,2) map_of_eq_None_iff split: if_splits)
  moreover have "i \<notin> locks s" using m entry_ok_unlocked [OF ok] e(4) by (simp add: locks_def)
  then have "untouched s s'"
    using map_of_drop_entry [of xs i e ys] \<open>distinct (map fst (queue s))\<close>
    unfolding untouched_def e(1) s'(2) by (auto simp: e(2) simp del: map_of_append)
  ultimately show ?thesis by blast
qed

lemma the_cache_run: "map_of (queue s) h = Some e \<Longrightarrow> the_cache h s = Inr (e, s)"
  by (simp add: the_cache_def find_cache_map_of action_defs)

lemma enter_hit:
  assumes rel: "cache_rel dev_blocks dev_block dv s t" and m: "map_of (queue s) b = Some e"
    and "\<not> locked e"
  shows "\<exists>s1 s'. get_block_cache read_block write_block b dv s = Inr (b, s1) \<and> lock b s1 = Inr ((), s') \<and>
    cache_rel dev_blocks dev_block dv s' (entered b t) \<and> untouched s s'"
proof -
  let ?e = "e\<lparr>strong_count := 2, locked := True\<rparr>"
  have ok: "entry_ok (dev_blocks (devices s dv)) (dev_block (devices s dv)) dv b e"
    using rel m by (simp add: cache_rel_def cache_inv_def)
  have b: "b < nblocks t" "b \<notin> locks s"
    using rel ok m assms(3) by (auto simp: cache_rel_def entry_ok_def locks_def)
  have "blocks t = (blocks t)(b := cache (guarded e))"
    using b(1) rel m by (auto simp: cache_rel_def logical_cached)
  moreover have "set (held t) = locks s" "distinct (held t)" using rel by (simp_all add: cache_rel_def)
  ultimately have "cache_rel dev_blocks dev_block dv (s\<lparr>queue := set_cache b ?e (queue s)\<rparr>) (entered b t)"
    using b(2) ok by (intro cache_rel_set [OF rel m]) (simp_all add: entry_ok_def)
  moreover have "get_block_cache read_block write_block b dv s =
      Inr (b, s\<lparr>queue := set_cache b (e\<lparr>strong_count := 2\<rparr>) (queue s)\<rparr>)"
    using m ok assms(3) by (simp add: get_block_cache_def find_cache_map_of action_defs entry_ok_def numeral_2_eq_2)
  moreover have "lock b (s\<lparr>queue := set_cache b (e\<lparr>strong_count := 2\<rparr>) (queue s)\<rparr>) =
      Inr ((), s\<lparr>queue := set_cache b ?e (queue s)\<rparr>)"
    using m assms(3)
    by (simp add: lock_def the_cache_def put_cache_def find_cache_map_of set_cache_map_of action_defs)
  moreover have "untouched s (s\<lparr>queue := set_cache b ?e (queue s)\<rparr>)"
    using b(2) by (auto simp: untouched_def set_cache_map_of)
  ultimately show ?thesis by blast
qed

lemma enter_miss:
  assumes rel: "cache_rel dev_blocks dev_block dv s t" and m: "map_of (queue s) b = None"
    and room: "length (held t) < 16" and b: "b < nblocks t"
  shows "\<exists>s1 s'. get_block_cache read_block write_block b dv s = Inr (b, s1) \<and> lock b s1 = Inr ((), s') \<and>
    cache_rel dev_blocks dev_block dv s' (entered b t) \<and> untouched s s'"
proof -
  from substitute_rel [OF rel room m] obtain s0 where s0: "substitute write_block s = Inr ((), s0)"
    "cache_rel dev_blocks dev_block dv s0 t" "length (queue s0) < 16" "map_of (queue s0) b = None"
    "untouched s s0" by blast
  let ?d = "devices s0 dv"
  have n: "b < dev_blocks ?d" using b s0(2) by (simp add: cache_rel_def)
  from read_inside [OF n, of "replicate 512 0"] obtain d' where d':
    "read_block b (replicate 512 0) ?d = Inr (dev_block ?d b, d')" "dev_blocks d' = dev_blocks ?d"
    "\<forall>c < dev_blocks ?d. dev_block d' c = dev_block ?d c" by auto
  let ?c = "\<lparr>cache = dev_block ?d b, block_id = b, cache_device = dv, modified = False\<rparr>"
  let ?e = "\<lparr>guarded = ?c, locked = False, strong_count = 2\<rparr>"
  let ?s1 = "s0\<lparr>devices := (devices s0)(dv := d'), queue := queue s0 @ [(b, ?e)]\<rparr>"
  let ?s' = "?s1\<lparr>queue := queue s0 @ [(b, ?e\<lparr>locked := True\<rparr>)]\<rparr>"
  have "get_block_cache read_block write_block b dv s = Inr (b, ?s1)"
    using m s0(1) d'(1)
    by (simp add: get_block_cache_def find_cache_map_of action_defs BlockCache_new_def on_device_def
        on_def BLOCK_SZ_def)
  moreover have "lock b ?s1 = Inr ((), ?s')"
    using s0(4) by (simp del: map_of_append add: lock_def the_cache_def put_cache_def
        find_cache_map_of map_of_snoc set_cache_snoc action_defs)
  moreover have "entry_ok (dev_blocks ?d) (dev_block ?d) dv b (?e\<lparr>locked := True\<rparr>)"
    using n block_length [OF n] by (simp add: entry_ok_def)
  then have "cache_rel dev_blocks dev_block dv ?s' (entered b t)"
    using d'(2,3) by (intro cache_rel_load [OF s0(2,4,3) b, where e = "?e\<lparr>locked := True\<rparr>"]) simp_all
  moreover have "untouched s0 ?s'"
    using s0(4) by (auto simp: untouched_def map_of_snoc locks_def simp del: map_of_append)
  then have "untouched s ?s'" by (rule untouched_trans [OF s0(5)])
  ultimately show ?thesis by blast
qed

lemma enter_fails:
  assumes rel: "cache_rel dev_blocks dev_block dv s t" and "\<not> acquirable b t"
  shows "(\<exists>x. get_block_cache read_block write_block b dv s = Inl x) \<or>
    (\<exists>s1 x. get_block_cache read_block write_block b dv s = Inr (b, s1) \<and> lock b s1 = Inl x)"
proof (cases "map_of (queue s) b")
  case (Some e)
  have locked: "b \<in> locks s"
  proof -
    have inv: "set (held t) = locks s" "b < nblocks t" "distinct (held t)" "length (queue s) \<le> 16"
      using rel Some by (auto simp: cache_rel_def cache_inv_def entry_ok_def)
    show ?thesis
    proof (cases "length (held t) < 16")
      case True
      then show ?thesis using assms(2) inv by (simp add: acquirable_def)
    next
      case False
      have "card (fst ` set (queue s)) \<le> length (queue s)" by (metis card_length length_map set_map)
      then have "card (fst ` set (queue s)) \<le> card (locks s)"
        using False inv by (metis distinct_card le_trans linorder_not_less)
      then have "locks s = fst ` set (queue s)"
        using card_seteq [OF _ locks_subset] by blast
      moreover have "b \<in> fst ` set (queue s)" using Some by (metis domI dom_map_of_conv_image_fst)
      ultimately show ?thesis by simp
    qed
  qed
  then show ?thesis
    using Some by (auto simp: locks_def get_block_cache_def lock_def the_cache_def find_cache_map_of
        set_cache_map_of action_defs)
next
  case None
  then have bl: "b \<notin> locks s" "b \<notin> set (held t)" using rel by (auto simp: locks_def cache_rel_def)
  show ?thesis
  proof (cases "length (held t) < 16")
    case True
    then have out: "\<not> b < nblocks t" using assms(2) bl(2) by (simp add: acquirable_def)
    from substitute_rel [OF rel True None] obtain s0 where s0: "substitute write_block s = Inr ((), s0)"
      "cache_rel dev_blocks dev_block dv s0 t" by blast
    then have "\<not> b < dev_blocks (devices s0 dv)" using out by (simp add: cache_rel_def)
    then obtain x where "read_block b (replicate 512 0) (devices s0 dv) = Inl x"
      using read_outside [of b "devices s0 dv" "replicate 512 0"] by auto
    then have "get_block_cache read_block write_block b dv s = Inl x"
      using None s0(1) by (simp add: get_block_cache_def find_cache_map_of action_defs BlockCache_new_def
          on_device_def on_def BLOCK_SZ_def)
    then show ?thesis by blast
  next
    case False
    have inv: "set (held t) = locks s" "distinct (held t)" "length (queue s) \<le> 16" "distinct (map fst (queue s))"
      using rel by (simp_all add: cache_rel_def cache_inv_def)
    have "length (held t) = card (locks s)" using inv(1,2) by (metis distinct_card)
    also have "\<dots> \<le> length (queue s)"
      using card_mono [OF _ locks_subset, of s] card_length [of "map fst (queue s)"] by auto
    finally have full: "length (queue s) = 16" "length (held t) = length (queue s)" using False inv(3) by auto
    have "drain_unused (queue s) = None"
    proof (rule ccontr)
      assume "drain_unused (queue s) \<noteq> None"
      then obtain i e where ie: "(i, e) \<in> set (queue s)" "strong_count e = 1"
        by (auto simp: drain_unused_None)
      then have "map_of (queue s) i = Some e" using inv(4) by simp
      moreover from this have "\<not> locked e"
        using rel ie(2) entry_ok_unlocked unfolding cache_rel_def cache_inv_def by blast
      ultimately have "i \<notin> locks s" by (simp add: locks_def)
      then have "locks s \<subset> fst ` set (queue s)" using locks_subset [of s] ie(1) by force
      then have "card (locks s) < card (fst ` set (queue s))" by (intro psubset_card_mono) auto
      then have "length (held t) < length (queue s)"
        using inv(1) distinct_card [OF inv(2)] card_length [of "map fst (queue s)"] by simp
      then show False using full by simp
    qed
    then have "get_block_cache read_block write_block b dv s = Inl RunOutOfBlockCache"
      using None full(1) by (simp add: get_block_cache_def find_cache_map_of action_defs substitute_def
          BLOCK_CACHE_SIZE_def)
    then show ?thesis by blast
  qed
qed

lemma enter:
  assumes rel: "cache_rel dev_blocks dev_block dv s t" and b: "acquirable b t"
  shows "\<exists>s1 s'. get_block_cache read_block write_block b dv s = Inr (b, s1) \<and> lock b s1 = Inr ((), s') \<and>
    cache_rel dev_blocks dev_block dv s' (entered b t) \<and> untouched s s'"
proof (cases "map_of (queue s) b")
  case None
  then show ?thesis using enter_miss [OF rel None] b by (simp add: acquirable_def)
next
  case (Some e)
  then have "\<not> locked e" using rel b by (auto simp: acquirable_def cache_rel_def locks_def)
  then show ?thesis using enter_hit [OF rel Some] by blast
qed

lemma held_entry:
  assumes rel: "cache_rel dev_blocks dev_block dv s t" and "b \<in> set (held t)"
  obtains e where "map_of (queue s) b = Some e" "locked e" "cache (guarded e) = blocks t b"
    "entry_ok (dev_blocks (devices s dv)) (dev_block (devices s dv)) dv b e"
proof -
  from assms obtain e where e: "map_of (queue s) b = Some e" "locked e"
    by (auto simp: cache_rel_def locks_def)
  with rel have ok: "entry_ok (dev_blocks (devices s dv)) (dev_block (devices s dv)) dv b e"
    by (simp add: cache_rel_def cache_inv_def)
  then have "b < nblocks t" using rel by (simp add: cache_rel_def entry_ok_def)
  then have "blocks t b = cache (guarded e)"
    using rel logical_cached [OF e(1)] by (simp add: cache_rel_def)
  with e ok show ?thesis using that by simp
qed

lemma leave:
  assumes rel: "cache_rel dev_blocks dev_block dv s t" and b: "b \<in> set (held t)"
  shows "\<exists>s1 s'. unlock b s = Inr ((), s1) \<and> drop_clone b s1 = Inr ((), s') \<and>
    cache_rel dev_blocks dev_block dv s' (left b t) \<and>
    (\<forall>c. c \<noteq> b \<longrightarrow> map_of (queue s') c = map_of (queue s) c)"
proof -
  from held_entry [OF assms] obtain e where e: "map_of (queue s) b = Some e" "locked e"
    "cache (guarded e) = blocks t b"
    "entry_ok (dev_blocks (devices s dv)) (dev_block (devices s dv)) dv b e" .
  let ?e = "e\<lparr>locked := False, strong_count := 1\<rparr>"
  have "cache_rel dev_blocks dev_block dv (s\<lparr>queue := set_cache b ?e (queue s)\<rparr>) (left b t)"
  proof (rule cache_rel_set [OF rel e(1)])
    show "entry_ok (dev_blocks (devices s dv)) (dev_block (devices s dv)) dv b ?e"
      using e(2,4) by (simp add: entry_ok_def)
  qed (use rel e(3) in \<open>auto simp: cache_rel_def\<close>)
  moreover have "strong_count e = 2" using e(2,4) by (simp add: entry_ok_def)
  then have "unlock b s = Inr ((), s\<lparr>queue := set_cache b (e\<lparr>locked := False\<rparr>) (queue s)\<rparr>)"
    "drop_clone b (s\<lparr>queue := set_cache b (e\<lparr>locked := False\<rparr>) (queue s)\<rparr>) =
      Inr ((), s\<lparr>queue := set_cache b ?e (queue s)\<rparr>)"
    using e(1) by (simp_all add: unlock_def drop_clone_def the_cache_def put_cache_def find_cache_map_of
        set_cache_map_of action_defs)
  moreover have "\<forall>c. c \<noteq> b \<longrightarrow> map_of (queue (s\<lparr>queue := set_cache b ?e (queue s)\<rparr>)) c = map_of (queue s) c"
    by (simp add: set_cache_map_of)
  ultimately show ?thesis by blast
qed

text \<open>The typed reference into a block that is being accessed, and the store through it.\<close>

lemma mark_modified:
  assumes rel: "cache_rel dev_blocks dev_block dv s t" and e: "map_of (queue s) b = Some e" "locked e"
  shows "cache_rel dev_blocks dev_block dv
    (s\<lparr>queue := set_cache b (e\<lparr>guarded := (guarded e)\<lparr>modified := True\<rparr>\<rparr>) (queue s)\<rparr>) t"
proof (rule cache_rel_set [OF rel e(1)])
  have b: "b \<in> set (held t)" using rel e by (auto simp: cache_rel_def locks_def)
  from held_entry [OF rel b] e(1) have h: "cache (guarded e) = blocks t b"
    "entry_ok (dev_blocks (devices s dv)) (dev_block (devices s dv)) dv b e" by auto
  then show "entry_ok (dev_blocks (devices s dv)) (dev_block (devices s dv)) dv b
      (e\<lparr>guarded := (guarded e)\<lparr>modified := True\<rparr>\<rparr>)"
    by (simp add: entry_ok_def)
  show "blocks t = (blocks t)(b := cache (guarded (e\<lparr>guarded := (guarded e)\<lparr>modified := True\<rparr>\<rparr>)))"
    using h(1) by auto
  show "distinct (held t)" using rel by (simp add: cache_rel_def)
  show "set (held t) = (if locked (e\<lparr>guarded := (guarded e)\<lparr>modified := True\<rparr>\<rparr>)
      then insert b (locks s) else locks s - {b})"
    using rel e(2) b by (auto simp: cache_rel_def)
qed simp

lemma store_through:
  assumes rel: "cache_rel dev_blocks dev_block dv s t" and e: "map_of (queue s) b = Some e" "locked e"
    and dirty: "modified (guarded e)" and len: "length (put_at V off x (blocks t b)) = 512"
  shows "cache_rel dev_blocks dev_block dv
    (s\<lparr>queue := set_cache b (e\<lparr>guarded := BlockCache_store V off x (guarded e)\<rparr>) (queue s)\<rparr>)
    (set_block b (put_at V off x (blocks t b)) t)"
proof (rule cache_rel_set [OF rel e(1)])
  have b: "b \<in> set (held t)" using rel e by (auto simp: cache_rel_def locks_def)
  from held_entry [OF rel b] e(1) have h: "cache (guarded e) = blocks t b"
    "entry_ok (dev_blocks (devices s dv)) (dev_block (devices s dv)) dv b e" by auto
  show "entry_ok (dev_blocks (devices s dv)) (dev_block (devices s dv)) dv b
      (e\<lparr>guarded := BlockCache_store V off x (guarded e)\<rparr>)"
    using h dirty len by (simp add: entry_ok_def BlockCache_store_def)
  show "set (held (set_block b (put_at V off x (blocks t b)) t)) =
      (if locked (e\<lparr>guarded := BlockCache_store V off x (guarded e)\<rparr>) then insert b (locks s) else locks s - {b})"
    using rel e(2) b by (auto simp: cache_rel_def)
  show "blocks (set_block b (put_at V off x (blocks t b)) t) =
      (blocks t)(b := cache (guarded (e\<lparr>guarded := BlockCache_store V off x (guarded e)\<rparr>)))"
    using h(1) by (simp add: BlockCache_store_def)
qed (use rel in \<open>simp_all add: cache_rel_def\<close>)

lemma bracket_run:
  assumes "acquirable b t"
  shows "thn (acquire b) (bnd n (\<lambda>v. thn (release b) (ret v))) t =
    (case n (entered b t) of Inl e \<Rightarrow> Inl e | Inr (v, t') \<Rightarrow> Inr (v, left b t'))"
  by (cases "n (entered b t)")
    (auto simp: thn_def bnd_def acquire_cases(1) [OF assms] release_def upd_def ret_def left_def)

lemma enter_simulates:
  assumes "\<And>s s' t. acquirable b t \<Longrightarrow> cache_rel dev_blocks dev_block dv s' (entered b t) \<Longrightarrow>
      (\<forall>e. n (entered b t) = Inl e \<longrightarrow> (\<exists>e'. m b s' = Inl e')) \<and>
      (\<forall>v t'. n (entered b t) = Inr (v, t') \<longrightarrow> P v \<and> held t' = held (entered b t) \<and>
        (\<exists>s''. m b s' = Inr (v, s'') \<and> cache_rel dev_blocks dev_block dv s'' t' \<and>
          (\<forall>c \<in> locks s' - {b}. map_of (queue s'') c = map_of (queue s') c)))"
  shows "simulates (cache_rel dev_blocks dev_block dv) P
    (bnd (get_block_cache read_block write_block b dv) (\<lambda>h.
      thn (lock h) (bnd (m h) (\<lambda>v. thn (unlock h) (thn (drop_clone h) (ret v))))))
    (thn (acquire b) (bnd n (\<lambda>v. thn (release b) (ret v))))"
    (is "simulates ?R P ?m ?n")
proof (rule simulatesI)
  fix s t e
  assume R: "?R s t" and e: "?n t = Inl e"
  show "\<exists>e'. ?m s = Inl e'"
  proof (cases "acquirable b t")
    case False
    then show ?thesis using enter_fails [OF R False] by (auto simp: bnd_def thn_def)
  next
    case True
    from enter [OF R True] obtain s1 s' where s': "get_block_cache read_block write_block b dv s = Inr (b, s1)"
      "lock b s1 = Inr ((), s')" "?R s' (entered b t)" "untouched s s'" by (elim exE conjE)
    have "\<exists>e. n (entered b t) = Inl e"
      using e unfolding bracket_run [OF True] by (cases "n (entered b t)") auto
    then obtain e' where "m b s' = Inl e'" using assms [OF True s'(3)] by blast
    then show ?thesis using s'(1,2) by (simp add: bnd_def thn_def)
  qed
next
  fix s t v t''
  assume R: "?R s t" and v: "?n t = Inr (v, t'')"
  have b: "acquirable b t"
  proof (rule ccontr)
    assume "\<not> acquirable b t"
    from acquire_cases(2) [OF this] v show False by (auto simp: bnd_def thn_def)
  qed
  from enter [OF R b] obtain s1 s' where s': "get_block_cache read_block write_block b dv s = Inr (b, s1)"
    "lock b s1 = Inr ((), s')" "?R s' (entered b t)" "untouched s s'" by (elim exE conjE)
  obtain t' where t': "n (entered b t) = Inr (v, t')" "t'' = left b t'"
    using v unfolding bracket_run [OF b] by (cases "n (entered b t)") auto
  from assms [OF b s'(3)] t'(1) obtain s'' where s'': "P v" "held t' = held (entered b t)"
    "m b s' = Inr (v, s'')" "?R s'' t'" "\<forall>c \<in> locks s' - {b}. map_of (queue s'') c = map_of (queue s') c" by blast
  have "b \<in> set (held t')" using s''(2) by simp
  from leave [OF s''(4) this] obtain s2 s3 where s3: "unlock b s'' = Inr ((), s2)" "drop_clone b s2 = Inr ((), s3)"
    "?R s3 t''" "\<forall>c. c \<noteq> b \<longrightarrow> map_of (queue s3) c = map_of (queue s'') c" unfolding t'(2) by blast
  have "b \<notin> locks s" using R b by (simp add: cache_rel_def acquirable_def)
  then have "untouched s s3"
    using s'(4) untouched_locks [OF s'(4)] s''(5) s3(4) unfolding untouched_def
    by (metis Diff_iff empty_iff insert_iff subsetD)
  moreover have "held t'' = held t" using s''(2) t'(2) by simp
  moreover have "?m s = Inr (v, s3)" using s'(1,2) s''(3) s3(1,2) by (simp add: bnd_def thn_def ret_def)
  ultimately show "held t'' = held t \<and> P v \<and> (\<exists>s'. ?m s = Inr (v, s') \<and> ?R s' t'' \<and> untouched s s')"
    using s''(1) s3(3) by blast
qed

lemma cache_read_simulates:
  assumes V: "view_laws V ok" and f: "\<And>x. ok x \<Longrightarrow> simulates (cache_rel dev_blocks dev_block dv) P (fA x) (fB x)"
  shows "simulates (cache_rel dev_blocks dev_block dv) P
    (cache_read read_block write_block V b dv off fA) (read_as V b off fB)"
proof -
  let ?R = "cache_rel dev_blocks dev_block dv"
  let ?n = "thn (assert_that (off + v_size V \<le> 512)) (bnd (gets (\<lambda>s. view_at V off (blocks s b))) fB)"
  have assoc: "read_as V b off fB = thn (acquire b) (bnd ?n (\<lambda>v. thn (release b) (ret v)))"
    by (simp only: read_as_def bnd_assoc BLOCK_SZ_def)
  show ?thesis
    unfolding assoc cache_read_def
  proof (rule enter_simulates)
    fix s' :: "'d bcm" and t
    assume R: "?R s' (entered b t)"
    have "b \<in> set (held (entered b t))" by simp
    from held_entry [OF R this] obtain e where e: "map_of (queue s') b = Some e"
      "cache (guarded e) = blocks t b" "length (blocks t b) = 512"
      by (metis entered_left_simps(1) entry_ok_def)
    let ?x = "view_at V off (blocks t b)"
    show "(\<forall>e. ?n (entered b t) = Inl e \<longrightarrow> (\<exists>e'. BlockCache_read V b off fA s' = Inl e')) \<and>
      (\<forall>v t'. ?n (entered b t) = Inr (v, t') \<longrightarrow> P v \<and> held t' = held (entered b t) \<and>
        (\<exists>s''. BlockCache_read V b off fA s' = Inr (v, s'') \<and> ?R s'' t' \<and>
          (\<forall>c \<in> locks s' - {b}. map_of (queue s'') c = map_of (queue s') c)))"
    proof (cases "off + v_size V \<le> 512")
      case False
      then show ?thesis
        using e by (simp add: BlockCache_read_def BlockCache_get_ref_def the_cache_def find_cache_map_of
            action_defs BLOCK_SZ_def)
    next
      case True
      have sim: "simulates ?R P (fA ?x) (fB ?x)"
        using f view_laws.view_ok [OF V, of off "blocks t b"] True e(3) by simp
      have runs: "?n (entered b t) = fB ?x (entered b t)" "BlockCache_read V b off fA s' = fA ?x s'"
        using True e by (simp_all add: BlockCache_read_def BlockCache_get_ref_def the_cache_def
            find_cache_map_of action_defs BLOCK_SZ_def)
      show ?thesis
        unfolding runs
      proof (intro conjI allI impI)
        fix v t'
        assume v: "fB ?x (entered b t) = Inr (v, t')"
        from simulates_run [OF sim R v] obtain s''
          where s'': "fA ?x s' = Inr (v, s'')" "?R s'' t'" "untouched s' s''" "held t' = held (entered b t)" "P v" .
        then show "P v" "held t' = held (entered b t)" by simp_all
        show "\<exists>s''. fA ?x s' = Inr (v, s'') \<and> ?R s'' t' \<and>
            (\<forall>c \<in> locks s' - {b}. map_of (queue s'') c = map_of (queue s') c)"
          using s''(1-3) by (auto simp: untouched_def)
      qed (rule simulates_panics [OF sim R])
    qed
  qed
qed

lemma modify_return:
  assumes V: "view_laws V ok" "off + v_size V \<le> 512"
    and sim: "simulates (cache_rel dev_blocks dev_block dv) (\<lambda>r. P (fst r) \<and> ok (snd r)) m n"
    and R: "cache_rel dev_blocks dev_block dv s t" "n t = Inr ((v, x), t')"
    and e: "map_of (queue s) b = Some e" "locked e" "modified (guarded e)"
  shows "P v" "held t' = held t"
    "\<exists>s'. bnd m (store_back V b off) s = Inr (v, s') \<and>
      cache_rel dev_blocks dev_block dv s' (set_block b (put_at V off x (blocks t' b)) t') \<and>
      (\<forall>c \<in> locks s - {b}. map_of (queue s') c = map_of (queue s) c)"
proof -
  from simulates_run [OF sim R] obtain s'
    where s': "m s = Inr ((v, x), s')" "cache_rel dev_blocks dev_block dv s' t'" "untouched s s'"
      "held t' = held t" "P v \<and> ok x" by auto
  show "P v" "held t' = held t" using s' by simp_all
  have e': "map_of (queue s') b = Some e" using s'(3) e by (auto simp: untouched_def locks_def)
  then have "b \<in> set (held t')" using s'(2) e(2) by (auto simp: cache_rel_def locks_def)
  from held_entry [OF s'(2) this] e' have "length (blocks t' b) = 512" by (metis entry_ok_def)
  then have "length (put_at V off x (blocks t' b)) = 512"
    using view_laws.put_at_length [OF V(1)] V(2) s'(5) by simp
  from store_through [OF s'(2) e' e(2,3) this]
  show "\<exists>s'. bnd m (store_back V b off) s = Inr (v, s') \<and>
      cache_rel dev_blocks dev_block dv s' (set_block b (put_at V off x (blocks t' b)) t') \<and>
      (\<forall>c \<in> locks s - {b}. map_of (queue s') c = map_of (queue s) c)"
    using s'(1,3) e' by (auto simp: store_back_def the_cache_def find_cache_map_of put_cache_def
        action_defs untouched_def set_cache_map_of)
qed

lemma cache_modify_simulates:
  assumes V: "view_laws V ok"
    and f: "\<And>x. ok x \<Longrightarrow> simulates (cache_rel dev_blocks dev_block dv) (\<lambda>r. P (fst r) \<and> ok (snd r)) (fA x) (fB x)"
  shows "simulates (cache_rel dev_blocks dev_block dv) P
    (cache_modify read_block write_block V b dv off fA) (modify_as V b off fB)"
proof -
  let ?R = "cache_rel dev_blocks dev_block dv"
  let ?put = "\<lambda>(v, x). thn (upd (\<lambda>s. s\<lparr>blocks := (blocks s)(b := put_at V off x (blocks s b))\<rparr>)) (ret v)"
  let ?n = "thn (assert_that (off + v_size V \<le> 512)) (bnd (gets (\<lambda>s. view_at V off (blocks s b))) (\<lambda>x. bnd (fB x) ?put))"
  have assoc: "modify_as V b off fB = thn (acquire b) (bnd ?n (\<lambda>v. thn (release b) (ret v)))"
    by (simp only: modify_as_def bnd_assoc bnd_ret BLOCK_SZ_def case_prod_beta')
  show ?thesis
    unfolding assoc cache_modify_def
  proof (rule enter_simulates)
    fix s' :: "'d bcm" and t
    assume R: "?R s' (entered b t)"
    have "b \<in> set (held (entered b t))" by simp
    from held_entry [OF R this] obtain e where e: "map_of (queue s') b = Some e" "locked e"
      "cache (guarded e) = blocks t b" "length (blocks t b) = 512"
      by (metis entered_left_simps(1) entry_ok_def)
    let ?x = "view_at V off (blocks t b)"
    let ?e = "e\<lparr>guarded := (guarded e)\<lparr>modified := True\<rparr>\<rparr>"
    let ?s = "s'\<lparr>queue := set_cache b ?e (queue s')\<rparr>"
    show "(\<forall>e. ?n (entered b t) = Inl e \<longrightarrow> (\<exists>e'. BlockCache_modify V b off fA s' = Inl e')) \<and>
      (\<forall>v t'. ?n (entered b t) = Inr (v, t') \<longrightarrow> P v \<and> held t' = held (entered b t) \<and>
        (\<exists>s''. BlockCache_modify V b off fA s' = Inr (v, s'') \<and> ?R s'' t' \<and>
          (\<forall>c \<in> locks s' - {b}. map_of (queue s'') c = map_of (queue s') c)))"
    proof (cases "off + v_size V \<le> 512")
      case False
      then show ?thesis
        using e by (simp add: BlockCache_modify_def BlockCache_get_mut_def the_cache_def find_cache_map_of
            action_defs BLOCK_SZ_def)
    next
      case True
      have dirty: "?R ?s (entered b t)" by (rule mark_modified [OF R e(1,2)])
      have sim: "simulates ?R (\<lambda>r. P (fst r) \<and> ok (snd r)) (fA ?x) (fB ?x)"
        using f view_laws.view_ok [OF V, of off "blocks t b"] True e(4) by simp
      have runs: "?n (entered b t) = bnd (fB ?x) ?put (entered b t)"
        "BlockCache_modify V b off fA s' = bnd (fA ?x) (store_back V b off) ?s"
        using True e by (simp_all add: BlockCache_modify_def BlockCache_get_mut_def the_cache_def
            find_cache_map_of put_cache_def store_back_def action_defs BLOCK_SZ_def)
      show ?thesis
        unfolding runs
      proof (intro conjI allI impI)
        fix x
        assume "bnd (fB ?x) ?put (entered b t) = Inl x"
        then have "fB ?x (entered b t) = Inl x"
          by (cases "fB ?x (entered b t)") (auto simp: bnd_def thn_def upd_def ret_def)
        then show "\<exists>e'. bnd (fA ?x) (store_back V b off) ?s = Inl e'"
          using simulates_panics [OF sim dirty] by (auto simp: bnd_def)
      next
        fix v t'
        assume "bnd (fB ?x) ?put (entered b t) = Inr (v, t')"
        then obtain x' t2 where fB: "fB ?x (entered b t) = Inr ((v, x'), t2)"
          "t' = set_block b (put_at V off x' (blocks t2 b)) t2"
          by (cases "fB ?x (entered b t)") (auto simp: bnd_def thn_def upd_def ret_def set_block_def)
        have m: "map_of (queue ?s) b = Some ?e" using e(1) by (simp add: set_cache_map_of)
        have l: "locks ?s = locks s'" using e(1,2) by (auto simp: locks_def set_cache_map_of)
        note ret = modify_return [OF V True sim dirty fB(1) m]
        show "P v" "held t' = held (entered b t)"
          "\<exists>s''. bnd (fA ?x) (store_back V b off) ?s = Inr (v, s'') \<and> ?R s'' t' \<and>
            (\<forall>c \<in> locks s' - {b}. map_of (queue s'') c = map_of (queue s') c)"
          using ret e(2) unfolding fB(2) l by (simp_all add: set_cache_map_of)
      qed
    qed
  qed
qed

text \<open>Syncing one block, and all of them.\<close>

lemma sync_one_rel:
  assumes rel: "cache_rel dev_blocks dev_block dv s t" and free: "locks s = {}"
    and m: "map_of (queue s) h = Some e"
  shows "\<exists>s'. sync_one write_block h s = Inr ((), s') \<and> cache_rel dev_blocks dev_block dv s' t \<and>
    queue s' = set_cache h (e\<lparr>guarded := (guarded e)\<lparr>modified := False\<rparr>\<rparr>) (queue s)"
proof -
  have inv: "cache_inv dev_blocks dev_block dv s" using rel by (simp add: cache_rel_def)
  then have ok: "entry_ok (dev_blocks (devices s dv)) (dev_block (devices s dv)) dv h e"
    using m by (simp add: cache_inv_def)
  have ul: "\<not> locked e" using free m by (auto simp: locks_def)
  let ?e = "e\<lparr>guarded := (guarded e)\<lparr>modified := False\<rparr>\<rparr>"
  let ?s = "s\<lparr>queue := set_cache h (e\<lparr>locked := True\<rparr>) (queue s)\<rparr>"
  have "entry_ok (dev_blocks (devices ?s dv)) (dev_block (devices ?s dv)) dv h e" using ok by simp
  from sync_entry [OF this] obtain s1 where s1:
    "BlockCache_sync write_block (guarded e) ?s = Inr ((guarded e)\<lparr>modified := False\<rparr>, s1)"
    "queue s1 = queue ?s" "dev_blocks (devices s1 dv) = dev_blocks (devices ?s dv)"
    "\<forall>j < dev_blocks (devices ?s dv). dev_block (devices s1 dv) j =
      (if j = h then cache (guarded e) else dev_block (devices ?s dv) j)" by (elim exE conjE)
  let ?s' = "s1\<lparr>queue := set_cache h ?e (queue s)\<rparr>"
  have "e\<lparr>guarded := g, locked := False\<rparr> = e\<lparr>guarded := g\<rparr>" for g using ul by (cases e) simp
  note un = this [of "(guarded e)\<lparr>modified := False\<rparr>"]
  have "sync_one write_block h s = Inr ((), ?s')"
    using m ul s1(1,2) by (simp add: un sync_one_def lock_def unlock_def the_cache_def put_cache_def
        find_cache_map_of set_cache_map_of action_defs)
  moreover have "entry_ok (dev_blocks (devices s1 dv)) (dev_block (devices s1 dv)) dv j x"
    if "map_of (set_cache h ?e (queue s)) j = Some x" for j x
  proof (cases "j = h")
    case True
    then have "x = ?e" using that m by (simp add: set_cache_map_of)
    moreover have "h < dev_blocks (devices s dv)" using ok by (simp add: entry_ok_def)
    ultimately show ?thesis using ok s1(3,4) True by (simp add: entry_ok_def)
  next
    case False
    then have "entry_ok (dev_blocks (devices s dv)) (dev_block (devices s dv)) dv j x"
      using that inv by (simp add: set_cache_map_of cache_inv_def)
    moreover from this have "j < dev_blocks (devices s dv)" by (simp add: entry_ok_def)
    ultimately show ?thesis using s1(3,4) False by (simp add: entry_ok_def)
  qed
  then have "cache_inv dev_blocks dev_block dv ?s'" using inv by (simp add: cache_inv_def)
  moreover have "logical dev_block dv ?s' b = logical dev_block dv s b" if "b < dev_blocks (devices s dv)" for b
    using s1(4) that m by (auto simp: logical_def find_cache_map_of set_cache_map_of split: option.split)
  moreover have "locks ?s' = {}" using free m ul by (auto simp: locks_def set_cache_map_of)
  ultimately have "cache_rel dev_blocks dev_block dv ?s' t"
    using rel free s1(3) by (simp add: cache_rel_def)
  with \<open>sync_one write_block h s = Inr ((), ?s')\<close> show ?thesis by (intro exI [of _ ?s']) simp
qed

lemma sync_all_rel:
  assumes rel: "cache_rel dev_blocks dev_block dv s t" and "held t = []"
  shows "wp (block_cache_sync_all write_block)
    (\<lambda>_ s'. cache_rel dev_blocks dev_block dv s' t \<and>
      (\<forall>b < nblocks t. dev_block (devices s' dv) b = blocks t b)) s"
proof -
  let ?I = "\<lambda>ys s'. cache_rel dev_blocks dev_block dv s' t \<and> map fst (queue s') = map fst (queue s) \<and>
    (\<forall>i e. i \<in> set ys \<longrightarrow> map_of (queue s') i = Some e \<longrightarrow> \<not> modified (guarded e))"
  have "wp (for_each (sync_one write_block) (map fst (queue s))) (\<lambda>_. ?I (map fst (queue s))) s"
  proof (rule wp_for_each [where I = ?I])
    fix x ys zs s'
    assume q: "map fst (queue s) = ys @ x # zs" and I: "?I ys s'"
    then have "x \<in> set (map fst (queue s'))" by simp
    then obtain e where m: "map_of (queue s') x = Some e"
      by (metis map_of_eq_None_iff not_None_eq set_map)
    have "locks s' = {}" using I assms(2) by (simp add: cache_rel_def)
    from sync_one_rel [OF conjunct1 [OF I] this m] obtain s'' where s'': "sync_one write_block x s' = Inr ((), s'')"
      "cache_rel dev_blocks dev_block dv s'' t"
      "queue s'' = set_cache x (e\<lparr>guarded := (guarded e)\<lparr>modified := False\<rparr>\<rparr>) (queue s')" by blast
    have "\<not> modified (guarded e')" if "i \<in> set (ys @ [x])" "map_of (queue s'') i = Some e'" for i e'
      using that I unfolding s''(3) by (auto simp: set_cache_map_of split: if_splits)
    then have "?I (ys @ [x]) s''" using I s''(2,3) by simp
    then show "wp (sync_one write_block x) (\<lambda>_. ?I (ys @ [x])) s'"
      unfolding wp_Inr [where m = "sync_one write_block x", OF s''(1)] .
  qed (use rel in simp)
  then show ?thesis
    unfolding block_cache_sync_all_def wp_bnd wp_gets
  proof (rule wp_conseq)
    fix s'
    assume I: "?I (map fst (queue s)) s'"
    have "dev_block (devices s' dv) b = blocks t b" if "b < nblocks t" for b
    proof (cases "map_of (queue s') b")
      case None
      then show ?thesis using I that by (simp add: cache_rel_def logical_def find_cache_map_of)
    next
      case (Some e)
      then have "b \<in> set (map fst (queue s))"
        using I by (metis domI dom_map_of_conv_image_fst set_map)
      then have "\<not> modified (guarded e)" using I Some by blast
      moreover have "entry_ok (dev_blocks (devices s' dv)) (dev_block (devices s' dv)) dv b e"
        using I Some by (simp add: cache_rel_def cache_inv_def)
      ultimately have "cache (guarded e) = dev_block (devices s' dv) b" by (simp add: entry_ok_def)
      then show ?thesis using I that logical_cached [OF Some, of dev_block dv] by (simp add: cache_rel_def)
    qed
    then show "cache_rel dev_blocks dev_block dv s' t \<and> (\<forall>b < nblocks t. dev_block (devices s' dv) b = blocks t b)"
      using I by simp
  qed
qed

lemma fresh_rel:
  "cache_rel dev_blocks dev_block dv \<lparr>queue = BlockCacheManager_new, devices = ds\<rparr>
    \<lparr>blocks = dev_block (ds dv), nblocks = dev_blocks (ds dv), held = []\<rparr>"
  by (simp add: cache_rel_def cache_inv_def locks_def logical_def BlockCacheManager_new_def)

end

section \<open>Scripts of accesses\<close>

text \<open>
  What a client does with blocks: read bytes, write bytes, and work on other blocks while it
  holds one. A script is run through the cache, and on the uncached blocks.
\<close>

datatype script =
    Done
  | ReadAt nat nat nat script
  | WriteAt nat nat "byte list" script
  | Within nat script script

definition Bytes_view :: "nat \<Rightarrow> byte list view" where
  "Bytes_view n = \<lparr>v_size = n, v_get = (\<lambda>bs. bs), v_put = (\<lambda>x bs. x)\<rparr>"

interpretation bytes_view: view_laws "Bytes_view n" "\<lambda>x. length x = n" for n
  by unfold_locales (simp_all add: Bytes_view_def)

primrec run_cached :: "'d reader \<Rightarrow> 'd writer \<Rightarrow> nat \<Rightarrow> script \<Rightarrow> ('d, byte list list) bcm_action" where
  "run_cached rd wr dv Done = ret []"
| "run_cached rd wr dv (ReadAt b off n k) =
     bnd (cache_read rd wr (Bytes_view n) b dv off (\<lambda>x. ret x)) (\<lambda>x.
     bnd (run_cached rd wr dv k) (\<lambda>xs. ret (x # xs)))"
| "run_cached rd wr dv (WriteAt b off bs k) =
     bnd (cache_modify rd wr (Bytes_view (length bs)) b dv off (\<lambda>_. ret ((), bs))) (\<lambda>_.
     run_cached rd wr dv k)"
| "run_cached rd wr dv (Within b body k) =
     bnd (cache_read rd wr (Bytes_view 0) b dv 0 (\<lambda>_. run_cached rd wr dv body)) (\<lambda>xs.
     bnd (run_cached rd wr dv k) (\<lambda>ys. ret (xs @ ys)))"

primrec run_stored :: "script \<Rightarrow> byte list list store_action" where
  "run_stored Done = ret []"
| "run_stored (ReadAt b off n k) =
     bnd (read_as (Bytes_view n) b off (\<lambda>x. ret x)) (\<lambda>x. bnd (run_stored k) (\<lambda>xs. ret (x # xs)))"
| "run_stored (WriteAt b off bs k) =
     bnd (modify_as (Bytes_view (length bs)) b off (\<lambda>_. ret ((), bs))) (\<lambda>_. run_stored k)"
| "run_stored (Within b body k) =
     bnd (read_as (Bytes_view 0) b 0 (\<lambda>_. run_stored body)) (\<lambda>xs. bnd (run_stored k) (\<lambda>ys. ret (xs @ ys)))"

context block_device
begin

lemma script_simulates:
  "simulates (cache_rel dev_blocks dev_block dv) (\<lambda>_. True)
    (run_cached read_block write_block dv p) (run_stored p)"
proof (induction p)
  case Done
  then show ?case by (simp add: simulates_ret)
next
  case (ReadAt b off n k)
  then show ?case
    by (auto intro!: simulates_bnd [where P = "\<lambda>_. True"] simulates_ret
        cache_read_simulates [OF bytes_view.view_laws_axioms])
next
  case (WriteAt b off bs k)
  then show ?case
    by (auto intro!: simulates_bnd [where P = "\<lambda>_. True"] simulates_ret
        cache_modify_simulates [OF bytes_view.view_laws_axioms])
next
  case (Within b body k)
  then show ?case
    by (auto intro!: simulates_bnd [where P = "\<lambda>_. True"] simulates_ret
        cache_read_simulates [OF bytes_view.view_laws_axioms])
qed

lemma script_durable:
  assumes "run_stored p \<lparr>blocks = dev_block (ds dv), nblocks = dev_blocks (ds dv), held = []\<rparr> = Inr (out, t)"
  shows "wp (run_cached read_block write_block dv p)
    (\<lambda>out' s. out' = out \<and>
      wp (block_cache_sync_all write_block) (\<lambda>_ s'. \<forall>b < nblocks t. dev_block (devices s' dv) b = blocks t b) s)
    \<lparr>queue = BlockCacheManager_new, devices = ds\<rparr>"
proof -
  from simulates_run [where R = "cache_rel dev_blocks dev_block dv" and n = "run_stored p", OF script_simulates fresh_rel [of dv ds] assms] obtain s
    where s: "run_cached read_block write_block dv p \<lparr>queue = BlockCacheManager_new, devices = ds\<rparr> = Inr (out, s)"
      "cache_rel dev_blocks dev_block dv s t" "held t = []" by auto
  have "wp (block_cache_sync_all write_block) (\<lambda>_ s'. \<forall>b < nblocks t. dev_block (devices s' dv) b = blocks t b) s"
    by (rule wp_conseq [OF sync_all_rel [OF s(2,3)]]) simp
  then show ?thesis by (simp add: wp_Inr [where m = "run_cached read_block write_block dv p", OF s(1)])
qed

end

section \<open>Properties\<close>

text \<open>
  C6: The cache over a host file is transparent and durable. Any script of reads, writes and
  nested accesses through an initially empty cache panics when the same script on the
  uncached blocks of the file does. Otherwise it returns the same bytes, and
  \<open>block_cache_sync_all\<close> then leaves in the file, block by block, what the script wrote.
\<close>

theorem cache_transparent_durable:
  "case run_stored p \<lparr>blocks = file_block f, nblocks = file_blocks f, held = []\<rparr> of
     Inl _ \<Rightarrow> \<exists>e. run_cached BlockFile_read_block BlockFile_write_block 0 p
        \<lparr>queue = BlockCacheManager_new, devices = (\<lambda>_. f)\<rparr> = Inl e
   | Inr (out, t) \<Rightarrow> wp (run_cached BlockFile_read_block BlockFile_write_block 0 p)
        (\<lambda>out' s. out' = out \<and> wp (block_cache_sync_all BlockFile_write_block)
          (\<lambda>_ s'. \<forall>b < nblocks t. file_block (devices s' 0) b = blocks t b) s)
        \<lparr>queue = BlockCacheManager_new, devices = (\<lambda>_. f)\<rparr>"
  (is "case ?r of Inl _ \<Rightarrow> ?L | Inr (out, t) \<Rightarrow> ?P out t")
proof (cases ?r)
  case (Inl e)
  from simulates_panics [where n = "run_stored p", OF block_file.script_simulates block_file.fresh_rel Inl]
  show ?thesis by (simp add: Inl)
next
  case (Inr r)
  obtain out t where r: "r = (out, t)" by (cases r)
  have "?P out t" by (rule block_file.script_durable) (use Inr r in simp)
  then show ?thesis by (simp add: Inr r)
qed

text \<open>A file of two blocks, and a script that writes to one while it holds the other.\<close>

definition tiny_file :: host_file where
  "tiny_file = \<lparr>file_bytes = replicate 1024 7, file_pos = 0\<rparr>"

definition tiny_script :: script where
  "tiny_script = Within 0 (WriteAt 1 3 [1, 2] (ReadAt 1 2 4 Done)) Done"

definition tiny_blocks :: "nat \<Rightarrow> byte list" where
  "tiny_blocks = (file_block tiny_file)(1 := replicate 3 7 @ [1, 2] @ replicate 507 7)"

lemma tiny_script_run:
  "run_stored tiny_script \<lparr>blocks = file_block tiny_file, nblocks = file_blocks tiny_file, held = []\<rparr> =
    Inr ([[7, 1, 2, 7]], \<lparr>blocks = tiny_blocks, nblocks = 2, held = []\<rparr>)"
proof -
  have f: "file_block tiny_file (Suc 0) = replicate 512 7" "file_blocks tiny_file = 2"
    by (simp_all add: file_block_def file_blocks_def tiny_file_def BLOCK_SZ_def segment_def)
  have w: "put_at (Bytes_view (Suc (Suc 0))) 3 [1, 2] (replicate 512 7) = replicate 3 7 @ 1 # 2 # replicate 507 7"
    by (simp add: put_at_def Bytes_view_def splice_at_def)
  have r: "view_at (Bytes_view 4) 2 (replicate 3 7 @ 1 # 2 # replicate 507 7) = [7, 1, 2, 7]"
    by (simp add: view_at_def Bytes_view_def segment_def numeral_eq_Suc)
  have n: "v_size (Bytes_view n) = n" for n by (simp add: Bytes_view_def)
  show ?thesis
    by (simp add: tiny_script_def read_as_def modify_as_def acquire_def release_def action_defs
        BLOCK_CACHE_SIZE_def BLOCK_SZ_def n f w r tiny_blocks_def)
qed

lemma cache_transparent_durable_witness:
  "wp (run_cached BlockFile_read_block BlockFile_write_block 0 tiny_script)
     (\<lambda>out s. out = [[7, 1, 2, 7]] \<and> wp (block_cache_sync_all BlockFile_write_block)
       (\<lambda>_ s'. file_block (devices s' 0) 1 = replicate 3 7 @ [1, 2] @ replicate 507 7) s)
     \<lparr>queue = BlockCacheManager_new, devices = (\<lambda>_. tiny_file)\<rparr>"
  using cache_transparent_durable [of tiny_script tiny_file]
  unfolding tiny_script_run
  by (auto simp: tiny_blocks_def elim!: wp_conseq)

text \<open>
  The lookup of \<open>get_block_cache\<close> compares block numbers only. With block \<open>b\<close> of one device in
  the cache, an access to block \<open>b\<close> of another device reads the first device's data.
\<close>

lemma cache_ignores_device:
  assumes "find_cache b (queue s) = Some e" and "\<not> locked e" and "off + v_size V \<le> 512"
  shows "wp (cache_read rd wr V b dv off ret) (\<lambda>x _. x = view_at V off (cache (guarded e))) s"
  using assms by (simp add: cache_read_def get_block_cache_def lock_def unlock_def drop_clone_def
      BlockCache_read_def BlockCache_get_ref_def the_cache_def put_cache_def find_cache_map_of
      set_cache_map_of BLOCK_SZ_def wp_simps)

end
