(* ===== verification/Spec2Isabelle.thy ===== *)
theory Spec2Isabelle
  imports User_Lib Block_Cache
begin

text \<open>
  \<^bold>\<open>The rCore tutorial kernel and its file system.\<close> The program is a teaching kernel for RISC-V in
  Rust (\<open>src/os\<close>), the file system it mounts (\<open>src/easy-fs\<close>), the tool that packs programs into a
  disk image (\<open>src/easy-fs-fuse\<close>), and the library and programs of user mode (\<open>src/user\<close>). The memory
  manager owns physical frames, page tables and address spaces. Tasks own an address space, a kernel
  stack, a pid and a table of open files; a FIFO queue holds the ready ones, and one processor runs
  them. A trap saves the registers of the running program in a page of its address space, the
  handler serves the system call, fault or timer interrupt, and the program, or the next one, goes
  on. Open files are inodes of easy-fs with an offset; easy-fs keeps inodes, bitmaps and data in
  blocks that it reaches through a cache over a block device.

  \<^bold>\<open>Conventions.\<close> Operations are actions: functions from a state to an error or a result and a new
  state. A panic, an assertion that fails, an index out of range, and a machine that stops or loops
  are values of the type \<open>panic\<close> (\<open>Prelude\<close>). The crates are built in release mode, where arithmetic
  wraps: addresses, page numbers and registers are 64-bit words; numbers of the file system are naturals
  with \<open>u32\<close> where the code truncates. Loops that the data bounds are structural recursions. The
  loops that nothing bounds, \<open>translated_byte_buffer\<close>, \<open>translated_str\<close>, \<open>read_all\<close>, and the waiting
  and sleeping loops of user mode, are partial functions in the option monad, \<open>None\<close> meaning that
  they do not end; the theorems about them say when they return, and with what. No definition uses fuel.

  \<^bold>\<open>Memory management\<close> (\<open>src/os/src/mm\<close>, \<open>src/os/src/config.rs\<close>, \<open>src/os/src/boards/qemu.rs\<close>).
  \<^item> \<open>Address\<close>: \<open>address.rs\<close>, the four newtypes, their conversions, and ranges of pages.
  \<^item> \<open>Allocator\<close>: contracts of allocators as locales. A safety lemma about any sequence of requests is
    proved once; \<open>Frame_Allocator\<close>, \<open>Pid\<close> and \<open>Bitmap\<close> interpret it.
  \<^item> \<open>Frame_Allocator\<close>: \<open>frame_allocator.rs\<close>, with physical memory as pages of bytes.
  \<^item> \<open>Page_Table\<close>: \<open>page_table.rs\<close>, the walk, \<open>map\<close> and \<open>unmap\<close> as bytes in memory, refined to an update
    of a partial function from pages to entries.
  \<^item> \<open>User_Buffer\<close>: access to user memory, related to the bytes the program sees.
  \<^item> \<open>Memory_Set\<close>, \<open>Address_Space\<close>: \<open>memory_set.rs\<close>, areas and address spaces; loading, copying for
    \<open>fork\<close>, dropping, and that no frame leaks or is shared.

  \<^bold>\<open>File system\<close> (\<open>src/easy-fs\<close>, \<open>src/easy-fs-fuse/src/main.rs\<close>).
  \<^item> \<open>Block_Device\<close>: the trait \<open>BlockDevice\<close> as a locale, interpreted on the file of the packing tool.
  \<^item> \<open>Block_Store\<close>: blocks as the rest of easy-fs sees them, with typed views (the locale \<open>view_laws\<close>,
    interpreted for every on-disk structure) and the list of blocks whose cache is in use.
  \<^item> \<open>Block_Cache\<close>: \<open>block_cache.rs\<close>; scripts of accesses through the cache agree with the same
    scripts on the store, panics included, and \<open>block_cache_sync_all\<close> makes them durable.
  \<^item> \<open>Bitmap\<close>, \<open>Layout\<close>, \<open>Efs\<close>, \<open>Vfs\<close>: the files of the same names.
  \<^item> \<open>Index_Tree\<close>, \<open>Disk_Inode\<close>, \<open>Inode_Ops\<close>: the block trees of an inode as flat lists, and what
    growing, truncating, reading and writing do to them, through three levels of index blocks.
  \<^item> \<open>File_System\<close>, \<open>File_Spec\<close>, \<open>Directory\<close>, \<open>Mkfs\<close>, \<open>Easy_Fs\<close>: the invariant of a device, its
    abstraction to a map from inode numbers to contents, and the refinement of every operation.

  \<^bold>\<open>Kernel\<close> (\<open>src/os/src/fs\<close>, \<open>task\<close>, \<open>trap\<close>, \<open>syscall\<close>, \<open>timer.rs\<close>, \<open>main.rs\<close>).
  \<^item> \<open>Os_Inode\<close>: open files. \<open>Pid\<close>: pids and kernel stacks. \<open>Kernel\<close>: the state of the kernel, trap
    contexts as words in memory, task control blocks, \<open>exec\<close> and \<open>fork\<close>. \<open>Arc\<close>s are indices of a heap.
  \<^item> \<open>Syscall\<close>: the queue, the processor, suspending and exiting, the standard streams, the eleven
    system calls, \<open>trap.S\<close>, the trap handler, one round of \<open>run_tasks\<close>, and \<open>rust_main\<close>. Control that
    \<open>__switch\<close> saves in a task is a value of the type \<open>continuation\<close>. \<open>user_trap\<close> is what the processor
    and \<open>__alltraps\<close> do between a program and the handler: they go where \<open>stvec\<close> and the trap context say.
  \<^item> \<open>Task_Model\<close>: an abstract task manager with five events, and its invariant. \<open>Scheduler\<close>: every
    handler refines it; steps and runs of the kernel, in which programs do what they like to their
    registers and pages. \<open>Processes\<close>: what follows for queues, families, pids and references.
  \<^item> \<open>Traps\<close>: registers survive a preemption, and a system call changes only its result. \<open>File_Calls\<close>:
    \<open>sys_write\<close> and \<open>sys_read\<close> move exactly the bytes of the program and of the file.

  \<^bold>\<open>User mode\<close> (\<open>src/user/src/lib.rs\<close>, \<open>src/user/src/syscall.rs\<close>). \<open>User_Lib\<close>: the stubs and the library,
  with the instruction \<open>ecall\<close> as a parameter; putting the kernel behind it gives the theorem that
  follows a \<open>write\<close> from the library through traps, page table, open file and easy-fs and back.

  \<^bold>\<open>Hypotheses.\<close> Code outside the sources is a parameter: the ELF parser, addresses the linker
  chooses, the answers of the firmware (characters, times), block devices other than the host file.
  Theorems about single calls assume the invariant of the component, enough free frames or blocks
  where the call takes some, and, for user buffers, addresses below \<open>2 ^ 38\<close> (above \<open>2 ^ 39\<close> the
  kernel may loop). Theorems about runs start from the invariant that starting the kernel
  establishes (\<open>rust_main_inv\<close>); a run ends where the kernel panics or stops the machine, and where a
  trap jumps out of the kernel because the program had the handler's address in its trap context
  overwritten through a system call (\<open>WildJump\<close>; the trap vector \<open>stvec\<close> itself is part of the invariant).
  Names of files are UTF-8 of at most 27 bytes without a zero byte (\<open>long_names_panic\<close> says what longer
  ones do), and writes are not empty.

  \<^bold>\<open>Not modelled.\<close> The kernel's own messages and the formatting of output; the heaps of kernel and
  programs; the clearing of the bss section, \<open>entry.asm\<close> and the enabling of the timer interrupt; the
  TLB and \<open>fence\<close> instructions; the kernel stacks, so that \<open>__alltraps\<close> does not load \<open>sp\<close>, and
  \<open>sscratch\<close>, which always holds \<open>TRAP_CONTEXT\<close> in user mode; the registers \<open>ra\<close>, \<open>sp\<close> and \<open>s0\<close> to \<open>s11\<close> across \<open>__switch\<close>, which
  only resume code modelled as a continuation; dropping the last reference to an open file, which frees heap
  memory only; the virtio driver, a wrapper of an external crate; the programs in \<open>src/user/src/bin\<close>, since
  the kernel theorems hold for all programs; build scripts. The operations of easy-fs are
  verified on the block store, and the cache is related to the store by its own theorem.
\<close>

end
